(* ===== verification/Prelude.thy ===== *)
theory Prelude
  imports Main "HOL-Library.Word" "HOL-Library.Monad_Syntax"
begin

text \<open>
  What every component shares: the machine types, error values, checked memory access, the
  run time library's memory functions as this code uses them, and the list and arithmetic
  facts that carry the component proofs.

  Two conventions hold in the whole development.  A value of type \<open>'a option\<close> returned by
  a model of C code is \<open>None\<close> exactly where the C code has no defined result: a read or
  write outside an object, a dereference of NULL, a use after free, a double free, a
  division by zero, or a loop that never ends.  A value of type \<open>errno + 'a\<close> is the usual
  kernel return value: \<open>Inl e\<close> for \<open>-e\<close>, \<open>Inr x\<close> for success.
\<close>

section \<open>Machine types and error values\<close>

type_synonym byte = "8 word"
type_synonym size_t = "64 word"
type_synonym ptr = nat

datatype errno =
    EPERM | EIO | EAGAIN | ENOMEM | EFAULT | EBUSY | ENODEV | EINVAL | ENOTTY
  | ERESTARTSYS | EOPNOTSUPP | ENOIOCTLCMD | EIOCBQUEUED | ESRC nat

text \<open>
  \<open>ESRC n\<close> stands for an error number \<open>n\<close> that the code passes through from a call it
  makes, without looking at it.
\<close>

type_synonym 'a ret = "errno + 'a"

text \<open>The NULL pointer; the addresses of objects are the other natural numbers.\<close>

abbreviation (input) NULL :: ptr where "NULL \<equiv> 0"

abbreviation (input) newline :: byte where "newline \<equiv> 10"
abbreviation (input) nul :: byte where "nul \<equiv> 0"

named_theorems defined_simps \<open>when a checked access is defined, and its value\<close>
named_theorems abs_simps \<open>how an operation acts on the abstract view of a state\<close>
named_theorems inv_intros \<open>operations keep the invariants\<close>

section \<open>C integers\<close>

text \<open>
  \<open>s32\<close>, \<open>u32\<close>, \<open>u64\<close> and \<open>s64\<close> are the conversions of an integer to \<open>int\<close>,
  \<open>unsigned int\<close>, \<open>unsigned long\<close> and \<open>long\<close> of the 64-bit targets this code is built
  for.  The kernel is compiled with wrapping signed arithmetic.
\<close>

definition u32 :: "int \<Rightarrow> int" where
  "u32 x = x mod 2 ^ 32"

definition u64 :: "int \<Rightarrow> int" where
  "u64 x = x mod 2 ^ 64"

definition s32 :: "int \<Rightarrow> int" where
  "s32 x = (x + 2 ^ 31) mod 2 ^ 32 - 2 ^ 31"

definition s64 :: "int \<Rightarrow> int" where
  "s64 x = (x + 2 ^ 63) mod 2 ^ 64 - 2 ^ 63"

lemma u32_id [simp]: "0 \<le> x \<Longrightarrow> x < 2 ^ 32 \<Longrightarrow> u32 x = x"
  by (simp add: u32_def)

lemma u64_id [simp]: "0 \<le> x \<Longrightarrow> x < 2 ^ 64 \<Longrightarrow> u64 x = x"
  by (simp add: u64_def)

lemma s32_id [simp]: "- (2 ^ 31) \<le> x \<Longrightarrow> x < 2 ^ 31 \<Longrightarrow> s32 x = x"
  by (simp add: s32_def)

lemma s64_id [simp]: "- (2 ^ 63) \<le> x \<Longrightarrow> x < 2 ^ 63 \<Longrightarrow> s64 x = x"
  by (simp add: s64_def)

lemma s32_range: "- (2 ^ 31) \<le> s32 x \<and> s32 x < 2 ^ 31"
  by (simp add: s32_def)

text \<open>Division and remainder of C: towards zero, undefined for a zero divisor.\<close>

definition c_div :: "int \<Rightarrow> int \<Rightarrow> int option" where
  "c_div a b = (if b = 0 then None else Some (sgn a * sgn b * (\<bar>a\<bar> div \<bar>b\<bar>)))"

definition c_rem :: "int \<Rightarrow> int \<Rightarrow> int option" where
  "c_rem a b = (if b = 0 then None else Some (sgn a * (\<bar>a\<bar> mod \<bar>b\<bar>)))"

lemma c_div_pos [defined_simps]: "0 \<le> a \<Longrightarrow> 0 < b \<Longrightarrow> c_div a b = Some (a div b)"
  by (cases "a = 0") (auto simp: c_div_def)

lemma c_rem_pos [defined_simps]: "0 \<le> a \<Longrightarrow> 0 < b \<Longrightarrow> c_rem a b = Some (a mod b)"
  by (cases "a = 0") (auto simp: c_rem_def)

section \<open>Checked memory access\<close>

text \<open>
  An object of memory is the list of its cells.  Reading or writing \<open>n\<close> cells from \<open>off\<close>
  is defined when they lie inside the object.
\<close>

definition mem_read :: "'a list \<Rightarrow> nat \<Rightarrow> nat \<Rightarrow> 'a list option" where
  "mem_read m off n = (if off + n \<le> length m then Some (take n (drop off m)) else None)"

definition mem_write :: "'a list \<Rightarrow> nat \<Rightarrow> 'a list \<Rightarrow> 'a list option" where
  "mem_write m off src =
     (if off + length src \<le> length m
      then Some (take off m @ src @ drop (off + length src) m) else None)"

definition mem_at :: "'a list \<Rightarrow> nat \<Rightarrow> 'a option" where
  "mem_at m i = (if i < length m then Some (m ! i) else None)"

lemma mem_read_Some [defined_simps]:
  "off + n \<le> length m \<Longrightarrow> mem_read m off n = Some (take n (drop off m))"
  by (simp add: mem_read_def)

lemma mem_write_Some [defined_simps]:
  "off + length src \<le> length m \<Longrightarrow>
     mem_write m off src = Some (take off m @ src @ drop (off + length src) m)"
  by (simp add: mem_write_def)

lemma mem_at_Some [defined_simps]: "i < length m \<Longrightarrow> mem_at m i = Some (m ! i)"
  by (simp add: mem_at_def)

lemma mem_write_length: "mem_write m off src = Some m' \<Longrightarrow> length m' = length m"
  by (auto simp: mem_write_def split: if_splits)

lemma mem_write_nth:
  "mem_write m off src = Some m' \<Longrightarrow> i < length m \<Longrightarrow>
     m' ! i = (if off \<le> i \<and> i < off + length src then src ! (i - off) else m ! i)"
  by (auto simp: mem_write_def nth_append min_def split: if_splits)

lemma mem_read_nth:
  "mem_read m off n = Some xs \<Longrightarrow> length xs = n \<and> (\<forall>i < n. xs ! i = m ! (off + i))"
  by (auto simp: mem_read_def split: if_splits)

lemma mem_read_write_same:
  "mem_write m off src = Some m' \<Longrightarrow> mem_read m' off (length src) = Some src"
  by (auto simp: mem_write_def mem_read_def split: if_splits)

lemma mem_read_write_other:
  "mem_write m off src = Some m' \<Longrightarrow> off' + n \<le> off \<or> off + length src \<le> off' \<Longrightarrow>
     mem_read m' off' n = mem_read m off' n"
  by (auto simp: mem_write_length mem_read_def mem_write_nth intro!: nth_equalityI
      dest: mem_write_length)

section \<open>The allocator\<close>

text \<open>
  The heap maps the address of each allocated block to its bytes.  What an allocation does is
  its caller's argument: the address it returned, NULL for a failure, and the bytes the new
  memory happens to hold.  Its documented contract, that the address of a successful
  allocation is not one in use, is the hypothesis \<open>fresh_alloc\<close>.
\<close>

type_synonym heap = "ptr \<rightharpoonup> byte list"

record alloc =
  addr :: ptr
  junk :: "nat \<Rightarrow> byte"

definition fresh_alloc :: "heap \<Rightarrow> alloc \<Rightarrow> bool" where
  "fresh_alloc h a \<longleftrightarrow> addr a \<noteq> NULL \<and> h (addr a) = None"

text \<open>
  The same for a resized block: \<open>p\<close> is the old address, NULL when a first block is asked for.  The
  block is moved to an address that is not in use, or stays where it is.
\<close>

definition resized_alloc :: "heap \<Rightarrow> ptr \<Rightarrow> alloc \<Rightarrow> bool" where
  "resized_alloc h p a \<longleftrightarrow> addr a \<noteq> NULL \<and> (h (addr a) = None \<or> p \<noteq> NULL \<and> addr a = p)"

lemma fresh_resized: "fresh_alloc h a \<Longrightarrow> resized_alloc h p a"
  by (simp add: fresh_alloc_def resized_alloc_def)

definition kmalloc :: "heap \<Rightarrow> alloc \<Rightarrow> nat \<Rightarrow> ptr \<times> heap" where
  "kmalloc h a n =
     (if addr a = NULL then (NULL, h)
      else (addr a, h(addr a \<mapsto> map (junk a) [0..<n])))"

definition krealloc :: "heap \<Rightarrow> alloc \<Rightarrow> ptr \<Rightarrow> nat \<Rightarrow> (ptr \<times> heap) option" where
  "krealloc h a p n =
     (if p = NULL then Some (kmalloc h a n)
      else case h p of
        None \<Rightarrow> None
      | Some old \<Rightarrow>
          if addr a = NULL then Some (NULL, h)
          else Some (addr a, (h(p := None))
                 (addr a \<mapsto> take n old @ map (junk a) [length old..<n])))"

definition kfree :: "heap \<Rightarrow> ptr \<Rightarrow> heap option" where
  "kfree h p =
     (if p = NULL then Some h else if h p = None then None else Some (h(p := None)))"

lemma kfree_NULL [simp]: "kfree h NULL = Some h"
  by (simp add: kfree_def)

lemma kfree_Some [defined_simps]: "h p = Some b \<Longrightarrow> p \<noteq> NULL \<Longrightarrow> kfree h p = Some (h(p := None))"
  by (simp add: kfree_def)

text \<open>
  Freeing every pointer of a list in turn: defined when the pointers are distinct and
  allocated (NULL apart), and then those blocks, and no other, are gone.
\<close>

fun kfree_list :: "heap \<Rightarrow> ptr list \<Rightarrow> heap option" where
  "kfree_list h [] = Some h"
| "kfree_list h (p # ps) = kfree h p \<bind> (\<lambda>h'. kfree_list h' ps)"

lemma kfree_list_Some:
  assumes "distinct (filter (\<lambda>p. p \<noteq> NULL) ps)" "\<forall>p \<in> set ps. p \<noteq> NULL \<longrightarrow> h p \<noteq> None"
  shows "kfree_list h ps = Some (h |` (- (set ps - {NULL})))"
  using assms
proof (induction ps arbitrary: h)
  case Nil
  then show ?case by (simp add: restrict_map_def)
next
  case (Cons p ps)
  show ?case
  proof (cases "p = NULL")
    case True
    with Cons show ?thesis by simp
  next
    case False
    have "kfree_list (h(p := None)) ps = Some ((h(p := None)) |` (- (set ps - {NULL})))"
      using Cons.prems False by (intro Cons.IH) auto
    moreover have "(h(p := None)) |` (- (set ps - {NULL})) = h |` (- (set (p # ps) - {NULL}))"
      using False by (auto simp: restrict_map_def fun_eq_iff)
    ultimately show ?thesis
      using Cons.prems False by (auto simp: kfree_def)
  qed
qed

section \<open>Copies between user and kernel space\<close>

text \<open>
  \<open>copy_from_user\<close> reports how many bytes it could not copy and fills their place with
  zeros; \<open>user_bytes\<close> is what arrives for a buffer \<open>ub\<close> when \<open>nc\<close> bytes fail.
\<close>

definition user_bytes :: "byte list \<Rightarrow> nat \<Rightarrow> byte list" where
  "user_bytes ub nc = take (length ub - nc) ub @ replicate (length ub - (length ub - nc)) 0"

lemma length_user_bytes [simp]: "length (user_bytes ub nc) = length ub"
  by (simp add: user_bytes_def)

lemma user_bytes_0 [simp]: "user_bytes ub 0 = ub"
  by (simp add: user_bytes_def)

lemma take_user_bytes: "nc \<le> length ub \<Longrightarrow> take (length ub - nc) (user_bytes ub nc) = take (length ub - nc) ub"
  by (simp add: user_bytes_def)

end
