(* ===== verification/Circular_Buffer.thy ===== *)
theory Circular_Buffer
  imports Prelude
begin

text \<open>
  The circular buffer of write commands of \<open>aesd-circular-buffer.c\<close>: its entries, the search
  for the entry that holds a character position, the insertion that overwrites the oldest
  entry, initialisation and release.  The abstract view of a buffer is the list of its live
  entries, oldest first; the search is then a search in the concatenated contents, and the
  insertion appends to a list bounded to ten elements.
\<close>

section \<open>State\<close>

abbreviation (input) max_ops :: nat where "max_ops \<equiv> 10"

record buffer_entry =
  buffptr :: ptr
  esize :: size_t

record circular_buffer =
  entries :: "buffer_entry list"
  in_offs :: nat
  out_offs :: nat
  full :: bool

definition zero_entry :: buffer_entry where
  "zero_entry = \<lparr>buffptr = NULL, esize = 0\<rparr>"

text \<open>A buffer pointer of the C code is an optional buffer: \<open>None\<close> is NULL.\<close>

section \<open>Operations\<close>

text \<open>
  The do-while loop of the search.  \<open>pos\<close> is \<open>entry_position\<close>, \<open>sz\<close> is
  \<open>size_of_buffptr\<close>, an unsigned 64-bit sum, and \<open>tot\<close> is \<open>total_entry\<close>, a signed 32-bit
  variable that the subtraction extends with its sign.
\<close>

partial_function (option) find_loop ::
  "circular_buffer \<Rightarrow> size_t \<Rightarrow> nat \<Rightarrow> size_t \<Rightarrow> 32 word \<Rightarrow> (nat \<times> size_t) option option" where
  "find_loop b char_offset pos sz tot =
     (if sz \<le> char_offset then
        let pos' = (pos + 1) mod max_ops in
        mem_at (entries b) pos' \<bind> (\<lambda>e.
          if pos' = in_offs b then Some None
          else find_loop b char_offset pos' (sz + esize e) (ucast sz))
      else Some (Some (pos, char_offset - scast tot)))"

definition aesd_circular_buffer_find_entry_offset_for_fpos ::
  "circular_buffer option \<Rightarrow> size_t \<Rightarrow> (nat \<times> size_t) option option" where
  "aesd_circular_buffer_find_entry_offset_for_fpos buffer char_offset =
     buffer \<bind> (\<lambda>b.
       mem_at (entries b) (out_offs b) \<bind> (\<lambda>e.
         find_loop b char_offset (out_offs b) (esize e) 0))"

definition aesd_circular_buffer_add_entry ::
  "circular_buffer option \<Rightarrow> buffer_entry option \<Rightarrow> (ptr \<times> circular_buffer option) option" where
  "aesd_circular_buffer_add_entry buffer add_entry =
     (case (buffer, add_entry) of
        (Some b, Some e) \<Rightarrow>
          do {
            old \<leftarrow> mem_at (entries b) (in_offs b);
            let return_ptr = (if full b then buffptr old else NULL);
            let b = b\<lparr>entries := (entries b)[in_offs b := e],
                      in_offs := (in_offs b + 1) mod max_ops\<rparr>;
            let b = (if full b then b\<lparr>out_offs := (out_offs b + 1) mod max_ops\<rparr> else b);
            let b = b\<lparr>full := (in_offs b = out_offs b)\<rparr>;
            Some (return_ptr, Some b)
          }
      | _ \<Rightarrow> Some (NULL, buffer))"

definition aesd_circular_buffer_init :: circular_buffer where
  "aesd_circular_buffer_init =
     \<lparr>entries = replicate max_ops zero_entry, in_offs = 0, out_offs = 0, full = False\<rparr>"

definition aesd_cicular_buffer_free :: "heap \<Rightarrow> circular_buffer \<Rightarrow> heap option" where
  "aesd_cicular_buffer_free h b = kfree_list h (map buffptr (take max_ops (entries b)))"

section \<open>The abstract view\<close>

definition live_count :: "circular_buffer \<Rightarrow> nat" where
  "live_count b = (if full b then max_ops else (in_offs b + max_ops - out_offs b) mod max_ops)"

definition live :: "circular_buffer \<Rightarrow> buffer_entry list" where
  "live b = map (\<lambda>k. entries b ! ((out_offs b + k) mod max_ops)) [0..<live_count b]"

text \<open>
  A buffer that is not full has never wrapped, and its unused slots still hold the zeros of
  the initialisation; the search relies on that when the buffer is empty.
\<close>

definition cb_wf :: "circular_buffer \<Rightarrow> bool" where
  "cb_wf b \<longleftrightarrow> length (entries b) = max_ops \<and> in_offs b < max_ops \<and> out_offs b < max_ops \<and>
     (if full b then in_offs b = out_offs b
      else out_offs b = 0 \<and> (\<forall>i < max_ops. in_offs b \<le> i \<longrightarrow> entries b ! i = zero_entry))"

text \<open>Where position \<open>n\<close> falls in a list of pieces of the given sizes.\<close>

fun locate :: "nat list \<Rightarrow> nat \<Rightarrow> (nat \<times> nat) option" where
  "locate [] n = None"
| "locate (s # ss) n =
     (if n < s then Some (0, n) else map_option (\<lambda>(k, r). (Suc k, r)) (locate ss (n - s)))"

section \<open>The search is a search in the concatenated entries\<close>

lemma ucast_of_nat64: "(ucast (of_nat n :: 64 word) :: 32 word) = of_nat n"
  by (intro bit_word_eqI) (auto simp: bit_simps)

lemma scast_small: "s < 2 ^ 31 \<Longrightarrow> (scast (of_nat s :: 32 word) :: 64 word) = of_nat s"
  by (simp add: signed_of_nat signed_take_bit_int_eq_self)

lemma minus_of_nat64: "s \<le> unat (w :: 64 word) \<Longrightarrow> w - of_nat s = of_nat (unat w - s)"
  by (simp add: of_nat_diff)

lemma le_of_nat64: "s < 2 ^ 64 \<Longrightarrow> of_nat s \<le> (w :: 64 word) \<longleftrightarrow> s \<le> unat w"
  by (simp add: word_le_nat_alt unat_of_nat)

lemma sum_take_Suc: "j < length xs \<Longrightarrow> sum_list (take (Suc j) xs) = sum_list (take j xs) + xs ! j"
  for xs :: "nat list"
  by (simp add: take_Suc_conv_app_nth)

lemma sum_take_le: "sum_list (take j xs) \<le> sum_list xs" for xs :: "nat list"
  by (metis append_take_drop_id le_add1 sum_list_append)

lemma ring_pos_neq:
  "0 < k \<Longrightarrow> k < c \<Longrightarrow> c \<le> max_ops \<Longrightarrow> (p + k) mod max_ops \<noteq> (p + c) mod max_ops"
  using mod_eq_dvd_iff_nat [of "p + k" "p + c" max_ops] nat_dvd_not_less [of "c - k" max_ops]
  by auto

text \<open>
  A ring of \<open>c\<close> slots from \<open>out_offs\<close> on, ended by \<open>in_offs\<close>: the live entries when there
  are any, and all ten slots when there are none, because the loop runs its body before it
  compares positions.
\<close>

abbreviation ring_at :: "circular_buffer \<Rightarrow> nat \<Rightarrow> buffer_entry" where
  "ring_at b k \<equiv> entries b ! ((out_offs b + k) mod max_ops)"

definition ring_sizes :: "circular_buffer \<Rightarrow> nat \<Rightarrow> nat list" where
  "ring_sizes b c = map (\<lambda>k. unat (esize (ring_at b k))) [0..<c]"

definition ring_of :: "circular_buffer \<Rightarrow> nat \<Rightarrow> bool" where
  "ring_of b c \<longleftrightarrow> length (entries b) = max_ops \<and> c \<le> max_ops \<and>
     in_offs b = (out_offs b + c) mod max_ops \<and> sum_list (ring_sizes b c) < 2 ^ 31"

text \<open>The arguments of the loop when it looks at slot \<open>j\<close> of the ring.\<close>

abbreviation find_at :: "circular_buffer \<Rightarrow> nat \<Rightarrow> size_t \<Rightarrow> nat \<Rightarrow> (nat \<times> size_t) option option" where
  "find_at b c off j \<equiv> find_loop b off ((out_offs b + j) mod max_ops)
     (of_nat (sum_list (take (Suc j) (ring_sizes b c))))
     (of_nat (sum_list (take j (ring_sizes b c))))"

lemma length_ring_sizes [simp]: "length (ring_sizes b c) = c"
  by (simp add: ring_sizes_def)

lemma ring_sum_small: "ring_of b c \<Longrightarrow> sum_list (take j (ring_sizes b c)) < 2 ^ 31"
  using sum_take_le [of j "ring_sizes b c"] by (simp add: ring_of_def)

lemma ring_le: "ring_of b c \<Longrightarrow>
    of_nat (sum_list (take j (ring_sizes b c))) \<le> off \<longleftrightarrow> sum_list (take j (ring_sizes b c)) \<le> unat off" for off :: size_t
  using ring_sum_small [of b c j] by (intro le_of_nat64) simp

lemma find_at_hit:
  assumes "ring_of b c" "sum_list (take j (ring_sizes b c)) \<le> unat off"
    "unat off < sum_list (take (Suc j) (ring_sizes b c))"
  shows "find_at b c off j =
    Some (Some ((out_offs b + j) mod max_ops, of_nat (unat off - sum_list (take j (ring_sizes b c)))))"
proof -
  have "find_at b c off j = Some (Some ((out_offs b + j) mod max_ops,
      off - scast (of_nat (sum_list (take j (ring_sizes b c))) :: 32 word)))"
    using assms(3) by (subst find_loop.simps) (simp only: ring_le [OF assms(1)] not_le [symmetric] if_False)
  with assms(2) show ?thesis by (simp only: scast_small [OF ring_sum_small [OF assms(1)]] minus_of_nat64)
qed

lemma find_at_next:
  assumes "ring_of b c" "j < c" "sum_list (take (Suc j) (ring_sizes b c)) \<le> unat off"
  shows "find_at b c off j = (if Suc j = c then Some None else find_at b c off (Suc j))"
proof -
  let ?sum = "\<lambda>j. of_nat (sum_list (take j (ring_sizes b c)))"
  have pos': "((out_offs b + j) mod max_ops + 1) mod max_ops = (out_offs b + Suc j) mod max_ops"
    by (simp add: mod_Suc_eq)
  have at: "mem_at (entries b) ((out_offs b + Suc j) mod max_ops) = Some (ring_at b (Suc j))"
    using assms(1) by (simp add: ring_of_def mem_at_def)
  have eq: "(out_offs b + Suc j) mod max_ops = in_offs b \<longleftrightarrow> Suc j = c"
  proof (cases "Suc j = c")
    case False
    with assms(2) have "Suc j < c" by linarith
    with assms(1) ring_pos_neq [of "Suc j" c "out_offs b"] show ?thesis by (simp add: ring_of_def)
  qed (use assms(1) in \<open>simp add: ring_of_def\<close>)
  have "find_at b c off j = (if Suc j = c then Some None
      else find_loop b off ((out_offs b + Suc j) mod max_ops) (?sum (Suc j) + esize (ring_at b (Suc j))) (?sum (Suc j)))"
    using assms(3)
    by (subst find_loop.simps) (simp only: ring_le [OF assms(1)] pos' at eq Let_def bind.bind_lunit if_True ucast_of_nat64)
  also have "\<dots> = (if Suc j = c then Some None else find_at b c off (Suc j))"
    using assms(2) by (simp add: sum_take_Suc [of "Suc j"]) (simp add: ring_sizes_def)
  finally show ?thesis .
qed

lemma find_at_locate:
  assumes "ring_of b c" "j < c" "sum_list (take j (ring_sizes b c)) \<le> unat off"
  shows "find_at b c off j =
    Some (map_option (\<lambda>(k, r). ((out_offs b + j + k) mod max_ops, of_nat r))
      (locate (drop j (ring_sizes b c)) (unat off - sum_list (take j (ring_sizes b c)))))"
  using assms(2,3)
proof (induction "c - j" arbitrary: j)
  case 0
  then show ?case by simp
next
  case (Suc d)
  let ?ss = "ring_sizes b c"
  have dr: "drop j ?ss = ?ss ! j # drop (Suc j) ?ss"
    using Suc.prems by (simp add: Cons_nth_drop_Suc)
  have sum: "sum_list (take (Suc j) ?ss) = sum_list (take j ?ss) + ?ss ! j"
    using Suc.prems by (simp add: sum_take_Suc)
  show ?case
  proof (cases "sum_list (take (Suc j) ?ss) \<le> unat off")
    case False
    with Suc.prems find_at_hit [OF assms(1), of j off] sum show ?thesis by (simp add: dr)
  next
    case True
    then have loc: "locate (drop j ?ss) (unat off - sum_list (take j ?ss)) =
        map_option (\<lambda>(k, r). (Suc k, r)) (locate (drop (Suc j) ?ss) (unat off - sum_list (take (Suc j) ?ss)))"
      using Suc.prems by (simp add: dr sum diff_diff_left)
    show ?thesis
    proof (cases "Suc j = c")
      case last: True
      with True Suc.prems find_at_next [OF assms(1), of j off] show ?thesis by (simp add: loc)
    next
      case False
      with Suc.prems Suc.hyps(2) True have "find_at b c off (Suc j) = Some (map_option (\<lambda>(k, r). ((out_offs b + Suc j + k) mod max_ops, of_nat r))
          (locate (drop (Suc j) ?ss) (unat off - sum_list (take (Suc j) ?ss))))"
        by (intro Suc.hyps(1)) auto
      with False True Suc.prems find_at_next [OF assms(1), of j off] show ?thesis
        by (simp add: loc option.map_comp comp_def case_prod_unfold)
    qed
  qed
qed

text \<open>An empty buffer is searched through its ten zero slots.\<close>

definition ring_count :: "circular_buffer \<Rightarrow> nat" where
  "ring_count b = (if live_count b = 0 then max_ops else live_count b)"

lemma live_count_le: "live_count b \<le> max_ops"
  by (simp add: live_count_def less_imp_le)

lemma wf_empty:
  assumes "cb_wf b" "live_count b = 0"
  shows "entries b = replicate max_ops zero_entry" "in_offs b = 0" "out_offs b = 0" "\<not> full b"
proof -
  from assms(2) show "\<not> full b" by (auto simp: live_count_def)
  with assms show "in_offs b = 0" "out_offs b = 0"
    by (auto simp: cb_wf_def live_count_def mod_eq_0_iff_dvd dest: nat_dvd_not_less)
  with assms \<open>\<not> full b\<close> show "entries b = replicate max_ops zero_entry"
    by (auto simp: cb_wf_def intro: nth_equalityI)
qed
lemma ring_sizes_live: "0 < live_count b \<Longrightarrow> ring_sizes b (ring_count b) = map (unat \<circ> esize) (live b)"
  by (simp add: ring_sizes_def ring_count_def live_def)

lemma ring_sizes_empty: "cb_wf b \<Longrightarrow> live_count b = 0 \<Longrightarrow> ring_sizes b (ring_count b) = replicate max_ops 0"
  using wf_empty [of b]
  by (auto simp: ring_sizes_def ring_count_def zero_entry_def intro!: nth_equalityI)

lemma ring_of_wf:
  assumes "cb_wf b" "sum_list (map (unat \<circ> esize) (live b)) < 2 ^ 31"
  shows "ring_of b (ring_count b)" "0 < ring_count b"
proof -
  show "0 < ring_count b" by (simp add: ring_count_def)
  show "ring_of b (ring_count b)"
  proof (cases "live_count b = 0")
    case True
    with assms(1) wf_empty [OF assms(1)] show ?thesis
      by (simp add: ring_of_def ring_sizes_empty) (simp add: ring_count_def sum_list_replicate)
  next
    case False
    have "in_offs b = (out_offs b + live_count b) mod max_ops"
      using assms(1) by (auto simp: cb_wf_def live_count_def)
    with False assms live_count_le [of b] show ?thesis
      by (simp add: ring_of_def ring_sizes_live) (simp add: ring_count_def cb_wf_def)
  qed
qed

lemma locate_zeros: "locate (replicate n 0) m = None"
  by (induction n) auto

text \<open>
  The search never reads outside the entries, always returns, and finds exactly the live entry
  and the offset in it where the position falls in the concatenated contents.
\<close>

lemma find_entry_spec:
  assumes "cb_wf b" "sum_list (map (unat \<circ> esize) (live b)) < 2 ^ 31"
  shows "aesd_circular_buffer_find_entry_offset_for_fpos (Some b) off =
    Some (map_option (\<lambda>(k, r). ((out_offs b + k) mod max_ops, of_nat r))
      (locate (map (unat \<circ> esize) (live b)) (unat off)))"
proof -
  let ?c = "ring_count b"
  have r: "ring_of b ?c" and pos: "0 < ?c" using ring_of_wf [OF assms] by auto
  have at: "mem_at (entries b) (out_offs b) = Some (entries b ! out_offs b)"
    using assms(1) by (auto simp: cb_wf_def mem_at_def)
  have sz: "esize (entries b ! out_offs b) = of_nat (sum_list (take (Suc 0) (ring_sizes b ?c)))"
    using pos assms(1) by (simp add: take_Suc_conv_app_nth) (simp add: ring_sizes_def cb_wf_def)
  have "aesd_circular_buffer_find_entry_offset_for_fpos (Some b) off = find_at b ?c off 0"
    using assms(1)
    by (simp add: aesd_circular_buffer_find_entry_offset_for_fpos_def at sz cb_wf_def)
  also have "\<dots> = Some (map_option (\<lambda>(k, r). ((out_offs b + k) mod max_ops, of_nat r))
      (locate (ring_sizes b ?c) (unat off)))"
    using find_at_locate [OF r pos, of off] by simp
  also have "locate (ring_sizes b ?c) (unat off) = locate (map (unat \<circ> esize) (live b)) (unat off)"
    using assms(1)
    by (cases "live_count b = 0") (auto simp: ring_sizes_empty ring_sizes_live locate_zeros live_def)
  finally show ?thesis .
qed

section \<open>Insertion keeps the ten most recent entries\<close>

definition keep_last :: "nat \<Rightarrow> 'a list \<Rightarrow> 'a list" where
  "keep_last n xs = drop (length xs - n) xs"

lemma keep_last_id [simp]: "length xs \<le> n \<Longrightarrow> keep_last n xs = xs"
  by (simp add: keep_last_def)

lemma length_keep_last [simp]: "length (keep_last n xs) = min n (length xs)"
  by (simp add: keep_last_def)

lemma keep_last_snoc_full: "length xs = n \<Longrightarrow> 0 < n \<Longrightarrow> keep_last n (xs @ [x]) = tl xs @ [x]"
  by (cases xs) (auto simp: keep_last_def)

lemma keep_last_append: "keep_last n (keep_last n xs @ ys) = keep_last n (xs @ ys)"
  by (cases "length xs \<le> n") (auto simp: keep_last_def add.commute)

lemma keep_last_map: "keep_last n (map f xs) = map f (keep_last n xs)"
  by (simp add: keep_last_def drop_map)

lemma length_live [simp]: "length (live b) = live_count b"
  by (simp add: live_def)

lemma add_entry_full:
  assumes "cb_wf b" "full b"
  shows "aesd_circular_buffer_add_entry (Some b) (Some e) =
     Some (buffptr (hd (live b)),
       Some \<lparr>entries = (entries b)[out_offs b := e], in_offs = (out_offs b + 1) mod max_ops,
             out_offs = (out_offs b + 1) mod max_ops, full = True\<rparr>)"
  using assms
  by (simp add: aesd_circular_buffer_add_entry_def cb_wf_def mem_at_def live_def live_count_def
      hd_map upt_conv_Cons)

lemma add_entry_not_full:
  assumes "cb_wf b" "\<not> full b"
  shows "aesd_circular_buffer_add_entry (Some b) (Some e) =
     Some (NULL,
       Some \<lparr>entries = (entries b)[in_offs b := e], in_offs = (in_offs b + 1) mod max_ops,
             out_offs = 0, full = (in_offs b = 9)\<rparr>)"
  using assms
  by (auto simp: aesd_circular_buffer_add_entry_def cb_wf_def mem_at_def mod_Suc)

lemma live_from_0:
  "length (entries b) = max_ops \<Longrightarrow> out_offs b = 0 \<Longrightarrow> live b = take (live_count b) (entries b)"
  using live_count_le [of b] by (auto simp: live_def intro!: nth_equalityI)

lemma live_not_full: "cb_wf b \<Longrightarrow> \<not> full b \<Longrightarrow> live b = take (in_offs b) (entries b)"
  by (simp add: live_from_0 cb_wf_def) (simp add: live_count_def)

lemma live_full_push:
  assumes "length es = max_ops" "p < max_ops"
  shows "map (\<lambda>k. es[p := e] ! (((p + 1) mod max_ops + k) mod max_ops)) [0..<max_ops] =
     tl (map (\<lambda>k. es ! ((p + k) mod max_ops)) [0..<max_ops]) @ [e]"
proof (rule nth_equalityI)
  fix i
  assume "i < length (map (\<lambda>k. es[p := e] ! (((p + 1) mod max_ops + k) mod max_ops)) [0..<max_ops])"
  then have i: "i < max_ops" by simp
  show "map (\<lambda>k. es[p := e] ! (((p + 1) mod max_ops + k) mod max_ops)) [0..<max_ops] ! i =
      (tl (map (\<lambda>k. es ! ((p + k) mod max_ops)) [0..<max_ops]) @ [e]) ! i"
  proof (cases "i = 9")
    case True
    with assms show ?thesis by (simp add: nth_append mod_add_left_eq)
  next
    case False
    with i have "(p + Suc i) mod max_ops \<noteq> p mod max_ops"
      using ring_pos_neq [of "Suc i" max_ops p] by auto
    with i False assms show ?thesis
      by (simp add: nth_append nth_tl mod_add_left_eq)
  qed
qed simp

lemma add_entry_spec:
  assumes "cb_wf b"
  shows "\<exists>b'. aesd_circular_buffer_add_entry (Some b) (Some e) =
      Some (if full b then buffptr (hd (live b)) else NULL, Some b') \<and>
    cb_wf b' \<and> live b' = keep_last max_ops (live b @ [e])"
proof (cases "full b")
  case True
  with assms have "live_count b = max_ops" by (simp add: live_count_def)
  with assms True live_full_push [of "entries b" "out_offs b" e] show ?thesis
    by (simp add: add_entry_full keep_last_snoc_full cb_wf_def)
      (simp add: live_def live_count_def)
next
  case False
  let ?b' = "\<lparr>entries = (entries b)[in_offs b := e], in_offs = (in_offs b + 1) mod max_ops,
             out_offs = 0, full = (in_offs b = 9)\<rparr>"
  from assms False have wf: "length (entries b) = max_ops" "in_offs b < max_ops"
      "\<forall>i < max_ops. in_offs b \<le> i \<longrightarrow> entries b ! i = zero_entry"
    by (auto simp: cb_wf_def)
  from wf have "live_count ?b' = Suc (in_offs b)"
    by (simp add: live_count_def) presburger
  with wf have "live ?b' = take (in_offs b) (entries b) @ [e]"
    by (simp add: live_from_0 take_Suc_conv_app_nth)
  moreover from wf have "cb_wf ?b'"
    by (cases "in_offs b = 9") (auto simp: cb_wf_def)
  ultimately show ?thesis
    using assms False wf by (simp add: add_entry_not_full live_not_full)
qed

text \<open>
  A history of bounded length, as its client sees it: what is in it after an insertion.  The
  client's law is about a whole run of insertions.
\<close>

locale bounded_history =
  fixes valid :: "'s \<Rightarrow> bool"
    and view :: "'s \<Rightarrow> 'e list"
    and push :: "'s \<Rightarrow> 'e \<Rightarrow> 's"
    and bound :: nat
  assumes push_valid: "valid s \<Longrightarrow> valid (push s e)"
    and push_view: "valid s \<Longrightarrow> view (push s e) = keep_last bound (view s @ [e])"
begin

lemma pushes_valid: "valid s \<Longrightarrow> valid (foldl push s es)"
  by (induction es arbitrary: s) (auto intro: push_valid)

lemma pushes_view: "valid s \<Longrightarrow> length (view s) \<le> bound \<Longrightarrow>
    view (foldl push s es) = keep_last bound (view s @ es)"
proof (induction es arbitrary: s)
  case Nil
  then show ?case by simp
next
  case (Cons e es)
  then have "view (foldl push (push s e) es) = keep_last bound (view (push s e) @ es)"
    by (intro Cons.IH) (auto simp: push_valid push_view)
  with Cons.prems show ?case by (simp add: push_view keep_last_append)
qed

end

definition cb_push :: "circular_buffer \<Rightarrow> buffer_entry \<Rightarrow> circular_buffer" where
  "cb_push b e =
     (case aesd_circular_buffer_add_entry (Some b) (Some e) of
        Some (_, Some b') \<Rightarrow> b' | _ \<Rightarrow> b)"

interpretation cb: bounded_history cb_wf live cb_push max_ops
proof unfold_locales
  fix b e
  assume "cb_wf b"
  from add_entry_spec [OF this, of e]
  show "cb_wf (cb_push b e)" and "live (cb_push b e) = keep_last max_ops (live b @ [e])"
    by (auto simp: cb_push_def)
qed

lemma cb_wf_init: "cb_wf aesd_circular_buffer_init" "live aesd_circular_buffer_init = []"
  by (simp_all add: cb_wf_def aesd_circular_buffer_init_def live_def live_count_def)

section \<open>Positions in a concatenation\<close>

lemma locate_None: "locate ss n = None \<longleftrightarrow> sum_list ss \<le> n"
  by (induction ss n rule: locate.induct) auto

lemma locate_Some: "locate ss n = Some (k, r) \<Longrightarrow>
   k < length ss \<and> r < ss ! k \<and> n = sum_list (take k ss) + r"
  by (induction ss n arbitrary: k r rule: locate.induct) (fastforce split: if_splits)+

lemma locate_concat: "locate (map length xs) n = Some (k, r) \<Longrightarrow>
  drop n (concat xs) = drop r (xs ! k) @ concat (drop (Suc k) xs)"
  by (induction xs arbitrary: n k r) (fastforce split: if_splits)+

section \<open>Properties\<close>

text \<open>
  C5: In a well-formed buffer holding less than 2 GiB the search always returns, reads inside
  the entries only, answers NULL exactly for the positions past the end of the concatenated
  live entries, and otherwise returns the entry holding the position and the offset in it.
\<close>

lemma find_entry_correct:
  assumes "cb_wf b" "sum_list (map (unat \<circ> esize) (live b)) < 2 ^ 31"
  shows "\<exists>res. aesd_circular_buffer_find_entry_offset_for_fpos (Some b) off = Some res \<and>
    (res = None \<longleftrightarrow> sum_list (map (unat \<circ> esize) (live b)) \<le> unat off) \<and>
    (\<forall>i r. res = Some (i, r) \<longrightarrow>
      (\<exists>k < live_count b. i < length (entries b) \<and> entries b ! i = live b ! k \<and> r < esize (live b ! k) \<and>
        unat off = sum_list (map (unat \<circ> esize) (take k (live b))) + unat r))"
proof -
  let ?l = "locate (map (unat \<circ> esize) (live b)) (unat off)"
  have hit: "(\<exists>k < live_count b. i < length (entries b) \<and> entries b ! i = live b ! k \<and> r < esize (live b ! k) \<and>
        unat off = sum_list (map (unat \<circ> esize) (take k (live b))) + unat r)"
    if "map_option (\<lambda>(k, r). ((out_offs b + k) mod max_ops, of_nat r)) ?l = Some (i, r)" for i and r :: size_t
  proof -
    from that obtain k n where l: "?l = Some (k, n)" and i: "i = (out_offs b + k) mod max_ops" and r: "r = of_nat n"
      by auto
    from locate_Some [OF l] have k: "k < live_count b" and n: "n < unat (esize (live b ! k))"
      and off: "unat off = sum_list (map (unat \<circ> esize) (take k (live b))) + n"
      by (auto simp: take_map)
    have "unat r = n" using n unsigned_less [where ?'b = 64 and ?'a = nat, of "esize (live b ! k)"] unfolding r by (simp add: unat_of_nat)
    with k n off i assms(1) show ?thesis
      by (intro exI [of _ k]) (auto simp: word_less_nat_alt live_def cb_wf_def)
  qed
  show ?thesis
    unfolding find_entry_spec [OF assms] using hit by (intro exI [of _ "map_option _ ?l"]) (auto simp: locate_None)
qed

lemma find_entry_correct_witness:
  "\<exists>res. aesd_circular_buffer_find_entry_offset_for_fpos
     (Some (cb_push aesd_circular_buffer_init \<lparr>buffptr = 8, esize = 5\<rparr>)) 3 = Some res \<and>
     (res = None \<longleftrightarrow> (5::nat) \<le> 3)"
proof -
  let ?b = "cb_push aesd_circular_buffer_init \<lparr>buffptr = 8, esize = 5\<rparr>"
  have wf: "cb_wf ?b" and l: "live ?b = [\<lparr>buffptr = 8, esize = 5\<rparr>]"
    using cb.push_valid [OF cb_wf_init(1)] cb.push_view [OF cb_wf_init(1)] by (simp_all add: cb_wf_init)
  show ?thesis using find_entry_correct [OF wf, of 3] by (auto simp: l)
qed

text \<open>
  C6: Starting from an initialised buffer, any sequence of insertions leaves exactly the ten
  most recent entries, oldest first, in a well-formed buffer.
\<close>

lemma add_entries_keep_last:
  "cb_wf (foldl cb_push aesd_circular_buffer_init es) \<and>
   live (foldl cb_push aesd_circular_buffer_init es) = keep_last 10 es"
  using cb.pushes_valid [OF cb_wf_init(1)] cb.pushes_view [OF cb_wf_init(1)]
  by (simp add: cb_wf_init(2))

text \<open>
  The pointers that a run of insertions hands back to the caller, and the buffer it leaves.
\<close>

fun add_run :: "circular_buffer \<Rightarrow> buffer_entry list \<Rightarrow> (ptr list \<times> circular_buffer) option" where
  "add_run b [] = Some ([], b)"
| "add_run b (e # es) =
     (case aesd_circular_buffer_add_entry (Some b) (Some e) of
        Some (p, Some b') \<Rightarrow> map_option (\<lambda>(ps, b''). (if p = NULL then ps else p # ps, b'')) (add_run b' es)
      | _ \<Rightarrow> None)"

lemma add_run_spec:
  assumes "cb_wf b" "NULL \<notin> buffptr ` set (live b @ es)"
  shows "\<exists>ps b'. add_run b es = Some (ps, b') \<and> cb_wf b' \<and>
    ps @ map buffptr (live b') = map buffptr (live b @ es)"
  using assms
proof (induction es arbitrary: b)
  case Nil
  then show ?case by simp
next
  case (Cons e es)
  from add_entry_spec [OF Cons.prems(1), of e] obtain b1 where
    b1: "aesd_circular_buffer_add_entry (Some b) (Some e) =
        Some (if full b then buffptr (hd (live b)) else NULL, Some b1)" "cb_wf b1"
      "live b1 = keep_last max_ops (live b @ [e])" by blast
  have live1: "live b1 = (if full b then tl (live b) @ [e] else live b @ [e])"
    using Cons.prems(1) b1(3) keep_last_snoc_full [of "live b" max_ops e]
    by (auto simp: live_count_def cb_wf_def)
  have ne: "full b \<Longrightarrow> live b \<noteq> []" by (auto simp: live_def live_count_def)
  have "NULL \<notin> buffptr ` set (live b1 @ es)"
    using Cons.prems(2) ne by (auto simp: live1 dest: list.set_sel(2))
  from Cons.IH [OF b1(2) this] obtain ps b' where
    "add_run b1 es = Some (ps, b')" "cb_wf b'" "ps @ map buffptr (live b') = map buffptr (live b1 @ es)"
    by blast
  with b1 Cons.prems(2) ne show ?case
    by (cases "live b") (auto simp: live1 image_iff)
qed

text \<open>
  No pointer is lost: after any run of insertions of non-NULL pointers into a fresh buffer,
  the pointers handed back to the caller followed by those still in the buffer are the inserted
  pointers in order; each evicted block is returned exactly once, oldest first.
\<close>

lemma evicted_in_order:
  assumes "NULL \<notin> buffptr ` set es"
  shows "\<exists>ps b'. add_run aesd_circular_buffer_init es = Some (ps, b') \<and>
    ps = map buffptr (take (length es - 10) es) \<and> map buffptr (live b') = map buffptr (keep_last 10 es)"
proof -
  from add_run_spec [OF cb_wf_init(1), of es] assms obtain ps b' where
    r: "add_run aesd_circular_buffer_init es = Some (ps, b')" "cb_wf b'"
      "ps @ map buffptr (live b') = map buffptr es" by (auto simp: cb_wf_init)
  have "add_run b es = Some (ps, b') \<Longrightarrow> b' = foldl cb_push b es" for b
    by (induction es arbitrary: b ps) (auto simp: cb_push_def split: option.splits prod.splits)
  from this [OF r(1)] have l: "live b' = keep_last 10 es" using add_entries_keep_last by simp
  have "ps @ map buffptr (live b') = map buffptr (take (length es - 10) es) @ map buffptr (live b')"
    using r(3) unfolding l keep_last_def by (metis append_take_drop_id map_append)
  with r(1) l show ?thesis by auto
qed

lemma evicted_in_order_witness:
  "\<exists>ps b'. add_run aesd_circular_buffer_init (map (\<lambda>n. \<lparr>buffptr = n, esize = 1\<rparr>) [1..<13]) = Some (ps, b') \<and>
     ps = [1, 2]"
  using evicted_in_order [of "map (\<lambda>n. \<lparr>buffptr = n, esize = 1\<rparr>) [1..<13]"]
  by (auto simp: upt_conv_Cons)

text \<open>
  The 2 GiB bound of the search is needed: the running total is kept in a signed 32-bit
  variable, so with 2 GiB in the first entry a position in the second one is answered with an
  offset far outside that entry.
\<close>

lemma find_entry_truncates:
  "\<exists>b off i r. cb_wf b \<and> sum_list (map (unat \<circ> esize) (live b)) = 2 ^ 31 + 10 \<and>
     unat off = 2 ^ 31 + 3 \<and>
     aesd_circular_buffer_find_entry_offset_for_fpos (Some b) off = Some (Some (i, r)) \<and>
     i = 1 \<and> unat (esize (entries b ! i)) = 10 \<and> unat r = 2 ^ 32 + 3"
proof -
  let ?es = "[\<lparr>buffptr = 8, esize = 2147483648\<rparr>, \<lparr>buffptr = 16, esize = 10\<rparr>]"
  let ?b = "\<lparr>entries = ?es @ replicate 8 zero_entry, in_offs = 2, out_offs = 0, full = False\<rparr>"
  have wf: "cb_wf ?b" by (auto simp: cb_wf_def nth_append nth_Cons split: nat.splits)
  have l: "live ?b = ?es" using wf by (simp add: live_not_full)
  have "aesd_circular_buffer_find_entry_offset_for_fpos (Some ?b) 2147483651 =
      Some (Some (1, 4294967299))"
    by (simp add: aesd_circular_buffer_find_entry_offset_for_fpos_def mem_at_def find_loop.simps)
  then show ?thesis using wf l
    by (intro exI [of _ ?b] exI [of _ 2147483651] exI [of _ 1] exI [of _ 4294967299]) simp
qed

end
