(* ===== verification/Byte_Device.thy ===== *)
theory Byte_Device
  imports Prelude
begin

text \<open>
  The contracts of the devices as their clients rely on them: \<open>byte_device\<close>, a sequence of
  bytes that is read piece by piece, and \<open>byte_store\<close>, one that can also be written at a
  position.  The clients read, or write, until nothing is left; what they get, or leave, is
  proved here once for all drivers.
\<close>

section \<open>Reading\<close>

text \<open>
  A device that is read through a file position, as its clients see it: each read delivers the
  next bytes, at least one unless none is left.  A client that reads until it gets nothing has
  the whole contents.
\<close>

fun drain :: "(nat \<Rightarrow> 's \<Rightarrow> (byte list \<times> nat \<times> 's) option) \<Rightarrow> nat \<Rightarrow> nat \<Rightarrow> 's \<Rightarrow> (byte list \<times> 's) option" where
  "drain rd 0 pos s = None"
| "drain rd (Suc fuel) pos s =
     (case rd pos s of
        None \<Rightarrow> None
      | Some (data, pos', s') \<Rightarrow>
          if data = [] then Some ([], s')
          else map_option (\<lambda>(rest, s''). (data @ rest, s'')) (drain rd fuel pos' s'))"

locale byte_device =
  fixes ok :: "'s \<Rightarrow> bool"
    and contents :: "'s \<Rightarrow> byte list"
    and rd :: "nat \<Rightarrow> nat \<Rightarrow> 's \<Rightarrow> (byte list \<times> nat \<times> 's) option"
  assumes rd_next: "ok s \<Longrightarrow> 0 < n \<Longrightarrow> n < 2 ^ 62 \<Longrightarrow> pos \<le> length (contents s) \<Longrightarrow>
    \<exists>data pos' s' rest. rd n pos s = Some (data, pos', s') \<and> ok s' \<and> contents s' = contents s \<and>
      length data \<le> n \<and> drop pos (contents s) = data @ rest \<and> (data = [] \<longrightarrow> rest = []) \<and>
      (data \<noteq> [] \<longrightarrow> pos' = pos + length data)"
begin

lemma drain_rest:
  assumes "ok s" "0 < n" "n < 2 ^ 62" "pos \<le> length (contents s)" "length (contents s) - pos < fuel"
  shows "\<exists>s'. drain (rd n) fuel pos s = Some (drop pos (contents s), s') \<and> ok s' \<and> contents s' = contents s"
  using assms
proof (induction fuel arbitrary: pos s)
  case 0
  then show ?case by simp
next
  case (Suc fuel)
  from rd_next [OF Suc.prems(1-4)] obtain data pos' s' rest where
    r: "rd n pos s = Some (data, pos', s')" "ok s'" "contents s' = contents s"
      "drop pos (contents s) = data @ rest" "data = [] \<longrightarrow> rest = []"
      "data \<noteq> [] \<longrightarrow> pos' = pos + length data" by blast
  show ?case
  proof (cases "data = []")
    case True
    with r show ?thesis by simp
  next
    case False
    have len: "pos + length data \<le> length (contents s)"
      using arg_cong [OF r(4), of length] False Suc.prems(4) by (cases data) auto
    have rest: "drop (pos + length data) (contents s) = rest"
      using arg_cong [OF r(4), of "drop (length data)"] by (simp add: add.commute)
    have "length (contents s) - (pos + length data) < fuel"
      using False Suc.prems(5) len by (cases data) auto
    with False r Suc.prems len have "\<exists>s''. drain (rd n) fuel pos' s' = Some (drop pos' (contents s'), s'') \<and>
        ok s'' \<and> contents s'' = contents s'"
      by (intro Suc.IH) auto
    with False r rest show ?thesis by auto
  qed
qed

lemma drain_all:
  assumes "ok s" "0 < n" "n < 2 ^ 62" "length (contents s) < fuel"
  shows "\<exists>s'. drain (rd n) fuel 0 s = Some (contents s, s') \<and> ok s' \<and> contents s' = contents s"
  using drain_rest [of s n 0 fuel] assms by simp

end

section \<open>Writing\<close>

text \<open>A client that writes until all of its bytes are accepted.\<close>

fun store_all :: "(byte list \<Rightarrow> nat \<Rightarrow> 's \<Rightarrow> (nat \<times> 's) option) \<Rightarrow> nat \<Rightarrow> byte list \<Rightarrow> nat \<Rightarrow> 's \<Rightarrow> 's option" where
  "store_all wr fuel [] pos s = Some s"
| "store_all wr 0 (b # bs) pos s = None"
| "store_all wr (Suc fuel) (b # bs) pos s =
     (case wr (b # bs) pos s of
        None \<Rightarrow> None
      | Some (n, s') \<Rightarrow> store_all wr fuel (drop n (b # bs)) (pos + n) s')"

locale byte_store = byte_device ok contents rd
  for ok :: "'s \<Rightarrow> bool" and contents :: "'s \<Rightarrow> byte list"
    and rd :: "nat \<Rightarrow> nat \<Rightarrow> 's \<Rightarrow> (byte list \<times> nat \<times> 's) option" +
  fixes wr :: "byte list \<Rightarrow> nat \<Rightarrow> 's \<Rightarrow> (nat \<times> 's) option"
    and limit :: "'s \<Rightarrow> nat"
  assumes wr_next: "ok s \<Longrightarrow> data \<noteq> [] \<Longrightarrow> pos \<le> length (contents s) \<Longrightarrow> pos + length data \<le> limit s \<Longrightarrow>
    \<exists>n s'. wr data pos s = Some (n, s') \<and> 0 < n \<and> n \<le> length data \<and> ok s' \<and> limit s' = limit s \<and>
      contents s' = take pos (contents s) @ take n data @ drop (pos + n) (contents s)"
begin

lemma store_all_ok:
  assumes "ok s" "pos \<le> length (contents s)" "pos + length data \<le> limit s" "length data \<le> fuel"
  shows "\<exists>s'. store_all wr fuel data pos s = Some s' \<and> ok s' \<and> limit s' = limit s \<and>
    contents s' = take pos (contents s) @ data @ drop (pos + length data) (contents s)"
  using assms
proof (induction fuel arbitrary: data pos s)
  case 0
  then show ?case by simp
next
  case (Suc fuel)
  show ?case
  proof (cases data)
    case Nil
    with Suc.prems show ?thesis by simp
  next
    case (Cons b bs)
    from wr_next [of s data pos] Suc.prems Cons obtain n s1 where
      w: "wr data pos s = Some (n, s1)" "0 < n" "n \<le> length data" "ok s1" "limit s1 = limit s"
        "contents s1 = take pos (contents s) @ take n data @ drop (pos + n) (contents s)" by auto
    have "\<exists>s'. store_all wr fuel (drop n data) (pos + n) s1 = Some s' \<and> ok s' \<and> limit s' = limit s1 \<and>
      contents s' = take (pos + n) (contents s1) @ drop n data @ drop (pos + n + length (drop n data)) (contents s1)"
      using w Suc.prems by (intro Suc.IH) auto
    moreover have "take (pos + n) (contents s1) = take pos (contents s) @ take n data"
      using w(3,6) Suc.prems(2) by simp
    moreover have "drop (pos + n + length (drop n data)) (contents s1) = drop (pos + length data) (contents s)"
      using w(3,6) Suc.prems(2) by (simp add: add.commute)
    ultimately show ?thesis using w Cons by auto
  qed
qed

text \<open>What was written is read back.\<close>

lemma store_then_drain:
  assumes "ok s" "pos \<le> length (contents s)" "pos + length data \<le> limit s" "0 < n" "n < 2 ^ 62"
  shows "\<exists>s' s''. store_all wr (length data) data pos s = Some s' \<and>
    drain (rd n) (Suc (length (contents s'))) 0 s' =
      Some (take pos (contents s) @ data @ drop (pos + length data) (contents s), s'')"
  using store_all_ok [OF assms(1-3) order_refl] drain_all [OF _ assms(4,5)] by fastforce

end

end
