(* ===== verification/Aesd_Driver.thy ===== *)
theory Aesd_Driver
  imports Circular_Buffer Byte_Device
begin

text \<open>
  The character driver \<open>aesd-char-driver/main.c\<close>: the device with its circular buffer of
  commands and the command being assembled, read, write, module initialisation and cleanup, on
  an explicit heap.  The abstract view of the device is the list of its completed commands and
  the bytes of the pending one; the operations refine the abstract ones of \<open>spec_write\<close> and
  \<open>concat\<close>, and every reachable state is memory safe.
\<close>

section \<open>State\<close>

text \<open>
  \<open>struct aesd_dev\<close> with the kernel heap it allocates from.  \<open>driver_lock\<close> is the mutex:
  true while it is held.  \<open>region\<close> and \<open>cdev_live\<close> record the registrations that module
  initialisation makes.
\<close>

record aesd_dev =
  temp_buffer :: circular_buffer
  temp_entry :: buffer_entry
  driver_lock :: bool
  kheap :: heap
  region :: bool
  cdev_live :: bool

text \<open>
  Taking the mutex: interrupted, or acquired; a mutex that is never given back is waited for
  without end.
\<close>

definition lock_dev :: "aesd_dev \<Rightarrow> aesd_dev option" where
  "lock_dev d = (if driver_lock d then None else Some (d\<lparr>driver_lock := True\<rparr>))"

definition unlock_dev :: "aesd_dev \<Rightarrow> aesd_dev" where
  "unlock_dev d = d\<lparr>driver_lock := False\<rparr>"

section \<open>Read and write\<close>

text \<open>
  \<open>aesd_read\<close> returns the value, the file position, the bytes stored in the user's buffer and
  the device.  \<open>intr\<close>: waiting for the mutex is interrupted; \<open>nc\<close>: the number of bytes
  \<open>copy_to_user\<close> fails to copy.
\<close>

definition aesd_read ::
  "bool \<Rightarrow> nat \<Rightarrow> size_t \<Rightarrow> size_t \<Rightarrow> aesd_dev \<Rightarrow> (size_t ret \<times> size_t \<times> byte list \<times> aesd_dev) option" where
  "aesd_read intr nc count f_pos d =
     (if intr then Some (Inl ERESTARTSYS, f_pos, [], d)
      else lock_dev d \<bind> (\<lambda>d.
        aesd_circular_buffer_find_entry_offset_for_fpos (Some (temp_buffer d)) f_pos \<bind> (\<lambda>found.
        case found of
          None \<Rightarrow> Some (Inr 0, 0, [], unlock_dev d)
        | Some (i, read_entry_off) \<Rightarrow>
            let read_entry = entries (temp_buffer d) ! i;
                avail = esize read_entry - read_entry_off;
                retval = (if count < avail then count else avail)
            in kheap d (buffptr read_entry) \<bind> (\<lambda>blk.
               mem_read blk (unat read_entry_off) (unat retval) \<bind> (\<lambda>data.
               if nc \<noteq> 0 then Some (Inl EFAULT, f_pos, take (length data - nc) data, unlock_dev d)
               else Some (Inr retval, f_pos + retval, data, unlock_dev d))))))"

text \<open>
  The last part of \<open>aesd_write\<close>: the search for a newline in the whole pending command and,
  when there is one, the move of the command into the buffer.  The entry it replaces, if any,
  is freed.
\<close>

definition aesd_write_finish ::
  "size_t \<Rightarrow> aesd_dev \<Rightarrow> (size_t ret \<times> size_t \<times> aesd_dev) option" where
  "aesd_write_finish retval d = do {
     let te = temp_entry d;
     blk \<leftarrow> kheap d (buffptr te);
     data \<leftarrow> mem_read blk 0 (unat (esize te));
     if newline \<in> set data then do {
       (entry, buf) \<leftarrow> aesd_circular_buffer_add_entry (Some (temp_buffer d)) (Some te);
       buf \<leftarrow> buf;
       h \<leftarrow> kfree (kheap d) entry;
       Some (Inr retval, 0,
         unlock_dev (d\<lparr>temp_buffer := buf, temp_entry := \<lparr>buffptr = NULL, esize = 0\<rparr>, kheap := h\<rparr>))
     }
     else Some (Inr retval, 0, unlock_dev d)
   }"

text \<open>
  The part before: the copy of the user's bytes behind the pending ones.
\<close>

definition aesd_write_copy ::
  "nat \<Rightarrow> byte list \<Rightarrow> aesd_dev \<Rightarrow> (size_t ret \<times> size_t \<times> aesd_dev) option" where
  "aesd_write_copy nc ub d = do {
     let te = temp_entry d;
     blk \<leftarrow> kheap d (buffptr te);
     blk \<leftarrow> mem_write blk (unat (esize te)) (user_bytes ub nc);
     let retval = of_nat (length ub - nc);
     aesd_write_finish retval
       (d\<lparr>temp_entry := te\<lparr>esize := esize te + retval\<rparr>, kheap := (kheap d)(buffptr te \<mapsto> blk)\<rparr>)
   }"

text \<open>
  The whole of \<open>aesd_write\<close>.  The first bytes of a command are given a fresh block, later ones
  a reallocated one; on a failed allocation \<open>temp_entry.buffptr\<close> is left NULL and, after a
  failed \<open>krealloc\<close>, the size is left as it was.
\<close>

definition aesd_write ::
  "bool \<Rightarrow> alloc \<Rightarrow> nat \<Rightarrow> byte list \<Rightarrow> size_t \<Rightarrow> aesd_dev \<Rightarrow> (size_t ret \<times> size_t \<times> aesd_dev) option" where
  "aesd_write intr a nc ub f_pos d =
     (if intr then Some (Inl ERESTARTSYS, f_pos, d)
      else lock_dev d \<bind> (\<lambda>d.
        let te = temp_entry d; count = of_nat (length ub) in
        (if esize te = 0 then Some (kmalloc (kheap d) a (length ub))
         else krealloc (kheap d) a (buffptr te) (unat (esize te + count))) \<bind> (\<lambda>(p, h).
        let d = d\<lparr>temp_entry := te\<lparr>buffptr := p\<rparr>, kheap := h\<rparr> in
        if p = NULL then Some (Inl ENOMEM, f_pos, unlock_dev d)
        else aesd_write_copy nc ub d)))"

section \<open>Open, release, module initialisation and cleanup\<close>

text \<open>Opening stores the device in the file and always succeeds; releasing does nothing.\<close>

definition aesd_open :: "aesd_dev \<Rightarrow> nat ret \<times> aesd_dev" where
  "aesd_open d = (Inr 0, d)"

definition aesd_release :: "aesd_dev \<Rightarrow> nat ret \<times> aesd_dev" where
  "aesd_release d = (Inr 0, d)"

text \<open>\<open>err\<close> is the result of \<open>cdev_add\<close>; an error is reported to the caller.\<close>

definition aesd_setup_cdev :: "errno option \<Rightarrow> aesd_dev \<Rightarrow> errno option \<times> aesd_dev" where
  "aesd_setup_cdev err d = (err, if err = None then d\<lparr>cdev_live := True\<rparr> else d)"

definition aesd_init_module :: "errno option \<Rightarrow> errno option \<Rightarrow> heap \<Rightarrow> aesd_dev \<Rightarrow> nat ret \<times> aesd_dev" where
  "aesd_init_module reg_err add_err h d =
     (case reg_err of
        Some e \<Rightarrow> (Inl e, d)
      | None \<Rightarrow>
          let d = \<lparr>temp_buffer = aesd_circular_buffer_init, temp_entry = \<lparr>buffptr = NULL, esize = 0\<rparr>,
                   driver_lock = False, kheap = h, region = True, cdev_live = False\<rparr>;
              (result, d) = aesd_setup_cdev add_err d
          in (case result of
                None \<Rightarrow> (Inr 0, d)
              | Some e \<Rightarrow> (Inl e, d\<lparr>region := False\<rparr>)))"

definition aesd_cleanup_module :: "aesd_dev \<Rightarrow> aesd_dev option" where
  "aesd_cleanup_module d =
     aesd_cicular_buffer_free (kheap d) (temp_buffer d) \<bind> (\<lambda>h.
       Some (d\<lparr>cdev_live := False, kheap := h, region := False\<rparr>))"

section \<open>Invariants and the abstract view\<close>

definition blk_ok :: "heap \<Rightarrow> buffer_entry \<Rightarrow> bool" where
  "blk_ok h e \<longleftrightarrow> (\<exists>blk. h (buffptr e) = Some blk \<and> unat (esize e) \<le> length blk)"

definition content :: "heap \<Rightarrow> buffer_entry \<Rightarrow> byte list" where
  "content h e = (case h (buffptr e) of None \<Rightarrow> [] | Some blk \<Rightarrow> take (unat (esize e)) blk)"

abbreviation cmd_entries :: "aesd_dev \<Rightarrow> buffer_entry list" where
  "cmd_entries d \<equiv> live (temp_buffer d)"

definition cmds :: "aesd_dev \<Rightarrow> byte list list" where
  "cmds d = map (content (kheap d)) (cmd_entries d)"

definition pending :: "aesd_dev \<Rightarrow> byte list" where
  "pending d = (if esize (temp_entry d) = 0 then [] else content (kheap d) (temp_entry d))"

text \<open>The entries whose blocks the device owns.\<close>

definition held :: "aesd_dev \<Rightarrow> buffer_entry list" where
  "held d = cmd_entries d @
     (if esize (temp_entry d) = 0 \<or> buffptr (temp_entry d) = NULL then [] else [temp_entry d])"

text \<open>
  \<open>aesd_safe\<close>: the blocks the device refers to are allocated, large enough and not shared.
  \<open>aesd_ok\<close>: besides, the pending command is there and no other block is allocated; this is
  what failed allocations and copies can break.
\<close>

definition aesd_safe :: "aesd_dev \<Rightarrow> bool" where
  "aesd_safe d \<longleftrightarrow> cb_wf (temp_buffer d) \<and> \<not> driver_lock d \<and> kheap d NULL = None \<and>
     distinct (map buffptr (held d)) \<and> (\<forall>e \<in> set (held d). blk_ok (kheap d) e)"

definition aesd_ok :: "aesd_dev \<Rightarrow> bool" where
  "aesd_ok d \<longleftrightarrow> aesd_safe d \<and> (esize (temp_entry d) \<noteq> 0 \<longrightarrow> buffptr (temp_entry d) \<noteq> NULL) \<and>
     dom (kheap d) = buffptr ` set (held d)"

lemma live_0_of_full: "full b \<Longrightarrow> live b \<noteq> []"
  by (auto simp: live_def live_count_def)

lemma keep_last_live:
  "cb_wf b \<Longrightarrow> keep_last max_ops (live b @ [e]) = (if full b then tl (live b) @ [e] else live b @ [e])"
  using keep_last_snoc_full [of "live b" max_ops e] by (auto simp: live_count_def cb_wf_def)

text \<open>What the last part of \<open>aesd_write\<close> does to the entries and the heap.\<close>

lemma write_finish_eval:
  assumes wf: "cb_wf (temp_buffer d)" and nn: "kheap d NULL = None"
    and blks: "\<forall>e \<in> set (temp_entry d # cmd_entries d). blk_ok (kheap d) e"
  shows "\<exists>buf. cb_wf buf \<and> live buf = keep_last max_ops (cmd_entries d @ [temp_entry d]) \<and>
    aesd_write_finish n d = Some (Inr n, 0, unlock_dev
      (if newline \<in> set (content (kheap d) (temp_entry d)) then
         d\<lparr>temp_buffer := buf, temp_entry := \<lparr>buffptr = NULL, esize = 0\<rparr>,
           kheap := (if full (temp_buffer d) then (kheap d)(buffptr (hd (cmd_entries d)) := None) else kheap d)\<rparr>
       else d))"
proof -
  from blks obtain blk where blk: "kheap d (buffptr (temp_entry d)) = Some blk"
    "unat (esize (temp_entry d)) \<le> length blk" by (auto simp: blk_ok_def)
  then have rd: "mem_read blk 0 (unat (esize (temp_entry d))) = Some (content (kheap d) (temp_entry d))"
    by (simp add: mem_read_def content_def)
  from add_entry_spec [OF wf, of "temp_entry d"] obtain buf where buf:
    "aesd_circular_buffer_add_entry (Some (temp_buffer d)) (Some (temp_entry d)) =
        Some (if full (temp_buffer d) then buffptr (hd (cmd_entries d)) else NULL, Some buf)"
    "cb_wf buf" "live buf = keep_last max_ops (cmd_entries d @ [temp_entry d])" by blast
  have fr: "kfree (kheap d) (if full (temp_buffer d) then buffptr (hd (cmd_entries d)) else NULL) =
      Some (if full (temp_buffer d) then (kheap d)(buffptr (hd (cmd_entries d)) := None) else kheap d)"
  proof (cases "full (temp_buffer d)")
    case True
    with blks live_0_of_full have "blk_ok (kheap d) (hd (cmd_entries d))" by auto
    with nn True show ?thesis by (auto simp: blk_ok_def kfree_def)
  qed simp
  show ?thesis
    using buf blk(1) rd fr by (intro exI [of _ buf]) (simp add: aesd_write_finish_def)
qed

text \<open>What the abstract device does with a write.\<close>

definition spec_write :: "byte list list \<times> byte list \<Rightarrow> byte list \<Rightarrow> byte list list \<times> byte list" where
  "spec_write s ub =
     (case s of (cs, p) \<Rightarrow>
        if newline \<in> set (p @ ub) then (keep_last max_ops (cs @ [p @ ub]), []) else (cs, p @ ub))"

lemma content_upd [simp]: "content (h(p := v)) e = (if buffptr e = p then (case v of None \<Rightarrow> [] | Some blk \<Rightarrow> take (unat (esize e)) blk) else content h e)"
  by (simp add: content_def)

lemma blk_ok_upd [simp]: "blk_ok (h(p := v)) e = (if buffptr e = p then (\<exists>blk. v = Some blk \<and> unat (esize e) \<le> length blk) else blk_ok h e)"
  by (simp add: blk_ok_def)

lemma map_content_upd [simp]: "p \<notin> buffptr ` set es \<Longrightarrow> map (content (h(p := v))) es = map (content h) es"
  by auto

lemmas dev_defs = aesd_safe_def aesd_ok_def held_def cmds_def pending_def unlock_dev_def

text \<open>The invariants with the pending entry singled out, as \<open>aesd_write\<close> meets it.\<close>

definition entry_ok :: "aesd_dev \<Rightarrow> bool" where
  "entry_ok d \<longleftrightarrow> cb_wf (temp_buffer d) \<and> kheap d NULL = None \<and>
     distinct (map buffptr (cmd_entries d @ [temp_entry d])) \<and>
     (\<forall>e \<in> set (cmd_entries d @ [temp_entry d]). blk_ok (kheap d) e)"

lemma write_finish_spec:
  assumes ok: "entry_ok d"
  shows "\<exists>d'. aesd_write_finish n d = Some (Inr n, 0, d') \<and> aesd_safe d' \<and>
    (cmds d', pending d') = spec_write (cmds d, content (kheap d) (temp_entry d)) [] \<and>
    (dom (kheap d) = buffptr ` set (cmd_entries d @ [temp_entry d]) \<longrightarrow> esize (temp_entry d) \<noteq> 0 \<longrightarrow> aesd_ok d')"
proof -
  let ?es = "cmd_entries d" and ?te = "temp_entry d" and ?h = "kheap d"
  have wf: "cb_wf (temp_buffer d)" and nn: "?h NULL = None"
    and blks: "\<forall>e \<in> set (?te # ?es). blk_ok ?h e" and dist: "distinct (map buffptr (?es @ [?te]))"
    using ok by (auto simp: entry_ok_def)
  from write_finish_eval [OF wf nn blks, of n] obtain buf where b: "cb_wf buf"
    "live buf = keep_last max_ops (?es @ [?te])" and
    ev: "aesd_write_finish n d = Some (Inr n, 0, unlock_dev
      (if newline \<in> set (content ?h ?te) then
         d\<lparr>temp_buffer := buf, temp_entry := \<lparr>buffptr = NULL, esize = 0\<rparr>,
           kheap := (if full (temp_buffer d) then ?h(buffptr (hd ?es) := None) else ?h)\<rparr>
       else d))" by blast
  have te: "buffptr ?te \<noteq> NULL" using blks nn by (cases "buffptr ?te = NULL") (auto simp: blk_ok_def)
  show ?thesis
  proof (cases "newline \<in> set (content ?h ?te)")
    case nl: True
    show ?thesis
    proof (cases "full (temp_buffer d)")
      case True
      from True wf have "length ?es = 10" by (simp add: live_count_def)
      then obtain e es where es: "?es = e # es" by (cases ?es) auto
      have lv: "live buf = es @ [?te]" using b(2) keep_last_live [OF wf, of ?te] True by (simp add: es)
      have len: "length es = 9" using \<open>length ?es = 10\<close> es by simp
      have ne: "\<forall>x \<in> set es. buffptr x \<noteq> buffptr e \<and> buffptr x \<noteq> buffptr ?te"
        using dist unfolding es by (simp add: image_iff) metis
      show ?thesis
        using ev nl True es lv b(1) dist blks nn len ne
        by (auto simp: dev_defs spec_write_def keep_last_def)
    next
      case False
      have lv: "live buf = ?es @ [?te]" using b(2) keep_last_live [OF wf, of ?te] False by simp
      have "length (cmds d) < max_ops"
        using wf False by (auto simp: live_count_def cmds_def cb_wf_def split: if_splits)
      then show ?thesis
        using ev nl False lv b(1) dist blks nn
        by (auto simp: dev_defs spec_write_def keep_last_def)
    qed
  next
    case False
    have "pending d = content (kheap d) ?te"
      by (simp add: pending_def content_def split: option.splits)
    with False show ?thesis
      using ev wf dist blks nn te
      by (auto simp: dev_defs spec_write_def)
  qed
qed

lemma write_copy_spec:
  assumes ok: "entry_ok d" and h: "kheap d (buffptr (temp_entry d)) = Some blk"
    and fits: "unat (esize (temp_entry d)) + length ub \<le> length blk"
    and sz: "unat (esize (temp_entry d)) + length ub < 2 ^ 64" and nc: "nc \<le> length ub"
  shows "\<exists>d'. aesd_write_copy nc ub d = Some (Inr (of_nat (length ub - nc)), 0, d') \<and> aesd_safe d' \<and>
    (cmds d', pending d') =
      spec_write (cmds d, content (kheap d) (temp_entry d)) (take (length ub - nc) ub) \<and>
    (dom (kheap d) = buffptr ` set (cmd_entries d @ [temp_entry d]) \<longrightarrow>
       unat (esize (temp_entry d)) + length ub - nc \<noteq> 0 \<longrightarrow> aesd_ok d')"
proof -
  let ?te = "temp_entry d" and ?n = "length ub - nc"
  let ?s = "unat (esize ?te)"
  let ?blk = "take ?s blk @ user_bytes ub nc @ drop (?s + length ub) blk"
  let ?d = "d\<lparr>temp_entry := ?te\<lparr>esize := esize ?te + of_nat ?n\<rparr>, kheap := (kheap d)(buffptr ?te \<mapsto> ?blk)\<rparr>"
  have size: "unat (esize ?te + of_nat ?n) = ?s + ?n"
    using sz by (simp add: unat_word_ariths unat_of_nat)
  have cont: "content (kheap ?d) (temp_entry ?d) = content (kheap d) ?te @ take ?n ub"
    using size fits nc h by (auto simp: content_def user_bytes_def)
  have ne: "\<forall>x \<in> set (cmd_entries d). buffptr x \<noteq> buffptr ?te"
    using ok by (simp add: entry_ok_def image_iff) metis
  have ok': "entry_ok ?d"
    using ok h fits size nc ne by (auto simp: entry_ok_def)
  have cm: "cmds ?d = cmds d"
    using ok by (auto simp: entry_ok_def cmds_def)
  have ev: "aesd_write_copy nc ub d = aesd_write_finish (of_nat ?n) ?d"
    using h fits by (simp add: aesd_write_copy_def mem_write_Some Let_def)
  have dm: "dom (kheap ?d) = dom (kheap d)" using h by auto
  have es: "esize (temp_entry ?d) \<noteq> 0 \<longleftrightarrow> ?s + ?n \<noteq> 0"
    using size by (simp add: unat_eq_0 [symmetric])
  from write_finish_spec [OF ok', of "of_nat ?n"] obtain d' where
    "aesd_write_finish (of_nat ?n) ?d = Some (Inr (of_nat ?n), 0, d')" "aesd_safe d'"
    "(cmds d', pending d') = spec_write (cmds ?d, content (kheap ?d) (temp_entry ?d)) []"
    "dom (kheap ?d) = buffptr ` set (cmd_entries ?d @ [temp_entry ?d]) \<longrightarrow> esize (temp_entry ?d) \<noteq> 0 \<longrightarrow> aesd_ok d'"
    by blast
  then show ?thesis
    using nc unfolding ev cm cont dm es
    by (intro exI [of _ d']) (auto simp: spec_write_def)
qed

text \<open>
  A write: the allocation and then the copy.  \<open>write_pre\<close> collects what the caller of the
  driver guarantees: no block, a fresh one, or for a command that goes on the old one extended
  where it is; no more uncopied bytes than there are, and a command below \<open>2^64\<close> bytes.
  \<open>pending_block\<close> is the block that is to be resized, NULL at the start of a command.
\<close>

definition pending_block :: "aesd_dev \<Rightarrow> ptr" where
  "pending_block d = (if esize (temp_entry d) = 0 then NULL else buffptr (temp_entry d))"

definition write_pre :: "alloc \<Rightarrow> nat \<Rightarrow> byte list \<Rightarrow> aesd_dev \<Rightarrow> bool" where
  "write_pre a nc ub d \<longleftrightarrow> (addr a = NULL \<or> resized_alloc (kheap d) (pending_block d) a) \<and> nc \<le> length ub \<and>
     unat (esize (temp_entry d)) + length ub < 2 ^ 64"

lemma write_alloc_ok:
  assumes safe: "aesd_safe d" and pre: "write_pre a nc ub d" and nn: "addr a \<noteq> NULL"
  shows "\<exists>d' blk. aesd_write False a nc ub f_pos d = aesd_write_copy nc ub d' \<and> entry_ok d' \<and>
    kheap d' (buffptr (temp_entry d')) = Some blk \<and> esize (temp_entry d') = esize (temp_entry d) \<and>
    unat (esize (temp_entry d')) + length ub \<le> length blk \<and> cmds d' = cmds d \<and>
    cmd_entries d' = cmd_entries d \<and>
    (aesd_ok d \<longrightarrow> content (kheap d') (temp_entry d') = pending d \<and>
      dom (kheap d') = buffptr ` set (cmd_entries d' @ [temp_entry d']))"
proof -
  let ?te = "temp_entry d" and ?h = "kheap d"
  have fr: "?h (addr a) = None \<or> esize ?te \<noteq> 0 \<and> buffptr ?te \<noteq> NULL \<and> addr a = buffptr ?te"
    and nc: "nc \<le> length ub" and sz: "unat (esize ?te) + length ub < 2 ^ 64"
    using pre nn by (auto simp: write_pre_def resized_alloc_def pending_block_def split: if_splits)
  have wf: "cb_wf (temp_buffer d)" and lk: "\<not> driver_lock d" and h0: "?h NULL = None"
    and dist: "distinct (map buffptr (held d))" and blks: "\<forall>e \<in> set (held d). blk_ok ?h e"
    using safe by (auto simp: aesd_safe_def)
  have notin: "addr a \<notin> buffptr ` set (cmd_entries d)"
  proof
    assume m: "addr a \<in> buffptr ` set (cmd_entries d)"
    then obtain e where e: "e \<in> set (held d)" "buffptr e = addr a" by (force simp: held_def)
    with blks have "?h (addr a) \<noteq> None" by (auto simp: blk_ok_def)
    with fr have "esize ?te \<noteq> 0" "buffptr ?te \<noteq> NULL" "addr a = buffptr ?te" by auto
    then have "buffptr ?te \<notin> buffptr ` set (cmd_entries d)" using dist by (auto simp: held_def)
    with m \<open>addr a = buffptr ?te\<close> show False by simp
  qed
  have ne: "\<forall>e \<in> set (cmd_entries d). buffptr e \<noteq> addr a" using notin by (simp add: image_iff) metis
  have size: "unat (esize ?te + of_nat (length ub)) = unat (esize ?te) + length ub"
    using sz by (simp add: unat_word_ariths unat_of_nat)
  show ?thesis
  proof (cases "esize ?te = 0 \<or> buffptr ?te = NULL")
    case True
    let ?blk = "map (junk a) [0..<unat (esize ?te) + length ub]"
    let ?d = "d\<lparr>driver_lock := True, temp_entry := ?te\<lparr>buffptr := addr a\<rparr>, kheap := ?h(addr a \<mapsto> ?blk)\<rparr>"
    have "aesd_write False a nc ub f_pos d = aesd_write_copy nc ub ?d"
      using True nn lk size by (auto simp: aesd_write_def lock_dev_def kmalloc_def krealloc_def Let_def)
    moreover have "entry_ok ?d"
      using wf h0 dist blks notin ne nn True by (auto simp: entry_ok_def held_def)
    moreover have "cmds ?d = cmds d" using notin by (simp add: cmds_def)
    moreover have "aesd_ok d \<longrightarrow> content (kheap ?d) (temp_entry ?d) = pending d \<and>
      dom (kheap ?d) = buffptr ` set (cmd_entries ?d @ [temp_entry ?d])"
      using True by (auto simp: aesd_ok_def pending_def held_def)
    ultimately show ?thesis
      by (intro exI [of _ ?d] exI [of _ ?blk]) simp
  next
    case False
    then have te: "?te \<in> set (held d)" and hd: "held d = cmd_entries d @ [?te]" by (simp_all add: held_def)
    with blks obtain old where old: "?h (buffptr ?te) = Some old" "unat (esize ?te) \<le> length old"
      by (auto simp: blk_ok_def)
    let ?blk = "take (unat (esize ?te) + length ub) old @ map (junk a) [length old..<unat (esize ?te) + length ub]"
    let ?d = "d\<lparr>driver_lock := True, temp_entry := ?te\<lparr>buffptr := addr a\<rparr>,
       kheap := (?h(buffptr ?te := None))(addr a \<mapsto> ?blk)\<rparr>"
    have pnot: "buffptr ?te \<notin> buffptr ` set (cmd_entries d)" using dist hd by auto
    have pne: "\<forall>e \<in> set (cmd_entries d). buffptr e \<noteq> buffptr ?te" using pnot by (simp add: image_iff) metis
    have "aesd_write False a nc ub f_pos d = aesd_write_copy nc ub ?d"
      using False nn lk size old by (auto simp: aesd_write_def lock_dev_def krealloc_def Let_def)
    moreover have "entry_ok ?d"
      using wf h0 dist blks notin pnot ne pne nn False old by (auto simp: entry_ok_def hd)
    moreover have "cmds ?d = cmds d" using notin pnot by (simp add: cmds_def)
    moreover have "unat (esize ?te) + length ub \<le> length ?blk" by simp
    moreover have "aesd_ok d \<longrightarrow> content (kheap ?d) (temp_entry ?d) = pending d \<and>
      dom (kheap ?d) = buffptr ` set (cmd_entries ?d @ [temp_entry ?d])"
      using False old fr pnot by (auto simp: aesd_ok_def pending_def hd content_def)
    ultimately show ?thesis
      by (intro exI [of _ ?d] exI [of _ ?blk]) simp
  qed
qed

lemma aesd_write_good:
  assumes ok: "aesd_ok d" and pre: "write_pre a nc ub d" and nn: "addr a \<noteq> NULL"
    and ne: "unat (esize (temp_entry d)) + length ub - nc \<noteq> 0"
  shows "\<exists>d'. aesd_write False a nc ub f_pos d = Some (Inr (of_nat (length ub - nc)), 0, d') \<and> aesd_ok d' \<and>
    (cmds d', pending d') = spec_write (cmds d, pending d) (take (length ub - nc) ub)"
proof -
  have safe: "aesd_safe d" using ok by (simp add: aesd_ok_def)
  from write_alloc_ok [OF safe pre nn, of f_pos] ok obtain d1 blk where
    d1: "aesd_write False a nc ub f_pos d = aesd_write_copy nc ub d1" "entry_ok d1"
      "kheap d1 (buffptr (temp_entry d1)) = Some blk" "esize (temp_entry d1) = esize (temp_entry d)"
      "unat (esize (temp_entry d1)) + length ub \<le> length blk" "cmds d1 = cmds d"
      "content (kheap d1) (temp_entry d1) = pending d"
      "dom (kheap d1) = buffptr ` set (cmd_entries d1 @ [temp_entry d1])" by blast
  from write_copy_spec [OF d1(2,3,5)] d1 pre ne show ?thesis
    by (auto simp: write_pre_def)
qed

lemma aesd_write_safe:
  assumes safe: "aesd_safe d" and pre: "write_pre a nc ub d"
  shows "\<exists>r f d'. aesd_write intr a nc ub f_pos d = Some (r, f, d') \<and> aesd_safe d'"
proof (cases "intr \<or> addr a = NULL")
  case True
  show ?thesis
  proof (cases intr)
    case False
    with True have "addr a = NULL" by simp
    let ?d = "d\<lparr>temp_entry := (temp_entry d)\<lparr>buffptr := NULL\<rparr>\<rparr>"
    have "aesd_write intr a nc ub f_pos d = Some (Inl ENOMEM, f_pos, ?d)"
      using safe False \<open>addr a = NULL\<close>
      by (auto simp: aesd_write_def lock_dev_def kmalloc_def krealloc_def unlock_dev_def aesd_safe_def
          held_def blk_ok_def Let_def split: if_splits)
    moreover have "aesd_safe ?d" using safe by (auto simp: aesd_safe_def held_def)
    ultimately show ?thesis by blast
  qed (use safe in \<open>simp add: aesd_write_def\<close>)
next
  case False
  with safe pre write_alloc_ok [OF safe pre, of f_pos] obtain d1 blk where
    d1: "aesd_write False a nc ub f_pos d = aesd_write_copy nc ub d1" "entry_ok d1"
      "kheap d1 (buffptr (temp_entry d1)) = Some blk" "esize (temp_entry d1) = esize (temp_entry d)"
      "unat (esize (temp_entry d1)) + length ub \<le> length blk" by blast
  from pre d1(4) have "unat (esize (temp_entry d1)) + length ub < 2 ^ 64" "nc \<le> length ub"
    by (auto simp: write_pre_def)
  from write_copy_spec [OF d1(2,3,5) this] d1(1) False show ?thesis by auto
qed

section \<open>Reading\<close>

abbreviation total :: "aesd_dev \<Rightarrow> nat" where
  "total d \<equiv> length (concat (cmds d))"

lemma safe_live: "aesd_safe d \<Longrightarrow> e \<in> set (cmd_entries d) \<Longrightarrow> blk_ok (kheap d) e"
  by (auto simp: aesd_safe_def held_def)

lemma length_content: "blk_ok h e \<Longrightarrow> length (content h e) = unat (esize e)"
  by (auto simp: blk_ok_def content_def)

lemma length_cmds: "aesd_safe d \<Longrightarrow> map length (cmds d) = map (unat \<circ> esize) (cmd_entries d)"
  by (auto simp: cmds_def length_content safe_live)

lemma total_sizes: "aesd_safe d \<Longrightarrow> sum_list (map (unat \<circ> esize) (cmd_entries d)) = total d"
  by (simp add: length_concat flip: length_cmds)

text \<open>
  What a read delivers: the bytes of one command from the file position on, at most as many
  as asked for.
\<close>

lemma aesd_read_spec:
  assumes safe: "aesd_safe d" and small: "total d < 2 ^ 31"
  shows "aesd_read False nc count f_pos d =
    (case locate (map length (cmds d)) (unat f_pos) of
       None \<Rightarrow> Some (Inr 0, 0, [], d)
     | Some (k, r) \<Rightarrow>
         let data = take (unat count) (drop r (cmds d ! k)) in
         if nc \<noteq> 0 then Some (Inl EFAULT, f_pos, take (length data - nc) data, d)
         else Some (Inr (of_nat (length data)), f_pos + of_nat (length data), data, d))"
proof -
  have lk: "d\<lparr>driver_lock := False\<rparr> = d" "\<not> driver_lock d" and wf: "cb_wf (temp_buffer d)"
    using safe by (auto simp: aesd_safe_def)
  have fnd: "aesd_circular_buffer_find_entry_offset_for_fpos (Some (temp_buffer d)) f_pos =
    Some (map_option (\<lambda>(k, r). ((out_offs (temp_buffer d) + k) mod max_ops, of_nat r))
      (locate (map length (cmds d)) (unat f_pos)))"
    using find_entry_spec [OF wf, of f_pos] small total_sizes [OF safe] length_cmds [OF safe] by simp
  show ?thesis
  proof (cases "locate (map length (cmds d)) (unat f_pos)")
    case None
    with fnd lk show ?thesis by (simp add: aesd_read_def lock_dev_def unlock_dev_def)
  next
    case (Some p)
    then obtain k r where l: "locate (map length (cmds d)) (unat f_pos) = Some (k, r)" by (cases p) auto
    let ?e = "cmd_entries d ! k"
    from locate_Some [OF l] have k: "k < length (cmd_entries d)" and r: "r < length (cmds d ! k)"
      by (auto simp: cmds_def)
    have ok: "blk_ok (kheap d) ?e" using k safe by (auto intro: safe_live nth_mem)
    have ck: "cmds d ! k = content (kheap d) ?e" using k by (simp add: cmds_def)
    from ok obtain blk where blk: "kheap d (buffptr ?e) = Some blk" "unat (esize ?e) \<le> length blk"
      by (auto simp: blk_ok_def)
    have rk: "r < unat (esize ?e)" using r ck length_content [OF ok] by simp
    have ent: "entries (temp_buffer d) ! ((out_offs (temp_buffer d) + k) mod max_ops) = ?e"
      using k by (simp add: live_def)
    have un: "unat (esize ?e - of_nat r) = unat (esize ?e) - r"
    proof -
      have "r < 2 ^ 64" using rk unsigned_less [where ?'b = 64 and ?'a = nat, of "esize ?e"] by simp
      then have rr: "unat (of_nat r :: size_t) = r" by (simp add: unat_of_nat)
      with rk have "of_nat r \<le> esize ?e" by (simp add: word_le_nat_alt)
      with rr show ?thesis by (simp add: unat_sub)
    qed
    define rv where "rv = (if count < esize ?e - of_nat r then count else esize ?e - of_nat r)"
    have rv: "unat rv = min (unat count) (unat (esize ?e) - r)"
      using un by (simp add: word_less_nat_alt rv_def)
    let ?data = "take (unat count) (drop r (cmds d ! k))"
    have dlen: "length ?data = unat rv"
      unfolding rv using ck length_content [OF ok] by simp
    have data: "mem_read blk r (unat rv) = Some ?data"
    proof -
      have "r + unat rv \<le> length blk" using rv rk blk(2) by linarith
      then show ?thesis
        unfolding mem_read_def rv ck using blk by (simp add: content_def drop_take min.commute)
    qed
    have rvw: "rv = of_nat (length ?data)" unfolding dlen by simp
    have unr: "unat (of_nat r :: size_t) = r"
      using rk unsigned_less [where ?'b = 64 and ?'a = nat, of "esize ?e"] by (simp add: unat_of_nat)
    show ?thesis
      using fnd lk(2) ent blk(1) data rvw [symmetric] unfolding l
      by (cases "count < esize ?e - of_nat r")
        (simp_all add: aesd_read_def lock_dev_def unlock_dev_def Let_def unr rv_def lk(1))
  qed
qed

text \<open>The driver's read as its clients call it, uninterrupted and with a buffer that is there.\<close>

definition dev_read :: "nat \<Rightarrow> nat \<Rightarrow> aesd_dev \<Rightarrow> (byte list \<times> nat \<times> aesd_dev) option" where
  "dev_read n pos d =
     (case aesd_read False 0 (of_nat n) (of_nat pos) d of
        Some (Inr _, pos', data, d') \<Rightarrow> Some (data, unat pos', d') | _ \<Rightarrow> None)"

abbreviation dev_readable :: "aesd_dev \<Rightarrow> bool" where
  "dev_readable d \<equiv> aesd_safe d \<and> total d < 2 ^ 31"

abbreviation dev_contents :: "aesd_dev \<Rightarrow> byte list" where
  "dev_contents d \<equiv> concat (cmds d)"

interpretation aesd_device: byte_device dev_readable dev_contents dev_read
proof unfold_locales
  fix d :: aesd_dev and n pos :: nat
  assume d: "dev_readable d" and n: "0 < n" "n < 2 ^ 62" and pos: "pos \<le> length (dev_contents d)"
  have un: "unat (of_nat n :: size_t) = n" "unat (of_nat pos :: size_t) = pos"
    using n pos d by (simp_all add: unat_of_nat)
  show "\<exists>data pos' s' rest. dev_read n pos d = Some (data, pos', s') \<and> dev_readable s' \<and>
      dev_contents s' = dev_contents d \<and> length data \<le> n \<and> drop pos (dev_contents d) = data @ rest \<and>
      (data = [] \<longrightarrow> rest = []) \<and> (data \<noteq> [] \<longrightarrow> pos' = pos + length data)"
  proof (cases "locate (map length (cmds d)) pos")
    case None
    then have "drop pos (dev_contents d) = []" by (simp add: locate_None length_concat)
    with None d un show ?thesis
      by (simp add: dev_read_def aesd_read_spec)
  next
    case (Some p)
    then obtain k r where l: "locate (map length (cmds d)) pos = Some (k, r)" by (cases p) auto
    let ?data = "take n (drop r (cmds d ! k))"
    have split: "drop pos (dev_contents d) =
      ?data @ drop n (drop r (cmds d ! k)) @ concat (drop (Suc k) (cmds d))"
      unfolding locate_concat [OF l] append_assoc [symmetric] append_take_drop_id ..
    from locate_Some [OF l] have r: "k < length (cmds d)" "r < length (cmds d ! k)" by auto
    have "length ?data \<le> total d - pos"
      using arg_cong [OF split, of length] by simp
    moreover have "total d < 2 ^ 64" using d by simp
    ultimately have bound: "pos + length ?data < 2 ^ 64" using pos by linarith
    then have "unat (of_nat pos + of_nat (length ?data) :: size_t) = pos + length ?data"
      by (simp add: unat_of_nat flip: of_nat_add)
    with l d un r n split show ?thesis
      by (intro exI [of _ ?data]) (auto simp: dev_read_def aesd_read_spec Let_def)
  qed
qed

section \<open>Runs of the device\<close>

lemma pending_length: "aesd_ok d \<Longrightarrow> length (pending d) = unat (esize (temp_entry d))"
  by (auto simp: aesd_ok_def pending_def held_def aesd_safe_def length_content)

lemma concat_keep_last: "length (concat (keep_last n xs)) \<le> length (concat xs)"
proof -
  have "concat xs = concat (take (length xs - n) xs) @ concat (keep_last n xs)"
    unfolding keep_last_def concat_append [symmetric] by simp
  then show ?thesis by simp
qed

lemma spec_write_length:
  "length (concat (fst (spec_write s ub))) + length (snd (spec_write s ub)) \<le>
     length (concat (fst s)) + length (snd s) + length ub"
  using concat_keep_last [of 10 "fst s @ [snd s @ ub]"]
  by (auto simp: spec_write_def split: prod.splits)

lemma spec_writes_length:
  "length (concat (fst (foldl spec_write s ws))) + length (snd (foldl spec_write s ws)) \<le>
     length (concat (fst s)) + length (snd s) + length (concat ws)"
proof (induction ws arbitrary: s)
  case (Cons ub ws)
  from Cons.IH [of "spec_write s ub"] spec_write_length [of s ub] show ?case by simp
qed simp

text \<open>
  A run of complete writes.  \<open>al\<close> is the allocator: what it answers may depend on the heap and on
  the block that is to be resized, NULL when there is none.
\<close>

fun write_all :: "(heap \<Rightarrow> ptr \<Rightarrow> alloc) \<Rightarrow> byte list list \<Rightarrow> aesd_dev \<Rightarrow> aesd_dev option" where
  "write_all al [] d = Some d"
| "write_all al (ub # ws) d =
     (case aesd_write False (al (kheap d) (pending_block d)) 0 ub 0 d of
        Some (Inr n, _, d') \<Rightarrow> if n = of_nat (length ub) then write_all al ws d' else None
      | _ \<Rightarrow> None)"

lemma aesd_ok_finite: "aesd_ok d \<Longrightarrow> finite (dom (kheap d))"
  by (simp add: aesd_ok_def)


lemma write_all_spec:
  assumes "aesd_ok d" "\<forall>h p. finite (dom h) \<longrightarrow> resized_alloc h p (al h p)" "[] \<notin> set ws"
    "total d + length (pending d) + length (concat ws) < 2 ^ 64"
  shows "\<exists>d'. write_all al ws d = Some d' \<and> aesd_ok d' \<and>
    (cmds d', pending d') = foldl spec_write (cmds d, pending d) ws"
  using assms
proof (induction ws arbitrary: d)
  case Nil
  then show ?case by simp
next
  case (Cons ub ws)
  have fr: "resized_alloc (kheap d) (pending_block d) (al (kheap d) (pending_block d))" using Cons.prems(1,2) aesd_ok_finite by blast
  have pre: "write_pre (al (kheap d) (pending_block d)) 0 ub d"
    using fr Cons.prems(4) pending_length [OF Cons.prems(1)] by (simp add: write_pre_def)
  have ne: "unat (esize (temp_entry d)) + length ub - 0 \<noteq> 0" "addr (al (kheap d) (pending_block d)) \<noteq> NULL"
    using Cons.prems(3) fr by (auto simp: resized_alloc_def)
  from aesd_write_good [OF Cons.prems(1) pre ne(2,1), of 0] obtain d1 where
    d1: "aesd_write False (al (kheap d) (pending_block d)) 0 ub 0 d = Some (Inr (of_nat (length ub)), 0, d1)" "aesd_ok d1"
      "(cmds d1, pending d1) = spec_write (cmds d, pending d) ub" by auto
  have "total d1 + length (pending d1) + length (concat ws) < 2 ^ 64"
    using spec_write_length [of "(cmds d, pending d)" ub] Cons.prems(4) d1(3)[symmetric] by simp
  with Cons.IH [OF d1(2) Cons.prems(2)] Cons.prems(3) d1 show ?case by auto
qed

definition fresh_device :: "aesd_dev \<Rightarrow> aesd_dev" where
  "fresh_device d = snd (aesd_init_module None None Map.empty d)"

lemma fresh_device_ok: "aesd_ok (fresh_device d)" "cmds (fresh_device d) = []" "pending (fresh_device d) = []"
  using cb_wf_init
  by (auto simp: fresh_device_def aesd_init_module_def aesd_setup_cdev_def dev_defs)

section \<open>Reachable states\<close>

text \<open>
  Every interleaving of the file operations, whatever interruptions, failed allocations and
  failed copies happen on the way.
\<close>

inductive dev_step :: "aesd_dev \<Rightarrow> aesd_dev \<Rightarrow> bool" where
  step_open: "aesd_open d = (r, d') \<Longrightarrow> dev_step d d'"
| step_release: "aesd_release d = (r, d') \<Longrightarrow> dev_step d d'"
| step_read: "total d < 2 ^ 31 \<Longrightarrow> aesd_read intr nc count f_pos d = Some (r, f, data, d') \<Longrightarrow> dev_step d d'"
| step_write: "write_pre a nc ub d \<Longrightarrow> aesd_write intr a nc ub f_pos d = Some (r, f, d') \<Longrightarrow> dev_step d d'"

inductive dev_reach :: "aesd_dev \<Rightarrow> bool" where
  reach_init: "dev_reach (fresh_device d)"
| reach_step: "dev_reach d \<Longrightarrow> dev_step d d' \<Longrightarrow> dev_reach d'"

lemma aesd_read_any:
  assumes safe: "aesd_safe d" and small: "total d < 2 ^ 31"
  shows "\<exists>r f data. aesd_read intr nc count f_pos d = Some (r, f, data, d)"
  using aesd_read_spec [OF safe small, of nc count f_pos]
  by (cases intr) (auto simp: aesd_read_def Let_def split: option.splits prod.splits)

lemma dev_step_safe: "dev_step d d' \<Longrightarrow> aesd_safe d \<Longrightarrow> aesd_safe d'"
proof (induction rule: dev_step.induct)
  case (step_read d intr nc count f_pos r f data d')
  with aesd_read_any [of d intr nc count f_pos] show ?case by auto
next
  case (step_write a nc ub d intr f_pos r f d')
  with aesd_write_safe [of d a nc ub intr f_pos] show ?case by auto
qed (simp_all add: aesd_open_def aesd_release_def)

lemma dev_reach_safe: "dev_reach d \<Longrightarrow> aesd_safe d"
  by (induction rule: dev_reach.induct)
    (use fresh_device_ok in \<open>auto simp: aesd_ok_def intro: dev_step_safe\<close>)

section \<open>Release of the blocks\<close>

lemma live_rotate: "cb_wf b \<Longrightarrow> full b \<Longrightarrow> live b = rotate (out_offs b) (entries b)"
  by (rule nth_equalityI) (auto simp: live_def live_count_def cb_wf_def nth_rotate add.commute)

lemma entries_not_full:
  assumes "cb_wf b" "\<not> full b"
  shows "entries b = live b @ replicate (max_ops - in_offs b) zero_entry"
proof -
  have "drop (in_offs b) (entries b) = replicate (max_ops - in_offs b) zero_entry"
    using assms by (intro nth_equalityI) (auto simp: cb_wf_def)
  then show ?thesis
    using append_take_drop_id [of "in_offs b" "entries b"] live_not_full [OF assms] by simp
qed

lemma entries_live:
  assumes "cb_wf b"
  shows "distinct (map buffptr (live b)) \<Longrightarrow> distinct (filter (\<lambda>p. p \<noteq> NULL) (map buffptr (entries b)))"
    and "set (map buffptr (entries b)) - {NULL} = buffptr ` set (live b) - {NULL}"
proof -
  have "(distinct (map buffptr (live b)) \<longrightarrow> distinct (filter (\<lambda>p. p \<noteq> NULL) (map buffptr (entries b)))) \<and>
    set (map buffptr (entries b)) - {NULL} = buffptr ` set (live b) - {NULL}"
  proof (cases "full b")
    case True
    with assms show ?thesis by (simp add: live_rotate rotate_map [symmetric] distinct_filter)
  next
    case False
    then show ?thesis
      using distinct_filter [of "map buffptr (live b)" "\<lambda>p. p \<noteq> NULL"]
      unfolding entries_not_full [OF assms False] by (auto simp: zero_entry_def)
  qed
  then show "distinct (map buffptr (live b)) \<Longrightarrow> distinct (filter (\<lambda>p. p \<noteq> NULL) (map buffptr (entries b)))"
    and "set (map buffptr (entries b)) - {NULL} = buffptr ` set (live b) - {NULL}" by auto
qed

lemma cleanup_spec:
  assumes safe: "aesd_safe d"
  shows "aesd_cleanup_module d = Some (d\<lparr>cdev_live := False,
    kheap := kheap d |` (- (buffptr ` set (cmd_entries d))), region := False\<rparr>)"
proof -
  let ?ps = "map buffptr (entries (temp_buffer d))"
  have wf: "cb_wf (temp_buffer d)" using safe by (simp add: aesd_safe_def)
  have dist: "distinct (map buffptr (cmd_entries d))" using safe by (simp add: aesd_safe_def held_def)
  have nz: "NULL \<notin> buffptr ` set (cmd_entries d)"
    using safe safe_live [OF safe] by (force simp: blk_ok_def aesd_safe_def)
  have al: "\<forall>p \<in> set ?ps. p \<noteq> NULL \<longrightarrow> kheap d p \<noteq> None"
  proof (intro ballI impI)
    fix p assume "p \<in> set ?ps" "p \<noteq> NULL"
    with entries_live(2) [OF wf] have "p \<in> buffptr ` set (cmd_entries d)" by blast
    with safe_live [OF safe] show "kheap d p \<noteq> None" by (auto simp: blk_ok_def)
  qed
  have len: "length (entries (temp_buffer d)) = max_ops" using wf by (simp add: cb_wf_def)
  have "kfree_list (kheap d) ?ps = Some (kheap d |` (- (set ?ps - {NULL})))"
    by (rule kfree_list_Some [OF entries_live(1) [OF wf dist] al])
  then show ?thesis
    using len nz unfolding entries_live(2) [OF wf]
    by (simp add: aesd_cleanup_module_def aesd_cicular_buffer_free_def)
qed

section \<open>Properties\<close>

text \<open>The module's static memory before it is loaded, and an allocator that never fails.\<close>

definition unloaded :: aesd_dev where
  "unloaded = \<lparr>temp_buffer = aesd_circular_buffer_init, temp_entry = zero_entry, driver_lock = False,
     kheap = Map.empty, region = False, cdev_live = False\<rparr>"

definition next_free :: "heap \<Rightarrow> alloc" where
  "next_free h = \<lparr>addr = Suc (Max (insert 0 (dom h))), junk = (\<lambda>_. 0)\<rparr>"

lemma next_free_fresh: "finite (dom h) \<Longrightarrow> fresh_alloc h (next_free h)"
proof -
  assume fin: "finite (dom h)"
  have "Suc (Max (insert 0 (dom h))) \<notin> dom h"
  proof
    assume "Suc (Max (insert 0 (dom h))) \<in> dom h"
    with fin have "Suc (Max (insert 0 (dom h))) \<le> Max (insert 0 (dom h))" by (intro Max_ge) auto
    then show False by simp
  qed
  then show ?thesis by (auto simp: fresh_alloc_def next_free_def)
qed

text \<open>An allocator that extends blocks where they are.\<close>

definition grow_free :: "heap \<Rightarrow> ptr \<Rightarrow> alloc" where
  "grow_free h p = (if p = NULL then next_free h else (next_free h)\<lparr>addr := p\<rparr>)"

lemma grow_free_resized: "finite (dom h) \<Longrightarrow> resized_alloc h p (grow_free h p)"
  using next_free_fresh[of h] by (auto simp: grow_free_def resized_alloc_def fresh_alloc_def)

lemma fresh_writes:
  assumes "\<forall>h p. finite (dom h) \<longrightarrow> resized_alloc h p (al h p)" "[] \<notin> set ws" "length (concat ws) < 2 ^ 31"
  obtains d' where "write_all al ws (fresh_device d) = Some d'" "aesd_ok d'"
    "(cmds d', pending d') = foldl spec_write ([], []) ws" "total d' < 2 ^ 31"
proof -
  from write_all_spec [OF fresh_device_ok(1) assms(1,2), of d] assms(3) obtain d' where
    d': "write_all al ws (fresh_device d) = Some d'" "aesd_ok d'"
      "(cmds d', pending d') = foldl spec_write ([], []) ws"
    by (auto simp: fresh_device_ok)
  have "total d' < 2 ^ 31"
    using spec_writes_length [of "([], [])" ws] assms(3) by (simp flip: d'(3))
  with d' that show ?thesis by blast
qed

text \<open>
  C1: On a freshly loaded driver whose allocations succeed, any sequence of non-empty writes
  succeeds, each write accepting all its bytes; a client that then reads from position 0, with
  a buffer of any size, until it gets nothing, has exactly the bytes of the ten most recent
  commands, oldest first, a command being the bytes gathered up to a write that contains a
  newline, and its reads leave the driver as it was.
\<close>

theorem write_then_read:
  assumes "\<forall>h p. finite (dom h) \<longrightarrow> resized_alloc h p (al h p)" "[] \<notin> set ws" "length (concat ws) < 2 ^ 31"
    and "0 < n" "n < 2 ^ 62" "2 ^ 31 \<le> fuel"
  shows "\<exists>d' d''. write_all al ws (fresh_device d) = Some d' \<and>
    drain (dev_read n) fuel 0 d' = Some (concat (fst (foldl spec_write ([], []) ws)), d'') \<and>
    cmds d' = fst (foldl spec_write ([], []) ws) \<and> dev_contents d'' = dev_contents d'"
proof -
  from fresh_writes [OF assms(1-3)] obtain d' where d': "write_all al ws (fresh_device d) = Some d'"
    "aesd_ok d'" "(cmds d', pending d') = foldl spec_write ([], []) ws" "total d' < 2 ^ 31" .
  have "dev_readable d'" and "total d' < fuel" using d' assms(6) by (auto simp: aesd_ok_def)
  from aesd_device.drain_all [OF this(1) assms(4,5) this(2)] d' show ?thesis
    by (auto simp flip: d'(3))
qed

lemma write_then_read_witness:
  "\<exists>d' d''. write_all grow_free [[97], [98, newline], [99, newline]] (fresh_device unloaded) = Some d' \<and>
    drain (dev_read 2) (2 ^ 31) 0 d' = Some ([97, 98, newline, 99, newline], d'')"
proof -
  have h: "\<forall>h p. finite (dom h) \<longrightarrow> resized_alloc h p (grow_free h p)" by (simp add: grow_free_resized)
  have "\<exists>d' d''. write_all grow_free [[97], [98, newline], [99, newline]] (fresh_device unloaded) = Some d' \<and>
    drain (dev_read 2) (2 ^ 31) 0 d' =
      Some (concat (fst (foldl spec_write ([], []) [[97], [98, newline], [99, newline]])), d'') \<and>
    cmds d' = fst (foldl spec_write ([], []) [[97], [98, newline], [99, newline]]) \<and>
    dev_contents d'' = dev_contents d'"
    by (rule write_then_read [OF h]) simp_all
  then show ?thesis by (auto simp: spec_write_def keep_last_def)
qed

text \<open>
  C2: In every state that any interleaving of opens, reads, writes and releases reaches,
  whatever interruptions, failed allocations and failed copies occurred, the mutex is free,
  and reading, writing and removing the module access only memory that is allocated and large
  enough, free no block twice, and give the mutex back.
\<close>

theorem driver_memory_safe:
  assumes "dev_reach d"
  shows "\<not> driver_lock d \<and>
    (write_pre a nc ub d \<longrightarrow> (\<exists>r f d'. aesd_write intr a nc ub f_pos d = Some (r, f, d') \<and> \<not> driver_lock d')) \<and>
    (length (dev_contents d) < 2 ^ 31 \<longrightarrow>
      (\<exists>r f data. aesd_read intr nc count f_pos d = Some (r, f, data, d))) \<and>
    (\<exists>d'. aesd_cleanup_module d = Some d')"
proof -
  have safe: "aesd_safe d" by (rule dev_reach_safe [OF assms])
  then have "\<not> driver_lock d" by (simp add: aesd_safe_def)
  moreover have "write_pre a nc ub d \<longrightarrow>
      (\<exists>r f d'. aesd_write intr a nc ub f_pos d = Some (r, f, d') \<and> \<not> driver_lock d')"
    using aesd_write_safe [OF safe, of a nc ub intr f_pos] unfolding aesd_safe_def by blast
  moreover have "length (dev_contents d) < 2 ^ 31 \<longrightarrow>
      (\<exists>r f data. aesd_read intr nc count f_pos d = Some (r, f, data, d))"
    using aesd_read_any [OF safe] by blast
  moreover have "\<exists>d'. aesd_cleanup_module d = Some d'" using cleanup_spec [OF safe] by blast
  ultimately show ?thesis by blast
qed

lemma driver_memory_safe_witness:
  "\<not> driver_lock (fresh_device unloaded) \<and> (\<exists>d'. aesd_cleanup_module (fresh_device unloaded) = Some d')"
  using driver_memory_safe [OF reach_init [of unloaded]] by blast

text \<open>
  C4: Every read of a safe device with less than 2 GiB of commands delivers the next bytes of
  the concatenated commands from the file position on, no more than asked for, and nothing
  only when nothing was asked for or nothing is left; it moves the position behind what it
  delivered, or back to 0 at the end, and changes nothing else.
\<close>

theorem aesd_read_correct:
  assumes "aesd_safe d" "length (dev_contents d) < 2 ^ 31"
  shows "\<exists>data rest. drop (unat f_pos) (dev_contents d) = data @ rest \<and> length data \<le> unat count \<and>
    (data = [] \<longrightarrow> count = 0 \<or> rest = []) \<and>
    aesd_read False 0 count f_pos d =
      Some (Inr (of_nat (length data)),
            if unat f_pos < length (dev_contents d) then f_pos + of_nat (length data) else 0, data, d)"
proof (cases "locate (map length (cmds d)) (unat f_pos)")
  case None
  with aesd_read_spec [OF assms, of 0 count f_pos] show ?thesis
    by (intro exI [of _ "[]"]) (auto simp: locate_None length_concat)
next
  case (Some p)
  then obtain k r where l: "locate (map length (cmds d)) (unat f_pos) = Some (k, r)" by (cases p) auto
  let ?data = "take (unat count) (drop r (cmds d ! k))"
  from locate_Some [OF l] have r: "k < length (cmds d)" "r < length (cmds d ! k)" by auto
  from l have "unat f_pos < length (dev_contents d)"
    using locate_None [of "map length (cmds d)" "unat f_pos"] by (simp add: length_concat)
  moreover have "drop (unat f_pos) (dev_contents d) =
      ?data @ drop (unat count) (drop r (cmds d ! k)) @ concat (drop (Suc k) (cmds d))"
    unfolding locate_concat [OF l] append_assoc [symmetric] append_take_drop_id ..
  ultimately show ?thesis
    using aesd_read_spec [OF assms, of 0 count f_pos] l r
    by (intro exI [of _ ?data] exI) (auto simp: unat_eq_0)
qed

lemma aesd_read_correct_witness:
  "\<exists>data. length data \<le> 4 \<and>
     aesd_read False 0 4 7 (fresh_device unloaded) = Some (Inr (of_nat (length data)), 0, data, fresh_device unloaded)"
  using aesd_read_correct [of "fresh_device unloaded" 7 4] fresh_device_ok [of unloaded] by (auto simp: aesd_ok_def)



text \<open>
  A write that is interrupted, or that starts a command and finds no memory, reports the
  error and leaves the commands, the pending bytes, the file position and the order of the
  device as they were.
\<close>

theorem aesd_write_error:
  assumes "aesd_ok d" "intr \<or> addr a = NULL \<and> pending d = []"
  shows "\<exists>d'. aesd_write intr a nc ub f_pos d =
      Some (Inl (if intr then ERESTARTSYS else ENOMEM), f_pos, d') \<and>
    aesd_ok d' \<and> cmds d' = cmds d \<and> pending d' = pending d"
proof (cases intr)
  case True
  with assms show ?thesis by (simp add: aesd_write_def)
next
  case False
  have es: "esize (temp_entry d) = 0"
    using assms False pending_length [OF assms(1)] by (simp add: unat_eq_0)
  with False assms show ?thesis
    by (simp add: aesd_write_def lock_dev_def kmalloc_def dev_defs Let_def)
qed

lemma aesd_write_error_witness:
  "\<exists>d'. aesd_write False \<lparr>addr = NULL, junk = (\<lambda>_. 0)\<rparr> 0 [97] 0 (fresh_device unloaded) = Some (Inl ENOMEM, 0, d') \<and>
     cmds d' = []"
  using aesd_write_error [of "fresh_device unloaded" False "\<lparr>addr = NULL, junk = (\<lambda>_. 0)\<rparr>" 0 "[97]" 0]
  by (auto simp: fresh_device_ok)

text \<open>
  Removing the module frees every command's block once and no other; what stays allocated
  is the block of an unfinished command, if there is one.
\<close>

theorem cleanup_frees_commands:
  assumes "aesd_ok d"
  shows "\<exists>d'. aesd_cleanup_module d = Some d' \<and> \<not> cdev_live d' \<and> \<not> region d' \<and>
    dom (kheap d') = (if pending d = [] then {} else {buffptr (temp_entry d)})"
proof -
  have safe: "aesd_safe d" using assms by (simp add: aesd_ok_def)
  have e: "esize (temp_entry d) = 0 \<longleftrightarrow> pending d = []"
    using pending_length [OF assms] by (metis length_0_conv unat_eq_0)
  have nin: "esize (temp_entry d) \<noteq> 0 \<Longrightarrow> buffptr (temp_entry d) \<notin> buffptr ` set (cmd_entries d)"
    using assms by (auto simp: aesd_ok_def aesd_safe_def held_def)
  show ?thesis
    unfolding cleanup_spec [OF safe]
    using assms e nin by (auto simp: aesd_ok_def held_def split: if_splits)
qed

lemma cleanup_frees_commands_witness:
  "\<exists>d'. aesd_cleanup_module (fresh_device unloaded) = Some d' \<and> dom (kheap d') = {}"
  using cleanup_frees_commands [of "fresh_device unloaded"] by (auto simp: fresh_device_ok)

text \<open>
  When the reallocation of an unfinished command fails, its bytes are lost and its size is
  not: after \<open>a\<close> was accepted, a failed write and a successful write of a newline, the device
  holds a command of two bytes whose first byte is whatever the new block contained, and the
  block of the lost byte is never freed.
\<close>

theorem krealloc_failure_corrupts:
  "\<exists>d1 d2 d3.
     aesd_write False \<lparr>addr = 8, junk = (\<lambda>_. 0)\<rparr> 0 [97] 0 (fresh_device d) = Some (Inr 1, 0, d1) \<and>
     aesd_write False \<lparr>addr = NULL, junk = (\<lambda>_. 0)\<rparr> 0 [98] 0 d1 = Some (Inl ENOMEM, 0, d2) \<and>
     aesd_write False \<lparr>addr = 9, junk = (\<lambda>_. 255)\<rparr> 0 [newline] 0 d2 = Some (Inr 1, 0, d3) \<and>
     cmds d1 = [] \<and> pending d1 = [97] \<and>
     cmds d3 = [[255, newline]] \<and>
     map_option (\<lambda>d4. kheap d4 8) (aesd_cleanup_module d3) = Some (Some [97])"
proof -
  let ?b = aesd_circular_buffer_init
  let ?d1 = "(fresh_device d)\<lparr>temp_entry := \<lparr>buffptr = 8, esize = 1\<rparr>, kheap := [8 \<mapsto> [97]]\<rparr>"
  let ?d2 = "?d1\<lparr>temp_entry := \<lparr>buffptr = NULL, esize = 1\<rparr>\<rparr>"
  let ?b3 = "?b\<lparr>entries := (replicate 10 zero_entry)[0 := \<lparr>buffptr = 9, esize = 2\<rparr>], in_offs := 1\<rparr>"
  let ?d3 = "?d1\<lparr>temp_buffer := ?b3, temp_entry := \<lparr>buffptr = NULL, esize = 0\<rparr>,
     kheap := [8 \<mapsto> [97], 9 \<mapsto> [255, newline]]\<rparr>"
  note dev = fresh_device_def aesd_init_module_def aesd_setup_cdev_def aesd_circular_buffer_init_def
  note wr = aesd_write_def lock_dev_def unlock_dev_def kmalloc_def krealloc_def aesd_write_copy_def
    aesd_write_finish_def mem_read_def mem_write_def Let_def
  have w1: "aesd_write False \<lparr>addr = 8, junk = (\<lambda>_. 0)\<rparr> 0 [97] 0 (fresh_device d) = Some (Inr 1, 0, ?d1)"
    by (simp add: dev wr)
  have w2: "aesd_write False \<lparr>addr = NULL, junk = (\<lambda>_. 0)\<rparr> 0 [98] 0 ?d1 = Some (Inl ENOMEM, 0, ?d2)"
    by (simp add: dev wr)
  have w3: "aesd_write False \<lparr>addr = 9, junk = (\<lambda>_. 255)\<rparr> 0 [newline] 0 ?d2 = Some (Inr 1, 0, ?d3)"
    by (simp add: dev wr mem_at_def aesd_circular_buffer_add_entry_def upt_rec)
  have ab: "cmds ?d1 = []" "pending ?d1 = [97]" "cmds ?d3 = [[255, newline]]" "live ?b3 = [\<lparr>buffptr = 9, esize = 2\<rparr>]"
    by (simp_all add: cmds_def pending_def content_def live_def live_count_def dev)
  have "cb_wf ?b3" by (auto simp: cb_wf_def dev)
  then have "aesd_safe ?d3" using ab(4) by (simp add: aesd_safe_def held_def blk_ok_def fresh_device_def aesd_init_module_def aesd_setup_cdev_def)
  from cleanup_spec [OF this] have "map_option (\<lambda>d4. kheap d4 8) (aesd_cleanup_module ?d3) = Some (Some [97])"
    using ab(4) by (auto simp: restrict_map_def)
  with w1 w2 w3 ab show ?thesis by blast
qed

end
