(* ===== verification/Aesd_Socket.thy ===== *)
theory Aesd_Socket
  imports Aesd_Driver
begin

text \<open>
  The socket server \<open>server/aesdsocket.c\<close>, in the configuration of the source, with
  \<open>USE_AESD_CHAR_DEVICE\<close> defined: the receive loop of a connection, the write to the device,
  the loop that sends the device's contents back, the connection thread composed of them, and
  the main program with its list of threads.  The device file is what the server sees of it, a
  read and a write function; the driver of \<open>Aesd_Driver\<close> provides them.  The memory of the
  process is an explicit heap; what an allocation answers is the function \<open>al\<close> of the heap,
  the block to be resized (NULL for \<open>malloc\<close>) and the size.
\<close>

section \<open>State\<close>

abbreviation (input) BUFFER_MAX :: nat where "BUFFER_MAX \<equiv> 100"

text \<open>
  The locals of \<open>thread_func\<close> and its \<open>struct thread_data\<close>.  \<open>new_line\<close> is whether the pointer
  of that name is not NULL, \<open>fpos\<close> the position of the thread's own open file, \<open>sent\<close> what has
  been sent to the client.
\<close>

record thread =
  buffer :: "byte list"
  read_buffer :: ptr
  rdbuff_size :: nat
  malloc_size :: nat
  write_buffer :: ptr
  wrbuff_size :: nat
  realloc_size :: nat
  cur_pos :: nat
  bytes :: nat
  new_line :: bool
  fpos :: nat
  sent :: "byte list list"
  sock_open :: bool
  file_open :: bool
  thread_complete :: bool

text \<open>What the threads share: the device, \<open>end_pos\<close>, \<open>data_mutex\<close> and the heap.\<close>

record 's server =
  sdev :: 's
  end_pos :: nat
  data_mutex :: bool
  uheap :: heap

type_synonym allocator = "heap \<Rightarrow> ptr \<Rightarrow> nat \<Rightarrow> alloc"

text \<open>
  \<open>strchr\<close> on the cells from the pointer on: a position, NULL when a zero byte comes first, and
  undefined when it runs off the object.
\<close>

fun c_strchr :: "byte \<Rightarrow> byte list \<Rightarrow> nat option option" where
  "c_strchr c [] = None"
| "c_strchr c (x # xs) =
     (if x = c then Some (Some 0)
      else if x = 0 then Some None
      else map_option (map_option Suc) (c_strchr c xs))"

text \<open>Taking the mutex: a mutex that is not given back is waited for without end.\<close>

definition lock_data :: "'s server \<Rightarrow> 's server option" where
  "lock_data s = (if data_mutex s then None else Some (s\<lparr>data_mutex := True\<rparr>))"

section \<open>The receive loop\<close>

text \<open>
  One round of the loop for the bytes received.  The result of \<open>realloc\<close> is compared with NULL
  and dropped: \<open>read_buffer\<close> keeps the old address.
\<close>

definition recv_grow :: "allocator \<Rightarrow> nat \<Rightarrow> thread \<Rightarrow> heap \<Rightarrow> (thread \<times> heap) option" where
  "recv_grow al recv_byte t h =
     (if malloc_size t - rdbuff_size t < recv_byte then do {
        let t = t\<lparr>malloc_size := malloc_size t + recv_byte\<rparr>;
        (tmp_realloc, h) \<leftarrow> krealloc h (al h (read_buffer t) (malloc_size t)) (read_buffer t) (malloc_size t);
        if tmp_realloc = NULL then do {
          h \<leftarrow> kfree h (read_buffer t);
          Some (t\<lparr>read_buffer := NULL\<rparr>, h)
        } else Some (t, h)
      } else Some (t, h))"

definition recv_store :: "byte list \<Rightarrow> thread \<Rightarrow> heap \<Rightarrow> (thread \<times> heap) option" where
  "recv_store data t h = do {
     blk \<leftarrow> h (read_buffer t);
     blk \<leftarrow> mem_write blk (rdbuff_size t) data;
     Some (t\<lparr>rdbuff_size := rdbuff_size t + length data\<rparr>, h(read_buffer t \<mapsto> blk))
   }"

text \<open>
  The loop, over what the calls of \<open>recv\<close> return: an error, which the code does not look at and
  which makes the copy of \<open>-1\<close> bytes undefined, or the bytes.  A client that sends no more and
  keeps the connection open is waited for without end.
\<close>

fun recv_loop :: "allocator \<Rightarrow> (errno + byte list) list \<Rightarrow> thread \<Rightarrow> heap \<Rightarrow> (thread \<times> heap) option" where
  "recv_loop al [] t h = None"
| "recv_loop al (Inl e # rs) t h = None"
| "recv_loop al (Inr data # rs) t h = do {
     buf \<leftarrow> mem_write (buffer t) 0 data;
     nl \<leftarrow> (if data = [] then Some None else c_strchr newline buf);
     let break_loop = (data = [] \<or> nl \<noteq> None);
     (t, h) \<leftarrow> recv_grow al (length data) (t\<lparr>buffer := buf\<rparr>) h;
     (t, h) \<leftarrow> recv_store data t h;
     if break_loop then Some (t, h) else recv_loop al rs t h
   }"

section \<open>The write to the device\<close>

text \<open>
  A write function takes the bytes and the position and returns what \<open>write\<close> returns.  When
  that is not the number of bytes the thread leaves with the mutex held.
\<close>

type_synonym 's dev_writer = "byte list \<Rightarrow> nat \<Rightarrow> 's \<Rightarrow> (int \<times> nat \<times> 's) option"
type_synonym 's dev_reader = "nat \<Rightarrow> nat \<Rightarrow> 's \<Rightarrow> (byte list \<times> nat \<times> 's) option"

definition write_out :: "'s dev_writer \<Rightarrow> thread \<Rightarrow> 's server \<Rightarrow> (bool \<times> thread \<times> 's server) option" where
  "write_out wr t s = do {
     s \<leftarrow> lock_data s;
     blk \<leftarrow> uheap s (read_buffer t);
     data \<leftarrow> mem_read blk 0 (rdbuff_size t);
     (write_byte, pos, dev) \<leftarrow> wr data (fpos t) (sdev s);
     let s = s\<lparr>sdev := dev\<rparr>;
     let t = t\<lparr>fpos := pos\<rparr>;
     if write_byte \<noteq> int (rdbuff_size t) then Some (False, t, s)
     else Some (True, t\<lparr>fpos := 0\<rparr>,
                s\<lparr>end_pos := end_pos s + nat write_byte, data_mutex := False\<rparr>)
   }"

section \<open>The echo loop\<close>

text \<open>
  The inner loop collects one line byte by byte.  Again the result of \<open>realloc\<close> is dropped, and
  the search for the newline runs over the whole of \<open>write_buffer\<close>, initialised or not, once
  there is more than one byte.
\<close>

definition echo_grow :: "allocator \<Rightarrow> int \<Rightarrow> thread \<Rightarrow> heap \<Rightarrow> (thread \<times> heap) option" where
  "echo_grow al required_memory t h =
     (if int (realloc_size t) < required_memory then do {
        let t = t\<lparr>realloc_size := realloc_size t + nat required_memory\<rparr>;
        (tmp_realloc, h) \<leftarrow> krealloc h (al h (write_buffer t) (realloc_size t)) (write_buffer t) (realloc_size t);
        if tmp_realloc = NULL then do {
          h \<leftarrow> kfree h (write_buffer t);
          Some (t\<lparr>write_buffer := NULL\<rparr>, h)
        } else Some (t, h)
      } else Some (t, h))"

partial_function (option) read_line ::
  "'s dev_reader \<Rightarrow> allocator \<Rightarrow> int \<Rightarrow> thread \<Rightarrow> 's server \<Rightarrow> (thread \<times> 's server) option" where
  "read_line rd al required_memory t s = do {
     (data, pos, dev) \<leftarrow> rd 1 (fpos t) (sdev s);
     (t, h) \<leftarrow> echo_grow al required_memory (t\<lparr>fpos := pos\<rparr>) (uheap s);
     blk \<leftarrow> h (write_buffer t);
     blk \<leftarrow> mem_write blk (wrbuff_size t) data;
     let t = t\<lparr>wrbuff_size := wrbuff_size t + length data\<rparr>;
     nl \<leftarrow> (if 1 < wrbuff_size t then map_option (\<lambda>r. r \<noteq> None) (c_strchr newline blk)
            else Some (new_line t));
     let t = t\<lparr>new_line := nl\<rparr>;
     let s = s\<lparr>sdev := dev, uheap := h(write_buffer t \<mapsto> blk)\<rparr>;
     if nl then Some (t, s) else read_line rd al required_memory t s
   }"

text \<open>
  The outer loop.  \<open>send\<close> is what \<open>send\<close> returns for what was sent before and the bytes.  The
  result says whether the thread goes on to its end or leaves early.  \<open>echo_send\<close> is the part
  of a round after the line is complete.
\<close>

definition echo_send ::
  "(byte list list \<Rightarrow> byte list \<Rightarrow> int) \<Rightarrow> thread \<Rightarrow> 's server \<Rightarrow> (bool \<times> thread \<times> 's server) option" where
  "echo_send send t s = do {
     let s = s\<lparr>data_mutex := False\<rparr>;
     let t = t\<lparr>cur_pos := wrbuff_size t\<rparr>;
     blk \<leftarrow> uheap s (write_buffer t);
     data \<leftarrow> mem_read blk 0 (wrbuff_size t);
     let send_byte = send (sent t) data;
     let t = t\<lparr>sent := sent t @ [take (nat send_byte) data]\<rparr>;
     if send_byte \<noteq> int (wrbuff_size t) then Some (False, t, s)
     else do {
       h \<leftarrow> kfree (uheap s) (write_buffer t);
       Some (True, t\<lparr>bytes := bytes t + wrbuff_size t, write_buffer := NULL\<rparr>, s\<lparr>uheap := h\<rparr>)
     }
   }"

partial_function (option) echo_loop ::
  "'s dev_reader \<Rightarrow> allocator \<Rightarrow> (byte list list \<Rightarrow> byte list \<Rightarrow> int) \<Rightarrow> thread \<Rightarrow> 's server \<Rightarrow>
     (bool \<times> thread \<times> 's server) option" where
  "echo_loop rd al send t s =
     (if bytes t < end_pos s then do {
        let required_memory = int (end_pos s) - int (cur_pos t);
        let (p, h) = kmalloc (uheap s) (al (uheap s) NULL BUFFER_MAX) BUFFER_MAX;
        let t = t\<lparr>wrbuff_size := 0, write_buffer := p\<rparr>;
        let s = s\<lparr>uheap := h\<rparr>;
        if p = NULL then Some (False, t, s)
        else do {
          s \<leftarrow> lock_data s;
          (t, s) \<leftarrow> read_line rd al required_memory t s;
          (go_on, t, s) \<leftarrow> echo_send send t s;
          if go_on then echo_loop rd al send t s else Some (False, t, s)
        }
      } else Some (True, t, s))"

section \<open>The connection thread\<close>

text \<open>
  \<open>buf\<close> is what the uninitialised array \<open>buffer\<close> holds.  Every exit but the last leaves the
  socket open and \<open>thread_complete\<close> false; the failure of the first allocation is looked at
  only after it was written to.
\<close>

definition new_thread :: "byte list \<Rightarrow> thread" where
  "new_thread buf = \<lparr>buffer = buf, read_buffer = NULL, rdbuff_size = 0, malloc_size = BUFFER_MAX,
     write_buffer = NULL, wrbuff_size = 0, realloc_size = BUFFER_MAX, cur_pos = 0, bytes = 0,
     new_line = False, fpos = 0, sent = [], sock_open = True, file_open = False, thread_complete = False\<rparr>"

definition thread_finish :: "thread \<Rightarrow> 's server \<Rightarrow> (thread \<times> 's server) option" where
  "thread_finish t s = do {
     h \<leftarrow> kfree (uheap s) (read_buffer t);
     Some (t\<lparr>read_buffer := NULL, sock_open := False, file_open := False, thread_complete := True\<rparr>,
           s\<lparr>uheap := h\<rparr>)
   }"

definition thread_func ::
  "'s dev_reader \<Rightarrow> 's dev_writer \<Rightarrow> allocator \<Rightarrow> (byte list list \<Rightarrow> byte list \<Rightarrow> int) \<Rightarrow> bool \<Rightarrow>
     (errno + byte list) list \<Rightarrow> byte list \<Rightarrow> 's server \<Rightarrow> (thread \<times> 's server) option" where
  "thread_func rd wr al send open_ok rs buf s =
     (let t = new_thread buf in
      if \<not> open_ok then Some (t, s)
      else do {
        let t = t\<lparr>file_open := True\<rparr>;
        let (p, h) = kmalloc (uheap s) (al (uheap s) NULL BUFFER_MAX) BUFFER_MAX;
        blk \<leftarrow> h p;
        blk \<leftarrow> mem_write blk 0 (replicate BUFFER_MAX 0);
        (t, h) \<leftarrow> recv_loop al rs (t\<lparr>read_buffer := p\<rparr>) (h(p \<mapsto> blk));
        (go_on, t, s) \<leftarrow> write_out wr t (s\<lparr>uheap := h\<rparr>);
        if \<not> go_on then Some (t, s)
        else do {
          (go_on, t, s) \<leftarrow> echo_loop rd al send t s;
          if \<not> go_on then Some (t, s) else thread_finish t s
        }
      })"

section \<open>Allocators and strchr\<close>

text \<open>
  \<open>lib_alloc\<close> is the contract of \<open>malloc\<close> when there is memory.  What the code relies on beyond the
  contract of the C library are \<open>in_place\<close>, that \<open>realloc\<close> leaves a block where it is, because its
  result is dropped, and \<open>search_ends\<close>, that a block of new memory ends with a zero byte or a newline,
  because \<open>strchr\<close> searches memory that was never written.  Neither is promised by the library.
\<close>

definition lib_alloc :: "allocator \<Rightarrow> bool" where
  "lib_alloc al \<longleftrightarrow> (\<forall>h n. finite (dom h) \<longrightarrow> fresh_alloc h (al h NULL n))"

definition in_place :: "allocator \<Rightarrow> bool" where
  "in_place al \<longleftrightarrow> (\<forall>h p n. p \<noteq> NULL \<longrightarrow> addr (al h p n) = p)"

definition search_ends :: "allocator \<Rightarrow> bool" where
  "search_ends al \<longleftrightarrow> (\<forall>h p n. 0 < n \<longrightarrow> junk (al h p n) (n - 1) \<in> {nul, newline})"

definition ends_search :: "byte list \<Rightarrow> bool" where
  "ends_search z \<longleftrightarrow> z \<noteq> [] \<and> last z \<in> {nul, newline}"

lemma ends_search_junk:
  "search_ends al \<Longrightarrow> m < n \<Longrightarrow> ends_search (z @ map (junk (al h p n)) [m..<n])"
proof -
  assume al: "search_ends al" and m: "m < n"
  have "[m..<n] = [m..<n - 1] @ [n - 1]" using m upt_Suc_append [of m "n - 1"] by simp
  then have "last (z @ map (junk (al h p n)) [m..<n]) = junk (al h p n) (n - 1)" by simp
  moreover have "junk (al h p n) (n - 1) \<in> {nul, newline}" using al m by (simp only: search_ends_def)
  ultimately show ?thesis using m by (simp only: ends_search_def) simp
qed

lemma ends_search_drop: "ends_search (z # zs) \<Longrightarrow> zs \<noteq> [] \<Longrightarrow> ends_search zs"
  by (simp add: ends_search_def)

lemma krealloc_in_place:
  assumes "addr a = p" "p \<noteq> NULL" "h p = Some old" "length old \<le> n"
  shows "krealloc h a p n = Some (p, h(p \<mapsto> old @ map (junk a) [length old..<n]))"
  using assms by (simp add: krealloc_def)

lemma strchr_hit: "c \<notin> set xs \<Longrightarrow> 0 \<notin> set xs \<Longrightarrow> c_strchr c (xs @ c # ys) = Some (Some (length xs))"
  by (induction xs) auto

lemma strchr_nul: "c \<notin> set xs \<Longrightarrow> 0 \<notin> set xs \<Longrightarrow> c \<noteq> 0 \<Longrightarrow> c_strchr c (xs @ 0 # ys) = Some None"
  by (induction xs) auto

lemma strchr_none: "c \<notin> set xs \<Longrightarrow> 0 \<in> set xs \<Longrightarrow> c_strchr c xs = Some None"
  by (induction xs) auto

lemma strchr_overrun: "c \<notin> set xs \<Longrightarrow> 0 \<notin> set xs \<Longrightarrow> c_strchr c xs = None"
  by (induction xs) auto

lemma strchr_ends: "ends_search z \<Longrightarrow> \<exists>r. c_strchr newline z = Some r"
proof (induction z)
  case Nil
  then show ?case by (simp add: ends_search_def)
next
  case (Cons x xs)
  show ?case
  proof (cases "xs = []")
    case True
    with Cons.prems show ?thesis by (auto simp: ends_search_def)
  next
    case False
    from Cons.IH [OF ends_search_drop [OF Cons.prems False]] show ?thesis by auto
  qed
qed

lemma strchr_text: "newline \<notin> set xs \<Longrightarrow> nul \<notin> set xs \<Longrightarrow> ends_search z \<Longrightarrow> \<exists>r. c_strchr newline (xs @ z) = Some r"
  by (induction xs) (auto simp: strchr_ends)

lemma strchr_first:
  assumes "newline \<in> set xs" "nul \<notin> set xs"
  shows "\<exists>i. c_strchr newline (xs @ ys) = Some (Some i)"
proof -
  from split_list_first [OF assms(1)] obtain us vs where "xs = us @ newline # vs" "newline \<notin> set us" by blast
  with assms strchr_hit [of newline us "vs @ ys"] show ?thesis by auto
qed

section \<open>Receiving a line\<close>

lemma recv_grow_ok:
  assumes "in_place al \<or> rdbuff_size t + n \<le> malloc_size t" "h (read_buffer t) = Some blk" "read_buffer t \<noteq> NULL"
    "length blk = malloc_size t" "rdbuff_size t \<le> malloc_size t"
  shows "\<exists>blk'. recv_grow al n t h = Some (t\<lparr>malloc_size := length blk'\<rparr>, h(read_buffer t \<mapsto> blk')) \<and>
    take (rdbuff_size t) blk' = take (rdbuff_size t) blk \<and> rdbuff_size t + n \<le> length blk' \<and>
    malloc_size t \<le> length blk'"
proof (cases "malloc_size t - rdbuff_size t < n")
  case False
  have "h(read_buffer t \<mapsto> blk) = h" using assms(2) by auto
  with False assms show ?thesis
    by (intro exI [of _ blk]) (simp add: recv_grow_def)
next
  case True
  then have ip: "in_place al" using assms(1,5) by auto
  let ?a = "al h (read_buffer t) (malloc_size t + n)"
  let ?blk = "blk @ map (junk ?a) [length blk..<malloc_size t + n]"
  have "krealloc h ?a (read_buffer t) (malloc_size t + n) = Some (read_buffer t, h(read_buffer t \<mapsto> ?blk))"
    using assms ip by (intro krealloc_in_place) (auto simp: in_place_def)
  with True assms show ?thesis
    by (intro exI [of _ ?blk]) (simp add: recv_grow_def Let_def)
qed

text \<open>The part of the thread that receiving changes.\<close>

definition recv_only :: "thread \<Rightarrow> thread \<Rightarrow> bool" where
  "recv_only t t' \<longleftrightarrow>
     t' = t\<lparr>buffer := buffer t', malloc_size := malloc_size t', rdbuff_size := rdbuff_size t'\<rparr>"

text \<open>\<open>recv_inv\<close>: the bytes received so far are \<open>xs\<close>, in a block of the recorded size.\<close>

definition recv_inv :: "thread \<Rightarrow> byte list \<Rightarrow> byte list \<Rightarrow> bool" where
  "recv_inv t blk xs \<longleftrightarrow> length blk = malloc_size t \<and> rdbuff_size t = length xs \<and>
     rdbuff_size t \<le> malloc_size t \<and> take (length xs) blk = xs"

lemma recv_only_fields:
  "recv_only t t' \<Longrightarrow> read_buffer t' = read_buffer t \<and> fpos t' = fpos t \<and> bytes t' = bytes t \<and>
     cur_pos t' = cur_pos t \<and> new_line t' = new_line t \<and> realloc_size t' = realloc_size t \<and> sent t' = sent t"
  unfolding recv_only_def by (erule ssubst [of t']) simp

lemma recv_only_trans: "recv_only t t1 \<Longrightarrow> recv_only t1 t' \<Longrightarrow> recv_only t t'"
  unfolding recv_only_def by (erule ssubst [of t'], erule ssubst [of t1]) simp

lemma recv_round:
  assumes al: "in_place al \<or> length xs + length data \<le> malloc_size t"
    and blk: "h (read_buffer t) = Some blk" "read_buffer t \<noteq> NULL"
    and inv: "recv_inv t blk xs"
    and len: "length data \<le> length (buffer t)"
    and nl: "(if data = [] then Some None else c_strchr newline (data @ drop (length data) (buffer t))) = Some nl"
  shows "\<exists>t' blk'. recv_inv t' blk' (xs @ data) \<and> buffer t' = data @ drop (length data) (buffer t) \<and> recv_only t t' \<and>
    malloc_size t \<le> malloc_size t' \<and>
    recv_loop al (Inr data # rs) t h =
      (if data = [] \<or> nl \<noteq> None then Some (t', h(read_buffer t \<mapsto> blk'))
       else recv_loop al rs t' (h(read_buffer t \<mapsto> blk')))"
proof -
  let ?buf = "data @ drop (length data) (buffer t)"
  let ?t = "t\<lparr>buffer := ?buf\<rparr>"
  have sz: "length blk = malloc_size ?t" "rdbuff_size ?t \<le> malloc_size ?t" "rdbuff_size t = length xs"
    "take (length xs) blk = xs"
    using inv by (auto simp: recv_inv_def)
  have "in_place al \<or> rdbuff_size ?t + length data \<le> malloc_size ?t" using al sz(3) by simp
  from recv_grow_ok [OF this, of h blk] blk sz obtain blk1 where
    g: "recv_grow al (length data) ?t h = Some (?t\<lparr>malloc_size := length blk1\<rparr>, h(read_buffer t \<mapsto> blk1))"
    and tk: "take (length xs) blk1 = xs" and room: "length xs + length data \<le> length blk1"
    and more: "malloc_size t \<le> length blk1" by auto
  let ?blk = "take (length xs) blk1 @ data @ drop (length xs + length data) blk1"
  let ?t' = "?t\<lparr>malloc_size := length blk1, rdbuff_size := length xs + length data\<rparr>"
  have st: "recv_store data (?t\<lparr>malloc_size := length blk1\<rparr>) (h(read_buffer t \<mapsto> blk1)) =
      Some (?t', h(read_buffer t \<mapsto> ?blk))"
    using sz(3) room by (simp add: recv_store_def mem_write_Some)
  have "mem_write (buffer t) 0 data = Some ?buf"
    using len by (simp add: mem_write_def)
  then have "recv_loop al (Inr data # rs) t h =
      (if data = [] \<or> nl \<noteq> None then Some (?t', h(read_buffer t \<mapsto> ?blk))
       else recv_loop al rs ?t' (h(read_buffer t \<mapsto> ?blk)))"
    using nl g st by (auto simp: Let_def split del: if_split cong: if_cong)
  moreover have "recv_inv ?t' ?blk (xs @ data)"
    using tk room by (simp add: recv_inv_def)
  ultimately show ?thesis
    using more by (intro exI [of _ ?t'] exI [of _ ?blk]) (simp add: recv_only_def)
qed

lemma recv_line:
  assumes "in_place al \<or> length xs + length (concat pre) + length c \<le> malloc_size t"
    "h (read_buffer t) = Some blk" "read_buffer t \<noteq> NULL" "recv_inv t blk xs"
    and "\<forall>d \<in> set pre. d \<noteq> [] \<and> newline \<notin> set d \<and> nul \<notin> set d \<and> length d < BUFFER_MAX"
    and "c = [] \<or> newline \<in> set c \<and> nul \<notin> set c" "length c \<le> BUFFER_MAX"
    and "length (buffer t) = BUFFER_MAX" "pre = [] \<or> newline \<notin> set (buffer t) \<and> buffer t ! 99 = 0"
  shows "\<exists>t' blk'. recv_loop al (map Inr pre @ Inr c # rs) t h = Some (t', h(read_buffer t \<mapsto> blk')) \<and>
    recv_inv t' blk' (xs @ concat pre @ c) \<and> recv_only t t'"
  using assms
proof (induction pre arbitrary: t h blk xs)
  case Nil
  let ?buf = "c @ drop (length c) (buffer t)"
  have "\<exists>nl. (if c = [] then Some None else c_strchr newline ?buf) = Some nl \<and> (c = [] \<or> nl \<noteq> None)"
    using strchr_first [of c "drop (length c) (buffer t)"] Nil.prems(6) by (cases "c = []") auto
  then obtain nl where nl: "(if c = [] then Some None else c_strchr newline ?buf) = Some nl"
    "c = [] \<or> nl \<noteq> None" by blast
  have l: "length c \<le> length (buffer t)" using Nil.prems(7,8) by simp
  have al: "in_place al \<or> length xs + length c \<le> malloc_size t" using Nil.prems(1) by simp
  from recv_round [where h = h and rs = rs, OF al Nil.prems(2-4) l nl(1)] nl(2)
  obtain t' blk' where "recv_inv t' blk' (xs @ concat [] @ c)" "recv_only t t'"
    "recv_loop al (map Inr [] @ Inr c # rs) t h = Some (t', h(read_buffer t \<mapsto> blk'))"
    by (auto simp del: recv_loop.simps simp: fun_upd_def)
  then show ?case by blast
next
  case (Cons d pre)
  let ?buf = "d @ drop (length d) (buffer t)"
  have d: "d \<noteq> []" "newline \<notin> set d" "nul \<notin> set d" "length d < 100" using Cons.prems(5) by auto
  have last: "?buf ! 99 = 0" using d(4) Cons.prems(8,9) by (simp add: nth_append)
  have nonl: "newline \<notin> set ?buf" using d(2) Cons.prems(9) set_drop_subset [of "length d" "buffer t"] by auto
  have len: "length ?buf = BUFFER_MAX" using d(4) Cons.prems(8) by simp
  have "0 \<in> set ?buf" using last len nth_mem [of 99 ?buf] by auto
  then have nl: "(if d = [] then Some None else c_strchr newline ?buf) = Some None"
    using d(1) strchr_none [OF nonl] by simp
  have l: "length d \<le> length (buffer t)" using d(4) Cons.prems(8) by simp
  have al: "in_place al \<or> length xs + length d \<le> malloc_size t" using Cons.prems(1) by auto
  from recv_round [where h = h and rs = "map Inr pre @ Inr c # rs", OF al Cons.prems(2-4) l nl] d(1)
  obtain t1 blk1 where t1: "recv_inv t1 blk1 (xs @ d)" "buffer t1 = ?buf" "recv_only t t1"
    "recv_loop al (map Inr (d # pre) @ Inr c # rs) t h =
       recv_loop al (map Inr pre @ Inr c # rs) t1 (h(read_buffer t \<mapsto> blk1))" "malloc_size t \<le> malloc_size t1" by auto
  have al1: "in_place al \<or> length (xs @ d) + length (concat pre) + length c \<le> malloc_size t1"
    using Cons.prems(1) t1(5) by auto
  have rb: "read_buffer t1 = read_buffer t" using recv_only_fields [OF t1(3)] by simp
  have "\<exists>t' blk'. recv_loop al (map Inr pre @ Inr c # rs) t1 (h(read_buffer t \<mapsto> blk1)) =
        Some (t', (h(read_buffer t \<mapsto> blk1))(read_buffer t1 \<mapsto> blk')) \<and>
      recv_inv t' blk' ((xs @ d) @ concat pre @ c) \<and> recv_only t1 t'"
    using rb t1(1,2) nonl last len Cons.prems al1 by (intro Cons.IH) auto
  then obtain t' blk' where r: "recv_loop al (map Inr pre @ Inr c # rs) t1 (h(read_buffer t \<mapsto> blk1)) =
      Some (t', (h(read_buffer t \<mapsto> blk1))(read_buffer t \<mapsto> blk'))"
    "recv_inv t' blk' ((xs @ d) @ concat pre @ c)" "recv_only t1 t'" unfolding rb by blast
  have "recv_loop al (map Inr (d # pre) @ Inr c # rs) t h = Some (t', h(read_buffer t \<mapsto> blk'))"
    unfolding t1(4) r(1) fun_upd_upd ..
  moreover have "recv_inv t' blk' (xs @ concat (d # pre) @ c)" using r(2) by simp
  moreover have "recv_only t t'" by (rule recv_only_trans [OF t1(3) r(3)])
  ultimately show ?case by blast
qed

section \<open>Sending the contents back\<close>

text \<open>
  A device that, read at its end, sets the position back to 0: what the driver does.
\<close>

locale rewinding_device = byte_device ok contents rd
  for ok :: "'s \<Rightarrow> bool" and contents :: "'s \<Rightarrow> byte list"
    and rd :: "nat \<Rightarrow> nat \<Rightarrow> 's \<Rightarrow> (byte list \<times> nat \<times> 's) option" +
  assumes rd_end: "ok s \<Longrightarrow> rd n (length (contents s)) s = Some (data, pos, s') \<Longrightarrow> pos = 0"
begin

lemma rd_byte:
  assumes "ok s" "pos \<le> length (contents s)"
  shows "\<exists>s'. rd 1 pos s = Some (take 1 (drop pos (contents s)),
      (if pos < length (contents s) then pos + 1 else 0), s') \<and> ok s' \<and> contents s' = contents s"
proof -
  from rd_next [OF assms(1) _ _ assms(2), of 1] obtain data pos' s' rest where
    r: "rd 1 pos s = Some (data, pos', s')" "ok s'" "contents s' = contents s" "length data \<le> 1"
      "drop pos (contents s) = data @ rest" "data = [] \<longrightarrow> rest = []" "data \<noteq> [] \<longrightarrow> pos' = pos + length data"
    by auto
  show ?thesis
  proof (cases "data = []")
    case True
    then have "pos = length (contents s)" using r(5,6) assms(2) by simp
    with r True rd_end [OF assms(1)] show ?thesis by auto
  next
    case False
    with r(4) obtain b where "data = [b]" by (cases data) auto
    moreover from this r(5) have "pos < length (contents s)" by (cases "pos < length (contents s)") auto
    ultimately show ?thesis using r by auto
  qed
qed

end

lemma dev_read_same: "dev_readable d \<Longrightarrow> dev_read n pos d = Some (data, pos', d') \<Longrightarrow> d' = d"
  using aesd_read_any [of d False 0 "of_nat n" "of_nat pos"]
  by (auto simp: dev_read_def split: option.splits prod.splits sum.splits)

text \<open>The driver is one, and its reads leave it as it is.\<close>

interpretation aesd_rewinds: rewinding_device "\<lambda>d. d = d0 \<and> dev_readable d" dev_contents dev_read for d0
proof unfold_locales
  fix d :: aesd_dev and n pos :: nat
  assume d: "d = d0 \<and> dev_readable d" and "0 < n" "n < 2 ^ 62" "pos \<le> length (dev_contents d)"
  then obtain data pos' s' rest where r: "dev_read n pos d = Some (data, pos', s')" "length data \<le> n"
    "drop pos (dev_contents d) = data @ rest" "data = [] \<longrightarrow> rest = []" "data \<noteq> [] \<longrightarrow> pos' = pos + length data"
    using aesd_device.rd_next [of d n pos] by auto
  then have "s' = d" using d dev_read_same by blast
  with r d show "\<exists>data pos' s' rest. dev_read n pos d = Some (data, pos', s') \<and> (s' = d0 \<and> dev_readable s') \<and>
      dev_contents s' = dev_contents d \<and> length data \<le> n \<and> drop pos (dev_contents d) = data @ rest \<and>
      (data = [] \<longrightarrow> rest = []) \<and> (data \<noteq> [] \<longrightarrow> pos' = pos + length data)" by auto
next
  fix d :: aesd_dev and n pos :: nat and data s'
  assume d: "d = d0 \<and> dev_readable d" and rd: "dev_read n (length (dev_contents d)) d = Some (data, pos, s')"
  have "unat (of_nat (length (dev_contents d)) :: size_t) = length (dev_contents d)"
    using d by (elim conjE) (simp add: unat_of_nat)
  then have "locate (map length (cmds d)) (unat (of_nat (length (dev_contents d)) :: size_t)) = None"
    by (simp add: locate_None length_concat)
  with d rd show "pos = 0" by (auto simp: dev_read_def aesd_read_spec)
qed

lemma echo_grow_ok:
  assumes "in_place al \<or> req \<le> int (realloc_size t)"
    "h (write_buffer t) = Some blk" "write_buffer t \<noteq> NULL" "length blk \<le> realloc_size t"
  shows "\<exists>ext m. (\<forall>p. echo_grow al req (t\<lparr>fpos := p\<rparr>) h =
      Some (t\<lparr>fpos := p, realloc_size := m\<rparr>, h(write_buffer t \<mapsto> blk @ ext))) \<and>
    realloc_size t \<le> m \<and> req \<le> int m \<and> (search_ends al \<and> ends_search blk \<longrightarrow> ends_search (blk @ ext)) \<and>
    (int (realloc_size t) < req \<longrightarrow> req \<le> int (length (blk @ ext)))"
proof (cases "int (realloc_size t) < req")
  case False
  have "h(write_buffer t \<mapsto> blk) = h" using assms(2) by auto
  with False show ?thesis
    by (intro exI [of _ "[]"] exI [of _ "realloc_size t"]) (simp add: echo_grow_def)
next
  case True
  then have ip: "in_place al" using assms(1) by auto
  let ?n = "realloc_size t + nat req"
  let ?a = "al h (write_buffer t) ?n"
  have "krealloc h ?a (write_buffer t) ?n =
      Some (write_buffer t, h(write_buffer t \<mapsto> blk @ map (junk ?a) [length blk..<?n]))"
    using assms ip by (intro krealloc_in_place) (auto simp: in_place_def)
  moreover have "length blk < ?n" using True assms(4) by linarith
  ultimately show ?thesis using True assms(3,4)
    by (intro exI [of _ "map (junk ?a) [length blk..<?n]"] exI [of _ ?n])
      (auto simp: echo_grow_def Let_def ends_search_junk)
qed

lemma read_line_grown:
  assumes fp: "\<forall>p. echo_grow al req (t\<lparr>fpos := p\<rparr>) (uheap s) = Some (t\<lparr>fpos := p, realloc_size := m\<rparr>, h)"
    and m: "req \<le> int m"
  shows "read_line rd al req t s = read_line rd al req (t\<lparr>realloc_size := m\<rparr>) (s\<lparr>uheap := h\<rparr>)"
proof -
  have id: "echo_grow al req (t\<lparr>realloc_size := m, fpos := p\<rparr>) h = Some (t\<lparr>fpos := p, realloc_size := m\<rparr>, h)" for p
    using m by (simp add: echo_grow_def)
  show ?thesis
    by (subst (1 2) read_line.simps) (simp add: fp id)
qed

lemma read_line_step:
  assumes "rd 1 (fpos t) (sdev s) = Some (data, pos, dev)" "req \<le> int (realloc_size t)"
    "uheap s (write_buffer t) = Some blk" "wrbuff_size t + length data \<le> length blk"
    "(if 1 < wrbuff_size t + length data
      then map_option (\<lambda>r. r \<noteq> None) (c_strchr newline (take (wrbuff_size t) blk @ data @ drop (wrbuff_size t + length data) blk))
      else Some (new_line t)) = Some nl"
    "t' = t\<lparr>fpos := pos, wrbuff_size := wrbuff_size t + length data, new_line := nl\<rparr>"
    "s' = s\<lparr>sdev := dev, uheap := (uheap s)(write_buffer t \<mapsto>
       take (wrbuff_size t) blk @ data @ drop (wrbuff_size t + length data) blk)\<rparr>"
  shows "read_line rd al req t s = (if nl then Some (t', s') else read_line rd al req t' s')"
proof -
  have gr: "echo_grow al req (t\<lparr>fpos := pos\<rparr>) (uheap s) = Some (t\<lparr>fpos := pos\<rparr>, uheap s)"
    using assms(2) by (simp add: echo_grow_def)
  show ?thesis
    using assms(1,3,4,5) unfolding assms(6,7)
    by (subst read_line.simps) (simp add: gr mem_write_Some Let_def split del: if_split cong: if_cong)
qed

lemma take_one_drop: "j < length c \<Longrightarrow> take (Suc 0) (drop j c) = [c ! j]"
  by (cases "drop j c") (auto simp: hd_drop_conv_nth [symmetric])

context rewinding_device
begin

text \<open>
  The first line: with \<open>j\<close> bytes of it in a buffer whose rest was never written, the inner loop goes
  on to the first newline of the line, or ends early when the rest happens to contain one.  A
  newline at position 0 would be missed, because a buffer of one byte is not looked at.
\<close>

lemma read_line_first:
  assumes "ok (sdev s)" "contents (sdev s) = c" "req \<le> int (realloc_size t)"
    "uheap s (write_buffer t) = Some (take j c @ zs)" "ends_search zs" "j \<le> k" "k < j + length zs"
    "wrbuff_size t = j" "fpos t = j" "\<not> new_line t"
    "k < length c" "0 < k" "c ! k = newline" "newline \<notin> set (take k c)" "nul \<notin> set (take k c)"
  shows "\<exists>dev rest n. read_line rd al req t s =
      Some (t\<lparr>fpos := n, wrbuff_size := n, new_line := True\<rparr>,
            s\<lparr>sdev := dev, uheap := (uheap s)(write_buffer t \<mapsto> take n c @ rest)\<rparr>) \<and>
      ok dev \<and> contents dev = c \<and> j < n \<and> n \<le> k + 1"
  using assms
proof (induction "k - j" arbitrary: j t s zs)
  case (0 j t s zs)
  then have j: "j = k" by simp
  from rd_byte [of "sdev s" k] 0 j obtain dev where
    r: "rd 1 (fpos t) (sdev s) = Some ([newline], k + 1, dev)" "ok dev" "contents dev = c"
    by (auto simp: take_one_drop)
  from 0(8) j obtain z zs' where zs: "zs = z # zs'" by (cases zs) auto
  have tk: "take (k + 1) c = take k c @ [newline]" using 0 by (simp add: take_Suc_conv_app_nth)
  have hit: "c_strchr newline (take k c @ newline # drop 1 zs) = Some (Some (length (take k c)))"
    using 0 by (intro strchr_hit) auto
  have "read_line rd al req t s = (if True
      then Some (t\<lparr>fpos := k + 1, wrbuff_size := k + 1, new_line := True\<rparr>,
            s\<lparr>sdev := dev, uheap := (uheap s)(write_buffer t \<mapsto> take (k + 1) c @ drop 1 zs)\<rparr>)
      else read_line rd al req (t\<lparr>fpos := k + 1, wrbuff_size := k + 1, new_line := True\<rparr>)
        (s\<lparr>sdev := dev, uheap := (uheap s)(write_buffer t \<mapsto> take (k + 1) c @ drop 1 zs)\<rparr>))"
    by (rule read_line_step [where s = s and t = t and rd = rd, OF r(1) 0(4) 0(5)]) (use 0 j tk hit zs in auto)
  with r(2,3) j show ?case by (simp only: if_True) (intro exI conjI; (rule refl)?; simp)
next
  case (Suc x j t s zs)
  then have j: "j < k" by simp
  have cj: "c ! j \<noteq> newline" "c ! j \<noteq> nul"
    using j Suc.prems(11,14,15) by (auto simp: in_set_conv_nth)
  from rd_byte [of "sdev s" j] Suc.prems j obtain dev where
    r: "rd 1 (fpos t) (sdev s) = Some ([c ! j], j + 1, dev)" "ok dev" "contents dev = c"
    by (auto simp: take_one_drop)
  have tk: "take (j + 1) c = take j c @ [c ! j]" using Suc.prems j by (simp add: take_Suc_conv_app_nth)
  from Suc.prems(7) j obtain z zs' where zs: "zs = z # zs'" by (cases zs) auto
  have zs': "zs' \<noteq> []" "ends_search zs'"
    using Suc.prems(5,7) j zs by (auto intro!: ends_search_drop [of z])
  have sub: "set (take (Suc j) c) \<subseteq> set (take k c)" using j by (simp add: set_take_subset_set_take)
  obtain f where f: "c_strchr newline (take (Suc j) c @ zs') = Some f"
    using strchr_text [of "take (Suc j) c" zs'] sub Suc.prems(14,15) zs'(2) by blast
  define nl where "nl \<longleftrightarrow> 0 < j \<and> f \<noteq> None"
  let ?t = "t\<lparr>fpos := j + 1, wrbuff_size := j + 1, new_line := nl\<rparr>"
  let ?s = "s\<lparr>sdev := dev, uheap := (uheap s)(write_buffer t \<mapsto> take (j + 1) c @ zs')\<rparr>"
  have step: "read_line rd al req t s = (if nl then Some (?t, ?s) else read_line rd al req ?t ?s)"
    by (rule read_line_step [where s = s and t = t and rd = rd, OF r(1) Suc.prems(3) Suc.prems(4)])
      (use Suc.prems(8,10,11) j tk f zs nl_def in \<open>auto simp: min_def\<close>)
  show ?case
  proof (cases nl)
    case True
    then show ?thesis using step r(2,3) j
      by (intro exI [of _ dev] exI [of _ zs'] exI [of _ "j + 1"]) simp
  next
    case nl: False
    have "\<exists>dev' rest n. read_line rd al req ?t ?s =
        Some (?t\<lparr>fpos := n, wrbuff_size := n, new_line := True\<rparr>,
              ?s\<lparr>sdev := dev', uheap := (uheap ?s)(write_buffer ?t \<mapsto> take n c @ rest)\<rparr>) \<and>
        ok dev' \<and> contents dev' = c \<and> j + 1 < n \<and> n \<le> k + 1"
      using Suc.prems Suc.hyps(2) j r zs zs' nl by (intro Suc.hyps(1) [where j = "j + 1" and zs = zs']) auto
    then obtain dev' rest n where e: "read_line rd al req ?t ?s =
        Some (?t\<lparr>fpos := n, wrbuff_size := n, new_line := True\<rparr>,
              ?s\<lparr>sdev := dev', uheap := (uheap ?s)(write_buffer ?t \<mapsto> take n c @ rest)\<rparr>)"
      "ok dev'" "contents dev' = c" "j < n" "n \<le> k + 1" by auto
    have "read_line rd al req t s =
        Some (t\<lparr>fpos := n, wrbuff_size := n, new_line := True\<rparr>,
              s\<lparr>sdev := dev', uheap := (uheap s)(write_buffer t \<mapsto> take n c @ rest)\<rparr>)"
      using step e(1) nl by simp
    with e(2-5) show ?thesis by blast
  qed
qed

end

text \<open>
  What the code needs from its environment: memory, a search that ends in it, blocks that are
  extended in place unless \<open>n\<close>, all the bytes there are, fit the first block, and a socket that
  takes all it is given.
\<close>

definition echo_env :: "nat \<Rightarrow> allocator \<Rightarrow> (byte list list \<Rightarrow> byte list \<Rightarrow> int) \<Rightarrow> bool" where
  "echo_env n al send \<longleftrightarrow> lib_alloc al \<and> search_ends al \<and> (in_place al \<or> n \<le> BUFFER_MAX) \<and>
     (\<forall>xs d. send xs d = int (length d))"

definition server_ok :: "'s server \<Rightarrow> bool" where
  "server_ok s \<longleftrightarrow> finite (dom (uheap s)) \<and> \<not> data_mutex s"

lemma echo_send_ok:
  assumes "uheap s (write_buffer t) = Some (xs @ rest)" "wrbuff_size t = length xs" "write_buffer t \<noteq> NULL"
    "send (sent t) xs = int (length xs)"
  shows "echo_send send t s = Some (True,
    t\<lparr>cur_pos := length xs, sent := sent t @ [xs], bytes := bytes t + length xs, write_buffer := NULL\<rparr>,
    s\<lparr>data_mutex := False, uheap := (uheap s)(write_buffer t := None)\<rparr>)"
  using assms by (simp add: echo_send_def mem_read_def kfree_def Let_def)

lemma map_replicate_upt: "map (\<lambda>_. x) [0..<n] = replicate n x"
  by (simp add: map_replicate_const)

text \<open>The start of a round: a new block, extended in place if it may be too small.\<close>

lemma echo_start:
  assumes env: "echo_env N al send" and s: "server_ok s" and more: "bytes t < end_pos s"
    and rs: "BUFFER_MAX \<le> realloc_size t" and N: "end_pos s \<le> N"
  shows "\<exists>p zs m. p \<noteq> NULL \<and> uheap s p = None \<and> ends_search zs \<and> BUFFER_MAX \<le> length zs \<and>
    realloc_size t \<le> m \<and> int (end_pos s) - int (cur_pos t) \<le> int m \<and>
    (int (realloc_size t) < int (end_pos s) - int (cur_pos t) \<longrightarrow>
       int (end_pos s) - int (cur_pos t) \<le> int (length zs)) \<and>
    echo_loop rd al send t s = do {
      (t, s) \<leftarrow> read_line rd al (int (end_pos s) - int (cur_pos t))
        (t\<lparr>wrbuff_size := 0, write_buffer := p, realloc_size := m\<rparr>)
        (s\<lparr>uheap := (uheap s)(p \<mapsto> zs), data_mutex := True\<rparr>);
      (go_on, t, s) \<leftarrow> echo_send send t s;
      if go_on then echo_loop rd al send t s else Some (False, t, s)
    }"
proof -
  let ?req = "int (end_pos s) - int (cur_pos t)"
  let ?a = "al (uheap s) NULL BUFFER_MAX"
  let ?p = "addr ?a" and ?z = "map (junk ?a) [0..<BUFFER_MAX]"
  have fr: "?p \<noteq> NULL" "uheap s ?p = None"
    using env s unfolding echo_env_def lib_alloc_def server_ok_def fresh_alloc_def by blast+
  have z: "ends_search ?z" using ends_search_junk [of al 0 BUFFER_MAX "[]"] env by (simp add: echo_env_def)
  let ?t = "t\<lparr>wrbuff_size := 0, write_buffer := ?p\<rparr>"
  let ?s = "s\<lparr>uheap := (uheap s)(?p \<mapsto> ?z), data_mutex := True\<rparr>"
  have ip: "in_place al \<or> ?req \<le> int (realloc_size ?t)" "search_ends al" using env N rs by (auto simp: echo_env_def)
  obtain ext m where g: "\<forall>q. echo_grow al ?req (?t\<lparr>fpos := q\<rparr>) (uheap ?s) =
        Some (?t\<lparr>fpos := q, realloc_size := m\<rparr>, (uheap ?s)(?p \<mapsto> ?z @ ext))"
      "realloc_size t \<le> m" "?req \<le> int m" "ends_search (?z @ ext)"
      "int (realloc_size t) < ?req \<longrightarrow> ?req \<le> int (length (?z @ ext))"
    using echo_grow_ok [of al ?req ?t "uheap ?s" ?z] ip fr rs z by auto
  have "echo_loop rd al send t s = do {
      (t, s) \<leftarrow> read_line rd al ?req ?t ?s;
      (go_on, t, s) \<leftarrow> echo_send send t s;
      if go_on then echo_loop rd al send t s else Some (False, t, s)
    }"
    using more fr s
    by (subst echo_loop.simps)
      (simp add: kmalloc_def lock_data_def server_ok_def map_replicate_upt Let_def)
  also have "read_line rd al ?req ?t ?s =
      read_line rd al ?req (?t\<lparr>realloc_size := m\<rparr>) (?s\<lparr>uheap := (uheap ?s)(?p \<mapsto> ?z @ ext)\<rparr>)"
    by (rule read_line_grown) (use g in auto)
  also have "?s\<lparr>uheap := (uheap ?s)(?p \<mapsto> ?z @ ext)\<rparr> =
      s\<lparr>uheap := (uheap s)(?p \<mapsto> ?z @ ext), data_mutex := True\<rparr>" by simp
  finally show ?thesis
    using fr g(2-5) by (intro exI [of _ ?p] exI [of _ "?z @ ext"] exI [of _ m]) auto
qed

text \<open>The bytes that are delivered when reading goes on at the start after the end.\<close>

definition cyc :: "'a list \<Rightarrow> nat \<Rightarrow> nat \<Rightarrow> 'a list" where
  "cyc c pos n = map (\<lambda>i. c ! ((pos + i) mod length c)) [0..<n]"

lemma cyc_0 [simp]: "cyc c pos 0 = []"
  by (simp add: cyc_def)

lemma cyc_Suc: "pos < length c \<Longrightarrow> cyc c pos (Suc n) = c ! pos # cyc c (Suc pos) n"
  unfolding cyc_def upt_conv_Cons [OF zero_less_Suc] by (simp add: map_Suc_upt [symmetric] del: upt_Suc)

lemma cyc_wrap: "cyc c (length c) n = cyc c 0 n"
  by (simp add: cyc_def)

lemma cyc_prefix: "pos + n \<le> length c \<Longrightarrow> cyc c pos n = take n (drop pos c)"
  by (auto simp: cyc_def intro!: nth_equalityI)

lemma cyc_append: "cyc c pos (m + n) = cyc c pos m @ cyc c (pos + m) n"
  by (rule nth_equalityI) (auto simp: cyc_def nth_append ac_simps)

text \<open>What a part of the echo leaves: the same heap, and some more bytes sent.\<close>

definition echo_more :: "byte list \<Rightarrow> thread \<Rightarrow> 's server \<Rightarrow> thread \<Rightarrow> 's server \<Rightarrow> bool" where
  "echo_more out t s t' s' \<longleftrightarrow> concat (sent t') = concat (sent t) @ out \<and>
     bytes t' = bytes t + length out \<and> read_buffer t' = read_buffer t \<and> new_line t' \<and>
     BUFFER_MAX \<le> realloc_size t' \<and> uheap s' = uheap s \<and> end_pos s' = end_pos s \<and> server_ok s'"

lemma echo_more_trans: "echo_more xs t s t1 s1 \<Longrightarrow> echo_more ys t1 s1 t' s' \<Longrightarrow> echo_more (xs @ ys) t s t' s'"
  by (simp add: echo_more_def)

context rewinding_device
begin

text \<open>After the first line the inner loop ends after one read: the rest goes byte by byte.\<close>

lemma echo_byte:
  assumes env: "echo_env N al send" and s: "server_ok s" and more: "bytes t < end_pos s"
    and rs: "BUFFER_MAX \<le> realloc_size t" and N: "end_pos s \<le> N" and nl: "new_line t"
    and d: "ok (sdev s)" "contents (sdev s) = c" "fpos t \<le> length c"
  shows "\<exists>t' s'. echo_loop rd al send t s = echo_loop rd al send t' s' \<and>
    echo_more (take 1 (drop (fpos t) c)) t s t' s' \<and> ok (sdev s') \<and> contents (sdev s') = c \<and>
    fpos t' = (if fpos t < length c then fpos t + 1 else 0)"
proof -
  let ?req = "int (end_pos s) - int (cur_pos t)" and ?data = "take 1 (drop (fpos t) c)"
  let ?pos = "if fpos t < length c then fpos t + 1 else 0"
  from echo_start [where rd = rd, OF env s more rs N] obtain p zs m where
    st: "p \<noteq> NULL" "uheap s p = None" "BUFFER_MAX \<le> length zs" "realloc_size t \<le> m" "?req \<le> int m"
      "echo_loop rd al send t s = do {
      (t, s) \<leftarrow> read_line rd al ?req (t\<lparr>wrbuff_size := 0, write_buffer := p, realloc_size := m\<rparr>)
        (s\<lparr>uheap := (uheap s)(p \<mapsto> zs), data_mutex := True\<rparr>);
      (go_on, t, s) \<leftarrow> echo_send send t s;
      if go_on then echo_loop rd al send t s else Some (False, t, s)
    }" by blast
  let ?t = "t\<lparr>wrbuff_size := 0, write_buffer := p, realloc_size := m\<rparr>"
  let ?s = "s\<lparr>uheap := (uheap s)(p \<mapsto> zs), data_mutex := True\<rparr>"
  from rd_byte [of "sdev s" "fpos t"] d obtain dev where
    r: "rd 1 (fpos ?t) (sdev ?s) = Some (?data, ?pos, dev)" "ok dev" "contents dev = c" by auto
  let ?t1 = "?t\<lparr>fpos := ?pos, wrbuff_size := length ?data, new_line := True\<rparr>"
  let ?s1 = "?s\<lparr>sdev := dev, uheap := (uheap ?s)(p \<mapsto> ?data @ drop (length ?data) zs)\<rparr>"
  have len: "length ?data \<le> 1" by simp
  have "read_line rd al ?req ?t ?s = (if True then Some (?t1, ?s1) else read_line rd al ?req ?t1 ?s1)"
    by (rule read_line_step [where s = ?s and t = ?t and rd = rd and blk = zs, OF r(1)])
      (use st(3,5) nl len in auto)
  moreover have "echo_send send ?t1 ?s1 = Some (True,
    ?t1\<lparr>cur_pos := length ?data, sent := sent t @ [?data], bytes := bytes t + length ?data, write_buffer := NULL\<rparr>,
    ?s1\<lparr>data_mutex := False, uheap := (uheap ?s1)(p := None)\<rparr>)"
    using echo_send_ok [of ?s1 ?t1 ?data "drop (length ?data) zs" send] st(1) env by (simp add: echo_env_def)
  ultimately have ev: "echo_loop rd al send t s = echo_loop rd al send
    (?t1\<lparr>cur_pos := length ?data, sent := sent t @ [?data], bytes := bytes t + length ?data, write_buffer := NULL\<rparr>)
    (?s1\<lparr>data_mutex := False, uheap := (uheap ?s1)(p := None)\<rparr>)" (is "_ = echo_loop rd al send ?t2 ?s2")
    unfolding st(6) by simp
  have "(uheap ?s1)(p := None) = uheap s" using st(2) by auto
  then have "echo_more ?data t s ?t2 ?s2" using st(4) rs s by (simp add: echo_more_def server_ok_def)
  moreover have "fpos ?t2 = ?pos" "sdev ?s2 = dev" by simp_all
  ultimately show ?thesis using ev r(2,3) by metis
qed

lemma echo_rest:
  assumes "echo_env N al send" "server_ok s" "bytes t \<le> end_pos s" "BUFFER_MAX \<le> realloc_size t"
    "end_pos s \<le> N" "new_line t"
    "ok (sdev s)" "contents (sdev s) = c" "fpos t \<le> length c" "c \<noteq> []"
  shows "\<exists>t' s'. echo_loop rd al send t s = Some (True, t', s') \<and>
    echo_more (cyc c (fpos t) (end_pos s - bytes t)) t s t' s' \<and> ok (sdev s') \<and> contents (sdev s') = c"
  using assms
proof (induction "2 * (end_pos s - bytes t) + (if fpos t = length c then 1 else 0)" arbitrary: t s rule: less_induct)
  case (less t s)
  show ?case
  proof (cases "bytes t < end_pos s")
    case False
    then have "echo_loop rd al send t s = Some (True, t, s)" by (subst echo_loop.simps) simp
    with False less.prems show ?thesis by (auto simp: echo_more_def)
  next
    case True
    let ?data = "take 1 (drop (fpos t) c)" and ?n = "end_pos s - bytes t"
    from echo_byte [OF less.prems(1,2) True less.prems(4-9)] obtain t1 s1 where
      e: "echo_loop rd al send t s = echo_loop rd al send t1 s1" "echo_more ?data t s t1 s1"
        "ok (sdev s1)" "contents (sdev s1) = c" "fpos t1 = (if fpos t < length c then fpos t + 1 else 0)" by blast
    have "length ?data = (if fpos t < length c then 1 else 0)" by auto
    with e have b: "bytes t1 = bytes t + (if fpos t < length c then 1 else 0)" "end_pos s1 = end_pos s"
      by (auto simp: echo_more_def)
    have "\<exists>t' s'. echo_loop rd al send t1 s1 = Some (True, t', s') \<and>
      echo_more (cyc c (fpos t1) (end_pos s1 - bytes t1)) t1 s1 t' s' \<and> ok (sdev s') \<and> contents (sdev s') = c"
      using True e b less.prems by (intro less.hyps) (auto simp: echo_more_def)
    then obtain t' s' where i: "echo_loop rd al send t1 s1 = Some (True, t', s')"
      "echo_more (cyc c (fpos t1) (end_pos s1 - bytes t1)) t1 s1 t' s'" "ok (sdev s')" "contents (sdev s') = c"
      by blast
    have "?data @ cyc c (fpos t1) (end_pos s1 - bytes t1) = cyc c (fpos t) ?n"
    proof (cases "fpos t < length c")
      case f: True
      have "?n = Suc (end_pos s - Suc (bytes t))" using True by simp
      with f e(5) b show ?thesis by (simp add: cyc_Suc take_one_drop)
    next
      case f: False
      with less.prems(9) have "fpos t = length c" by simp
      with e(5) b show ?thesis by (simp add: cyc_wrap)
    qed
    with echo_more_trans [OF e(2) i(2)] i e(1) show ?thesis by auto
  qed
qed

end

context rewinding_device
begin

lemma echo_all:
  assumes env: "echo_env N al send" and s: "server_ok s" and d: "ok (sdev s)" "contents (sdev s) = c"
    and t: "bytes t = 0" "cur_pos t = 0" "realloc_size t = BUFFER_MAX" "\<not> new_line t" "fpos t = 0"
    and N: "end_pos s \<le> N"
    and c: "length c \<le> end_pos s" "newline \<in> set c" "nul \<notin> set c" "hd c \<noteq> newline"
  shows "\<exists>t' s'. echo_loop rd al send t s = Some (True, t', s') \<and>
    echo_more (cyc c 0 (end_pos s)) t s t' s' \<and> ok (sdev s') \<and> contents (sdev s') = c"
proof -
  from split_list_first [OF c(2)] obtain us vs where us: "c = us @ newline # vs" "newline \<notin> set us" by blast
  define k where "k = length us"
  have k: "k < length c" "c ! k = newline" "newline \<notin> set (take k c)" "nul \<notin> set (take k c)" "0 < k"
    using us c by (auto simp: k_def)
  have more: "bytes t < end_pos s" using t(1) k(1) c(1) by simp
  from echo_start [where rd = rd, OF env s more _ N] t obtain p zs m where
    st: "p \<noteq> NULL" "uheap s p = None" "ends_search zs" "BUFFER_MAX \<le> length zs" "BUFFER_MAX \<le> m" "end_pos s \<le> m"
      "BUFFER_MAX < end_pos s \<longrightarrow> end_pos s \<le> length zs" and
    ev: "echo_loop rd al send t s = do {
      (t, s) \<leftarrow> read_line rd al (int (end_pos s)) (t\<lparr>wrbuff_size := 0, write_buffer := p, realloc_size := m\<rparr>)
        (s\<lparr>uheap := (uheap s)(p \<mapsto> zs), data_mutex := True\<rparr>);
      (go_on, t, s) \<leftarrow> echo_send send t s;
      if go_on then echo_loop rd al send t s else Some (False, t, s)
    }" by auto
  let ?t = "t\<lparr>wrbuff_size := 0, write_buffer := p, realloc_size := m\<rparr>"
  let ?s = "s\<lparr>uheap := (uheap s)(p \<mapsto> zs), data_mutex := True\<rparr>"
  have room: "k < length zs" using st(4,7) k(1) c(1) by linarith
  obtain dev rest n where rl: "read_line rd al (int (end_pos s)) ?t ?s =
      Some (?t\<lparr>fpos := n, wrbuff_size := n, new_line := True\<rparr>,
            ?s\<lparr>sdev := dev, uheap := (uheap ?s)(write_buffer ?t \<mapsto> take n c @ rest)\<rparr>)"
    "ok dev" "contents dev = c" "0 < n" "n \<le> k + 1"
    using read_line_first [of ?s c "int (end_pos s)" ?t 0 zs k al] d st t k room by auto
  let ?t1 = "?t\<lparr>fpos := n, wrbuff_size := n, new_line := True\<rparr>"
  let ?s1 = "?s\<lparr>sdev := dev, uheap := (uheap ?s)(p \<mapsto> take n c @ rest)\<rparr>"
  let ?line = "take n c"
  have len: "length ?line = n" using k(1) rl(5) by simp
  have es: "echo_send send ?t1 ?s1 = Some (True,
    ?t1\<lparr>cur_pos := length ?line, sent := sent t @ [?line], bytes := bytes t + length ?line, write_buffer := NULL\<rparr>,
    ?s1\<lparr>data_mutex := False, uheap := (uheap ?s1)(p := None)\<rparr>)" (is "_ = Some (True, ?t2, ?s2)")
    using echo_send_ok [of ?s1 ?t1 ?line rest send] st(1) env len by (simp add: echo_env_def)
  have ev2: "echo_loop rd al send t s = echo_loop rd al send ?t2 ?s2"
    unfolding ev using rl(1) es by simp
  have "(uheap ?s1)(p := None) = uheap s" using st(2) by auto
  then have m: "echo_more ?line t s ?t2 ?s2" using st(5) s by (simp add: echo_more_def server_ok_def)
  have "c \<noteq> []" using k(1) by auto
  have "server_ok (s\<lparr>sdev := dev, data_mutex := False\<rparr>)" using s by (simp add: server_ok_def)
  have "\<exists>t' s'. echo_loop rd al send ?t2 ?s2 = Some (True, t', s') \<and>
    echo_more (cyc c (fpos ?t2) (end_pos ?s2 - bytes ?t2)) ?t2 ?s2 t' s' \<and> ok (sdev s') \<and> contents (sdev s') = c"
    using m env N rl k c t len \<open>c \<noteq> []\<close> \<open>server_ok (s\<lparr>sdev := dev, data_mutex := False\<rparr>)\<close> by (intro echo_rest) (simp_all add: echo_more_def)
  then obtain t' s' where i: "echo_loop rd al send ?t2 ?s2 = Some (True, t', s')"
    "echo_more (cyc c n (end_pos s - n)) ?t2 ?s2 t' s'" "ok (sdev s')" "contents (sdev s') = c"
    using t(1) len by auto
  have "?line @ cyc c n (end_pos s - n) = cyc c 0 (end_pos s)"
    using cyc_append [of c 0 n "end_pos s - n"] cyc_prefix [of 0 n c] k(1) c(1) rl(5) by simp
  with echo_more_trans [OF m i(2)] i(1,3,4) ev2 show ?thesis by auto
qed

end

section \<open>A session with the driver\<close>

text \<open>The driver's write as the server calls it; \<open>ka\<close> is the kernel's allocator.\<close>

definition dev_write :: "(heap \<Rightarrow> ptr \<Rightarrow> alloc) \<Rightarrow> aesd_dev dev_writer" where
  "dev_write ka data pos d =
     (case aesd_write False (ka (kheap d) (pending_block d)) 0 data (of_nat pos) d of
        None \<Rightarrow> None
      | Some (Inl _, pos', d') \<Rightarrow> Some (- 1, unat pos', d')
      | Some (Inr n, pos', d') \<Rightarrow> Some (uint n, unat pos', d'))"

abbreviation kernel_alloc :: "(heap \<Rightarrow> ptr \<Rightarrow> alloc) \<Rightarrow> bool" where
  "kernel_alloc ka \<equiv> \<forall>h p. finite (dom h) \<longrightarrow> resized_alloc h p (ka h p)"

lemma dev_write_ok:
  assumes "aesd_ok d" "kernel_alloc ka" "data \<noteq> []" "length (pending d) + length data < 2 ^ 63"
  shows "\<exists>d'. dev_write ka data pos d = Some (int (length data), 0, d') \<and> aesd_ok d' \<and>
    (cmds d', pending d') = spec_write (cmds d, pending d) data"
proof -
  let ?a = "ka (kheap d) (pending_block d)"
  have fr: "resized_alloc (kheap d) (pending_block d) ?a" using assms(1,2) aesd_ok_finite by blast
  have pre: "write_pre ?a 0 data d"
    using fr assms(4) pending_length [OF assms(1)] by (simp add: write_pre_def)
  have nn: "addr ?a \<noteq> NULL" using fr by (simp add: resized_alloc_def)
  have "unat (esize (temp_entry d)) + length data - 0 \<noteq> 0" using assms(3) by simp
  from aesd_write_good [OF assms(1) pre nn this, of "of_nat pos"] obtain d' where
    "aesd_write False ?a 0 data (of_nat pos) d = Some (Inr (of_nat (length data)), 0, d')"
    "aesd_ok d'" "(cmds d', pending d') = spec_write (cmds d, pending d) data" by auto
  moreover have "uint (of_nat (length data) :: size_t) = int (length data)"
    using assms(4) by (simp add: uint_nat unat_of_nat)
  ultimately show ?thesis by (auto simp: dev_write_def)
qed

text \<open>A line of text: what the search for the newline needs.\<close>

definition text_line :: "byte list \<Rightarrow> bool" where
  "text_line l \<longleftrightarrow> newline \<in> set l \<and> nul \<notin> set l \<and> hd l \<noteq> newline"

text \<open>
  What the array \<open>buffer\<close>, which is never initialised, must hold for a line that arrives in several
  pieces: \<open>strchr\<close> searches all of it after each piece.
\<close>

definition stack_quiet :: "byte list \<Rightarrow> bool" where
  "stack_quiet buf \<longleftrightarrow> newline \<notin> set buf \<and> buf ! 99 = 0"

text \<open>How a line may arrive: in pieces short of the buffer, the last one with the newline.\<close>

definition arrives :: "byte list list \<Rightarrow> byte list \<Rightarrow> bool" where
  "arrives pre c \<longleftrightarrow> (\<forall>d \<in> set pre. d \<noteq> [] \<and> newline \<notin> set d \<and> length d < BUFFER_MAX) \<and>
     newline \<in> set c \<and> length c \<le> BUFFER_MAX"

lemma text_contents:
  assumes "xs \<noteq> []" "\<forall>l \<in> set xs. text_line l"
  shows "newline \<in> set (concat xs) \<and> nul \<notin> set (concat xs) \<and> hd (concat xs) \<noteq> newline"
proof -
  obtain l ls where xs: "xs = l # ls" using assms(1) by (cases xs) auto
  with assms(2) have l: "text_line l" "\<forall>l \<in> set ls. text_line l" by auto
  then have "l \<noteq> []" by (auto simp: text_line_def)
  with l xs show ?thesis by (auto simp: text_line_def)
qed

lemma keep_last_set: "set (keep_last n xs) \<subseteq> set xs"
  by (simp add: keep_last_def set_drop_subset)

lemma write_line:
  assumes line: "text_line line" and p: "pending d = []"
  shows "spec_write (cmds d, pending d) line = (keep_last max_ops (cmds d @ [line]), [])"
  using assms by (simp add: spec_write_def text_line_def)

lemma thread_func_ok:
  assumes env: "echo_env N al send" and s: "server_ok s" and ka: "kernel_alloc ka"
    and d: "aesd_ok (sdev s)" "pending (sdev s) = []" "\<forall>l \<in> set (cmds (sdev s)). text_line l"
    and ep: "total (sdev s) \<le> end_pos s" and line: "line = concat pre @ c" "text_line line" "arrives pre c"
    and buf: "length buf = BUFFER_MAX" "pre = [] \<or> stack_quiet buf" and small: "end_pos s + length line < 2 ^ 31"
    and N: "end_pos s + length line \<le> N"
  shows "\<exists>t' s'. thread_func dev_read (dev_write ka) al send True (map Inr pre @ Inr c # rs) buf s = Some (t', s') \<and>
    thread_complete t' \<and> \<not> sock_open t' \<and> \<not> file_open t' \<and>
    concat (sent t') = cyc (concat (keep_last max_ops (cmds (sdev s) @ [line]))) 0 (end_pos s') \<and>
    end_pos s' = end_pos s + length line \<and> uheap s' = uheap s \<and> server_ok s' \<and>
    aesd_ok (sdev s') \<and> pending (sdev s') = [] \<and>
    cmds (sdev s') = keep_last max_ops (cmds (sdev s) @ [line])"
proof -
  let ?a = "al (uheap s) NULL BUFFER_MAX" and ?cs = "keep_last max_ops (cmds (sdev s) @ [line])"
  let ?p = "addr ?a" and ?z = "replicate BUFFER_MAX (0::byte)"
  have fr: "?p \<noteq> NULL" "uheap s ?p = None"
    using env s unfolding echo_env_def lib_alloc_def server_ok_def fresh_alloc_def by blast+
  let ?t0 = "(new_thread buf)\<lparr>file_open := True, read_buffer := ?p\<rparr>"
  let ?h0 = "(uheap s)(?p \<mapsto> ?z)"
  have ip: "in_place al \<or> length ([] :: byte list) + length (concat pre) + length c \<le> malloc_size ?t0"
    using env line(1) N by (auto simp: echo_env_def new_thread_def)
  have "recv_inv ?t0 ?z []" by (simp add: recv_inv_def new_thread_def)
  then obtain t1 blk where rv: "recv_loop al (map Inr pre @ Inr c # rs) ?t0 ?h0 = Some (t1, ?h0(?p \<mapsto> blk))"
    "recv_inv t1 blk line" "recv_only ?t0 t1"
    using recv_line [where h = ?h0 and t = ?t0 and blk = ?z and xs = "[]" and pre = pre and c = c and rs = rs, OF ip]
      fr line buf by (auto simp: arrives_def text_line_def stack_quiet_def new_thread_def)
  note t1 = recv_only_fields [OF rv(3)]
  have line0: "line \<noteq> []" using line(2) by (auto simp: text_line_def)
  obtain d' where w: "dev_write ka line 0 (sdev s) = Some (int (length line), 0, d')" "aesd_ok d'"
    "cmds d' = ?cs" "pending d' = []"
    using dev_write_ok [OF d(1) ka line0, of 0] d(2) small write_line [where d = "sdev s", OF line(2) d(2)] by auto
  let ?h1 = "(uheap s)(?p \<mapsto> blk)"
  let ?s2 = "s\<lparr>uheap := ?h1, sdev := d', end_pos := end_pos s + length line, data_mutex := False\<rparr>"
  have len: "rdbuff_size t1 = length line" "take (length line) blk = line" "length line \<le> length blk"
    using rv(2) by (auto simp: recv_inv_def)
  have wo: "write_out (dev_write ka) t1 (s\<lparr>uheap := ?h1\<rparr>) = Some (True, t1\<lparr>fpos := 0\<rparr>, ?s2)"
    using s w(1) len t1 fr by (simp add: write_out_def lock_data_def server_ok_def mem_read_def new_thread_def)
  have tx: "\<forall>l \<in> set ?cs. text_line l"
    using keep_last_set [of max_ops "cmds (sdev s) @ [line]"] d(3) line(2) by auto
  have "?cs \<noteq> []" by (simp add: keep_last_def)
  note tc = text_contents [OF this tx]
  have tot: "length (concat ?cs) \<le> end_pos s + length line"
    using concat_keep_last [of max_ops "cmds (sdev s) @ [line]"] ep by simp
  have rd: "dev_readable d'" using w small tot by (simp add: aesd_ok_def)
  have s2: "server_ok ?s2" using s by (simp add: server_ok_def)
  obtain t3 s3 where e: "echo_loop dev_read al send (t1\<lparr>fpos := 0\<rparr>) ?s2 = Some (True, t3, s3)"
    "echo_more (cyc (concat ?cs) 0 (end_pos ?s2)) (t1\<lparr>fpos := 0\<rparr>) ?s2 t3 s3" "sdev s3 = d'"
    using aesd_rewinds.echo_all [of N al send ?s2 d' "concat ?cs" "t1\<lparr>fpos := 0\<rparr>"] env s2 rd w t1 tot tc N
    by (auto simp: new_thread_def)
  have h3: "uheap s3 = ?h1" "read_buffer t3 = ?p" "server_ok s3" "end_pos s3 = end_pos s + length line"
    "concat (sent t3) = cyc (concat ?cs) 0 (end_pos s + length line)"
    using e(2) t1 by (auto simp: echo_more_def new_thread_def)
  have fin: "thread_finish t3 s3 = Some (t3\<lparr>read_buffer := NULL, sock_open := False, file_open := False,
      thread_complete := True\<rparr>, s3\<lparr>uheap := uheap s\<rparr>)"
  proof -
    have "?h1(?p := None) = uheap s" using fr(2) by auto
    then show ?thesis using h3(1,2) fr(1) by (simp add: thread_finish_def kfree_def)
  qed
  have "thread_func dev_read (dev_write ka) al send True (map Inr pre @ Inr c # rs) buf s = thread_finish t3 s3"
    using fr rv(1) wo e(1)
    by (simp add: thread_func_def kmalloc_def mem_write_def new_thread_def Let_def fun_upd_same del: fun_upd_apply)
  with fin h3 e(3) w s show ?thesis by (auto simp: server_ok_def)
qed

text \<open>
  A run of sessions, one after the other: for each what its receive array holds at the start, and
  what it receives.
\<close>

fun serve_all ::
  "'s dev_reader \<Rightarrow> 's dev_writer \<Rightarrow> allocator \<Rightarrow> (byte list list \<Rightarrow> byte list \<Rightarrow> int) \<Rightarrow>
     (byte list \<times> (errno + byte list) list) list \<Rightarrow> 's server \<Rightarrow> (thread list \<times> 's server) option" where
  "serve_all rd wr al send [] s = Some ([], s)"
| "serve_all rd wr al send ((buf, rs) # rss) s = do {
     (t, s) \<leftarrow> thread_func rd wr al send True rs buf s;
     (ts, s) \<leftarrow> serve_all rd wr al send rss s;
     Some (t # ts, s)
   }"

text \<open>One session of a run: the array, the pieces before the last and the last piece of its line.\<close>

type_synonym session = "byte list \<times> byte list list \<times> byte list"

fun session_stack :: "session \<Rightarrow> byte list" where
  "session_stack (buf, pre, c) = buf"

fun session_line :: "session \<Rightarrow> byte list" where
  "session_line (buf, pre, c) = concat pre @ c"

fun session_recv :: "session \<Rightarrow> (errno + byte list) list" where
  "session_recv (buf, pre, c) = map Inr pre @ [Inr c]"

fun good_session :: "session \<Rightarrow> bool" where
  "good_session (buf, pre, c) \<longleftrightarrow> arrives pre c \<and> text_line (concat pre @ c)"

fun quiet_session :: "session \<Rightarrow> bool" where
  "quiet_session (buf, pre, c) \<longleftrightarrow> length buf = BUFFER_MAX \<and> (pre = [] \<or> stack_quiet buf)"

abbreviation session_input :: "session \<Rightarrow> byte list \<times> (errno + byte list) list" where
  "session_input ss \<equiv> (session_stack ss, session_recv ss)"

text \<open>What the server has when the lines \<open>hist\<close> have been served.\<close>

definition served :: "byte list list \<Rightarrow> aesd_dev server \<Rightarrow> bool" where
  "served hist s \<longleftrightarrow> server_ok s \<and> aesd_ok (sdev s) \<and> pending (sdev s) = [] \<and>
     cmds (sdev s) = keep_last max_ops hist \<and> end_pos s = length (concat hist) \<and> (\<forall>l \<in> set hist. text_line l)"

lemma serve_one:
  assumes env: "echo_env N al send" "kernel_alloc ka" and hist: "served hist s"
    and g: "good_session ss" "quiet_session ss"
    and small: "length (concat (hist @ [session_line ss])) < 2 ^ 31" "length (concat (hist @ [session_line ss])) \<le> N"
  shows "\<exists>t' s'. thread_func dev_read (dev_write ka) al send True (session_recv ss) (session_stack ss) s = Some (t', s') \<and>
    thread_complete t' \<and> served (hist @ [session_line ss]) s' \<and> uheap s' = uheap s \<and>
    concat (sent t') = cyc (concat (keep_last max_ops (hist @ [session_line ss]))) 0
      (length (concat (hist @ [session_line ss])))"
proof -
  obtain buf pre c where ss: "ss = (buf, pre, c)" by (cases ss)
  have h: "server_ok s" "aesd_ok (sdev s)" "pending (sdev s) = []" "cmds (sdev s) = keep_last max_ops hist"
    "end_pos s = length (concat hist)" "\<forall>l \<in> set hist. text_line l"
    using hist by (auto simp: served_def)
  have tx: "\<forall>l \<in> set (cmds (sdev s)). text_line l" using h(4,6) keep_last_set [of max_ops hist] by auto
  have "total (sdev s) \<le> end_pos s" using h(4,5) concat_keep_last [of max_ops hist] by simp
  from thread_func_ok [OF env(1) h(1) env(2) h(2,3) tx this refl, of pre c buf "[]"] g small h(4,5) ss
  show ?thesis using h(6) by (auto simp: served_def keep_last_append)
qed

lemma serve_all_ok:
  assumes "echo_env N al send" "kernel_alloc ka" "served hist s"
    "\<forall>ss \<in> set sss. good_session ss \<and> quiet_session ss"
    and "length (concat (hist @ map session_line sss)) < 2 ^ 31" "length (concat (hist @ map session_line sss)) \<le> N"
  shows "\<exists>ts s'. serve_all dev_read (dev_write ka) al send (map session_input sss) s = Some (ts, s') \<and>
    served (hist @ map session_line sss) s' \<and> uheap s' = uheap s \<and> length ts = length sss \<and>
    (\<forall>k < length sss. thread_complete (ts ! k) \<and>
      concat (sent (ts ! k)) = cyc (concat (keep_last max_ops (hist @ map session_line (take (Suc k) sss)))) 0
        (length (concat (hist @ map session_line (take (Suc k) sss)))))"
  using assms
proof (induction sss arbitrary: hist s)
  case Nil
  then show ?case by simp
next
  case (Cons ss sss)
  from serve_one [OF Cons.prems(1-3), of ss] Cons.prems(4-6) obtain t1 s1 where
    t1: "thread_func dev_read (dev_write ka) al send True (session_recv ss) (session_stack ss) s = Some (t1, s1)"
      "thread_complete t1" "served (hist @ [session_line ss]) s1" "uheap s1 = uheap s"
      "concat (sent t1) = cyc (concat (keep_last max_ops (hist @ [session_line ss]))) 0
        (length (concat (hist @ [session_line ss])))" by auto
  from Cons.IH [OF Cons.prems(1-2) t1(3)] Cons.prems(4-6) obtain ts s' where
    ts: "serve_all dev_read (dev_write ka) al send (map session_input sss) s1 = Some (ts, s')"
      "served ((hist @ [session_line ss]) @ map session_line sss) s'" "uheap s' = uheap s1" "length ts = length sss"
      "\<forall>k < length sss. thread_complete (ts ! k) \<and>
        concat (sent (ts ! k)) = cyc (concat (keep_last max_ops ((hist @ [session_line ss]) @ map session_line (take (Suc k) sss)))) 0
        (length (concat ((hist @ [session_line ss]) @ map session_line (take (Suc k) sss))))" by auto
  have "thread_complete ((t1 # ts) ! k) \<and>
      concat (sent ((t1 # ts) ! k)) = cyc (concat (keep_last max_ops (hist @ map session_line (take (Suc k) (ss # sss))))) 0
        (length (concat (hist @ map session_line (take (Suc k) (ss # sss)))))" if "k < length (ss # sss)" for k
    using t1 ts(5) that by (cases k) auto
  moreover have "serve_all dev_read (dev_write ka) al send (map session_input (ss # sss)) s = Some (t1 # ts, s')"
    using t1(1) ts(1) by simp
  ultimately show ?case using t1(4) ts(2-4) by auto
qed

section \<open>Properties of a connection\<close>

definition start_server :: "aesd_dev \<Rightarrow> aesd_dev server" where
  "start_server d = \<lparr>sdev = fresh_device d, end_pos = 0, data_mutex = False, uheap = Map.empty\<rparr>"

lemma start_server_served: "served [] (start_server d)"
  using fresh_device_ok [of d] by (simp add: served_def start_server_def server_ok_def keep_last_def)


definition calm_alloc :: allocator where
  "calm_alloc h p n = (if p = NULL then next_free h else \<lparr>addr = p, junk = (\<lambda>_. 0)\<rparr>)"

definition send_all :: "byte list list \<Rightarrow> byte list \<Rightarrow> int" where
  "send_all before data = int (length data)"


lemma calm_env: "lib_alloc calm_alloc" "search_ends calm_alloc" "in_place calm_alloc"
  using next_free_fresh
  by (auto simp: lib_alloc_def in_place_def search_ends_def calm_alloc_def next_free_def)



text \<open>
  The count of bytes to send back is the number of bytes ever written, while the device
  keeps ten commands: from the eleventh client on the answer is the device's contents followed
  by their beginning again, until that many bytes are sent.
\<close>

theorem echo_repeats_after_ten:
  assumes "lib_alloc al" "kernel_alloc ka" "\<forall>xs d. send xs d = int (length d)"
    and "search_ends al" "in_place al \<or> length (concat (map session_line sss)) \<le> BUFFER_MAX"
    and "\<forall>ss \<in> set sss. good_session ss" "\<forall>ss \<in> set sss. quiet_session ss"
    and "length (concat (map session_line sss)) < 2 ^ 31" "10 < length sss"
  shows "\<exists>ts s'. serve_all dev_read (dev_write ka) al send (map session_input sss) (start_server d) = Some (ts, s') \<and>
    dev_contents (sdev s') = concat (keep_last 10 (map session_line sss)) \<and>
    length (concat (sent (last ts))) = length (concat (map session_line sss)) \<and>
    length (dev_contents (sdev s')) < length (concat (sent (last ts))) \<and>
    (\<forall>i < length (concat (sent (last ts))).
      concat (sent (last ts)) ! i = dev_contents (sdev s') ! (i mod length (dev_contents (sdev s'))))"
proof -
  have env: "echo_env (length (concat (map session_line sss))) al send" using assms(1,3-5) by (simp add: echo_env_def)
  from serve_all_ok [OF env assms(2) start_server_served, of sss d] assms(6-8) obtain ts s' where
    r: "serve_all dev_read (dev_write ka) al send (map session_input sss) (start_server d) = Some (ts, s')"
      "served (map session_line sss) s'" "length ts = length sss"
      "\<forall>k < length sss. thread_complete (ts ! k) \<and>
        concat (sent (ts ! k)) = cyc (concat (keep_last max_ops (map session_line (take (Suc k) sss)))) 0
          (length (concat (map session_line (take (Suc k) sss))))" by auto
  let ?ls = "map session_line sss"
  have "last ts = ts ! (length sss - 1)" using r(3) assms(9) by (subst last_conv_nth) auto
  then have out: "concat (sent (last ts)) = cyc (concat (keep_last max_ops ?ls)) 0 (length (concat ?ls))"
    using r(4) assms(9) by (auto dest: spec [of _ "length sss - 1"])
  have dc: "dev_contents (sdev s') = concat (keep_last max_ops ?ls)" using r(2) by (simp add: served_def)
  have split: "?ls = take (length ?ls - 10) ?ls @ keep_last 10 ?ls" by (simp add: keep_last_def)
  have "session_line (hd sss) \<noteq> []"
    using assms(6,9) by (cases sss) (auto simp: text_line_def arrives_def)
  moreover have "session_line (hd sss) \<in> set (take (length ?ls - 10) ?ls)"
    using assms(9) by (cases sss) (auto simp: take_Cons')
  ultimately have "concat (take (length ?ls - 10) ?ls) \<noteq> []" by auto
  then have "length (concat (keep_last 10 ?ls)) < length (concat ?ls)"
    using arg_cong [OF split, of "length \<circ> concat"] by simp
  with r(1) out dc show ?thesis by (auto simp: cyc_def)
qed

lemma echo_repeats_after_ten_witness:
  "\<exists>ts s'. serve_all dev_read (dev_write grow_free) calm_alloc send_all
      (replicate 11 (replicate 100 0, [Inr [97, newline]])) (start_server unloaded) = Some (ts, s') \<and>
    length (dev_contents (sdev s')) = 20 \<and> length (concat (sent (last ts))) = 22"
proof -
  let ?ss = "replicate 11 (replicate 100 0, [], [97, newline]) :: session list"
  have "\<exists>ts s'. serve_all dev_read (dev_write grow_free) calm_alloc send_all
      (map session_input ?ss) (start_server unloaded) = Some (ts, s') \<and>
    dev_contents (sdev s') = concat (keep_last 10 (map session_line ?ss)) \<and>
    length (concat (sent (last ts))) = length (concat (map session_line ?ss)) \<and>
    length (dev_contents (sdev s')) < length (concat (sent (last ts))) \<and>
    (\<forall>i < length (concat (sent (last ts))).
      concat (sent (last ts)) ! i = dev_contents (sdev s') ! (i mod length (dev_contents (sdev s'))))"
    by (rule echo_repeats_after_ten [OF calm_env(1) _ _ calm_env(2)])
      (auto simp: grow_free_resized send_all_def calm_env(3) arrives_def text_line_def length_concat sum_list_replicate)
  moreover have "length (concat (keep_last 10 (map session_line ?ss))) = 20"
    by (simp add: keep_last_def length_concat sum_list_replicate)
  moreover have "length (concat (map session_line ?ss)) = 22"
    by (simp add: length_concat sum_list_replicate)
  ultimately show ?thesis by auto
qed

text \<open>
  Without the conditions on memory that was never written the code has no defined result, or loses
  bytes.  The search for the end of a line runs off a block that holds neither a newline nor a
  zero; a newline that was on the stack ends the receive loop with the rest of the line unread.
\<close>

lemma echo_search_overruns:
  assumes "rd 1 (fpos t) (sdev s) = Some ([b], pos, dev)" "b \<noteq> newline" "b \<noteq> nul" "req \<le> int (realloc_size t)"
    "uheap s (write_buffer t) = Some blk" "1 \<le> wrbuff_size t" "wrbuff_size t < length blk"
    "newline \<notin> set blk" "nul \<notin> set blk"
  shows "read_line rd al req t s = None"
proof -
  let ?new = "take (wrbuff_size t) blk @ [b] @ drop (wrbuff_size t + 1) blk"
  have "set ?new \<subseteq> insert b (set blk)" using set_take_subset [of "wrbuff_size t" blk] set_drop_subset [of "wrbuff_size t + 1" blk] by auto
  then have "c_strchr newline ?new = None" using assms(2,3,8,9) by (intro strchr_overrun) auto
  moreover have "echo_grow al req (t\<lparr>fpos := pos\<rparr>) (uheap s) = Some (t\<lparr>fpos := pos\<rparr>, uheap s)"
    using assms(4) by (simp add: echo_grow_def)
  ultimately show ?thesis using assms(1,5-7)
    by (subst read_line.simps) (simp add: mem_write_Some Let_def)
qed

lemma recv_stale_newline_truncates:
  assumes "in_place al \<or> length xs + length d \<le> malloc_size t" "h (read_buffer t) = Some blk" "read_buffer t \<noteq> NULL"
    "recv_inv t blk xs" "d \<noteq> []" "length d \<le> length (buffer t)"
    "c_strchr newline (d @ drop (length d) (buffer t)) = Some (Some i)"
  shows "\<exists>t' blk'. recv_loop al (Inr d # rs) t h = Some (t', h(read_buffer t \<mapsto> blk')) \<and> recv_inv t' blk' (xs @ d)"
proof -
  have "(if d = [] then Some None else c_strchr newline (d @ drop (length d) (buffer t))) = Some (Some i)"
    using assms(5,7) by simp
  from recv_round [where h = h and nl = "Some i" and rs = rs, OF assms(1-4,6) this] show ?thesis
    by (auto simp del: recv_loop.simps)
qed

lemma bind_pair_None:
  "x \<bind> (\<lambda>(a, b). f a b) = None \<Longrightarrow> x \<bind> (\<lambda>(a, b). f a b \<bind> (\<lambda>(c, d). g c d)) = None"
  by (cases x) (auto simp: bind_eq_None_conv)

text \<open>
  The receive buffer is read through its old address after it is resized: as soon as a
  client sends more than the buffer holds and \<open>realloc\<close> moves the block, the copy of the
  received bytes has no defined result.
\<close>

theorem recv_moved_undefined:
  assumes "h (read_buffer t) = Some blk" "read_buffer t \<noteq> NULL" "h NULL = None"
    and "malloc_size t - rdbuff_size t < length data"
    and "\<forall>h n. addr (al h (read_buffer t) n) \<noteq> read_buffer t"
  shows "recv_loop al (Inr data # rs) t h = None"
proof -
  have "recv_grow al (length data) (t\<lparr>buffer := buf\<rparr>) h \<bind> (\<lambda>(t, h). recv_store data t h) = None" for buf
  proof (cases "addr (al h (read_buffer t) (malloc_size t + length data)) = NULL")
    case True
    with assms show ?thesis by (simp add: recv_grow_def krealloc_def kfree_def recv_store_def Let_def)
  next
    case False
    have "read_buffer t \<noteq> addr (al h (read_buffer t) (malloc_size t + length data))" using assms(5) by metis
    with False assms show ?thesis by (simp add: recv_grow_def krealloc_def recv_store_def Let_def)
  qed
  note undef = bind_pair_None [OF this]
  show ?thesis
    by (simp only: recv_loop.simps Let_def undef) (simp split: bind_split)
qed

definition moving_alloc :: allocator where
  "moving_alloc h p n = \<lparr>addr = p + 1, junk = (\<lambda>_. 0)\<rparr>"

lemma recv_moved_undefined_witness:
  "recv_loop moving_alloc [Inr [97, newline]] ((new_thread (replicate 100 0))\<lparr>read_buffer := 5, rdbuff_size := 99\<rparr>)
     [5 \<mapsto> replicate 100 0] = None"
  by (rule recv_moved_undefined) (simp_all add: new_thread_def moving_alloc_def)

text \<open>
  A packet that fills the receive buffer and contains neither a newline nor a zero byte
  makes the search for the newline run past the end of the buffer.
\<close>

theorem recv_full_packet_overruns:
  assumes "length (buffer t) = BUFFER_MAX" "length data = BUFFER_MAX" "newline \<notin> set data" "nul \<notin> set data"
  shows "recv_loop al (Inr data # rs) t h = None"
proof -
  have "data \<noteq> []" using assms(2) by auto
  then show ?thesis using assms by (simp add: mem_write_def strchr_overrun)
qed

lemma recv_full_packet_overruns_witness:
  "recv_loop calm_alloc [Inr (replicate 100 97)] (new_thread (replicate 100 0)) Map.empty = None"
  by (rule recv_full_packet_overruns) (simp_all add: new_thread_def)

text \<open>
  When the device does not take all the bytes, the thread leaves with the mutex held, and
  every thread that wants to write after it waits for ever.
\<close>

theorem short_write_deadlocks:
  assumes "\<not> data_mutex s" "uheap s (read_buffer t) = Some blk" "rdbuff_size t \<le> length blk"
    and "wr (take (rdbuff_size t) blk) (fpos t) (sdev s) = Some (n, pos, dev)" "n \<noteq> int (rdbuff_size t)"
  shows "\<exists>t' s'. write_out wr t s = Some (False, t', s') \<and> data_mutex s' \<and> (\<forall>t2. write_out wr t2 s' = None)"
  using assms by (auto simp: write_out_def lock_data_def mem_read_def Let_def)

lemma short_write_deadlocks_witness:
  "\<exists>t' s'. write_out (\<lambda>_ _ d. Some (- 1, 0, d)) ((new_thread [])\<lparr>read_buffer := 5, rdbuff_size := 1\<rparr>)
      \<lparr>sdev = (), end_pos = 0, data_mutex = False, uheap = [5 \<mapsto> [97]]\<rparr> = Some (False, t', s') \<and> data_mutex s'"
  using short_write_deadlocks [of "\<lparr>sdev = (), end_pos = 0, data_mutex = False, uheap = [5 \<mapsto> [97]]\<rparr>"
      "(new_thread [])\<lparr>read_buffer := 5, rdbuff_size := 1\<rparr>" "[97]" "\<lambda>_ _ d. Some (- 1, 0, d)" "- 1" 0 "()"]
  by auto

section \<open>The main program\<close>

text \<open>
  An entry of the list of connections.  \<open>started\<close>: a thread was created for it; \<open>joined\<close>: it
  has been waited for.  Waiting for a thread that does not exist, or a second time for the same
  thread, is undefined.
\<close>

record slist_data =
  thread_sockfd :: nat
  started :: bool
  complete :: bool
  joined :: bool

definition join_thread :: "slist_data \<Rightarrow> slist_data option" where
  "join_thread d = (if started d \<and> \<not> joined d then Some (d\<lparr>joined := True\<rparr>) else None)"

text \<open>\<open>SLIST_FOREACH\<close> over the list, doing something with every element.\<close>

fun slist_foreach :: "(slist_data \<Rightarrow> slist_data option) \<Rightarrow> slist_data list \<Rightarrow> slist_data list option" where
  "slist_foreach f [] = Some []"
| "slist_foreach f (d # ds) = do {
     d' \<leftarrow> f d;
     ds' \<leftarrow> slist_foreach f ds;
     Some (d' # ds')
   }"

text \<open>
  What happens in a round of the accept loop: the result of \<open>accept\<close>; whether there was memory
  for the entry; whether the thread was created; which threads are complete when the list is
  searched; whether the signal flag is set when the round is over.
\<close>

record round =
  accepted :: "nat option"
  entry_memory :: bool
  thread_created :: bool
  done_by_now :: "nat \<Rightarrow> bool"
  signalled :: bool

definition accept_round :: "round \<Rightarrow> slist_data list \<Rightarrow> (bool \<times> slist_data list) option" where
  "accept_round r head =
     (case accepted r of
        None \<Rightarrow> Some (False, head)
      | Some new_sockfd \<Rightarrow>
          if \<not> entry_memory r then None
          else do {
            let datap = \<lparr>thread_sockfd = new_sockfd, started = thread_created r, complete = False, joined = False\<rparr>;
            let head = datap # head;
            if \<not> thread_created r then Some (False, head)
            else do {
              let head = map (\<lambda>d. d\<lparr>complete := complete d \<or> done_by_now r (thread_sockfd d)\<rparr>) head;
              head \<leftarrow> slist_foreach (\<lambda>d. if complete d then join_thread d else Some d) head;
              Some (\<not> signalled r, head)
            }
          })"

text \<open>The loop; when no client comes any more it waits without end.\<close>

fun accept_loop :: "round list \<Rightarrow> slist_data list \<Rightarrow> slist_data list option" where
  "accept_loop [] head = None"
| "accept_loop (r # rs) head = do {
     (go_on, head) \<leftarrow> accept_round r head;
     if go_on then accept_loop rs head else Some head
   }"

text \<open>
  The end of \<open>main\<close>: every thread is waited for and the list is freed, element by element.
  \<open>cleanup\<close> closes the socket and the log; with the driver as the device it cannot fail.
\<close>

fun slist_free :: "slist_data list \<Rightarrow> slist_data list" where
  "slist_free [] = []"
| "slist_free (datap # ds) = slist_free ds"

definition cleanup_server :: int where
  "cleanup_server = 0"

definition main_cleanup :: "slist_data list \<Rightarrow> (int \<times> slist_data list) option" where
  "main_cleanup head = do {
     head \<leftarrow> slist_foreach join_thread head;
     Some (if cleanup_server < 0 then - 1 else 0, slist_free head)
   }"

text \<open>
  The start of \<open>main\<close>: the answers of the system calls it makes before the loop.  \<open>forked\<close> is
  the result of \<open>fork\<close>.
\<close>

record start_calls =
  mutex_init_ok :: bool
  socket_ok :: bool
  setsockopt_ok :: bool
  bind_ok :: bool
  forked :: int
  setsid_ok :: bool
  chdir_ok :: bool
  listen_ok :: bool

definition main :: "string list \<Rightarrow> start_calls \<Rightarrow> round list \<Rightarrow> (int \<times> slist_data list) option" where
  "main argv c rs =
     (if length argv > 2 then Some (- 1, [])
      else let daemon = (length argv = 2 \<and> argv ! 1 = ''-d'') in
        if \<not> mutex_init_ok c \<or> \<not> socket_ok c \<or> \<not> setsockopt_ok c \<or> \<not> bind_ok c then main_cleanup []
        else if daemon \<and> forked c = - 1 then Some (- 1, [])
        else if daemon \<and> forked c \<noteq> 0 then Some (0, [])
        else if daemon \<and> (\<not> setsid_ok c \<or> \<not> chdir_ok c) then Some (- 1, [])
        else if \<not> listen_ok c then main_cleanup []
        else accept_loop rs [] \<bind> main_cleanup)"

section \<open>Waiting for the threads\<close>

lemma foreach_join: "slist_foreach join_thread ds \<noteq> None \<longleftrightarrow> (\<forall>d \<in> set ds. started d \<and> \<not> joined d)"
  by (induction ds) (auto simp: join_thread_def)

lemma foreach_id: "(\<forall>d \<in> set ds. f d = Some d) \<Longrightarrow> slist_foreach f ds = Some ds"
  by (induction ds) auto

definition start_ok :: start_calls where
  "start_ok = \<lparr>mutex_init_ok = True, socket_ok = True, setsockopt_ok = True, bind_ok = True, forked = 0,
     setsid_ok = True, chdir_ok = True, listen_ok = True\<rparr>"

text \<open>Complete threads of the list have been waited for already.\<close>

lemma foreach_complete:
  "slist_foreach (\<lambda>d. if complete d then join_thread d else Some d) ds = Some ds' \<Longrightarrow>
     d' \<in> set ds' \<Longrightarrow> complete d' \<Longrightarrow> joined d'"
  by (induction ds arbitrary: ds') (auto simp: bind_eq_Some_conv join_thread_def split: if_splits)

lemma accept_round_joined:
  assumes "accept_round r head = Some (b, head')" "\<forall>d \<in> set head. complete d \<longrightarrow> joined d"
  shows "\<forall>d \<in> set head'. complete d \<longrightarrow> joined d"
  using assms by (auto simp: accept_round_def Let_def bind_eq_Some_conv split: option.splits if_splits
      dest: foreach_complete simp del: slist_foreach.simps)

lemma accept_loop_joined:
  "accept_loop rs head = Some head' \<Longrightarrow> \<forall>d \<in> set head. complete d \<longrightarrow> joined d \<Longrightarrow>
     \<forall>d \<in> set head'. complete d \<longrightarrow> joined d"
  by (induction rs arbitrary: head)
    (auto simp: bind_eq_Some_conv split: if_splits dest: accept_round_joined)

text \<open>
  A thread that is seen to be complete in the accept loop is waited for there and again at
  the end (and in every round between): the program then has no defined result.
\<close>

theorem main_joins_twice:
  assumes "accept_loop rs [] = Some head" "\<exists>d \<in> set head. complete d"
  shows "main [prog] start_ok rs = None"
proof -
  have "\<exists>d \<in> set head. joined d" using accept_loop_joined [OF assms(1)] assms(2) by auto
  then have "slist_foreach join_thread head = None" using foreach_join [of head] by blast
  then show ?thesis using assms(1) by (simp add: main_def start_ok_def main_cleanup_def)
qed

definition one_client :: "(nat \<Rightarrow> bool) \<Rightarrow> round" where
  "one_client done = \<lparr>accepted = Some 4, entry_memory = True, thread_created = True, done_by_now = done, signalled = True\<rparr>"

lemma main_joins_twice_witness: "main [''aesdsocket''] start_ok [one_client (\<lambda>_. True)] = None"
  by (rule main_joins_twice) (auto simp: one_client_def accept_round_def join_thread_def)

lemma accept_loop_open:
  assumes "\<forall>r \<in> set rs. entry_memory r \<and> thread_created r \<and> (\<forall>fd. \<not> done_by_now r fd)"
    and "\<exists>r \<in> set rs. accepted r = None \<or> signalled r"
    and "\<forall>d \<in> set head. started d \<and> \<not> joined d \<and> \<not> complete d"
  shows "\<exists>head'. accept_loop rs head = Some head' \<and> (\<forall>d \<in> set head'. started d \<and> \<not> joined d \<and> \<not> complete d)"
  using assms
proof (induction rs arbitrary: head)
  case Nil
  then show ?case by simp
next
  case (Cons r rs)
  show ?case
  proof (cases "accepted r")
    case None
    with Cons.prems show ?thesis by (simp add: accept_round_def)
  next
    case (Some fd)
    let ?head = "\<lparr>thread_sockfd = fd, started = True, complete = False, joined = False\<rparr> # head"
    have "slist_foreach (\<lambda>d. if complete d then join_thread d else Some d) head = Some head"
      using Cons.prems(3) by (intro foreach_id) auto
    then have r: "accept_round r head = Some (\<not> signalled r, ?head)"
      using Cons.prems(1) Some by (simp add: accept_round_def Let_def)
    have ok: "\<forall>d \<in> set ?head. started d \<and> \<not> joined d \<and> \<not> complete d" using Cons.prems(3) by simp
    show ?thesis
    proof (cases "signalled r")
      case True
      with r ok show ?thesis by auto
    next
      case False
      then have "\<exists>r \<in> set rs. accepted r = None \<or> signalled r" using Cons.prems(2) Some by auto
      with Cons.IH [OF _ this ok] Cons.prems(1) r False show ?thesis by auto
    qed
  qed
qed

text \<open>
  When every call succeeds and no thread is complete before the last round, the main
  program ends with the first failed accept or the signal, waits exactly once for each of the
  threads it created, frees the whole list and returns 0.
\<close>

theorem main_joins_all:
  assumes "\<forall>r \<in> set rs. entry_memory r \<and> thread_created r \<and> (\<forall>fd. \<not> done_by_now r fd)"
    and "\<exists>r \<in> set rs. accepted r = None \<or> signalled r"
  shows "main [prog] start_ok rs = Some (0, []) \<and>
    (\<exists>head. accept_loop rs [] = Some head \<and> (\<forall>d \<in> set head. started d \<and> \<not> joined d))"
proof -
  from accept_loop_open [OF assms, of "[]"] obtain head where
    h: "accept_loop rs [] = Some head" "\<forall>d \<in> set head. started d \<and> \<not> joined d" by auto
  then obtain head' where "slist_foreach join_thread head = Some head'" using foreach_join [of head] by blast
  moreover have "slist_free head' = []" by (induction head') auto
  ultimately show ?thesis using h by (auto simp: main_def start_ok_def main_cleanup_def cleanup_server_def)
qed

lemma main_joins_all_witness: "main [''aesdsocket''] start_ok [one_client (\<lambda>_. False)] = Some (0, [])"
  using main_joins_all [of "[one_client (\<lambda>_. False)]" "''aesdsocket''"] by (simp add: one_client_def)

end
