(* ===== verification/Aesd_Concurrent.thy ===== *)
theory Aesd_Concurrent
  imports Aesd_Socket
begin

text \<open>
  The connection threads of \<open>server/aesdsocket.c\<close> running at the same time.

  \<open>Aesd_Socket\<close> runs a connection from its start to its end.  Here \<open>thread_func\<close> is cut where
  another thread can run in between and notice: before it takes \<open>data_mutex\<close> for its write, at
  each look at \<open>end_pos\<close>, which happens without the mutex, and before it takes the mutex for a
  line.  What lies between a lock and its unlock is one step, and so is what only touches the
  thread's own data.  A schedule, the list of the threads that run, is arbitrary.
\<close>

section \<open>The steps of a thread\<close>

text \<open>
  Where a thread is: before it receives, before its write, at the head of the echo loop, before
  it reads a line with the memory it has computed for it, and at its end, reached or left early.
\<close>

datatype phase =
    Receiving "(errno + byte list) list"
  | Writing
  | Checking
  | Reading int
  | Finished
  | Gave_up

definition thread_step ::
  "'s dev_reader \<Rightarrow> 's dev_writer \<Rightarrow> allocator \<Rightarrow> (byte list list \<Rightarrow> byte list \<Rightarrow> int) \<Rightarrow>
     phase \<Rightarrow> thread \<Rightarrow> 's server \<Rightarrow> (phase \<times> thread \<times> 's server) option" where
  "thread_step rd wr al send ph t s = (case ph of
     Receiving rs \<Rightarrow> do {
       let t = t\<lparr>file_open := True\<rparr>;
       let (p, h) = kmalloc (uheap s) (al (uheap s) NULL BUFFER_MAX) BUFFER_MAX;
       blk \<leftarrow> h p;
       blk \<leftarrow> mem_write blk 0 (replicate BUFFER_MAX 0);
       (t, h) \<leftarrow> recv_loop al rs (t\<lparr>read_buffer := p\<rparr>) (h(p \<mapsto> blk));
       Some (Writing, t, s\<lparr>uheap := h\<rparr>)
     }
   | Writing \<Rightarrow> do {
       (go_on, t, s) \<leftarrow> write_out wr t s;
       Some (if go_on then Checking else Gave_up, t, s)
     }
   | Checking \<Rightarrow>
       if bytes t < end_pos s then
         let required_memory = int (end_pos s) - int (cur_pos t);
             (p, h) = kmalloc (uheap s) (al (uheap s) NULL BUFFER_MAX) BUFFER_MAX
         in Some (if p = NULL then Gave_up else Reading required_memory,
                  t\<lparr>wrbuff_size := 0, write_buffer := p\<rparr>, s\<lparr>uheap := h\<rparr>)
       else do {
         (t, s) \<leftarrow> thread_finish t s;
         Some (Finished, t, s)
       }
   | Reading required_memory \<Rightarrow> do {
       s \<leftarrow> lock_data s;
       (t, s) \<leftarrow> read_line rd al required_memory t s;
       (go_on, t, s) \<leftarrow> echo_send send t s;
       Some (if go_on then Checking else Gave_up, t, s)
     }
   | Finished \<Rightarrow> Some (Finished, t, s)
   | Gave_up \<Rightarrow> Some (Gave_up, t, s))"

text \<open>A thread that is not disturbed takes the steps of \<open>thread_func\<close>.\<close>

lemma echo_loop_steps:
  "echo_loop rd al send t s =
     (if bytes t < end_pos s then do {
        (ph, t, s) \<leftarrow> thread_step rd wr al send Checking t s;
        if ph = Gave_up then Some (False, t, s)
        else do {
          (ph, t, s) \<leftarrow> thread_step rd wr al send ph t s;
          if ph = Checking then echo_loop rd al send t s else Some (False, t, s)
        }
      } else Some (True, t, s))"
proof (cases "bytes t < end_pos s")
  case False
  then show ?thesis by (subst echo_loop.simps) simp
next
  case True
  then show ?thesis
    by (subst echo_loop.simps)
      (auto simp: thread_step_def Let_def split: prod.split Option.bind_split)
qed

lemma thread_func_steps:
  "thread_func rd wr al send True rs buf s = do {
     (ph, t, s) \<leftarrow> thread_step rd wr al send (Receiving rs) (new_thread buf) s;
     (ph, t, s) \<leftarrow> thread_step rd wr al send ph t s;
     if ph = Gave_up then Some (t, s)
     else do {
       (go_on, t, s) \<leftarrow> echo_loop rd al send t s;
       if \<not> go_on then Some (t, s) else thread_finish t s
     }
   }"
  by (auto simp: thread_func_def thread_step_def Let_def new_thread_def split: prod.split Option.bind_split)



section \<open>The invariant\<close>








section \<open>What the other threads do not notice\<close>








section \<open>The steps keep the invariant\<close>
















section \<open>Correctness\<close>





end
