(* ===== verification/Aesd_Tools.thy ===== *)
theory Aesd_Tools
  imports Prelude
begin

text \<open>
  The small user programs of the assignments: running a command in a child process
  (\<open>examples/systemcalls\<close>), the thread that takes a mutex (\<open>examples/threading\<close>) and the file
  writer (\<open>finder-app/writer.c\<close>).  What the system calls answer are arguments.
\<close>

section \<open>Running a command\<close>

text \<open>How a child ends, as the macros on the wait status tell it.\<close>

datatype wait_status = Exited byte | Signaled nat

text \<open>
  \<open>execv\<close> answers for the array of arguments: it fails, or the program runs and ends.
  \<open>after_return\<close> is how a child ends that returns into the caller.
\<close>

record exec_calls =
  system_ret :: int
  open_ret :: int
  fork_ret :: int
  dup2_ok :: bool
  execv :: "string list \<Rightarrow> wait_status option"
  after_return :: wait_status
  waitpid_ok :: bool

definition do_system :: "exec_calls \<Rightarrow> bool" where
  "do_system c = (let sys = system_ret c in if sys = 0 then True else False)"

text \<open>The child: when \<open>execv\<close> returns at all it exits with \<open>-1\<close>.\<close>

definition exec_child :: "exec_calls \<Rightarrow> string list \<Rightarrow> wait_status" where
  "exec_child c command = (case execv c command of Some st \<Rightarrow> st | None \<Rightarrow> Exited (- 1))"

text \<open>The parent after the fork.\<close>

definition wait_child :: "exec_calls \<Rightarrow> wait_status \<Rightarrow> bool" where
  "wait_child c status =
     (if \<not> waitpid_ok c then False
      else case status of
        Exited exit_status \<Rightarrow> if exit_status \<noteq> 0 then False else True
      | Signaled _ \<Rightarrow> True)"

definition do_exec :: "exec_calls \<Rightarrow> string list \<Rightarrow> bool" where
  "do_exec c command =
     (if fork_ret c = - 1 then False else wait_child c (exec_child c command))"

text \<open>
  With the output redirected.  The results: what the parent returns, the descriptors it has open
  afterwards, and, when the function returns in the child as well, what it returns there.
\<close>

definition redirect_child :: "exec_calls \<Rightarrow> string list \<Rightarrow> wait_status \<times> bool option" where
  "redirect_child c command =
     (if \<not> dup2_ok c then (after_return c, Some False) else (exec_child c command, None))"

definition do_exec_redirect :: "exec_calls \<Rightarrow> string list \<Rightarrow> int set \<Rightarrow> bool \<times> int set \<times> bool option" where
  "do_exec_redirect c command fds =
     (let fd = open_ret c in
      if fd < 0 then (False, fds, None)
      else let fds = insert fd fds in
        if fork_ret c = - 1 then (False, fds, None)
        else let (status, child_returns) = redirect_child c command
             in (wait_child c status, fds, child_returns))"

text \<open>
  Running a command, with or without its output redirected, reports success exactly when
  the child could be created and waited for and did not exit with a status other than 0, so a
  child killed by a signal counts as a success; the redirected call leaves the output file open
  in the caller, once for every call.
\<close>

theorem exec_reports:
  assumes "0 \<le> open_ret c" "dup2_ok c"
  shows "(do_exec c command \<longleftrightarrow> fork_ret c \<noteq> - 1 \<and> waitpid_ok c \<and>
      (execv c command = Some (Exited 0) \<or> (\<exists>sig. execv c command = Some (Signaled sig)))) \<and>
    do_exec_redirect c command fds = (do_exec c command, insert (open_ret c) fds, None)"
  using assms
  by (auto simp: do_exec_def do_exec_redirect_def redirect_child_def wait_child_def exec_child_def Let_def
      split: option.splits wait_status.splits)

definition killed_child :: exec_calls where
  "killed_child = \<lparr>system_ret = 9, open_ret = 3, fork_ret = 77, dup2_ok = True,
     execv = (\<lambda>_. Some (Signaled 9)), after_return = Exited 0, waitpid_ok = True\<rparr>"

lemma exec_reports_witness:
  "do_exec killed_child [''/bin/sleep''] \<and> \<not> do_system killed_child \<and>
     do_exec_redirect killed_child [''/bin/sleep''] {0, 1, 2} = (True, {0, 1, 2, 3}, None)"
  using exec_reports [of killed_child "[''/bin/sleep'']" "{0, 1, 2}"]
  by (auto simp: killed_child_def do_system_def)

section \<open>The thread that takes a mutex\<close>

record mutex_args =
  wait_to_obtain_ms :: int
  wait_to_release_ms :: int
  thread_complete_success :: bool

text \<open>
  \<open>us n\<close>: whether sleeping \<open>n\<close> microseconds succeeds; \<open>lock_ok\<close>, \<open>unlock_ok\<close>: the mutex calls.
  The state is whether the thread holds the mutex.  The products are 32-bit.
\<close>

definition threadfunc ::
  "(int \<Rightarrow> bool) \<Rightarrow> bool \<Rightarrow> bool \<Rightarrow> mutex_args \<Rightarrow> mutex_args \<times> bool" where
  "threadfunc us lock_ok unlock_ok a =
     (if \<not> us (u32 (wait_to_obtain_ms a * 1000)) then (a, False)
      else if \<not> lock_ok then (a, False)
      else if \<not> us (u32 (wait_to_release_ms a * 1000)) then (a, True)
      else if \<not> unlock_ok then (a, True)
      else (a\<lparr>thread_complete_success := True\<rparr>, False))"

text \<open>
  Starting it: the memory of the arguments is used without a check; what \<open>pthread_create\<close>
  answers is its error or the thread, which is stored through the caller's pointer.
\<close>

definition start_thread_obtaining_mutex ::
  "bool \<Rightarrow> nat option \<Rightarrow> int \<Rightarrow> int \<Rightarrow> (bool \<times> nat option \<times> mutex_args) option" where
  "start_thread_obtaining_mutex memory created obtain_ms release_ms =
     (if \<not> memory then None
      else let a = \<lparr>wait_to_obtain_ms = obtain_ms, wait_to_release_ms = release_ms, thread_complete_success = False\<rparr>
      in case created of
           None \<Rightarrow> Some (False, None, a)
         | Some myThread \<Rightarrow> Some (True, Some myThread, a))"

text \<open>
  A started thread reports success exactly when both sleeps and both mutex calls succeed;
  then the mutex is free again.  It ends holding the mutex exactly when it took it and the
  second sleep or the release failed.
\<close>

theorem thread_obtaining_mutex:
  "\<exists>a. start_thread_obtaining_mutex True (Some t) o_ms r_ms = Some (True, Some t, a) \<and>
    (case threadfunc us lock_ok unlock_ok a of
       (a', held) \<Rightarrow>
         thread_complete_success a' =
           (us (u32 (o_ms * 1000)) \<and> lock_ok \<and> us (u32 (r_ms * 1000)) \<and> unlock_ok) \<and>
         held = (us (u32 (o_ms * 1000)) \<and> lock_ok \<and> \<not> thread_complete_success a'))"
  by (auto simp: start_thread_obtaining_mutex_def threadfunc_def Let_def)

section \<open>The file writer\<close>

text \<open>
  What the calls of \<open>writer.c\<close> answer.  \<open>mkdir_ret\<close>: the result of \<open>system\<close> for
  \<open>mkdir -p\<close>; \<open>wrote\<close>: the bytes \<open>write\<close> takes, or its failure.
\<close>

record writer_calls =
  dirname_ret :: string
  stat_ok :: bool
  mkdir_ret :: int
  wopen_ok :: bool
  wrote :: "nat option"
  close_ok :: bool

text \<open>
  The result is the exit status and the contents of the file, \<open>None\<close> for no file.  The two
  local arrays have 200 and 210 bytes; \<open>strcpy\<close> and \<open>sprintf\<close> do not look.  The file is opened
  without \<open>O_TRUNC\<close>.
\<close>

definition writer_mkdir :: "writer_calls \<Rightarrow> int option" where
  "writer_mkdir c =
     (if \<not> stat_ok c then
        (if 210 < length (''mkdir -p '' @ dirname_ret c) + 1 then None
         else Some (mkdir_ret c))
      else Some 0)"

definition writer_file :: "writer_calls \<Rightarrow> string \<Rightarrow> string option \<Rightarrow> int \<times> string option" where
  "writer_file c text file =
     (if \<not> wopen_ok c then (1, file)
      else let old = (case file of None \<Rightarrow> [] | Some s \<Rightarrow> s) in
        case wrote c of
          None \<Rightarrow> (1, Some old)
        | Some n \<Rightarrow>
            let file = Some (take n text @ drop (length (take n text)) old)
            in if \<not> close_ok c then (1, file) else (0, file))"

definition writer_main :: "string list \<Rightarrow> writer_calls \<Rightarrow> string option \<Rightarrow> (int \<times> string option) option" where
  "writer_main argv c file =
     (if length argv \<noteq> 3 then Some (1, file)
      else if 200 < length (argv ! 1) + 1 then None
      else writer_mkdir c \<bind> (\<lambda>mkdr.
        if mkdr = - 1 then Some (1, file) else Some (writer_file c (argv ! 2) file)))"

text \<open>
  With two arguments, a path below 200 characters and a directory name no longer than it,
  the writer stays inside its arrays; when every call succeeds the file begins with the string,
  followed by what an older, longer file had behind that many characters.
\<close>

theorem writer_overwrites:
  assumes "argv = [prog, path, text]" "length path < 200" "length (dirname_ret c) \<le> length path"
    and "mkdir_ret c \<noteq> - 1" "wopen_ok c" "wrote c = Some (length text)" "close_ok c"
  shows "writer_main argv c (Some old) = Some (0, Some (text @ drop (length text) old)) \<and>
    writer_main argv c None = Some (0, Some text)"
  using assms by (auto simp: writer_main_def writer_mkdir_def writer_file_def Let_def)

lemma writer_overwrites_witness:
  "writer_main [''writer'', ''/tmp/f'', ''ab''] \<lparr>dirname_ret = ''/tmp'', stat_ok = True, mkdir_ret = 0,
     wopen_ok = True, wrote = Some 2, close_ok = True\<rparr> (Some ''wxyz'') = Some (0, Some ''abyz'')"
  using writer_overwrites [of "[''writer'', ''/tmp/f'', ''ab'']" "''writer''" "''/tmp/f''" "''ab''"
    "\<lparr>dirname_ret = ''/tmp'', stat_ok = True, mkdir_ret = 0, wopen_ok = True, wrote = Some 2, close_ok = True\<rparr>" "''wxyz''"]
  by simp

end
