(* ===== verification/Quantum_Store.thy ===== *)
theory Quantum_Store
  imports Prelude
begin

text \<open>
  The storage that the drivers \<open>scull\<close>, \<open>scullc\<close>, \<open>scullp\<close>, \<open>sculld\<close> and \<open>scullv\<close> share: a list
  of items, each with an array of pointers to quanta.  Here are the parts of the code that are
  the same in all of them (the split of a position, the walk along the list, the access to a
  quantum) and their abstract view, the byte stored at a position.
\<close>

section \<open>Items and quanta\<close>

text \<open>
  An item is its array of quanta, \<open>None\<close> while the pointer to the array is NULL; an entry of the
  array is a quantum or NULL.
\<close>

type_synonym item = "byte list option list option"

text \<open>
  The split of a position: \<open>item\<close>, \<open>s_pos\<close> and \<open>q_pos\<close>, all of them \<open>int\<close>, undefined for an
  item of size 0.
\<close>

definition q_locate :: "int \<Rightarrow> int \<Rightarrow> int \<Rightarrow> (int \<times> int \<times> int) option" where
  "q_locate quantum qset f_pos = do {
     let itemsize = s32 (quantum * qset);
     item \<leftarrow> c_div f_pos itemsize;
     rest \<leftarrow> c_rem f_pos itemsize;
     s_pos \<leftarrow> c_div (s32 rest) quantum;
     q_pos \<leftarrow> c_rem (s32 rest) quantum;
     Some (s32 item, s32 s_pos, s32 q_pos)
   }"

text \<open>
  The loop \<open>while (n--)\<close> from item \<open>k\<close>: a missing item is appended if there is memory for it,
  with a NULL array; \<open>ok\<close> says so for its index.  The result is the index reached, or that an
  allocation failed, and the list.
\<close>

fun q_walk :: "(nat \<Rightarrow> bool) \<Rightarrow> nat \<Rightarrow> nat \<Rightarrow> item list \<Rightarrow> nat option \<times> item list" where
  "q_walk ok 0 k its = (Some k, its)"
| "q_walk ok (Suc n) k its =
     (if Suc k < length its then q_walk ok n (Suc k) its
      else if ok (Suc k) then q_walk ok n (Suc k) (its @ [None])
      else (None, its))"

text \<open>\<open>n\<close> is an \<open>int\<close>: a negative one is counted down through all \<open>2^32\<close> values.\<close>

definition walk_count :: "int \<Rightarrow> nat" where
  "walk_count n = nat (u32 n)"

text \<open>\<open>data[s_pos]\<close> of item \<open>k\<close>, a read inside the array.\<close>

definition q_entry :: "item list \<Rightarrow> nat \<Rightarrow> int \<Rightarrow> byte list option option" where
  "q_entry its k s_pos =
     mem_at its k \<bind> (\<lambda>it. it \<bind> (\<lambda>arr. if 0 \<le> s_pos then mem_at arr (nat s_pos) else None))"

definition q_set :: "item list \<Rightarrow> nat \<Rightarrow> int \<Rightarrow> byte list \<Rightarrow> item list" where
  "q_set its k s_pos blk =
     (case its ! k of None \<Rightarrow> its | Some arr \<Rightarrow> its[k := Some (arr[nat s_pos := Some blk])])"

text \<open>Bytes \<open>q_pos\<close> up to \<open>q_pos + count\<close> of a quantum.\<close>

definition blk_get :: "byte list \<Rightarrow> int \<Rightarrow> int \<Rightarrow> byte list option" where
  "blk_get blk q_pos count = (if 0 \<le> q_pos then mem_read blk (nat q_pos) (nat count) else None)"

definition blk_put :: "byte list \<Rightarrow> int \<Rightarrow> byte list \<Rightarrow> byte list option" where
  "blk_put blk q_pos src = (if 0 \<le> q_pos then mem_write blk (nat q_pos) src else None)"

text \<open>
  The array of an item, allocated and zeroed when it is missing: \<open>qset\<close> pointers.  A request
  for a negative number of bytes is one for almost all of the address space and fails.
\<close>

definition q_need_data :: "bool \<Rightarrow> int \<Rightarrow> nat \<Rightarrow> item list \<Rightarrow> item list ret" where
  "q_need_data ok qset k its =
     (case its ! k of
        Some _ \<Rightarrow> Inr its
      | None \<Rightarrow> if ok \<and> 0 \<le> qset then Inr (its[k := Some (replicate (nat qset) None)]) else Inl ENOMEM)"

section \<open>The stored bytes\<close>

definition q_page :: "nat \<Rightarrow> item list \<Rightarrow> nat \<Rightarrow> byte list option" where
  "q_page n its p =
     (if p div n < length its
      then (case its ! (p div n) of None \<Rightarrow> None | Some arr \<Rightarrow> arr ! (p mod n)) else None)"

text \<open>The byte at position \<open>x\<close> for quanta of \<open>q\<close> bytes, \<open>n\<close> to an item.\<close>

definition q_byte :: "nat \<Rightarrow> nat \<Rightarrow> item list \<Rightarrow> nat \<Rightarrow> byte option" where
  "q_byte q n its x = map_option (\<lambda>blk. blk ! (x mod q)) (q_page n its (x div q))"

text \<open>The shape of a store: arrays of \<open>n\<close> entries, quanta of \<open>q\<close> bytes.\<close>

definition q_wf :: "nat \<Rightarrow> nat \<Rightarrow> item list \<Rightarrow> bool" where
  "q_wf q n its \<longleftrightarrow> 0 < q \<and> 0 < n \<and> q * n < 2 ^ 31 \<and>
     (\<forall>arr. Some arr \<in> set its \<longrightarrow> length arr = n \<and> (\<forall>blk. Some blk \<in> set arr \<longrightarrow> length blk = q))"

lemma q_locate_nat:
  assumes "0 < q" "0 < n" "q * n < 2 ^ 31" "x div (q * n) < 2 ^ 31"
  shows "q_locate (int q) (int n) (int x) =
    Some (int (x div q div n), int (x div q mod n), int (x mod q))"
proof -
  have sz: "s32 (int q * int n) = int (q * n)" using assms(3) by (simp flip: of_nat_mult)
  have qn: "q \<le> q * n" using assms(2) by simp
  have rest: "x mod (q * n) < q * n" using assms(1,2) by simp
  then have rest2: "s32 (int (x mod (q * n))) = int (x mod (q * n))" using assms(3) by simp
  have s: "x mod (q * n) div q = x div q mod n" using assms(1,2) by (simp add: div_mult1_eq mod_mult2_eq)
  have m: "x mod (q * n) mod q = x mod q" by (simp add: mod_mod_cancel)
  have it: "x div (q * n) = x div q div n" by (simp add: div_mult2_eq)
  have "x div q mod n < n" "x mod q < q" using assms(1,2) by simp_all
  moreover have "n \<le> q * n" using assms(1) by simp
  ultimately have b: "x div q mod n < 2 ^ 31" "x mod q < 2 ^ 31" using assms(3) qn by linarith+
  have c: "c_div (int x) (int (q * n)) = Some (int (x div (q * n)))"
    "c_rem (int x) (int (q * n)) = Some (int (x mod (q * n)))"
    "c_div (int (x mod (q * n))) (int q) = Some (int (x mod (q * n) div q))"
    "c_rem (int (x mod (q * n))) (int q) = Some (int (x mod (q * n) mod q))"
    using assms(1,2) by (simp_all add: c_div_pos c_rem_pos zdiv_int zmod_int)
  show ?thesis
    using assms(4) b unfolding q_locate_def sz Let_def c rest2 by (simp add: c rest2 s m it)
qed

lemma walk_count_nat: "k < 2 ^ 31 \<Longrightarrow> walk_count (int k) = k"
  by (simp add: walk_count_def)

text \<open>The walk appends empty items only and reaches its item when memory lasts.\<close>

lemma q_walk_any:
  assumes "k < length its"
  shows "\<exists>m r. q_walk ok n k its = (r, its @ replicate m None) \<and> (\<forall>i. r = Some i \<longrightarrow> i = k + n \<and> i < length its + m) \<and>
    ((\<forall>i. ok i) \<or> k + n < length its \<longrightarrow> r = Some (k + n))"
  using assms
proof (induction n arbitrary: k its)
  case 0
  then show ?case by (intro exI [of _ 0]) simp
next
  case (Suc n)
  consider "Suc k < length its" | "\<not> Suc k < length its" "ok (Suc k)" | "\<not> Suc k < length its" "\<not> ok (Suc k)" by blast
  then show ?case
  proof cases
    case 1
    then have "q_walk ok (Suc n) k its = q_walk ok n (Suc k) its" by simp
    then show ?thesis using Suc.IH [OF 1] by (simp only: add_Suc_shift)
  next
    case 2
    have "Suc k < length (its @ [None])" using Suc.prems by simp
    from Suc.IH [OF this] obtain m r where "q_walk ok n (Suc k) (its @ [None]) = (r, (its @ [None]) @ replicate m None)"
      "\<forall>i. r = Some i \<longrightarrow> i = Suc k + n \<and> i < length (its @ [None]) + m" "(\<forall>i. ok i) \<or> Suc k + n < length (its @ [None]) \<longrightarrow> r = Some (Suc k + n)"
      by blast
    moreover have "q_walk ok (Suc n) k its = q_walk ok n (Suc k) (its @ [None])" using 2 by simp
    moreover have "(its @ [None]) @ replicate m None = its @ replicate (Suc m) None"
      "length (its @ [None]) + m = length its + Suc m" by simp_all
    moreover have "\<not> k + Suc n < length its" using 2 by simp
    ultimately show ?thesis by (intro exI [of _ "Suc m"] exI [of _ r]) (simp only: add_Suc_shift, blast)
  next
    case 3
    then show ?thesis by (intro exI [of _ 0] exI [of _ None]) (simp, blast)
  qed
qed

lemma q_page_pad [simp]: "q_page n (its @ replicate m None) p = q_page n its p"
  by (auto simp: q_page_def nth_append)

lemma q_byte_pad [simp]: "q_byte q n (its @ replicate m None) x = q_byte q n its x"
  by (simp add: q_byte_def)

lemma q_wf_pad [simp]: "q_wf q n (its @ replicate m None) = q_wf q n its"
  by (auto simp: q_wf_def)

lemma q_wf_nil [simp]: "q_wf q n [] \<longleftrightarrow> 0 < q \<and> 0 < n \<and> q * n < 2 ^ 31"
  by (simp add: q_wf_def)

lemma q_need_data_ok:
  assumes "q_wf q n its" "k < length its"
  shows "\<exists>its' arr. q_need_data True (int n) k its = Inr its' \<and> q_wf q n its' \<and> length its' = length its \<and>
    its' ! k = Some arr \<and> length arr = n \<and> (\<forall>p. q_page n its' p = q_page n its p)"
proof (cases "its ! k")
  case None
  let ?its = "its[k := Some (replicate n None)]"
  have "\<forall>p. q_page n ?its p = q_page n its p"
    using None assms by (auto simp: q_page_def nth_list_update q_wf_def)
  moreover have "q_wf q n ?its"
    using assms unfolding q_wf_def by (auto dest!: set_update_subset_insert [THEN subsetD])
  ultimately show ?thesis using None assms by (simp add: q_need_data_def)
next
  case (Some arr)
  moreover have "length arr = n" using Some assms by (metis q_wf_def nth_mem)
  ultimately show ?thesis using assms by (simp add: q_need_data_def)
qed

lemma q_entry_page:
  assumes "q_wf q n its" "p div n < length its" "its ! (p div n) = Some arr"
  shows "q_entry its (p div n) (int (p mod n)) = Some (q_page n its p)"
proof -
  have "length arr = n" using assms by (metis q_wf_def nth_mem)
  moreover have "0 < n" using assms(1) by (simp add: q_wf_def)
  ultimately show ?thesis using assms by (simp add: q_entry_def mem_at_def q_page_def)
qed

lemma q_set_page:
  assumes "q_wf q n its" "p div n < length its" "its ! (p div n) = Some arr" "length blk = q"
  shows "q_wf q n (q_set its (p div n) (int (p mod n)) blk)"
    and "q_page n (q_set its (p div n) (int (p mod n)) blk) p' = (if p' = p then Some blk else q_page n its p')"
proof -
  have n: "0 < n" "length arr = n" using assms by (auto simp: q_wf_def) (metis nth_mem)
  show "q_wf q n (q_set its (p div n) (int (p mod n)) blk)"
  proof -
    have "\<forall>b. Some b \<in> set (arr[p mod n := Some blk]) \<longrightarrow> length b = q"
      using assms n by (auto simp: q_wf_def dest!: set_update_subset_insert [THEN subsetD]) (metis nth_mem)
    then show ?thesis
      using assms n unfolding q_set_def by (auto simp: q_wf_def dest!: set_update_subset_insert [THEN subsetD])
  qed
  have "p' = p \<longleftrightarrow> p' div n = p div n \<and> p' mod n = p mod n" by (metis mod_mult_div_eq)
  then show "q_page n (q_set its (p div n) (int (p mod n)) blk) p' = (if p' = p then Some blk else q_page n its p')"
    using assms(2,3) n by (auto simp: q_page_def q_set_def nth_list_update)
qed

end
