(* ===== verification/Scull.thy ===== *)
theory Scull
  imports Quantum_Store Byte_Device
begin

text \<open>
  The bare driver \<open>scull/main.c\<close>: the device over a list of quantum sets, read, write, seek,
  open, the control operations with their commands, the sequence file of \<open>/proc\<close>, and the
  initialisation and cleanup of the module.
\<close>

section \<open>State\<close>

record scull_dev =
  sdata :: "item list"
  quantum :: int
  qset :: int
  ssize :: int
  slock :: bool

text \<open>The parameters of the module.\<close>

record scull_vars =
  scull_quantum :: int
  scull_qset :: int
  scull_p_buffer :: int

abbreviation (input) SCULL_QUANTUM :: int where "SCULL_QUANTUM \<equiv> 4000"
abbreviation (input) SCULL_QSET :: int where "SCULL_QSET \<equiv> 1000"

text \<open>
  What the allocations of one call answer: for the list items by index, for the array of
  pointers, for the quantum, and what a new quantum contains.
\<close>

record smem =
  item_ok :: "nat \<Rightarrow> bool"
  data_ok :: bool
  quantum_ok :: bool
  fill :: "nat \<Rightarrow> byte"

definition scull_lock :: "scull_dev \<Rightarrow> scull_dev option" where
  "scull_lock d = (if slock d then None else Some (d\<lparr>slock := True\<rparr>))"

definition scull_unlock :: "scull_dev \<Rightarrow> scull_dev" where
  "scull_unlock d = d\<lparr>slock := False\<rparr>"

section \<open>Trim, open, release\<close>

text \<open>
  Trimming frees \<open>qset\<close> entries of every array; it reads them, so the arrays must have as many.
\<close>

definition scull_trim :: "scull_vars \<Rightarrow> scull_dev \<Rightarrow> scull_dev option" where
  "scull_trim g d =
     (if list_all (\<lambda>it. case it of None \<Rightarrow> True | Some arr \<Rightarrow> nat (qset d) \<le> length arr) (sdata d)
      then Some (d\<lparr>ssize := 0, quantum := scull_quantum g, qset := scull_qset g, sdata := []\<rparr>)
      else None)"

definition scull_open :: "bool \<Rightarrow> nat \<Rightarrow> scull_vars \<Rightarrow> scull_dev \<Rightarrow> (int ret \<times> scull_dev) option" where
  "scull_open intr f_flags g d =
     (if f_flags mod 4 = 1 then
        if intr then Some (Inl ERESTARTSYS, d)
        else do {
          d \<leftarrow> scull_lock d;
          d \<leftarrow> scull_trim g d;
          Some (Inr 0, scull_unlock d)
        }
      else Some (Inr 0, d))"

definition scull_release :: "scull_dev \<Rightarrow> int ret \<times> scull_dev" where
  "scull_release d = (Inr 0, d)"

section \<open>Read and write\<close>

definition scull_follow :: "smem \<Rightarrow> scull_dev \<Rightarrow> int \<Rightarrow> nat option \<times> scull_dev" where
  "scull_follow m d n =
     (if sdata d = [] \<and> \<not> item_ok m 0 then (None, d)
      else let its = (if sdata d = [] then [None] else sdata d);
               (r, its) = q_walk (item_ok m) (walk_count n) 0 its
           in (r, d\<lparr>sdata := its\<rparr>))"

text \<open>
  The results are the value, the file position, the bytes stored in the user's buffer and the
  device; \<open>nc\<close> is the number of bytes that cannot be copied.
\<close>

definition scull_read ::
  "bool \<Rightarrow> smem \<Rightarrow> nat \<Rightarrow> int \<Rightarrow> int \<Rightarrow> scull_dev \<Rightarrow> (int ret \<times> int \<times> byte list \<times> scull_dev) option" where
  "scull_read intr m nc count f_pos d =
     (let quantum' = quantum d; qset' = qset d
      in if intr then Some (Inl ERESTARTSYS, f_pos, [], d)
      else do {
        d \<leftarrow> scull_lock d;
        if ssize d \<le> u64 f_pos then Some (Inr 0, f_pos, [], scull_unlock d)
        else do {
          let count = (if ssize d < u64 (f_pos + count) then u64 (ssize d - f_pos) else count);
          (item, s_pos, q_pos) \<leftarrow> q_locate quantum' qset' f_pos;
          let (dptr, d) = scull_follow m d item;
          case dptr of
            None \<Rightarrow> Some (Inr 0, f_pos, [], scull_unlock d)
          | Some k \<Rightarrow>
              if sdata d ! k = None then Some (Inr 0, f_pos, [], scull_unlock d)
              else do {
                e \<leftarrow> q_entry (sdata d) k s_pos;
                case e of
                  None \<Rightarrow> Some (Inr 0, f_pos, [], scull_unlock d)
                | Some blk \<Rightarrow> do {
                    let count = (if u64 (quantum' - q_pos) < count then u64 (quantum' - q_pos) else count);
                    data \<leftarrow> blk_get blk q_pos count;
                    if nc \<noteq> 0 then Some (Inl EFAULT, f_pos, take (length data - nc) data, scull_unlock d)
                    else Some (Inr count, f_pos + count, data, scull_unlock d)
                  }
              }
        }
      })"

text \<open>The quantum of a write: the one that is there, or a new one, not cleared.\<close>

definition scull_need_quantum :: "smem \<Rightarrow> int \<Rightarrow> item list \<Rightarrow> nat \<Rightarrow> int \<Rightarrow> (byte list \<times> item list) ret option" where
  "scull_need_quantum m qsize its k s_pos = do {
     e \<leftarrow> q_entry its k s_pos;
     case e of
       Some blk \<Rightarrow> Some (Inr (blk, its))
     | None \<Rightarrow>
         if quantum_ok m \<and> 0 \<le> qsize then
           let blk = map (fill m) [0..<nat qsize] in Some (Inr (blk, q_set its k s_pos blk))
         else Some (Inl ENOMEM)
   }"

definition scull_write ::
  "bool \<Rightarrow> smem \<Rightarrow> nat \<Rightarrow> byte list \<Rightarrow> int \<Rightarrow> scull_dev \<Rightarrow> (int ret \<times> int \<times> scull_dev) option" where
  "scull_write intr m nc ub f_pos d =
     (let quantum' = quantum d; qset' = qset d
      in if intr then Some (Inl ERESTARTSYS, f_pos, d)
      else do {
        d \<leftarrow> scull_lock d;
        (item, s_pos, q_pos) \<leftarrow> q_locate quantum' qset' f_pos;
        let (dptr, d) = scull_follow m d item;
        case dptr of
          None \<Rightarrow> Some (Inl ENOMEM, f_pos, scull_unlock d)
        | Some k \<Rightarrow>
            (case q_need_data (data_ok m) qset' k (sdata d) of
               Inl e \<Rightarrow> Some (Inl e, f_pos, scull_unlock d)
             | Inr its \<Rightarrow> do {
                 r \<leftarrow> scull_need_quantum m quantum' its k s_pos;
                 case r of
                   Inl e \<Rightarrow> Some (Inl e, f_pos, scull_unlock (d\<lparr>sdata := its\<rparr>))
                 | Inr (blk, its) \<Rightarrow> do {
                     let count = int (length ub);
                     let count = (if u64 (quantum' - q_pos) < count then u64 (quantum' - q_pos) else count);
                     blk \<leftarrow> blk_put blk q_pos (user_bytes (take (nat count) ub) nc);
                     let d = d\<lparr>sdata := q_set its k s_pos blk\<rparr>;
                     if nc \<noteq> 0 then Some (Inl EFAULT, f_pos, scull_unlock d)
                     else
                       let f_pos = f_pos + count in
                       Some (Inr count, f_pos, scull_unlock (if ssize d < u64 f_pos then d\<lparr>ssize := u64 f_pos\<rparr> else d))
                   }
               })
      })"

section \<open>Control operations\<close>

text \<open>
  The six ways to access a parameter.  The argument of the call as a number, whether the
  address check passes, what a read of the \<open>int\<close> at that address gives and whether a write to
  it succeeds.  A failed \<open>__get_user\<close> stores 0.
\<close>

datatype ioc_op = Ioc_Set | Ioc_Tell | Ioc_Get | Ioc_Query | Ioc_Exchange | Ioc_Shift

record user_arg =
  arg :: int
  arg_ok :: bool
  uval :: "int option"
  put_ok :: bool

definition get_user :: "user_arg \<Rightarrow> int ret \<times> int" where
  "get_user a = (case uval a of Some v \<Rightarrow> (Inr 0, v) | None \<Rightarrow> (Inl EFAULT, 0))"

definition put_user :: "user_arg \<Rightarrow> int \<Rightarrow> int ret \<times> int option" where
  "put_user a v = (if put_ok a then (Inr 0, Some v) else (Inl EFAULT, None))"

text \<open>The results: what the call returns, what it stores for the user, and the parameter.\<close>

fun param_op :: "bool \<Rightarrow> ioc_op \<Rightarrow> user_arg \<Rightarrow> int \<Rightarrow> int ret \<times> int option \<times> int" where
  "param_op capable Ioc_Set a v =
     (if \<not> capable then (Inl EPERM, None, v)
      else let (retval, v) = get_user a in (retval, None, v))"
| "param_op capable Ioc_Tell a v =
     (if \<not> capable then (Inl EPERM, None, v) else (Inr 0, None, s32 (arg a)))"
| "param_op capable Ioc_Get a v =
     (let (retval, stored) = put_user a v in (retval, stored, v))"
| "param_op capable Ioc_Query a v = (Inr v, None, v)"
| "param_op capable Ioc_Exchange a v =
     (if \<not> capable then (Inl EPERM, None, v)
      else let (retval, new) = get_user a in
        if retval = Inr 0 then (let (retval, stored) = put_user a v in (retval, stored, new))
        else (retval, None, new))"
| "param_op capable Ioc_Shift a v =
     (if \<not> capable then (Inl EPERM, None, v) else (Inr v, None, s32 (arg a)))"

text \<open>
  The command numbers: direction, size of the argument, magic letter and number.  Of each pair
  the first command is for the quantum, the second for the quantum set.
\<close>

fun ioc_dir_size :: "ioc_op \<Rightarrow> nat" where
  "ioc_dir_size Ioc_Set = 2 ^ 30 + 4 * 2 ^ 16"
| "ioc_dir_size Ioc_Get = 2 ^ 31 + 4 * 2 ^ 16"
| "ioc_dir_size Ioc_Exchange = 2 ^ 31 + 2 ^ 30 + 4 * 2 ^ 16"
| "ioc_dir_size _ = 0"

fun ioc_nr :: "ioc_op \<Rightarrow> nat" where
  "ioc_nr Ioc_Set = 1"
| "ioc_nr Ioc_Tell = 3"
| "ioc_nr Ioc_Get = 5"
| "ioc_nr Ioc_Query = 7"
| "ioc_nr Ioc_Exchange = 9"
| "ioc_nr Ioc_Shift = 11"

definition ioc_cmd :: "nat \<Rightarrow> ioc_op \<Rightarrow> bool \<Rightarrow> nat" where
  "ioc_cmd magic opr for_qset = ioc_dir_size opr + magic * 256 + ioc_nr opr + (if for_qset then 1 else 0)"

definition ioc_all :: "ioc_op list" where
  "ioc_all = [Ioc_Set, Ioc_Tell, Ioc_Get, Ioc_Query, Ioc_Exchange, Ioc_Shift]"

definition ioc_decode :: "nat \<Rightarrow> nat \<Rightarrow> (ioc_op \<times> bool) option" where
  "ioc_decode magic cmd =
     map_of (concat (map (\<lambda>opr. [(ioc_cmd magic opr False, (opr, False)), (ioc_cmd magic opr True, (opr, True))]) ioc_all)) cmd"

definition scull_magic :: nat where "scull_magic = 107"

text \<open>The checks that come before the command is looked at.\<close>

definition ioctl_checks :: "nat \<Rightarrow> nat \<Rightarrow> nat \<Rightarrow> user_arg \<Rightarrow> errno option" where
  "ioctl_checks magic maxnr cmd a =
     (if cmd div 256 mod 256 \<noteq> magic then Some ENOTTY
      else if maxnr < cmd mod 256 then Some ENOTTY
      else if cmd div 2 ^ 30 mod 4 \<noteq> 0 \<and> \<not> arg_ok a then Some EFAULT
      else None)"

definition scull_ioctl ::
  "bool \<Rightarrow> nat \<Rightarrow> user_arg \<Rightarrow> scull_vars \<Rightarrow> int ret \<times> int option \<times> scull_vars" where
  "scull_ioctl capable cmd a g =
     (case ioctl_checks scull_magic 14 cmd a of
        Some e \<Rightarrow> (Inl e, None, g)
      | None \<Rightarrow>
          if cmd = scull_magic * 256 then (Inr 0, None, g\<lparr>scull_quantum := SCULL_QUANTUM, scull_qset := SCULL_QSET\<rparr>)
          else (case ioc_decode scull_magic cmd of
            Some (opr, False) \<Rightarrow>
              (let (r, p, v) = param_op capable opr a (scull_quantum g) in (r, p, g\<lparr>scull_quantum := v\<rparr>))
          | Some (opr, True) \<Rightarrow>
              (let (r, p, v) = param_op capable opr a (scull_qset g) in (r, p, g\<lparr>scull_qset := v\<rparr>))
          | None \<Rightarrow>
              if cmd = scull_magic * 256 + 13 then (Inr 0, None, g\<lparr>scull_p_buffer := s32 (arg a)\<rparr>)
              else if cmd = scull_magic * 256 + 14 then (Inr (scull_p_buffer g), None, g)
              else (Inl ENOTTY, None, g)))"

section \<open>Seek\<close>

definition scull_llseek :: "int \<Rightarrow> nat \<Rightarrow> int \<Rightarrow> int \<Rightarrow> int ret \<times> int" where
  "scull_llseek dsize whence off f_pos =
     (if 2 < whence then (Inl EINVAL, f_pos)
      else let newpos = s64 (if whence = 0 then off else if whence = 1 then f_pos + off else dsize + off)
           in if newpos < 0 then (Inl EINVAL, f_pos) else (Inr newpos, newpos))"

section \<open>The files of /proc\<close>

text \<open>The lines that are printed: of a device, of an item of its list, of an entry.\<close>

datatype seq_line = Device_line nat int int int | Item_line | Entry_line nat

text \<open>Only the array of the last item is dumped.\<close>

fun item_lines :: "int \<Rightarrow> item list \<Rightarrow> seq_line list option" where
  "item_lines n [] = Some []"
| "item_lines n [it] =
     (case it of
        None \<Rightarrow> Some [Item_line]
      | Some arr \<Rightarrow>
          if nat n \<le> length arr
          then Some (Item_line # map Entry_line (filter (\<lambda>j. arr ! j \<noteq> None) [0..<nat n])) else None)"
| "item_lines n (it # its) = map_option (\<lambda>ls. Item_line # ls) (item_lines n its)"

definition scull_seq_start :: "nat \<Rightarrow> nat \<Rightarrow> nat option" where
  "scull_seq_start nr_devs pos = (if nr_devs \<le> pos then None else Some pos)"

definition scull_seq_next :: "nat \<Rightarrow> nat \<Rightarrow> nat option \<times> nat" where
  "scull_seq_next nr_devs pos = (let pos = pos + 1 in (if nr_devs \<le> pos then None else Some pos, pos))"

definition scull_seq_stop :: "scull_dev list \<Rightarrow> scull_dev list" where
  "scull_seq_stop devs = devs"

definition scull_seq_show :: "scull_dev list \<Rightarrow> nat \<Rightarrow> seq_line list option" where
  "scull_seq_show devs v = do {
     d \<leftarrow> mem_at devs v;
     d' \<leftarrow> scull_lock d;
     ls \<leftarrow> item_lines (qset d') (sdata d');
     Some (Device_line v (qset d') (quantum d') (ssize d') # ls)
   }"

text \<open>
  The older file prints all devices in one go and stops when its page is almost full;
  \<open>room n\<close> says whether there is room after \<open>n\<close> lines.  The entries of an item are not
  counted while they are printed.
\<close>

fun procmem_items :: "(nat \<Rightarrow> bool) \<Rightarrow> nat \<Rightarrow> int \<Rightarrow> item list \<Rightarrow> seq_line list option" where
  "procmem_items room c n [] = Some []"
| "procmem_items room c n (it # its) =
     (if \<not> room c then Some []
      else do {
        ls \<leftarrow> (if its = [] then item_lines n [it] else Some [Item_line]);
        rest \<leftarrow> procmem_items room (c + length ls) n its;
        Some (ls @ rest)
      })"

fun scull_read_procmem :: "(nat \<Rightarrow> bool) \<Rightarrow> nat \<Rightarrow> nat \<Rightarrow> scull_dev list \<Rightarrow> seq_line list option" where
  "scull_read_procmem room c i [] = Some []"
| "scull_read_procmem room c i (d # ds) =
     (if \<not> room c then Some []
      else do {
        d' \<leftarrow> scull_lock d;
        ls \<leftarrow> procmem_items room (c + 1) (qset d') (sdata d');
        rest \<leftarrow> scull_read_procmem room (c + 1 + length ls) (i + 1) ds;
        Some (Device_line i (qset d') (quantum d') (ssize d') # ls @ rest)
      })"

section \<open>Initialisation and cleanup\<close>

definition scull_setup_cdev :: "bool \<Rightarrow> scull_dev \<Rightarrow> scull_dev \<times> bool" where
  "scull_setup_cdev added d = (d, added)"

definition scull_init_module ::
  "errno option \<Rightarrow> bool \<Rightarrow> nat \<Rightarrow> scull_vars \<Rightarrow> (nat \<Rightarrow> bool) \<Rightarrow> (scull_dev \<times> bool) list ret" where
  "scull_init_module reg_err mem nr_devs g added =
     (case reg_err of
        Some e \<Rightarrow> Inl e
      | None \<Rightarrow>
          if \<not> mem then Inl ENOMEM
          else Inr (map (\<lambda>i. scull_setup_cdev (added i)
                 \<lparr>sdata = [], quantum = scull_quantum g, qset = scull_qset g, ssize = 0, slock = False\<rparr>) [0..<nr_devs]))"

fun scull_cleanup_module :: "scull_vars \<Rightarrow> (scull_dev \<times> bool) list \<Rightarrow> (scull_dev \<times> bool) list option" where
  "scull_cleanup_module g [] = Some []"
| "scull_cleanup_module g ((d, added) # ds) = do {
     d \<leftarrow> scull_trim g d;
     ds \<leftarrow> scull_cleanup_module g ds;
     Some ((d, False) # ds)
   }"

section \<open>The invariant\<close>

text \<open>
  A device with quanta of \<open>q\<close> bytes, \<open>n\<close> to an item, and its byte at a position.
\<close>

definition scull_ok :: "nat \<Rightarrow> nat \<Rightarrow> scull_dev \<Rightarrow> bool" where
  "scull_ok q n d \<longleftrightarrow> quantum d = int q \<and> qset d = int n \<and> q_wf q n (sdata d) \<and>
     0 \<le> ssize d \<and> ssize d < 2 ^ 63 \<and> \<not> slock d"

definition sbyte :: "scull_dev \<Rightarrow> nat \<Rightarrow> byte option" where
  "sbyte d x = q_byte (nat (quantum d)) (nat (qset d)) (sdata d) x"

definition mem_ok :: "smem \<Rightarrow> bool" where
  "mem_ok m \<longleftrightarrow> (\<forall>i. item_ok m i) \<and> data_ok m \<and> quantum_ok m"

lemma unlock_simps [simp]:
  "sdata (scull_unlock d) = sdata d" "quantum (scull_unlock d) = quantum d" "qset (scull_unlock d) = qset d"
  "ssize (scull_unlock d) = ssize d" "slock (scull_unlock d) = False" "sbyte (scull_unlock d) = sbyte d"
  by (simp_all add: scull_unlock_def sbyte_def fun_eq_iff)

lemma scull_follow_spec:
  assumes "k < 2 ^ 31"
  shows "\<exists>j r. scull_follow m d (int k) = (r, d\<lparr>sdata := sdata d @ replicate j None\<rparr>) \<and>
    (\<forall>i. r = Some i \<longrightarrow> i = k \<and> k < length (sdata d) + j) \<and>
    (mem_ok m \<or> k < length (sdata d) \<longrightarrow> r = Some k)"
proof (cases "sdata d = [] \<and> \<not> item_ok m 0")
  case True
  have "d\<lparr>sdata := []\<rparr> = d" if "sdata d = []" using that by (cases d) simp
  with True show ?thesis
    by (intro exI [of _ 0] exI [of _ None]) (simp add: scull_follow_def mem_ok_def, metis)
next
  case False
  let ?its = "if sdata d = [] then [None] else sdata d"
  obtain j0 where j0: "?its = sdata d @ replicate j0 None"
    by (cases "sdata d = []") (auto intro: that [of 0] that [of 1])
  have "0 < length ?its" by simp
  from q_walk_any [OF this, of "item_ok m" k] obtain j r where
    w: "q_walk (item_ok m) k 0 ?its = (r, ?its @ replicate j None)"
      "\<forall>i. r = Some i \<longrightarrow> i = 0 + k \<and> i < length ?its + j" "(\<forall>i. item_ok m i) \<or> 0 + k < length ?its \<longrightarrow> r = Some (0 + k)" by blast
  have e: "?its @ replicate j None = sdata d @ replicate (j0 + j) None"
    unfolding j0 by (simp add: replicate_add)
  have "scull_follow m d (int k) = (r, d\<lparr>sdata := sdata d @ replicate (j0 + j) None\<rparr>)"
    using False w(1) e walk_count_nat [OF assms] by (auto simp: scull_follow_def Let_def)
  moreover have "\<forall>i. r = Some i \<longrightarrow> i = k \<and> k < length (sdata d) + (j0 + j)"
    using w(2) arg_cong [OF j0, of length] by auto
  moreover have "mem_ok m \<or> k < length (sdata d) \<longrightarrow> r = Some k"
    using w(3) arg_cong [OF j0, of length] unfolding mem_ok_def by (metis add_0 length_append trans_less_add1)
  ultimately show ?thesis by blast
qed

lemma u64_less: "0 \<le> x \<Longrightarrow> x < 2 ^ 64 \<Longrightarrow> u64 x = x"
  by simp

text \<open>How much of the quantum is left at a position.\<close>

lemma quantum_left:
  assumes "q_wf q n its" "quantum d = int q"
  shows "u64 (quantum d - int (x mod q)) = int (q - x mod q)" "x mod q < q"
proof -
  have q: "0 < q" "0 < n" "q * n < 2 ^ 31" using assms(1) by (auto simp: q_wf_def)
  then show "x mod q < q" by simp
  have "q \<le> q * n" using q by simp
  with q have "q < 2 ^ 31" by linarith
  then show "u64 (quantum d - int (x mod q)) = int (q - x mod q)"
    using \<open>x mod q < q\<close> assms(2) by (simp add: of_nat_diff)
qed

lemma nth_page_byte:
  assumes "q_wf q n its" "q_page n its (x div q) = Some blk" "x mod q + c \<le> q" "i < c"
  shows "q_byte q n its (x + i) = Some (blk ! (x mod q + i))"
proof -
  have q: "0 < q" using assms(1) by (simp add: q_wf_def)
  have l: "x mod q + i < q" using assms(3,4) by simp
  have "x + i = x div q * q + (x mod q + i)" by simp
  then have "(x + i) div q = x div q" "(x + i) mod q = x mod q + i"
    using l q by (metis add.commute div_mult_self3 div_less add_0 less_not_refl2)
      (metis \<open>x + i = x div q * q + (x mod q + i)\<close> l mod_less mod_mult_self3)
  then show ?thesis using assms(2) by (simp add: q_byte_def)
qed

lemma page_length: "q_wf q n its \<Longrightarrow> q_page n its p = Some blk \<Longrightarrow> length blk = q"
proof -
  assume w: "q_wf q n its" and p: "q_page n its p = Some blk"
  then obtain arr where a: "p div n < length its" "its ! (p div n) = Some arr" "arr ! (p mod n) = Some blk"
    by (auto simp: q_page_def split: if_splits option.splits)
  then have "Some arr \<in> set its" by (metis nth_mem)
  with w have "length arr = n" "\<forall>b. Some b \<in> set arr \<longrightarrow> length b = q" "0 < n" by (auto simp: q_wf_def)
  with a(3) show "length blk = q" by (metis mod_less_divisor nth_mem)
qed

lemma blk_get_bytes:
  assumes "q_wf q n its" "q_page n its (x div q) = Some blk" "x mod q + c \<le> q"
  shows "blk_get blk (int (x mod q)) (int c) = Some (map (\<lambda>i. the (q_byte q n its (x + i))) [0..<c])"
proof -
  have lb: "length blk = q" by (rule page_length [OF assms(1,2)])
  have "take c (drop (x mod q) blk) = map (\<lambda>i. the (q_byte q n its (x + i))) [0..<c]"
  proof (rule nth_equalityI)
    fix i assume "i < length (take c (drop (x mod q) blk))"
    then have i: "i < c" by simp
    from nth_page_byte [OF assms this] i assms(3) lb
    show "take c (drop (x mod q) blk) ! i = map (\<lambda>i. the (q_byte q n its (x + i))) [0..<c] ! i" by simp
  qed (use lb assms(3) in simp)
  with assms(3) lb show ?thesis by (simp add: blk_get_def mem_read_def)
qed

section \<open>Reading\<close>

text \<open>
  A read delivers the stored bytes from the position to the end of the quantum at most, nothing
  from a hole or at the end, and adds at most empty items to the list.
\<close>

lemma scull_read_spec:
  assumes ok: "scull_ok q n d" and x: "x div (q * n) < 2 ^ 31" and c: "0 \<le> count" "int x + count < 2 ^ 63"
  shows "\<exists>j. scull_read False m nc count (int x) d =
    (let d' = d\<lparr>sdata := sdata d @ replicate j None\<rparr>;
         c = min (min (nat count) (nat (ssize d) - x)) (q - x mod q);
         data = map (\<lambda>i. the (sbyte d (x + i))) [0..<c] in
     if ssize d \<le> int x \<or> sbyte d x = None then Some (Inr 0, int x, [], d')
     else if nc \<noteq> 0 then Some (Inl EFAULT, int x, take (c - nc) data, d')
     else Some (Inr (int c), int x + int c, data, d'))"
proof -
  have o: "quantum d = int q" "qset d = int n" "q_wf q n (sdata d)" "0 \<le> ssize d" "ssize d < 2 ^ 63" "\<not> slock d"
    using ok by (auto simp: scull_ok_def)
  have wf: "0 < q" "0 < n" "q * n < 2 ^ 31" using o(3) by (auto simp: q_wf_def)
  have ul: "scull_unlock (d\<lparr>slock := True, sdata := its\<rparr>) = d\<lparr>sdata := its\<rparr>" for its
    using o(6) by (cases d) (simp add: scull_unlock_def)
  have ul0: "scull_unlock (d\<lparr>slock := True\<rparr>) = d"
    using o(6) by (cases d) (simp add: scull_unlock_def)
  have ux: "u64 (int x) = int x" "u64 (int x + count) = int x + count" using c by auto
  show ?thesis
  proof (cases "ssize d \<le> int x")
    case True
    then show ?thesis
      using o(6) ux ul0 by (intro exI [of _ 0]) (simp add: scull_read_def scull_lock_def)
  next
    case False
    define c1 where "c1 = (if ssize d < u64 (int x + count) then u64 (ssize d - int x) else count)"
    have c1: "c1 = int (min (nat count) (nat (ssize d) - x))"
      using c(1) False o(4,5) ux unfolding c1_def by (auto simp: min_def)
    have "q_locate (quantum d) (qset d) (int x) = Some (int (x div q div n), int (x div q mod n), int (x mod q))"
      unfolding o(1,2) by (rule q_locate_nat [OF wf x])
    note loc = this
    have k: "x div q div n < 2 ^ 31" using x by (simp add: div_mult2_eq)
    from scull_follow_spec [OF this, of m "d\<lparr>slock := True\<rparr>"] obtain j r where
      f: "scull_follow m (d\<lparr>slock := True\<rparr>) (int (x div q div n)) = (r, d\<lparr>slock := True, sdata := sdata d @ replicate j None\<rparr>)"
      "\<forall>i. r = Some i \<longrightarrow> i = x div q div n \<and> x div q div n < length (sdata d) + j"
      "x div q div n < length (sdata d) \<longrightarrow> r = Some (x div q div n)" by auto
    let ?its = "sdata d @ replicate j None" and ?k = "x div q div n"
    note ql = quantum_left [OF o(3,1), where x = x]
    have step: "scull_read False m nc count (int x) d =
      (case r of
        None \<Rightarrow> Some (Inr 0, int x, [], d\<lparr>sdata := ?its\<rparr>)
      | Some k \<Rightarrow>
          if ?its ! k = None then Some (Inr 0, int x, [], d\<lparr>sdata := ?its\<rparr>)
          else q_entry ?its k (int (x div q mod n)) \<bind> (\<lambda>e.
            case e of
              None \<Rightarrow> Some (Inr 0, int x, [], d\<lparr>sdata := ?its\<rparr>)
            | Some blk \<Rightarrow>
                let c2 = (if int (q - x mod q) < c1 then int (q - x mod q) else c1) in
                blk_get blk (int (x mod q)) c2 \<bind> (\<lambda>data.
                if nc \<noteq> 0 then Some (Inl EFAULT, int x, take (length data - nc) data, d\<lparr>sdata := ?its\<rparr>)
                else Some (Inr c2, int x + c2, data, d\<lparr>sdata := ?its\<rparr>))))"
      using False o(6) ux(1) loc f(1) ql(1) unfolding scull_read_def scull_lock_def c1_def
      by (simp add: Let_def ul cong: option.case_cong if_cong split del: if_split)
    show ?thesis
    proof (cases "q_page n (sdata d) (x div q)")
      case None
      then have sb: "sbyte d x = None" using o by (simp add: sbyte_def q_byte_def)
      have "scull_read False m nc count (int x) d = Some (Inr 0, int x, [], d\<lparr>sdata := ?its\<rparr>)"
      proof (cases r)
        case (Some i)
        with f(2) have i: "i = ?k" "?k < length ?its" by auto
        show ?thesis
        proof (cases "?its ! ?k")
          case (Some arr)
          have "q_wf q n ?its" using o(3) by simp
          from q_entry_page [OF this i(2) Some] have "q_entry ?its ?k (int (x div q mod n)) = Some None"
            using None by simp
          with step \<open>r = Some i\<close> i Some show ?thesis by simp
        qed (use step \<open>r = Some i\<close> i in simp)
      qed (use step in simp)
      with sb show ?thesis by (intro exI [of _ j]) (simp add: Let_def)
    next
      case (Some blk)
      then have sb: "sbyte d x \<noteq> None" using o by (simp add: sbyte_def q_byte_def)
      have kl: "?k < length (sdata d)" using Some by (auto simp: q_page_def split: if_splits)
      with Some obtain arr where arr: "?its ! ?k = Some arr"
        by (auto simp: q_page_def nth_append split: option.splits)
      have "q_wf q n ?its" "?k < length ?its" using o(3) kl by auto
      from q_entry_page [OF this arr] have en: "q_entry ?its ?k (int (x div q mod n)) = Some (Some blk)"
        using Some by simp
      define c where "c = min (min (nat count) (nat (ssize d) - x)) (q - x mod q)"
      have c2: "(if int (q - x mod q) < c1 then int (q - x mod q) else c1) = int c"
        unfolding c1 c_def by (auto simp: min_def)
      have "x mod q + c \<le> q" using ql(2) unfolding c_def by linarith
      note data = blk_get_bytes [OF o(3) Some this]
      have sbs: "(\<lambda>i. the (q_byte q n (sdata d) (x + i))) = (\<lambda>i. the (sbyte d (x + i)))"
        using o(1,2) by (simp add: sbyte_def)
      define data where "data = map (\<lambda>i. the (sbyte d (x + i))) [0..<c]"
      have dt: "blk_get blk (int (x mod q)) (int c) = Some data" "length data = c"
        using data unfolding sbs data_def by simp_all
      have r: "r = Some ?k" using f(3) kl by blast
      have ev: "scull_read False m nc count (int x) d =
        (if nc \<noteq> 0 then Some (Inl EFAULT, int x, take (c - nc) data, d\<lparr>sdata := ?its\<rparr>)
         else Some (Inr (int c), int x + int c, data, d\<lparr>sdata := ?its\<rparr>))"
        unfolding step r by (simp add: arr en c2 dt Let_def)
      show ?thesis
        unfolding ev by (rule exI [of _ j]) (simp add: Let_def sb False flip: c_def data_def)
    qed
  qed
qed

section \<open>Writing\<close>

lemma same_page_in:
  fixes x y q c :: nat
  assumes "y div q = x div q"
  shows "(x \<le> y \<and> y < x + c) \<longleftrightarrow> (x mod q \<le> y mod q \<and> y mod q < x mod q + c)"
proof -
  have "q * (x div q) + x mod q = x" "q * (x div q) + y mod q = y"
    using mult_div_mod_eq [of q x] mult_div_mod_eq [of q y] assms by simp_all
  then show ?thesis by linarith
qed

lemma scull_need_quantum_spec:
  assumes wf: "q_wf q n its" and p: "p div n < length its" "its ! (p div n) = Some arr"
  shows "\<exists>r. scull_need_quantum m (int q) its (p div n) (int (p mod n)) = Some r \<and>
    (case r of
       Inl e \<Rightarrow> e = ENOMEM \<and> \<not> mem_ok m
     | Inr (blk, its') \<Rightarrow> q_wf q n its' \<and> length its' = length its \<and> (\<exists>arr'. its' ! (p div n) = Some arr') \<and>
         q_page n its' p = Some blk \<and> (\<forall>p'. p' \<noteq> p \<or> q_page n its p \<noteq> None \<longrightarrow> q_page n its' p' = q_page n its p'))"
proof (cases "q_page n its p")
  case (Some blk)
  with q_entry_page [OF wf p] wf p show ?thesis by (simp add: scull_need_quantum_def)
next
  case None
  show ?thesis
  proof (cases "quantum_ok m")
    case True
    let ?blk = "map (fill m) [0..<q]"
    have "length ?blk = q" by simp
    note s = q_set_page [OF wf p this]
    have "length (q_set its (p div n) (int (p mod n)) ?blk) = length its"
      "\<exists>arr'. q_set its (p div n) (int (p mod n)) ?blk ! (p div n) = Some arr'"
      using p by (simp_all add: q_set_def)
    with q_entry_page [OF wf p] None True s show ?thesis by (simp add: scull_need_quantum_def Let_def)
  next
    case False
    with q_entry_page [OF wf p] None show ?thesis by (simp add: scull_need_quantum_def mem_ok_def)
  qed
qed

text \<open>The bytes after a quantum was changed from \<open>q_pos\<close> on.\<close>

lemma q_set_bytes:
  assumes wf: "q_wf q n its" and p: "x div q div n < length its" "its ! (x div q div n) = Some arr"
    and pg: "q_page n its (x div q) = Some blk" and fits: "x mod q + length src \<le> q"
  shows "\<exists>blk'. blk_put blk (int (x mod q)) src = Some blk' \<and>
    q_wf q n (q_set its (x div q div n) (int (x div q mod n)) blk') \<and>
    (\<forall>y. q_byte q n (q_set its (x div q div n) (int (x div q mod n)) blk') y =
       (if x \<le> y \<and> y < x + length src then Some (src ! (y - x)) else q_byte q n its y))"
proof -
  have lb: "length blk = q" by (rule page_length [OF wf pg])
  let ?blk = "take (x mod q) blk @ src @ drop (x mod q + length src) blk"
  have put: "blk_put blk (int (x mod q)) src = Some ?blk"
    using lb fits by (simp add: blk_put_def mem_write_def)
  have "length ?blk = q" using lb fits by simp
  note s = q_set_page [OF wf p this]
  have nth: "?blk ! i = (if x mod q \<le> i \<and> i < x mod q + length src then src ! (i - x mod q) else blk ! i)" if "i < q" for i
    using that lb fits by (auto simp: nth_append min_def)
  have "q_byte q n (q_set its (x div q div n) (int (x div q mod n)) ?blk) y =
      (if x \<le> y \<and> y < x + length src then Some (src ! (y - x)) else q_byte q n its y)" for y
  proof (cases "y div q = x div q")
    case True
    have q0: "y mod q < q" using wf by (simp add: q_wf_def)
    have in_eq: "(x \<le> y \<and> y < x + length src) \<longleftrightarrow> (x mod q \<le> y mod q \<and> y mod q < x mod q + length src)"
      by (rule same_page_in [OF True])
    have "x mod q \<le> y mod q \<Longrightarrow> y mod q - x mod q = y - x"
      using mult_div_mod_eq [of q x] mult_div_mod_eq [of q y] True by (metis diff_add_inverse2 diff_diff_left diff_cancel2 add.commute)
    then show ?thesis
      using True in_eq nth [OF q0] pg by (simp add: q_byte_def s(2))
  next
    case False
    have "\<not> (x \<le> y \<and> y < x + length src)"
    proof
      assume a: "x \<le> y \<and> y < x + length src"
      then have "y - x < q - x mod q" using fits by linarith
      then have "x mod q + (y - x) < q" by linarith
      moreover have "y = q * (x div q) + (x mod q + (y - x))" using a by simp
      ultimately have "y div q = x div q" by (metis div_mult_self4 div_less add_0_right less_nat_zero_code not_gr_zero)
      with False show False by simp
    qed
    with False show ?thesis unfolding q_byte_def s(2) by auto
  qed
  with put s(1) show ?thesis by blast
qed

text \<open>
  A write accepts the bytes up to the end of the quantum and stores them; it changes no other
  byte and leaves a device in order, whatever fails.
\<close>

lemma scull_write_spec:
  assumes ok: "scull_ok q n d" and x: "x div (q * n) < 2 ^ 31" and sz: "x + length ub < 2 ^ 63"
    and cdef: "c = min (length ub) (q - x mod q)" and nc: "nc \<le> c"
  shows "\<exists>r f d'. scull_write False m nc ub (int x) d = Some (r, f, d') \<and> scull_ok q n d' \<and>
    (\<forall>y. \<not> (x \<le> y \<and> y < x + c) \<longrightarrow> sbyte d y \<noteq> None \<longrightarrow> sbyte d' y = sbyte d y) \<and>
    (r = Inr (int c) \<and> f = int x + int c \<and> ssize d' = max (ssize d) (int (x + c)) \<and>
       (\<forall>i < c. sbyte d' (x + i) = Some (ub ! i)) \<or>
     (\<exists>e. r = Inl e) \<and> f = int x \<and> ssize d' = ssize d \<and> \<not> (mem_ok m \<and> nc = 0))"
proof -
  have o: "quantum d = int q" "qset d = int n" "q_wf q n (sdata d)" "0 \<le> ssize d" "ssize d < 2 ^ 63" "\<not> slock d"
    using ok by (auto simp: scull_ok_def)
  have wf: "0 < q" "0 < n" "q * n < 2 ^ 31" using o(3) by (auto simp: q_wf_def)
  let ?k = "x div q div n" and ?s = "int (x div q mod n)"
  have loc: "q_locate (quantum d) (qset d) (int x) = Some (int ?k, ?s, int (x mod q))"
    unfolding o(1,2) by (rule q_locate_nat [OF wf x])
  have k: "?k < 2 ^ 31" using x by (simp add: div_mult2_eq)
  from scull_follow_spec [OF this, of m "d\<lparr>slock := True\<rparr>"] obtain j r0 where
    f: "scull_follow m (d\<lparr>slock := True\<rparr>) (int ?k) = (r0, d\<lparr>slock := True, sdata := sdata d @ replicate j None\<rparr>)"
      "\<forall>i. r0 = Some i \<longrightarrow> i = ?k \<and> ?k < length (sdata d) + j" "mem_ok m \<longrightarrow> r0 = Some ?k" by auto
  let ?its = "sdata d @ replicate j None"
  have keep: "scull_ok q n (d\<lparr>sdata := its\<rparr>)" if "q_wf q n its" for its
    using that o by (simp add: scull_ok_def)
  have sb: "sbyte (d\<lparr>sdata := its\<rparr>) = q_byte q n its" for its
    using o(1,2) by (simp add: sbyte_def fun_eq_iff)
  have sbd: "sbyte d = q_byte q n (sdata d)" using o(1,2) by (simp add: sbyte_def fun_eq_iff)
  have ul: "scull_unlock (d\<lparr>slock := True, sdata := its\<rparr>) = d\<lparr>sdata := its\<rparr>"
      "scull_unlock (d\<lparr>slock := True, sdata := its, ssize := z\<rparr>) = d\<lparr>sdata := its, ssize := z\<rparr>" for its z
    using o(6) by (cases d, simp add: scull_unlock_def)+
  show ?thesis
  proof (cases r0)
    case None
    then have "scull_write False m nc ub (int x) d = Some (Inl ENOMEM, int x, d\<lparr>sdata := ?its\<rparr>)"
      using o(6) loc f(1) by (simp add: scull_write_def scull_lock_def ul)
    moreover have "\<not> mem_ok m" using f(3) None by auto
    moreover have "scull_ok q n (d\<lparr>sdata := ?its\<rparr>)" using keep o(3) by simp
    ultimately show ?thesis by (simp add: sb sbd)
  next
    case (Some i)
    with f(2) have i: "i = ?k" "?k < length ?its" by auto
    have wf1: "q_wf q n ?its" using o(3) by simp
    show ?thesis
    proof (cases "q_need_data (data_ok m) (int n) ?k ?its")
      case (Inl e)
      then have e: "e = ENOMEM" "\<not> data_ok m" by (auto simp: q_need_data_def split: option.splits if_splits)
      have "scull_write False m nc ub (int x) d = Some (Inl ENOMEM, int x, d\<lparr>sdata := ?its\<rparr>)"
        using o(2,6) loc f(1) Some i Inl e by (simp add: scull_write_def scull_lock_def ul)
      moreover have "scull_ok q n (d\<lparr>sdata := ?its\<rparr>)" using keep o(3) by simp
      ultimately show ?thesis using e(2) by (simp add: sb sbd mem_ok_def)
    next
      case (Inr its)
      obtain arr where its: "q_wf q n its" "length its = length ?its" "its ! ?k = Some arr"
        "\<forall>p. q_page n its p = q_page n ?its p"
      proof (cases "?its ! ?k")
        case None
        with Inr have "q_need_data (data_ok m) (int n) ?k ?its = q_need_data True (int n) ?k ?its"
          by (auto simp: q_need_data_def split: if_splits)
        with q_need_data_ok [OF wf1 i(2)] Inr that show ?thesis by auto
      next
        case (Some arr)
        with Inr have "its = ?its" by (simp add: q_need_data_def)
        with Some wf1 that show ?thesis by auto
      qed
      have ki: "x div q div n < length its" using its(2) i(2) by simp
      from scull_need_quantum_spec [OF its(1) ki its(3), of m] obtain r where
        r: "scull_need_quantum m (int q) its ?k ?s = Some r"
          "case r of Inl e \<Rightarrow> e = ENOMEM \<and> \<not> mem_ok m
           | Inr (blk, its') \<Rightarrow> q_wf q n its' \<and> length its' = length its \<and> (\<exists>arr'. its' ! ?k = Some arr') \<and>
             q_page n its' (x div q) = Some blk \<and>
             (\<forall>p'. p' \<noteq> x div q \<or> q_page n its (x div q) \<noteq> None \<longrightarrow> q_page n its' p' = q_page n its p')" by blast
      show ?thesis
      proof (cases r)
        case (Inl e)
        with r have "scull_write False m nc ub (int x) d = Some (Inl ENOMEM, int x, d\<lparr>sdata := its\<rparr>)"
          using o(1,2,6) loc f(1) Some i \<open>q_need_data (data_ok m) (int n) ?k ?its = Inr its\<close>
          by (simp add: scull_write_def scull_lock_def ul)
        moreover have "scull_ok q n (d\<lparr>sdata := its\<rparr>)" using keep its(1) by simp
        moreover have "q_byte q n its y = q_byte q n (sdata d) y" for y using its(4) by (simp add: q_byte_def)
        ultimately show ?thesis using r(2) Inl by (simp add: sb sbd)
      next
        case (Inr p)
        then obtain blk its' where p: "r = Inr (blk, its')" by (cases p) auto
        with r(2) obtain arr' where n: "q_wf q n its'" "length its' = length its" "its' ! ?k = Some arr'"
          "q_page n its' (x div q) = Some blk"
          "\<forall>p'. p' \<noteq> x div q \<or> q_page n its (x div q) \<noteq> None \<longrightarrow> q_page n its' p' = q_page n its p'" by auto
        define src where "src = user_bytes (take c ub) nc"
        have ls: "length src = c" using cdef by (simp add: src_def)
        have "x mod q < q" using wf by simp
        then have fits: "x mod q + length src \<le> q" using ls cdef by linarith
        have ki': "x div q div n < length its'" using n(2) ki by simp
        from q_set_bytes [OF n(1) ki' n(3,4) fits] ls obtain blk' where
          b: "blk_put blk (int (x mod q)) src = Some blk'"
            "q_wf q n (q_set its' ?k ?s blk')"
            "\<forall>y. q_byte q n (q_set its' ?k ?s blk') y =
               (if x \<le> y \<and> y < x + c then Some (src ! (y - x)) else q_byte q n its' y)" by auto
        let ?its2 = "q_set its' ?k ?s blk'"
        have cnt: "(if int (q - x mod q) < int (length ub) then int (q - x mod q) else int (length ub)) = int c"
          unfolding cdef by (auto simp: min_def)
        have ux: "u64 (int x + int c) = int x + int c" using sz cdef by (auto simp: min_def)
        note ql = quantum_left [OF o(3,1), of x]
        have ev: "scull_write False m nc ub (int x) d =
          (if nc \<noteq> 0 then Some (Inl EFAULT, int x, d\<lparr>sdata := ?its2\<rparr>)
           else Some (Inr (int c), int x + int c,
             if ssize d < int x + int c then d\<lparr>sdata := ?its2, ssize := int x + int c\<rparr> else d\<lparr>sdata := ?its2\<rparr>))"
        proof -
          have src: "user_bytes (take (nat (int c)) ub) nc = src" by (simp add: src_def)
          show ?thesis
            using o(6) loc f(1) Some i \<open>q_need_data (data_ok m) (int n) ?k ?its = Inr its\<close> r(1) p ql(1) cnt src b(1) ux
            unfolding scull_write_def scull_lock_def o(1,2)
            by (cases "nc = 0"; cases "ssize d < int x + int c")
              (simp_all add: ul Let_def o(1,2) cong: if_cong split del: if_split)
        qed
        have old: "q_byte q n its' y = q_byte q n (sdata d) y" if "q_byte q n (sdata d) y \<noteq> None" for y
        proof -
          have "q_page n its (y div q) \<noteq> None" using that its(4) by (simp add: q_byte_def)
          then have "q_page n its' (y div q) = q_page n its (y div q)" using n(5) by metis
          then show ?thesis using its(4) by (simp add: q_byte_def)
        qed
        have ok1: "scull_ok q n (d\<lparr>sdata := ?its2\<rparr>)" by (rule keep [OF b(2)])
        have "src = take c ub" if "nc = 0" using that by (simp add: src_def)
        then have new: "\<forall>i < c. q_byte q n ?its2 (x + i) = Some (ub ! i)" if "nc = 0" using b(3) that by simp
        show ?thesis
        proof (cases "nc = 0")
          case False
          then show ?thesis using ev ok1 b(3) old by (simp add: sb sbd)
        next
          case True
          have "x + c < 2 ^ 63" using sz cdef by (auto simp: min_def)
          then have ok2: "scull_ok q n (d\<lparr>sdata := ?its2, ssize := int x + int c\<rparr>)"
            using ok1 by (simp add: scull_ok_def)
          have sb2: "sbyte (d\<lparr>sdata := ?its2, ssize := int x + int c\<rparr>) = q_byte q n ?its2"
            using o(1,2) by (simp add: sbyte_def fun_eq_iff)
          show ?thesis
          proof (cases "ssize d < int x + int c")
            case s: True
            then have "scull_write False m nc ub (int x) d =
              Some (Inr (int c), int x + int c, d\<lparr>sdata := ?its2, ssize := int x + int c\<rparr>)" using ev True by simp
            with ok2 b(3) old new [OF True] s show ?thesis by (simp add: sb2 sbd)
          next
            case s: False
            then have "scull_write False m nc ub (int x) d =
              Some (Inr (int c), int x + int c, d\<lparr>sdata := ?its2\<rparr>)" using ev True by simp
            with ok1 b(3) old new [OF True] s show ?thesis by (simp add: sb sbd)
          qed
        qed
      qed
    qed
  qed
qed

section \<open>The device as a store of bytes\<close>

text \<open>
  Without holes below its size a device is the list of its bytes.  Its positions are those
  whose item number is an \<open>int\<close>.
\<close>

definition scull_view :: "scull_dev \<Rightarrow> byte list" where
  "scull_view d = map (\<lambda>x. the (sbyte d x)) [0..<nat (ssize d)]"

definition scull_limit :: "scull_dev \<Rightarrow> nat" where
  "scull_limit d = 2 ^ 31 * (nat (quantum d) * nat (qset d)) - 1"

definition scull_good :: "scull_dev \<Rightarrow> bool" where
  "scull_good d \<longleftrightarrow> scull_ok (nat (quantum d)) (nat (qset d)) d \<and> nat (ssize d) \<le> scull_limit d \<and>
     (\<forall>x < nat (ssize d). sbyte d x \<noteq> None)"

definition scull_rd :: "smem \<Rightarrow> nat \<Rightarrow> nat \<Rightarrow> scull_dev \<Rightarrow> (byte list \<times> nat \<times> scull_dev) option" where
  "scull_rd m n pos d =
     (case scull_read False m 0 (int n) (int pos) d of
        Some (Inr _, f_pos, data, d') \<Rightarrow> Some (data, nat f_pos, d') | _ \<Rightarrow> None)"

definition scull_wr :: "smem \<Rightarrow> byte list \<Rightarrow> nat \<Rightarrow> scull_dev \<Rightarrow> (nat \<times> scull_dev) option" where
  "scull_wr m data pos d =
     (case scull_write False m 0 data (int pos) d of
        Some (Inr n, _, d') \<Rightarrow> Some (nat n, d') | _ \<Rightarrow> None)"

lemma scull_good_bounds:
  assumes "scull_good d" "x \<le> scull_limit d"
  shows "x div (nat (quantum d) * nat (qset d)) < 2 ^ 31" "x < 2 ^ 62"
proof -
  let ?s = "nat (quantum d) * nat (qset d)"
  have s: "0 < ?s" "?s < 2 ^ 31" using assms(1) by (auto simp: scull_good_def scull_ok_def q_wf_def)
  then have "0 < 2 ^ 31 * ?s" by simp
  with assms(2) have x: "x < 2 ^ 31 * ?s" unfolding scull_limit_def by linarith
  then show "x div ?s < 2 ^ 31" by (simp add: less_mult_imp_div_less)
  have "2 ^ 31 * ?s \<le> 2 ^ 31 * 2 ^ 31" using s by (intro mult_le_mono2) linarith
  moreover have "(2::nat) ^ 31 * 2 ^ 31 = 2 ^ 62" by simp
  ultimately show "x < 2 ^ 62" using less_le_trans [OF x] by metis
qed

lemma scull_pad:
  assumes "scull_good d"
  shows "scull_good (d\<lparr>sdata := sdata d @ replicate j None\<rparr>)"
    "scull_view (d\<lparr>sdata := sdata d @ replicate j None\<rparr>) = scull_view d"
    "scull_limit (d\<lparr>sdata := sdata d @ replicate j None\<rparr>) = scull_limit d"
  using assms by (auto simp: scull_good_def scull_ok_def scull_limit_def scull_view_def sbyte_def)

lemma scull_rd_next:
  assumes ok: "scull_good d" and n: "0 < n" "n < 2 ^ 62" and pos: "pos \<le> length (scull_view d)"
  shows "\<exists>data pos' d' rest. scull_rd m n pos d = Some (data, pos', d') \<and> scull_good d' \<and>
    quantum d' = quantum d \<and> qset d' = qset d \<and>
    scull_view d' = scull_view d \<and> length data \<le> n \<and> drop pos (scull_view d) = data @ rest \<and>
    (data = [] \<longrightarrow> rest = []) \<and> (data \<noteq> [] \<longrightarrow> pos' = pos + length data)"
proof -
  let ?q = "nat (quantum d)" and ?n = "nat (qset d)" and ?z = "nat (ssize d)"
  have o: "scull_ok ?q ?n d" "?z \<le> scull_limit d" "\<forall>x < ?z. sbyte d x \<noteq> None" using ok by (auto simp: scull_good_def)
  have pz: "pos \<le> ?z" using pos by (simp add: scull_view_def)
  note b = scull_good_bounds [OF ok order_trans [OF pz o(2)]]
  have bnd: "int pos + int n < 2 ^ 63" using b(2) n(2) by simp
  define c where "c = min (min n (?z - pos)) (?q - pos mod ?q)"
  define data where "data = map (\<lambda>i. the (sbyte d (pos + i))) [0..<c]"
  obtain j where r: "scull_read False m 0 (int n) (int pos) d =
    (if ssize d \<le> int pos \<or> sbyte d pos = None then Some (Inr 0, int pos, [], d\<lparr>sdata := sdata d @ replicate j None\<rparr>)
     else Some (Inr (int c), int pos + int c, data, d\<lparr>sdata := sdata d @ replicate j None\<rparr>))"
    using scull_read_spec [OF o(1) b(1) _ bnd, of m 0] unfolding Let_def nat_int c_def [symmetric] data_def [symmetric]
    by (simp only: simp_thms if_False if_True of_nat_0_le_iff) blast
  show ?thesis
  proof (cases "pos = ?z")
    case True
    then have "scull_rd m n pos d = Some ([], pos, d\<lparr>sdata := sdata d @ replicate j None\<rparr>)"
      using r by (simp add: scull_rd_def Let_def)
    moreover have "drop pos (scull_view d) = []" using True by (simp add: scull_view_def)
    ultimately show ?thesis using scull_pad [OF ok, of j] by auto
  next
    case False
    with pz have lt: "pos < ?z" by simp
    have q0: "pos mod ?q < ?q" using o(1) by (auto simp: scull_ok_def q_wf_def)
    then have cpos: "0 < c" using lt n(1) by (simp add: c_def)
    have rd: "scull_rd m n pos d = Some (data, pos + c, d\<lparr>sdata := sdata d @ replicate j None\<rparr>)"
    proof -
      have "\<not> ssize d \<le> int pos" "sbyte d pos \<noteq> None" using lt o(3) by auto
      then have "scull_read False m 0 (int n) (int pos) d =
          Some (Inr (int c), int pos + int c, data, d\<lparr>sdata := sdata d @ replicate j None\<rparr>)"
        unfolding r by auto
      then show ?thesis by (simp add: scull_rd_def nat_int_add)
    qed
    have le: "pos + c \<le> ?z" using lt unfolding c_def by linarith
    have "data = take c (drop pos (scull_view d))"
      using le by (auto simp: data_def scull_view_def intro!: nth_equalityI)
    then have "drop pos (scull_view d) = data @ drop (pos + c) (scull_view d)"
      by (metis append_take_drop_id drop_drop add.commute)
    moreover have "length data = c" "c \<le> n" by (simp_all add: data_def c_def)
    ultimately show ?thesis using rd cpos scull_pad [OF ok, of j] by (intro exI [of _ data]) auto
  qed
qed

lemma scull_wr_next:
  assumes ok: "scull_good d" and m: "mem_ok m" and data: "data \<noteq> []" and pos: "pos \<le> length (scull_view d)"
    and lim: "pos + length data \<le> scull_limit d"
  shows "\<exists>n d'. scull_wr m data pos d = Some (n, d') \<and> 0 < n \<and> n \<le> length data \<and> scull_good d' \<and>
    quantum d' = quantum d \<and> qset d' = qset d \<and> scull_limit d' = scull_limit d \<and>
    scull_view d' = take pos (scull_view d) @ take n data @ drop (pos + n) (scull_view d)"
proof -
  let ?q = "nat (quantum d)" and ?n = "nat (qset d)" and ?z = "nat (ssize d)"
  have o: "scull_ok ?q ?n d" "?z \<le> scull_limit d" "\<forall>x < ?z. sbyte d x \<noteq> None" using ok by (auto simp: scull_good_def)
  have pz: "pos \<le> ?z" using pos by (simp add: scull_view_def)
  have "pos \<le> scull_limit d" using lim by simp
  note b = scull_good_bounds [OF ok this]
  have sz: "pos + length data < 2 ^ 63" using scull_good_bounds(2) [OF ok lim] by simp
  define c where "c = min (length data) (?q - pos mod ?q)"
  from scull_write_spec [OF o(1) b(1) sz c_def, of 0 m] m obtain d' where
    w: "scull_write False m 0 data (int pos) d = Some (Inr (int c), int pos + int c, d')" "scull_ok ?q ?n d'"
      "\<forall>y. \<not> (pos \<le> y \<and> y < pos + c) \<longrightarrow> sbyte d y \<noteq> None \<longrightarrow> sbyte d' y = sbyte d y"
      "ssize d' = max (ssize d) (int (pos + c))" "\<forall>i < c. sbyte d' (pos + i) = Some (data ! i)" by auto
  have q0: "pos mod ?q < ?q" using o(1) by (auto simp: scull_ok_def q_wf_def)
  then have c: "0 < c" "c \<le> length data" using data by (auto simp: c_def)
  have par: "quantum d' = quantum d" "qset d' = qset d" using w(2) o(1) by (auto simp: scull_ok_def)
  have z: "nat (ssize d') = max ?z (pos + c)" using w(4) o(1) by (auto simp: max_def scull_ok_def)
  have byte: "sbyte d' x = (if pos \<le> x \<and> x < pos + c then Some (data ! (x - pos)) else sbyte d x)"
    if "x < nat (ssize d')" for x
  proof (cases "pos \<le> x \<and> x < pos + c")
    case True
    then have "x - pos < c" "x = pos + (x - pos)" by auto
    with w(5) True show ?thesis by metis
  next
    case False
    with that z have "x < ?z" using pz by linarith
    with o(3) w(3) False show ?thesis by auto
  qed
  have "scull_good d'"
  proof -
    have "\<forall>x < nat (ssize d'). sbyte d' x \<noteq> None" using byte o(3) z pz by auto
    moreover have "nat (ssize d') \<le> scull_limit d" using z o(2) lim c(2) by simp
    ultimately show ?thesis using w(2) par by (simp add: scull_good_def scull_limit_def)
  qed
  moreover have "scull_view d' = take pos (scull_view d) @ take c data @ drop (pos + c) (scull_view d)"
  proof (rule nth_equalityI)
    show "length (scull_view d') = length (take pos (scull_view d) @ take c data @ drop (pos + c) (scull_view d))"
      using z pz c(2) by (simp add: scull_view_def)
    fix i assume "i < length (scull_view d')"
    then have i: "i < nat (ssize d')" by (simp add: scull_view_def)
    then have "scull_view d' ! i = the (if pos \<le> i \<and> i < pos + c then Some (data ! (i - pos)) else sbyte d i)"
      by (simp add: scull_view_def byte)
    also have "\<dots> = (take pos (scull_view d) @ take c data @ drop (pos + c) (scull_view d)) ! i"
      using i z pz c(2) by (auto simp: scull_view_def nth_append min_def)
    finally show "scull_view d' ! i = (take pos (scull_view d) @ take c data @ drop (pos + c) (scull_view d)) ! i" .
  qed
  moreover have "scull_wr m data pos d = Some (c, d')" using w(1) by (simp add: scull_wr_def)
  moreover have "scull_limit d' = scull_limit d" using par by (simp add: scull_limit_def)
  ultimately show ?thesis using c par by blast
qed

interpretation scull_store: byte_store "\<lambda>d. mem_ok m \<and> scull_good d" scull_view "scull_rd m" "scull_wr m" scull_limit for m
proof unfold_locales
  fix d :: scull_dev and n pos :: nat
  assume "mem_ok m \<and> scull_good d" "0 < n" "n < 2 ^ 62" "pos \<le> length (scull_view d)"
  with scull_rd_next [of d n pos m] show "\<exists>data pos' s' rest. scull_rd m n pos d = Some (data, pos', s') \<and>
      (mem_ok m \<and> scull_good s') \<and> scull_view s' = scull_view d \<and> length data \<le> n \<and>
      drop pos (scull_view d) = data @ rest \<and> (data = [] \<longrightarrow> rest = []) \<and>
      (data \<noteq> [] \<longrightarrow> pos' = pos + length data)" by blast
next
  fix d :: scull_dev and data :: "byte list" and pos :: nat
  assume "mem_ok m \<and> scull_good d" "data \<noteq> []" "pos \<le> length (scull_view d)" "pos + length data \<le> scull_limit d"
  with scull_wr_next [of d m data pos] show "\<exists>n s'. scull_wr m data pos d = Some (n, s') \<and> 0 < n \<and> n \<le> length data \<and>
      (mem_ok m \<and> scull_good s') \<and> scull_limit s' = scull_limit d \<and>
      scull_view s' = take pos (scull_view d) @ take n data @ drop (pos + n) (scull_view d)" by blast
qed

section \<open>Properties\<close>

definition calm_mem :: smem where
  "calm_mem = \<lparr>item_ok = (\<lambda>_. True), data_ok = True, quantum_ok = True, fill = (\<lambda>_. 255)\<rparr>"

lemma calm_mem_ok: "mem_ok calm_mem"
  by (simp add: mem_ok_def calm_mem_def)

definition empty_scull :: "int \<Rightarrow> int \<Rightarrow> scull_dev" where
  "empty_scull q n = \<lparr>sdata = [], quantum = q, qset = n, ssize = 0, slock = False\<rparr>"

lemma empty_scull_good: "scull_good (empty_scull 4 2)" "scull_view (empty_scull 4 2) = []"
  by (auto simp: scull_good_def scull_ok_def empty_scull_def scull_view_def)

text \<open>
  C9: A client that writes until all of its bytes are accepted, at a position not behind the end
  of a device without holes, and then reads the device from the beginning until it gets nothing,
  has the old contents with its bytes in their place, however the quanta and sets cut the
  transfers.
\<close>

theorem scull_roundtrip:
  assumes "scull_good d" "mem_ok m" "pos \<le> length (scull_view d)" "pos + length data \<le> scull_limit d"
    and "0 < n" "n < 2 ^ 62"
  shows "\<exists>d' d''. store_all (scull_wr m) (length data) data pos d = Some d' \<and>
    drain (scull_rd m n) (Suc (length (scull_view d'))) 0 d' =
      Some (take pos (scull_view d) @ data @ drop (pos + length data) (scull_view d), d'')"
  using scull_store.store_then_drain [of m d pos data n] assms by blast

lemma scull_roundtrip_witness:
  "\<exists>d' d''. store_all (scull_wr calm_mem) (length [0..<10]) (map of_nat [0..<10]) 0 (empty_scull 4 2) = Some d' \<and>
    drain (scull_rd calm_mem 3) (Suc (length (scull_view d'))) 0 d' = Some (map of_nat [0..<10], d'')"
proof -
  let ?data = "map of_nat [0..<10] :: byte list"
  have "0 + length ?data \<le> scull_limit (empty_scull 4 2)" by (simp add: scull_limit_def empty_scull_def)
  from scull_roundtrip [OF empty_scull_good(1) calm_mem_ok _ this, of 3] show ?thesis
    by (simp del: upt_rec_numeral add: empty_scull_good(2))
qed

text \<open>
  C10: A write to a device in order stays inside its quantum, whatever allocation or copy fails:
  it has a result, leaves the device in order and unlocked, changes no stored byte outside the
  bytes it was given room for, and either accepts and stores the bytes up to the end of the
  quantum, growing the size to their end, or reports an error and leaves position and size.
\<close>

theorem scull_write_outcomes:
  assumes "scull_ok q n d" "x div (q * n) < 2 ^ 31" "x + length ub < 2 ^ 63"
    and "nc \<le> min (length ub) (q - x mod q)"
  shows "\<exists>r f d'. scull_write False m nc ub (int x) d = Some (r, f, d') \<and> scull_ok q n d' \<and>
    (\<forall>y. x \<le> y \<and> y < x + min (length ub) (q - x mod q) \<or> sbyte d y = None \<or> sbyte d' y = sbyte d y) \<and>
    (case r of
       Inr c \<Rightarrow> c = int (min (length ub) (q - x mod q)) \<and> f = int x + c \<and> ssize d' = max (ssize d) (int x + c) \<and>
         map (sbyte d') [x..<x + nat c] = map Some (take (nat c) ub)
     | Inl e \<Rightarrow> f = int x \<and> ssize d' = ssize d)"
proof -
  from scull_write_spec [OF assms(1-3) refl assms(4), of m] obtain r f d' where
    w: "scull_write False m nc ub (int x) d = Some (r, f, d')" "scull_ok q n d'"
      "\<forall>y. \<not> (x \<le> y \<and> y < x + min (length ub) (q - x mod q)) \<longrightarrow> sbyte d y \<noteq> None \<longrightarrow> sbyte d' y = sbyte d y"
      "r = Inr (int (min (length ub) (q - x mod q))) \<and> f = int x + int (min (length ub) (q - x mod q)) \<and>
         ssize d' = max (ssize d) (int (x + min (length ub) (q - x mod q))) \<and>
         (\<forall>i < min (length ub) (q - x mod q). sbyte d' (x + i) = Some (ub ! i)) \<or>
       (\<exists>e. r = Inl e) \<and> f = int x \<and> ssize d' = ssize d" by blast
  define c where "c = min (length ub) (q - x mod q)"
  have "map (sbyte d') [x..<x + c] = map Some (take c ub)" if "\<forall>i < c. sbyte d' (x + i) = Some (ub ! i)"
    using that by (intro nth_equalityI) (auto simp: c_def)
  with w show ?thesis unfolding c_def [symmetric] by (intro exI [of _ r] exI [of _ f] exI [of _ d']) (auto split: sum.splits)
qed

lemma scull_write_outcomes_witness:
  "\<exists>r f d'. scull_write False (calm_mem\<lparr>quantum_ok := False\<rparr>) 0 [1, 2] 9 (empty_scull 4 2) = Some (r, f, d') \<and>
     scull_ok 4 2 d'"
proof -
  have "scull_ok 4 2 (empty_scull 4 2)" by (simp add: scull_ok_def empty_scull_def)
  from scull_write_outcomes [OF this, of 9 "[1, 2]" 0 "calm_mem\<lparr>quantum_ok := False\<rparr>"] show ?thesis by auto
qed

text \<open>
  A new quantum is not cleared: after one byte is written at position 3 of an empty device,
  a reader at position 0 gets three bytes of whatever the memory held before.
\<close>

theorem scull_uninitialised_bytes:
  "\<exists>d' d''. scull_write False \<lparr>item_ok = (\<lambda>_. True), data_ok = True, quantum_ok = True, fill = secret\<rparr> 0 [7] 3
      (empty_scull 4 2) = Some (Inr 1, 4, d') \<and>
    scull_read False calm_mem 0 4 0 d' = Some (Inr 4, 4, [secret 0, secret 1, secret 2, 7], d'')"
  by (simp add: scull_write_def scull_read_def scull_lock_def scull_unlock_def empty_scull_def q_locate_def
      c_div_def c_rem_def scull_follow_def walk_count_def u32_def q_need_data_def scull_need_quantum_def
      q_entry_def mem_at_def q_set_def blk_put_def blk_get_def mem_write_def mem_read_def numeral_eq_Suc Let_def)

text \<open>What a command of the table does.\<close>

lemma ioctl_command:
  assumes "arg_ok a"
  shows "scull_ioctl capable (ioc_cmd scull_magic opr for_qset) a g =
    (case param_op capable opr a (if for_qset then scull_qset g else scull_quantum g) of
       (r, stored, v) \<Rightarrow> (r, stored, if for_qset then g\<lparr>scull_qset := v\<rparr> else g\<lparr>scull_quantum := v\<rparr>))"
  using assms
  by (cases opr; cases for_qset)
    (simp_all add: scull_ioctl_def ioctl_checks_def ioc_decode_def ioc_all_def ioc_cmd_def scull_magic_def split: prod.splits)

text \<open>
  Every command for the quantum or the set acts on that parameter as its kind says: set and
  tell store the argument, get and query deliver the value, exchange and shift do both; the
  other parameters stay.
\<close>

theorem scull_ioctl_commands:
  assumes "arg_ok a"
  shows "scull_ioctl capable (ioc_cmd scull_magic opr for_qset) a g =
    (case param_op capable opr a (if for_qset then scull_qset g else scull_quantum g) of
       (r, stored, v) \<Rightarrow> (r, stored, if for_qset then g\<lparr>scull_qset := v\<rparr> else g\<lparr>scull_quantum := v\<rparr>))"
  by (rule ioctl_command [OF assms])

lemma scull_ioctl_commands_witness:
  "scull_ioctl True (ioc_cmd scull_magic Ioc_Exchange True) \<lparr>arg = 64, arg_ok = True, uval = Some 7, put_ok = True\<rparr>
     \<lparr>scull_quantum = 4000, scull_qset = 1000, scull_p_buffer = 4000\<rparr> =
   (Inr 0, Some 1000, \<lparr>scull_quantum = 4000, scull_qset = 7, scull_p_buffer = 4000\<rparr>)"
  using scull_ioctl_commands [of "\<lparr>arg = 64, arg_ok = True, uval = Some 7, put_ok = True\<rparr>" True Ioc_Exchange True
    "\<lparr>scull_quantum = 4000, scull_qset = 1000, scull_p_buffer = 4000\<rparr>"]
  by (simp add: get_user_def put_user_def)

text \<open>
  Without the administrator's capability no command changes the parameters, with two
  exceptions that are not guarded: the reset of quantum and set to their defaults, and the size
  of the pipe buffers.
\<close>

theorem scull_ioctl_privilege:
  "case scull_ioctl False cmd a g of
     (r, stored, g') \<Rightarrow> g' =
       (if cmd = scull_magic * 256 then g\<lparr>scull_quantum := 4000, scull_qset := 1000\<rparr>
        else if cmd = scull_magic * 256 + 13 then g\<lparr>scull_p_buffer := s32 (arg a)\<rparr> else g)"
proof -
  have p: "snd (snd (param_op False opr a v)) = v" for opr v
    by (cases opr) (auto simp: put_user_def)
  have keep: "(case param_op False opr a v of (r, p, w) \<Rightarrow> (r, p, f w)) = (fst (param_op False opr a v), fst (snd (param_op False opr a v)), f v)"
    for opr v and f :: "int \<Rightarrow> scull_vars" using p [of opr v] by (auto split: prod.splits)
  have dec: "ioc_decode scull_magic (scull_magic * 256 + 13) = None"
    by (simp add: ioc_decode_def ioc_all_def ioc_cmd_def scull_magic_def)
  consider "cmd = scull_magic * 256" | "cmd = scull_magic * 256 + 13"
    | "cmd \<noteq> scull_magic * 256" "cmd \<noteq> scull_magic * 256 + 13" by blast
  then show ?thesis
  proof cases
    case 1
    then show ?thesis by (simp add: scull_ioctl_def ioctl_checks_def scull_magic_def)
  next
    case 2
    then show ?thesis
      using dec by (simp add: scull_ioctl_def ioctl_checks_def scull_magic_def)
  next
    case 3
    show ?thesis
    proof (cases "ioctl_checks scull_magic 14 cmd a")
      case None
      show ?thesis
      proof (cases "ioc_decode scull_magic cmd")
        case (Some ob)
        obtain opr b where "ob = (opr, b)" by (cases ob)
        with None Some 3 show ?thesis by (cases b) (simp_all add: scull_ioctl_def keep)
      qed (use None 3 in \<open>simp add: scull_ioctl_def\<close>)
    qed (use 3 in \<open>simp add: scull_ioctl_def\<close>)
  qed
qed

text \<open>
  A parameter of 0, which a command accepts and a failed \<open>get_user\<close> leaves behind, reaches
  the device with the next write-only open; every read and write of a position then divides by
  zero.
\<close>

theorem scull_zero_quantum:
  "\<exists>g' d'. scull_ioctl True (ioc_cmd scull_magic Ioc_Set False) \<lparr>arg = 64, arg_ok = True, uval = None, put_ok = True\<rparr> g =
      (Inl EFAULT, None, g') \<and>
    scull_open False 1 g' (empty_scull 4 2) = Some (Inr 0, d') \<and> (\<forall>m nc ub x. scull_write False m nc ub x d' = None)"
  by (simp add: ioctl_command get_user_def scull_open_def scull_lock_def scull_trim_def empty_scull_def scull_unlock_def
      scull_write_def q_locate_def c_div_def)

text \<open>Reading the sequence file to its end: the devices that are shown.\<close>

fun seq_visit :: "nat \<Rightarrow> nat \<Rightarrow> nat option \<Rightarrow> nat \<Rightarrow> nat list option" where
  "seq_visit 0 nr v pos = None"
| "seq_visit (Suc fuel) nr None pos = Some []"
| "seq_visit (Suc fuel) nr (Some i) pos =
     (case scull_seq_next nr pos of (v', pos') \<Rightarrow> map_option (\<lambda>is. i # is) (seq_visit fuel nr v' pos'))"

lemma seq_visit_from: "seq_visit (Suc (nr - i)) nr (scull_seq_start nr i) i = Some [i..<nr]"
proof (induction "nr - i" arbitrary: i)
  case 0
  then show ?case by (simp add: scull_seq_start_def)
next
  case (Suc k)
  then have i: "i < nr" "nr - i = Suc (nr - Suc i)" by simp_all
  have "scull_seq_next nr i = (scull_seq_start nr (Suc i), Suc i)"
    by (simp add: scull_seq_next_def scull_seq_start_def Let_def)
  with Suc.hyps(1) [of "Suc i"] Suc.hyps(2) i show ?case
    by (simp add: scull_seq_start_def upt_conv_Cons)
qed

text \<open>
  The sequence file visits every device exactly once, in order: starting at a position and
  going on until there is no next device gives all device numbers from the position on.
\<close>

theorem scull_seq_all: "seq_visit (Suc nr) nr (scull_seq_start nr 0) 0 = Some [0..<nr]"
  using seq_visit_from [of nr 0] by simp

end
