(* ===== verification/Byte_Ring.thy ===== *)
theory Byte_Ring
  imports Prelude
begin

text \<open>
  What the drivers with a circular buffer share: the bytes between two positions of a ring and
  what storing and removing bytes does to them; what ends the sleep of a blocked task; and the
  contract \<open>byte_fifo\<close> of a queue of bytes, as a locale, with what it gives its clients: the
  bytes come out in the order they went in, and a writer and a reader that take turns transfer
  everything.
\<close>

section \<open>Rings\<close>

text \<open>
  The bytes between the reading and the writing position, around the end of the buffer.
\<close>

definition ring :: "nat \<Rightarrow> byte list \<Rightarrow> nat \<Rightarrow> nat \<Rightarrow> byte list" where
  "ring n blk r w = (if r \<le> w then take (w - r) (drop r blk) else drop r (take n blk) @ take w blk)"

lemma length_ring:
  assumes "r < n" "w < n" "n \<le> length blk"
  shows "length (ring n blk r w) = (if r \<le> w then w - r else w + n - r)"
  using assms by (auto simp: ring_def)

lemma ring_put:
  assumes "r < n" "w < n" "n \<le> length blk" "length src \<le> n - 1 - length (ring n blk r w)" "w + length src \<le> n"
  shows "ring n (take w blk @ src @ drop (w + length src) blk) r (if w + length src = n then 0 else w + length src) =
    ring n blk r w @ src"
proof (cases "r \<le> w")
  case True
  then have l: "length src \<le> n - 1 - (w - r)" using assms by (simp add: length_ring)
  show ?thesis
  proof (cases "w + length src = n")
    case e: True
    then have "0 < r" using l assms by simp
    then show ?thesis using True e assms l by (auto simp: ring_def drop_take)
  next
    case False
    have "\<not> w + length src - r \<le> w - r" if "src \<noteq> []" using that True by (cases src) auto
    with False show ?thesis using True assms l by (cases "src = []") (auto simp: ring_def min_def drop_take)
  qed
next
  case False
  then have "w + length src < r" using assms by (simp add: length_ring)
  then show ?thesis using False assms by (auto simp: ring_def min_def drop_take)
qed

lemma ring_get:
  assumes "r < n" "w < n" "n \<le> length blk" "c \<le> (if r < w then w - r else n - r)" "r \<noteq> w"
  shows "ring n blk r w = take c (drop r blk) @ ring n blk (if r + c = n then 0 else r + c) w"
proof (cases "r < w")
  case True
  then have c: "c \<le> w - r" using assms(4) by simp
  then have "take (w - r) (drop r blk) = take c (drop r blk) @ take (w - (r + c)) (drop (r + c) blk)"
    by (metis add.commute diff_diff_left drop_drop le_add_diff_inverse take_add)
  moreover from True c assms(2) have "r + c \<le> w" "r + c \<noteq> n" by auto
  ultimately show ?thesis using True by (simp add: ring_def)
next
  case False
  then have c: "c \<le> n - r" "w < r" using assms by simp_all
  have e: "drop r (take n blk) = take (n - r) (drop r blk)" for r by (simp add: drop_take)
  have "take (n - r) (drop r blk) = take c (drop r blk) @ take (n - (r + c)) (drop (r + c) blk)"
    using c by (metis add.commute diff_diff_left drop_drop le_add_diff_inverse take_add)
  then show ?thesis using c by (auto simp: ring_def e)
qed

section \<open>Sleeping\<close>

text \<open>
  What ends a sleep: a signal, before or after the condition holds, or the event, and then the
  device is what the others have made of it when the lock is taken again.
\<close>

datatype 's wake = Signal | Woken 's

section \<open>First in, first out\<close>

datatype fifo_op = Put "byte list" | Get nat

text \<open>A run of operations: the bytes accepted, the bytes delivered and the state left.\<close>

fun fifo_run :: "(byte list \<Rightarrow> 's \<Rightarrow> (nat \<times> 's) option) \<Rightarrow> (nat \<Rightarrow> 's \<Rightarrow> (byte list \<times> 's) option) \<Rightarrow>
    fifo_op list \<Rightarrow> 's \<Rightarrow> (byte list \<times> byte list \<times> 's) option" where
  "fifo_run put get [] s = Some ([], [], s)"
| "fifo_run put get (Put bs # ops) s = do {
     (n, s) \<leftarrow> put bs s;
     (xs, ys, s) \<leftarrow> fifo_run put get ops s;
     Some (take n bs @ xs, ys, s)
   }"
| "fifo_run put get (Get n # ops) s = do {
     (bs, s) \<leftarrow> get n s;
     (xs, ys, s) \<leftarrow> fifo_run put get ops s;
     Some (xs, bs @ ys, s)
   }"

text \<open>A writer and a reader that take turns until nothing is left to write and nothing to read.\<close>

fun fifo_pump :: "(byte list \<Rightarrow> 's \<Rightarrow> (nat \<times> 's) option) \<Rightarrow> (nat \<Rightarrow> 's \<Rightarrow> (byte list \<times> 's) option) \<Rightarrow>
    nat \<Rightarrow> nat \<Rightarrow> byte list \<Rightarrow> 's \<Rightarrow> (byte list \<times> 's) option" where
  "fifo_pump put get k 0 bs s = None"
| "fifo_pump put get k (Suc fuel) bs s = do {
     (n, s) \<leftarrow> put bs s;
     (xs, s) \<leftarrow> get k s;
     if drop n bs = [] \<and> xs = [] then Some ([], s)
     else do {
       (ys, s) \<leftarrow> fifo_pump put get k fuel (drop n bs) s;
       Some (xs @ ys, s)
     }
   }"

locale byte_fifo =
  fixes inv :: "'s \<Rightarrow> bool"
    and queue :: "'s \<Rightarrow> byte list"
    and capacity :: "'s \<Rightarrow> nat"
    and put :: "byte list \<Rightarrow> 's \<Rightarrow> (nat \<times> 's) option"
    and get :: "nat \<Rightarrow> 's \<Rightarrow> (byte list \<times> 's) option"
  assumes put_fifo: "inv s \<Longrightarrow> put bs s = Some (n, s') \<Longrightarrow>
      inv s' \<and> n \<le> length bs \<and> queue s' = queue s @ take n bs \<and> capacity s' = capacity s"
    and get_fifo: "inv s \<Longrightarrow> get k s = Some (bs, s') \<Longrightarrow>
      inv s' \<and> length bs \<le> k \<and> queue s = bs @ queue s' \<and> capacity s' = capacity s"
    and put_some: "inv s \<Longrightarrow> \<exists>n s'. put bs s = Some (n, s') \<and> (bs \<noteq> [] \<longrightarrow> length (queue s) < capacity s \<longrightarrow> 0 < n)"
    and get_some: "inv s \<Longrightarrow> 0 < k \<Longrightarrow> \<exists>bs s'. get k s = Some (bs, s') \<and> (queue s \<noteq> [] \<longrightarrow> bs \<noteq> [])"
begin

lemma run_fifo:
  "inv s \<Longrightarrow> fifo_run put get ops s = Some (xs, ys, s') \<Longrightarrow> inv s' \<and> queue s @ xs = ys @ queue s'"
proof (induction ops arbitrary: s xs ys)
  case Nil
  then show ?case by simp
next
  case (Cons opr ops)
  show ?case
  proof (cases opr)
    case (Put bs)
    with Cons.prems obtain n s1 xs1 where p: "put bs s = Some (n, s1)"
      "fifo_run put get ops s1 = Some (xs1, ys, s')" "xs = take n bs @ xs1"
      by (auto simp: bind_eq_Some_conv)
    from put_fifo [OF Cons.prems(1) p(1)] Cons.IH [OF _ p(2)] p(3) show ?thesis by auto
  next
    case (Get k)
    with Cons.prems obtain bs s1 ys1 where g: "get k s = Some (bs, s1)"
      "fifo_run put get ops s1 = Some (xs, ys1, s')" "ys = bs @ ys1"
      by (auto simp: bind_eq_Some_conv)
    from get_fifo [OF Cons.prems(1) g(1)] Cons.IH [OF _ g(2)] g(3) show ?thesis by auto
  qed
qed

lemma pump_all:
  assumes "inv s" "0 < capacity s" "0 < k" "2 * length bs + length (queue s) < fuel"
  shows "\<exists>s'. fifo_pump put get k fuel bs s = Some (queue s @ bs, s') \<and> inv s' \<and> queue s' = []"
  using assms
proof (induction fuel arbitrary: s bs)
  case 0
  then show ?case by simp
next
  case (Suc fuel)
  from put_some [OF Suc.prems(1), of bs] obtain n s1 where
    p: "put bs s = Some (n, s1)" "bs \<noteq> [] \<longrightarrow> length (queue s) < capacity s \<longrightarrow> 0 < n" by blast
  note pf = put_fifo [OF Suc.prems(1) p(1)]
  from get_some [OF _ Suc.prems(3), of s1] pf obtain xs s2 where
    g: "get k s1 = Some (xs, s2)" "queue s1 \<noteq> [] \<longrightarrow> xs \<noteq> []" by blast
  from get_fifo [OF _ g(1)] pf have gf: "inv s2" "queue s1 = xs @ queue s2" "capacity s2 = capacity s" by auto
  have q: "queue s @ bs = xs @ queue s2 @ drop n bs"
    using pf gf(2) by (metis append_assoc append_take_drop_id)
  show ?case
  proof (cases "drop n bs = [] \<and> xs = []")
    case True
    with q g p gf show ?thesis by auto
  next
    case False
    have "xs \<noteq> []"
    proof
      assume "xs = []"
      with g(2) pf have "queue s = []" "take n bs = []" by auto
      with p(2) Suc.prems(2) False \<open>xs = []\<close> show False by (cases bs) auto
    qed
    then have "0 < length xs" by (rule length_greater_0_conv [THEN iffD2])
    moreover have "length (queue s) + n = length xs + length (queue s2)"
      using arg_cong [OF gf(2), of length] pf by (simp add: min_absorb2)
    moreover have "length (drop n bs) + n = length bs" using pf by simp
    ultimately have "2 * length (drop n bs) + length (queue s2) < fuel"
      using Suc.prems(4) by linarith
    with Suc.IH [OF gf(1) _ Suc.prems(3), of "drop n bs"] gf(3) Suc.prems(2) obtain s' where
      "fifo_pump put get k fuel (drop n bs) s2 = Some (queue s2 @ drop n bs, s')" "inv s'" "queue s' = []" by auto
    with p(1) g(1) False q show ?thesis by auto
  qed
qed

end

end
