(* ===== verification/Scull_Pipe.thy ===== *)
theory Scull_Pipe
  imports Scull Byte_Ring
begin

text \<open>
  The pipe driver \<open>scull/pipe.c\<close>: a circular buffer with a reading and a writing position,
  blocking and non-blocking read and write, open and release with their counts, and poll.  The
  pipe meets the contract \<open>byte_fifo\<close> of \<open>Byte_Ring\<close>.
\<close>

section \<open>State\<close>

text \<open>
  The pointers are offsets from \<open>buffer\<close>; \<open>end\<close> is the offset \<open>buffersize\<close>.
\<close>

record scull_pipe =
  pbuffer :: "byte list option"
  buffersize :: int
  rp :: nat
  wp :: nat
  nreaders :: int
  nwriters :: int
  plock :: bool

definition pipe_lock :: "scull_pipe \<Rightarrow> scull_pipe option" where
  "pipe_lock p = (if plock p then None else Some (p\<lparr>plock := True\<rparr>))"

definition pipe_unlock :: "scull_pipe \<Rightarrow> scull_pipe" where
  "pipe_unlock p = p\<lparr>plock := False\<rparr>"

section \<open>Open and release\<close>

text \<open>
  \<open>mem\<close>: the memory allocated, if there is some, for a buffer of the size given.  A size below 0
  is a request that cannot be met.
\<close>

definition scull_p_open ::
  "bool \<Rightarrow> (nat \<Rightarrow> byte list option) \<Rightarrow> int \<Rightarrow> bool \<Rightarrow> bool \<Rightarrow> scull_pipe \<Rightarrow> (int ret \<times> scull_pipe) option" where
  "scull_p_open intr mem size_param rd wr p =
     (if intr then Some (Inl ERESTARTSYS, p)
      else do {
        p \<leftarrow> pipe_lock p;
        let buf = (case pbuffer p of Some b \<Rightarrow> Some b
                   | None \<Rightarrow> if 0 \<le> size_param then mem (nat size_param) else None);
        case buf of
          None \<Rightarrow> Some (Inl ENOMEM, pipe_unlock p)
        | Some b \<Rightarrow>
            let p = p\<lparr>pbuffer := Some b, buffersize := size_param, rp := 0, wp := 0\<rparr>;
                p = (if rd then p\<lparr>nreaders := nreaders p + 1\<rparr> else p);
                p = (if wr then p\<lparr>nwriters := nwriters p + 1\<rparr> else p)
            in Some (Inr 0, pipe_unlock p)
      })"

definition scull_p_release :: "bool \<Rightarrow> bool \<Rightarrow> scull_pipe \<Rightarrow> (int ret \<times> scull_pipe) option" where
  "scull_p_release rd wr p = do {
     p \<leftarrow> pipe_lock p;
     let p = (if rd then p\<lparr>nreaders := nreaders p - 1\<rparr> else p);
     let p = (if wr then p\<lparr>nwriters := nwriters p - 1\<rparr> else p);
     let p = (if nreaders p + nwriters p = 0 then p\<lparr>pbuffer := None\<rparr> else p);
     Some (Inr 0, pipe_unlock p)
   }"

section \<open>Read and write\<close>

definition spacefree :: "scull_pipe \<Rightarrow> int option" where
  "spacefree p =
     (if rp p = wp p then Some (buffersize p - 1)
      else c_rem (int (rp p) + buffersize p - int (wp p)) (buffersize p) \<bind> (\<lambda>r. Some (r - 1)))"

text \<open>
  The two waiting loops have the same form: while the pipe is blocked, give the lock back, fail
  for a non-blocking file, sleep, and take the lock again.  A sleep that nothing ends has no
  result.
\<close>

fun pipe_wait :: "(scull_pipe \<Rightarrow> bool option) \<Rightarrow> bool \<Rightarrow> scull_pipe wake list \<Rightarrow> scull_pipe \<Rightarrow> (errno option \<times> scull_pipe) option" where
  "pipe_wait blocked nonblock [] p = do {
     b \<leftarrow> blocked p;
     if \<not> b then Some (None, p)
     else if nonblock then Some (Some EAGAIN, pipe_unlock p)
     else None
   }"
| "pipe_wait blocked nonblock (w # ws) p = do {
     b \<leftarrow> blocked p;
     if \<not> b then Some (None, p)
     else if nonblock then Some (Some EAGAIN, pipe_unlock p)
     else case w of
       Signal \<Rightarrow> Some (Some ERESTARTSYS, pipe_unlock p)
     | Woken p' \<Rightarrow> pipe_wait blocked nonblock ws (p'\<lparr>plock := True\<rparr>)
   }"

definition scull_getwritespace :: "bool \<Rightarrow> scull_pipe wake list \<Rightarrow> scull_pipe \<Rightarrow> (errno option \<times> scull_pipe) option" where
  "scull_getwritespace nonblock ws p = pipe_wait (\<lambda>p. map_option (\<lambda>n. n = 0) (spacefree p)) nonblock ws p"

text \<open>How much of a read or a write of \<open>count\<close> bytes is done: up to the other pointer or the end.\<close>

definition read_count :: "scull_pipe \<Rightarrow> int \<Rightarrow> int" where
  "read_count p count =
     (if rp p < wp p then min count (int (wp p - rp p)) else min count (u64 (buffersize p - int (rp p))))"

definition write_count :: "scull_pipe \<Rightarrow> int \<Rightarrow> int \<Rightarrow> int" where
  "write_count p space count =
     (let count = min count (u64 space)
      in if rp p \<le> wp p then min count (u64 (buffersize p - int (wp p)))
         else min count (int (rp p) - int (wp p) - 1))"

definition scull_p_read ::
  "bool \<Rightarrow> bool \<Rightarrow> scull_pipe wake list \<Rightarrow> nat \<Rightarrow> int \<Rightarrow> scull_pipe \<Rightarrow> (int ret \<times> byte list \<times> scull_pipe) option" where
  "scull_p_read intr nonblock ws nc count p =
     (if intr then Some (Inl ERESTARTSYS, [], p)
      else do {
        p \<leftarrow> pipe_lock p;
        (err, p) \<leftarrow> pipe_wait (\<lambda>p. Some (rp p = wp p)) nonblock ws p;
        case err of
          Some e \<Rightarrow> Some (Inl e, [], p)
        | None \<Rightarrow> do {
            let count = read_count p count;
            buf \<leftarrow> pbuffer p;
            data \<leftarrow> mem_read buf (rp p) (nat count);
            if nc \<noteq> 0 then Some (Inl EFAULT, take (length data - nc) data, pipe_unlock p)
            else
              let p = p\<lparr>rp := rp p + nat count\<rparr>;
                  p = (if int (rp p) = buffersize p then p\<lparr>rp := 0\<rparr> else p)
              in Some (Inr count, data, pipe_unlock p)
          }
      })"

definition scull_p_write ::
  "bool \<Rightarrow> bool \<Rightarrow> scull_pipe wake list \<Rightarrow> nat \<Rightarrow> byte list \<Rightarrow> scull_pipe \<Rightarrow> (int ret \<times> scull_pipe) option" where
  "scull_p_write intr nonblock ws nc ub p =
     (if intr then Some (Inl ERESTARTSYS, p)
      else do {
        p \<leftarrow> pipe_lock p;
        (err, p) \<leftarrow> scull_getwritespace nonblock ws p;
        case err of
          Some e \<Rightarrow> Some (Inl e, p)
        | None \<Rightarrow> do {
            space \<leftarrow> spacefree p;
            let count = write_count p space (int (length ub));
            buf \<leftarrow> pbuffer p;
            buf \<leftarrow> mem_write buf (wp p) (user_bytes (take (nat count) ub) nc);
            let p = p\<lparr>pbuffer := Some buf\<rparr>;
            if nc \<noteq> 0 then Some (Inl EFAULT, pipe_unlock p)
            else
              let p = p\<lparr>wp := wp p + nat count\<rparr>;
                  p = (if int (wp p) = buffersize p then p\<lparr>wp := 0\<rparr> else p)
              in Some (Inr count, pipe_unlock p)
          }
      })"

section \<open>Poll, initialisation and cleanup\<close>

text \<open>The mask as two flags: readable and writable.\<close>

definition scull_p_poll :: "scull_pipe \<Rightarrow> ((bool \<times> bool) \<times> scull_pipe) option" where
  "scull_p_poll p = do {
     p \<leftarrow> pipe_lock p;
     space \<leftarrow> spacefree p;
     Some ((rp p \<noteq> wp p, space \<noteq> 0), pipe_unlock p)
   }"

definition zero_pipe :: scull_pipe where
  "zero_pipe = \<lparr>pbuffer = None, buffersize = 0, rp = 0, wp = 0, nreaders = 0, nwriters = 0, plock = False\<rparr>"

text \<open>The devices, and the number of them that were set up.\<close>

definition scull_p_init :: "bool \<Rightarrow> bool \<Rightarrow> nat \<Rightarrow> nat \<times> scull_pipe list option" where
  "scull_p_init registered mem nr_devs =
     (if \<not> registered then (0, None)
      else if \<not> mem then (0, None)
      else (nr_devs, Some (replicate nr_devs zero_pipe)))"

text \<open>Cleanup leaves no devices; the second result are the buffers it frees.\<close>

definition scull_p_cleanup :: "scull_pipe list option \<Rightarrow> scull_pipe list option \<times> byte list list" where
  "scull_p_cleanup devs =
     (case devs of None \<Rightarrow> (None, []) | Some ps \<Rightarrow> (None, List.map_filter pbuffer ps))"

text \<open>
  The debugging file: one record for each device, the offsets in place of the addresses, until
  the page is full; \<open>room n\<close> says whether it has room after \<open>n\<close> devices.
\<close>

datatype pipe_line = Pipe_line nat int nat nat int int

fun scull_read_p_mem :: "(nat \<Rightarrow> bool) \<Rightarrow> nat \<Rightarrow> scull_pipe list \<Rightarrow> pipe_line list option" where
  "scull_read_p_mem room i [] = Some []"
| "scull_read_p_mem room i (p # ps) =
     (if \<not> room i then Some []
      else do {
        p \<leftarrow> pipe_lock p;
        ls \<leftarrow> scull_read_p_mem room (i + 1) ps;
        Some (Pipe_line i (buffersize p) (rp p) (wp p) (nreaders p) (nwriters p) # ls)
      })"

section \<open>The queue of a pipe\<close>

definition pipe_queue :: "scull_pipe \<Rightarrow> byte list" where
  "pipe_queue p = (case pbuffer p of None \<Rightarrow> [] | Some blk \<Rightarrow> ring (nat (buffersize p)) blk (rp p) (wp p))"

definition pipe_capacity :: "scull_pipe \<Rightarrow> nat" where
  "pipe_capacity p = nat (buffersize p) - 1"

definition pipe_ok :: "scull_pipe \<Rightarrow> bool" where
  "pipe_ok p \<longleftrightarrow> 0 < buffersize p \<and> buffersize p < 2 ^ 31 \<and> int (rp p) < buffersize p \<and> int (wp p) < buffersize p \<and>
     \<not> plock p \<and> (case pbuffer p of None \<Rightarrow> False | Some blk \<Rightarrow> nat (buffersize p) \<le> length blk)"

lemma spacefree_queue:
  assumes "pipe_ok p"
  shows "spacefree p = Some (int (pipe_capacity p - length (pipe_queue p)))"
    "length (pipe_queue p) \<le> pipe_capacity p"
proof -
  define n where "n = nat (buffersize p)"
  from assms have b: "buffersize p = int n" "0 < n" "rp p < n" "wp p < n" unfolding pipe_ok_def n_def by auto
  from assms obtain blk where blk: "pbuffer p = Some blk" "n \<le> length blk"
    by (auto simp: pipe_ok_def n_def split: option.splits)
  have l: "length (pipe_queue p) = (if rp p \<le> wp p then wp p - rp p else wp p + n - rp p)"
    using b blk by (simp add: pipe_queue_def length_ring)
  show "length (pipe_queue p) \<le> pipe_capacity p"
    using b unfolding l pipe_capacity_def by auto
  show "spacefree p = Some (int (pipe_capacity p - length (pipe_queue p)))"
  proof (cases "rp p = wp p")
    case True
    then show ?thesis using b l by (simp add: spacefree_def pipe_capacity_def)
  next
    case False
    have "c_rem (int (rp p) + buffersize p - int (wp p)) (buffersize p) = Some (int ((rp p + n - wp p) mod n))"
      using b by (simp add: c_rem_pos zmod_int of_nat_diff)
    moreover have "(rp p + n - wp p) mod n = (if rp p \<le> wp p then rp p + n - wp p else rp p - wp p)"
      using b False by (auto simp: mod_if)
    ultimately show ?thesis
      using b l False by (auto simp: spacefree_def pipe_capacity_def)
  qed
qed

section \<open>Reading and writing as operations of a queue\<close>

text \<open>What a write that does not wait accepts, and a read that does not wait delivers.\<close>

definition pipe_put :: "byte list \<Rightarrow> scull_pipe \<Rightarrow> (nat \<times> scull_pipe) option" where
  "pipe_put bs p =
     (case scull_p_write False True [] 0 bs p of
        Some (Inr n, p') \<Rightarrow> Some (nat n, p')
      | Some (Inl EAGAIN, p') \<Rightarrow> Some (0, p') | _ \<Rightarrow> None)"

definition pipe_get :: "nat \<Rightarrow> scull_pipe \<Rightarrow> (byte list \<times> scull_pipe) option" where
  "pipe_get k p =
     (case scull_p_read False True [] 0 (int k) p of
        Some (Inr n, data, p') \<Rightarrow> Some (data, p')
      | Some (Inl EAGAIN, data, p') \<Rightarrow> Some (data, p') | _ \<Rightarrow> None)"

lemma relock [simp]: "\<not> plock p \<Longrightarrow> p\<lparr>plock := False\<rparr> = p"
  by (cases p) simp

lemma count_lock [simp]:
  "write_count (p\<lparr>plock := b\<rparr>) = write_count p" "read_count (p\<lparr>plock := b\<rparr>) = read_count p"
  by (simp_all add: write_count_def read_count_def fun_eq_iff Let_def)

lemma spacefree_lock [simp]: "spacefree (p\<lparr>plock := b\<rparr>) = spacefree p"
  by (simp add: spacefree_def)

text \<open>A write that finds room: how much it accepts, and the pipe it leaves.\<close>

lemma scull_p_write_room:
  assumes ok: "pipe_ok p" and room: "length (pipe_queue p) < pipe_capacity p" and nc: "nc \<le> c"
    and c: "c = min (min (length bs) (pipe_capacity p - length (pipe_queue p))) (if rp p \<le> wp p then nat (buffersize p) - wp p else length bs)"
  shows "\<exists>p'. scull_p_write False nonblock ws nc bs p = Some (if nc = 0 then Inr (int c) else Inl EFAULT, p') \<and>
    pipe_ok p' \<and> pipe_capacity p' = pipe_capacity p \<and> pipe_queue p' = pipe_queue p @ (if nc = 0 then take c bs else []) \<and>
    nreaders p' = nreaders p \<and> nwriters p' = nwriters p"
proof -
  define n where "n = nat (buffersize p)"
  from ok have b: "buffersize p = int n" "0 < n" "n < 2 ^ 31" "rp p < n" "wp p < n" "\<not> plock p"
    unfolding pipe_ok_def n_def by auto
  from ok obtain blk where blk: "pbuffer p = Some blk" "n \<le> length blk"
    by (auto simp: pipe_ok_def n_def split: option.splits)
  note sf = spacefree_queue [OF ok]
  have q: "pipe_queue p = ring n blk (rp p) (wp p)" using blk b by (simp add: pipe_queue_def)
  have ql: "length (pipe_queue p) = (if rp p \<le> wp p then wp p - rp p else wp p + n - rp p)"
    using b blk by (simp add: q length_ring)
  have space: "0 < pipe_capacity p - length (pipe_queue p)" "pipe_capacity p - length (pipe_queue p) < 2 ^ 31"
    using room b by (auto simp: pipe_capacity_def)
  have wait: "scull_getwritespace nonblock ws (p\<lparr>plock := True\<rparr>) = Some (None, p\<lparr>plock := True\<rparr>)"
    using space(1) by (cases ws) (auto simp: scull_getwritespace_def sf(1))
  have cnt: "write_count p (int (pipe_capacity p - length (pipe_queue p))) (int (length bs)) = int c"
  proof (cases "rp p \<le> wp p")
    case True
    have "u64 (buffersize p - int (wp p)) = int (n - wp p)" using b by (simp add: of_nat_diff)
    with True space(2) show ?thesis unfolding c n_def [symmetric] by (simp add: write_count_def of_nat_min)
  next
    case False
    then have "pipe_capacity p - length (pipe_queue p) = rp p - wp p - 1"
      using b unfolding ql pipe_capacity_def by auto
    with False have "int (rp p) - int (wp p) - 1 = int (pipe_capacity p - length (pipe_queue p))" by simp
    with False space(2) show ?thesis unfolding c by (simp add: write_count_def of_nat_min)
  qed
  have cb: "c \<le> length bs" "c \<le> n - 1 - length (pipe_queue p)" "wp p + c \<le> n"
    using b ql unfolding c n_def [symmetric] pipe_capacity_def by (auto simp: min_def split: if_splits)
  define src where "src = user_bytes (take c bs) nc"
  have ls: "length src = c" using cb(1) by (simp add: src_def)
  define blk' where "blk' = take (wp p) blk @ src @ drop (wp p + c) blk"
  have mw: "mem_write blk (wp p) src = Some blk'"
    using ls cb blk b by (simp add: mem_write_def blk'_def)
  have lb: "length blk' = length blk" using mw by (rule mem_write_length)
  let ?w = "if wp p + c = n then 0 else wp p + c"
  have ev: "scull_p_write False nonblock ws nc bs p =
    Some (if nc = 0 then (Inr (int c), p\<lparr>pbuffer := Some blk', wp := ?w\<rparr>) else (Inl EFAULT, p\<lparr>pbuffer := Some blk'\<rparr>))"
  proof -
    have "int (wp p + c) = buffersize p \<longleftrightarrow> wp p + c = n" using b(1) by linarith
    moreover have "user_bytes (take (nat (int c)) bs) nc = src" by (simp add: src_def)
    moreover have "p\<lparr>pbuffer := Some blk', plock := False\<rparr> = p\<lparr>pbuffer := Some blk'\<rparr>"
      "p\<lparr>pbuffer := Some blk', plock := False, wp := w\<rparr> = p\<lparr>pbuffer := Some blk', wp := w\<rparr>" for w
      using b(6) by (cases p, simp)+
    ultimately show ?thesis
      using b(6) wait sf(1) cnt blk(1) mw unfolding scull_p_write_def pipe_lock_def pipe_unlock_def
      by (cases "nc = 0"; cases "wp p + c = n") (simp_all add: Let_def)
  qed
  show ?thesis
  proof (cases "nc = 0")
    case True
    have "src = take c bs" using True by (simp add: src_def)
    then have "ring n blk' (rp p) ?w = pipe_queue p @ take c bs"
      using ring_put [OF b(4,5) blk(2), of src] ls cb q unfolding blk'_def by (simp only: ls cb(2,3) q)
    moreover have "?w < n" using cb(3) b by auto
    ultimately show ?thesis
      using True ev ok b blk lb by (auto simp: pipe_ok_def pipe_capacity_def pipe_queue_def)
  next
    case False
    have "length src \<le> n - 1 - length (ring n blk (rp p) (wp p))" "wp p + length src \<le> n"
      using ls cb q by simp_all
    have same: "take k (drop (rp p) blk') = take k (drop (rp p) blk)" if "rp p \<le> wp p" "rp p + k \<le> wp p" for k
      using that blk b unfolding blk'_def by (simp add: drop_take)
    have "ring n blk' (rp p) (wp p) = ring n blk (rp p) (wp p)"
    proof (cases "rp p \<le> wp p")
      case True
      then show ?thesis using same [of "wp p - rp p"] by (simp add: ring_def)
    next
      case False
      then have "wp p + c \<le> rp p" using cb(2) b ql by auto
      then show ?thesis using False blk b ls unfolding blk'_def
        by (simp add: ring_def drop_take min_def)
    qed
    then show ?thesis
      using False ev ok b blk lb q by (auto simp: pipe_ok_def pipe_capacity_def pipe_queue_def)
  qed
qed

text \<open>A write that finds the pipe full and does not wait.\<close>

lemma scull_p_write_full:
  assumes ok: "pipe_ok p" and full: "length (pipe_queue p) = pipe_capacity p"
  shows "scull_p_write False True ws nc bs p = Some (Inl EAGAIN, p)"
proof -
  have "\<not> plock p" using ok by (simp add: pipe_ok_def)
  then show ?thesis
    using spacefree_queue [OF ok] full
    by (cases ws) (auto simp: scull_p_write_def pipe_lock_def scull_getwritespace_def pipe_unlock_def)
qed

text \<open>A read that finds bytes.\<close>

lemma scull_p_read_data:
  assumes ok: "pipe_ok p" and some: "pipe_queue p \<noteq> []"
    and c: "c = min k (if rp p < wp p then wp p - rp p else nat (buffersize p) - rp p)"
  shows "\<exists>p'. scull_p_read False nonblock ws nc (int k) p =
      Some (if nc = 0 then (Inr (int c), take c (pipe_queue p), p') else (Inl EFAULT, take (c - nc) (pipe_queue p), p)) \<and>
    pipe_ok p' \<and> pipe_capacity p' = pipe_capacity p \<and> pipe_queue p = take c (pipe_queue p) @ pipe_queue p' \<and>
    c \<le> length (pipe_queue p) \<and> nreaders p' = nreaders p \<and> nwriters p' = nwriters p"
proof -
  define n where "n = nat (buffersize p)"
  from ok have b: "buffersize p = int n" "0 < n" "n < 2 ^ 31" "rp p < n" "wp p < n" "\<not> plock p"
    unfolding pipe_ok_def n_def by auto
  from ok obtain blk where blk: "pbuffer p = Some blk" "n \<le> length blk"
    by (auto simp: pipe_ok_def n_def split: option.splits)
  have q: "pipe_queue p = ring n blk (rp p) (wp p)" using blk b by (simp add: pipe_queue_def)
  have ne: "rp p \<noteq> wp p" using some q by (auto simp: ring_def)
  have cb: "c \<le> (if rp p < wp p then wp p - rp p else n - rp p)" by (simp add: c n_def)
  have cnt: "read_count p (int k) = int c"
    using b unfolding c n_def [symmetric] by (auto simp: read_count_def min_def of_nat_diff)
  let ?data = "take c (drop (rp p) blk)"
  have le: "rp p + c \<le> length blk" using cb b blk by (auto split: if_splits)
  have data: "mem_read blk (rp p) c = Some ?data" "length ?data = c"
    using le by (simp_all add: mem_read_def)
  note g = ring_get [OF b(4,5) blk(2) cb ne]
  have tq: "take c (pipe_queue p) = ?data" using g data(2) unfolding q by (metis append_eq_conv_conj)
  have tq2: "take (c - nc) (pipe_queue p) = take (c - nc) ?data"
    using tq by (metis diff_le_self min_absorb2 min.commute take_take)
  let ?p = "p\<lparr>rp := if rp p + c = n then 0 else rp p + c\<rparr>"
  have "pipe_wait (\<lambda>p. Some (rp p = wp p)) nonblock ws (p\<lparr>plock := True\<rparr>) = Some (None, p\<lparr>plock := True\<rparr>)"
    using ne by (cases ws) simp_all
  then have ev: "scull_p_read False nonblock ws nc (int k) p =
      Some (if nc = 0 then (Inr (int c), ?data, ?p) else (Inl EFAULT, take (c - nc) ?data, p))"
    using b blk cnt data
    by (auto simp: scull_p_read_def pipe_lock_def pipe_unlock_def Let_def cong: if_cong)
  have "pipe_ok ?p" using ok b blk cb by (auto simp: pipe_ok_def split: if_splits)
  moreover have "pipe_queue p = take c (pipe_queue p) @ pipe_queue ?p"
    using g unfolding tq by (simp add: pipe_queue_def blk b)
  moreover have "c \<le> length (pipe_queue p)" using tq data(2) by (metis length_take min.cobounded1)
  moreover have "pipe_capacity ?p = pipe_capacity p" by (simp add: pipe_capacity_def)
  ultimately show ?thesis unfolding tq tq2 using ev by (intro exI [of _ ?p]) (simp add: tq)
qed

section \<open>The pipe as a queue\<close>

lemma pipe_put_room:
  assumes ok: "pipe_ok p" and room: "length (pipe_queue p) < pipe_capacity p"
  shows "\<exists>n p'. pipe_put bs p = Some (n, p') \<and> pipe_ok p' \<and> n \<le> length bs \<and>
    pipe_queue p' = pipe_queue p @ take n bs \<and> pipe_capacity p' = pipe_capacity p \<and> (bs \<noteq> [] \<longrightarrow> 0 < n)"
proof -
  define c where
    "c = min (min (length bs) (pipe_capacity p - length (pipe_queue p))) (if rp p \<le> wp p then nat (buffersize p) - wp p else length bs)"
  from scull_p_write_room [OF ok room _ c_def, of 0 True "[]"] obtain p' where
    w: "scull_p_write False True [] 0 bs p = Some (Inr (int c), p')" "pipe_ok p'" "pipe_capacity p' = pipe_capacity p"
      "pipe_queue p' = pipe_queue p @ take c bs" by auto
  have "wp p < nat (buffersize p)" using ok by (auto simp: pipe_ok_def)
  then have "0 < c" if "bs \<noteq> []" using room that by (auto simp: c_def)
  moreover have "c \<le> length bs" by (simp add: c_def)
  moreover have "pipe_put bs p = Some (c, p')" using w(1) by (simp add: pipe_put_def)
  ultimately show ?thesis using w by blast
qed

lemma pipe_put_full:
  "pipe_ok p \<Longrightarrow> length (pipe_queue p) = pipe_capacity p \<Longrightarrow> pipe_put bs p = Some (0, p)"
  by (simp add: pipe_put_def scull_p_write_full)

lemma pipe_get_data:
  assumes ok: "pipe_ok p" and some: "pipe_queue p \<noteq> []"
  shows "\<exists>bs p'. pipe_get k p = Some (bs, p') \<and> pipe_ok p' \<and> length bs \<le> k \<and> pipe_queue p = bs @ pipe_queue p' \<and>
    pipe_capacity p' = pipe_capacity p \<and> (0 < k \<longrightarrow> bs \<noteq> [])"
proof -
  define c where "c = min k (if rp p < wp p then wp p - rp p else nat (buffersize p) - rp p)"
  from scull_p_read_data [OF ok some c_def, of True "[]" 0] obtain p' where
    r: "scull_p_read False True [] 0 (int k) p = Some (Inr (int c), take c (pipe_queue p), p')" "pipe_ok p'"
      "pipe_capacity p' = pipe_capacity p" "pipe_queue p = take c (pipe_queue p) @ pipe_queue p'"
      "c \<le> length (pipe_queue p)" by auto
  have "rp p < nat (buffersize p)" using ok by (auto simp: pipe_ok_def)
  then have "0 < c" if "0 < k" using that by (auto simp: c_def)
  moreover have "c \<le> k" by (simp add: c_def)
  moreover have "pipe_get k p = Some (take c (pipe_queue p), p')" using r(1) by (simp add: pipe_get_def)
  ultimately show ?thesis using r(2-5) some by (intro exI [of _ "take c (pipe_queue p)"] exI [of _ p']) auto
qed

lemma pipe_empty: "pipe_ok p \<Longrightarrow> pipe_queue p = [] \<longleftrightarrow> rp p = wp p"
  by (auto simp: pipe_ok_def pipe_queue_def ring_def split: option.splits)

lemma pipe_get_empty: "pipe_ok p \<Longrightarrow> pipe_queue p = [] \<Longrightarrow> pipe_get k p = Some ([], p)"
  using pipe_empty [of p]
  by (simp add: pipe_get_def scull_p_read_def pipe_lock_def pipe_unlock_def pipe_ok_def)

lemma pipe_put_some:
  assumes "pipe_ok p"
  shows "\<exists>n p'. pipe_put bs p = Some (n, p') \<and> pipe_ok p' \<and> n \<le> length bs \<and>
    pipe_queue p' = pipe_queue p @ take n bs \<and> pipe_capacity p' = pipe_capacity p \<and>
    (bs \<noteq> [] \<longrightarrow> length (pipe_queue p) < pipe_capacity p \<longrightarrow> 0 < n)"
proof (cases "length (pipe_queue p) < pipe_capacity p")
  case True
  from pipe_put_room [OF assms this, of bs] show ?thesis by blast
next
  case False
  with spacefree_queue(2) [OF assms] have "length (pipe_queue p) = pipe_capacity p" by simp
  from pipe_put_full [OF assms this, of bs] assms False show ?thesis by auto
qed

lemma pipe_get_some:
  assumes "pipe_ok p"
  shows "\<exists>bs p'. pipe_get k p = Some (bs, p') \<and> pipe_ok p' \<and> length bs \<le> k \<and> pipe_queue p = bs @ pipe_queue p' \<and>
    pipe_capacity p' = pipe_capacity p \<and> (0 < k \<longrightarrow> pipe_queue p \<noteq> [] \<longrightarrow> bs \<noteq> [])"
proof (cases "pipe_queue p = []")
  case True
  with pipe_get_empty [OF assms True, of k] assms show ?thesis by auto
next
  case False
  from pipe_get_data [OF assms this, of k] show ?thesis by blast
qed

interpretation scullpipe: byte_fifo pipe_ok pipe_queue pipe_capacity pipe_put pipe_get
proof unfold_locales
  fix p :: scull_pipe and bs n p'
  assume "pipe_ok p" "pipe_put bs p = Some (n, p')"
  with pipe_put_some [of p bs] show "pipe_ok p' \<and> n \<le> length bs \<and> pipe_queue p' = pipe_queue p @ take n bs \<and>
    pipe_capacity p' = pipe_capacity p" by auto
next
  fix p :: scull_pipe and k bs p'
  assume "pipe_ok p" "pipe_get k p = Some (bs, p')"
  with pipe_get_some [of p k] show "pipe_ok p' \<and> length bs \<le> k \<and> pipe_queue p = bs @ pipe_queue p' \<and>
    pipe_capacity p' = pipe_capacity p" by auto
next
  fix p :: scull_pipe and bs
  assume "pipe_ok p"
  from pipe_put_some [OF this, of bs] show "\<exists>n p'. pipe_put bs p = Some (n, p') \<and>
    (bs \<noteq> [] \<longrightarrow> length (pipe_queue p) < pipe_capacity p \<longrightarrow> 0 < n)" by blast
next
  fix p :: scull_pipe and k :: nat
  assume "pipe_ok p" "0 < k"
  with pipe_get_some [OF this(1), of k] show "\<exists>bs p'. pipe_get k p = Some (bs, p') \<and> (pipe_queue p \<noteq> [] \<longrightarrow> bs \<noteq> [])"
    by blast
qed

section \<open>Properties\<close>

text \<open>The state of a pipe after its first open, with a buffer of \<open>n\<close> bytes.\<close>

lemma scull_p_open_state:
  assumes "pbuffer p = Some blk" "\<not> plock p"
  shows "scull_p_open False mem sz rd wr p = Some (Inr 0, p\<lparr>buffersize := sz, rp := 0, wp := 0,
    nreaders := nreaders p + (if rd then 1 else 0), nwriters := nwriters p + (if wr then 1 else 0)\<rparr>)"
  using assms by (cases p) (simp add: scull_p_open_def pipe_lock_def pipe_unlock_def Let_def)

definition fresh_pipe :: "nat \<Rightarrow> scull_pipe" where
  "fresh_pipe n = zero_pipe\<lparr>pbuffer := Some (replicate n 0), buffersize := int n, nreaders := 1, nwriters := 1\<rparr>"

lemma fresh_pipe_ok: "0 < n \<Longrightarrow> n < 2 ^ 31 \<Longrightarrow> pipe_ok (fresh_pipe n)"
  and fresh_pipe_queue [simp]: "pipe_queue (fresh_pipe n) = []"
  and fresh_pipe_capacity [simp]: "pipe_capacity (fresh_pipe n) = n - 1"
  by (simp_all add: fresh_pipe_def zero_pipe_def pipe_ok_def pipe_queue_def ring_def pipe_capacity_def)

text \<open>
  C11: A pipe is first in, first out: over any sequence of non-blocking writes and reads, of any
  lengths and in any order, the bytes that were queued followed by the bytes that the writes
  accepted are the bytes that the reads delivered followed by the bytes still queued; and the
  pipe stays in order.
\<close>

theorem pipe_fifo:
  assumes "pipe_ok p" "fifo_run pipe_put pipe_get ops p = Some (accepted, delivered, p')"
  shows "pipe_ok p' \<and> pipe_queue p @ accepted = delivered @ pipe_queue p'"
  using scullpipe.run_fifo [OF assms] .

lemma pipe_fifo_witness:
  "\<exists>p'. fifo_run pipe_put pipe_get [Put [1, 2, 3, 4], Get 2, Put [5, 6], Get 9] (fresh_pipe 4) =
      Some ([1, 2, 3, 5], [1, 2, 3, 5], p') \<and> pipe_queue p' = []"
proof -
  have "case fifo_run pipe_put pipe_get [Put [1, 2, 3, 4], Get 2, Put [5, 6], Get 9] (fresh_pipe 4) of
      None \<Rightarrow> False | Some (a, d, p') \<Rightarrow> a = [1, 2, 3, 5] \<and> d = [1, 2, 3, 5]"
    by code_simp
  then obtain p' where p: "fifo_run pipe_put pipe_get [Put [1, 2, 3, 4], Get 2, Put [5, 6], Get 9] (fresh_pipe 4) =
      Some ([1, 2, 3, 5], [1, 2, 3, 5], p')"
    by (auto split: option.splits)
  have "pipe_ok (fresh_pipe 4)" by (simp add: fresh_pipe_ok)
  from pipe_fifo [OF this p] p show ?thesis by simp
qed

text \<open>
  A writer and a reader that take turns transfer everything: with room for at least one byte
  and a reader that asks for at least one byte each time, the transfer ends, the reader has the
  queued bytes and all bytes of the writer in order, and the pipe is empty.
\<close>

theorem pipe_pump_all:
  assumes "pipe_ok p" "0 < pipe_capacity p" "0 < k" "2 * length bs + length (pipe_queue p) < fuel"
  shows "\<exists>p'. fifo_pump pipe_put pipe_get k fuel bs p = Some (pipe_queue p @ bs, p') \<and> pipe_ok p' \<and> pipe_queue p' = []"
  using scullpipe.pump_all [OF assms] .

lemma pipe_pump_all_witness:
  "\<exists>p'. fifo_pump pipe_put pipe_get 3 101 (replicate 50 7) (fresh_pipe 8) = Some (replicate 50 7, p') \<and> pipe_queue p' = []"
  using pipe_pump_all [OF fresh_pipe_ok [of 8], of 3 "replicate 50 7" 101] by auto

text \<open>
  Every open of a pipe that is in use discards the bytes that are queued in it, although
  another process may be in the middle of a transfer: the buffer is the old one and the queue is
  empty.
\<close>

theorem pipe_open_discards:
  assumes "pipe_ok p"
  shows "\<exists>p'. scull_p_open False mem sz rd wr p = Some (Inr 0, p') \<and> pbuffer p' = pbuffer p \<and> pipe_queue p' = []"
proof -
  from assms obtain blk where "pbuffer p = Some blk" "\<not> plock p" by (auto simp: pipe_ok_def split: option.splits)
  from scull_p_open_state [OF this] this show ?thesis by (simp add: pipe_queue_def ring_def)
qed

lemma pipe_open_discards_witness:
  "\<exists>p p'. pipe_put [1, 2, 3] (fresh_pipe 8) = Some (3, p) \<and> pipe_queue p = [1, 2, 3] \<and>
    scull_p_open False (\<lambda>n. None) 8 True False p = Some (Inr 0, p') \<and> pipe_queue p' = []"
proof -
  have c: "pipe_ok (fresh_pipe 8)" by (simp add: fresh_pipe_ok)
  have "case pipe_put [1, 2, 3] (fresh_pipe 8) of None \<Rightarrow> False | Some (n, p) \<Rightarrow> n = 3 \<and> pipe_queue p = [1, 2, 3]"
    by code_simp
  then obtain p where p: "pipe_put [1, 2, 3] (fresh_pipe 8) = Some (3, p)" "pipe_ok p" "pipe_queue p = [1, 2, 3]"
    using pipe_put_some [OF c, of "[1, 2, 3]"] by (auto split: option.splits)
  from pipe_open_discards [OF p(2), of "\<lambda>n. None" 8 True False] p show ?thesis by blast
qed

text \<open>
  An open takes over the current size parameter without a new buffer.  When the parameter
  was raised while the pipe was open, a write that the larger size admits runs past the end of
  the buffer.
\<close>

theorem pipe_resize_overflows:
  assumes "pbuffer p = Some blk" "\<not> plock p" "int (length blk) + 1 < sz" "sz < 2 ^ 31" "length blk < length bs"
  shows "\<exists>p'. scull_p_open False mem sz rd wr p = Some (Inr 0, p') \<and> scull_p_write False nonblock ws 0 bs p' = None"
proof -
  define p' where "p' = p\<lparr>buffersize := sz, rp := 0, wp := 0,
    nreaders := nreaders p + (if rd then 1 else 0), nwriters := nwriters p + (if wr then 1 else 0)\<rparr>"
  have sf: "spacefree p' = Some (sz - 1)" by (simp add: spacefree_def p'_def)
  have wait: "scull_getwritespace nonblock ws (p'\<lparr>plock := True\<rparr>) = Some (None, p'\<lparr>plock := True\<rparr>)"
    using sf assms(3) by (cases ws) (auto simp: scull_getwritespace_def)
  have c: "write_count p' (sz - 1) (int (length bs)) = min (int (length bs)) (sz - 1)"
    using assms(3,4) by (simp add: write_count_def p'_def min_def)
  have "length blk < nat (min (int (length bs)) (sz - 1))" using assms(3,5) by linarith
  then have w: "mem_write blk 0 (take (nat (min (int (length bs)) (sz - 1))) bs) = None"
    using assms(5) by (simp add: mem_write_def)
  have "\<not> plock p'" "pbuffer p' = Some blk" "wp p' = 0" using assms(1,2) by (simp_all add: p'_def)
  then have "scull_p_write False nonblock ws 0 bs p' = None"
    using wait sf c w by (simp add: scull_p_write_def pipe_lock_def Let_def)
  with scull_p_open_state [OF assms(1,2), of mem sz rd wr] show ?thesis unfolding p'_def by blast
qed

lemma pipe_resize_overflows_witness:
  "\<exists>p'. scull_p_open False (\<lambda>n. None) 16 False True (fresh_pipe 4) = Some (Inr 0, p') \<and>
    scull_p_write False True [] 0 [1, 2, 3, 4, 5] p' = None"
  using pipe_resize_overflows [of "fresh_pipe 4" "replicate 4 0" 16 "[1, 2, 3, 4, 5]" "\<lambda>n. None" False True True "[]"]
  by (simp add: fresh_pipe_def zero_pipe_def)

lemma pipe_ready:
  assumes "pipe_ok p"
  shows "scull_p_poll p = Some ((pipe_queue p \<noteq> [], length (pipe_queue p) < pipe_capacity p), p)"
proof -
  have "\<not> plock p" using assms by (simp add: pipe_ok_def)
  moreover have "int (pipe_capacity p - length (pipe_queue p)) \<noteq> 0 \<longleftrightarrow> length (pipe_queue p) < pipe_capacity p"
    using spacefree_queue(2)[OF assms] by linarith
  ultimately show ?thesis
    using spacefree_queue(1)[OF assms] pipe_empty[OF assms] by (simp add: scull_p_poll_def pipe_lock_def pipe_unlock_def)
qed

lemma scull_p_read_empty:
  assumes "pipe_ok p" "pipe_queue p = []"
  shows "scull_p_read False nonblock [] nc k p = (if nonblock then Some (Inl EAGAIN, [], p) else None)"
  using assms pipe_empty[of p] by (simp add: scull_p_read_def pipe_lock_def pipe_unlock_def pipe_ok_def)

lemma scull_p_write_blocks:
  assumes "pipe_ok p" "length (pipe_queue p) = pipe_capacity p"
  shows "scull_p_write False False [] nc bs p = None"
  using spacefree_queue(1)[OF assms(1)] assms
  by (simp add: scull_p_write_def pipe_lock_def scull_getwritespace_def pipe_ok_def)

text \<open>
  C13: What \<open>poll\<close> reports is what happens: a pipe is reported as readable, or as writable, exactly
  when a read, or a write, of some bytes would return without a sleep; then it transfers at least
  one byte, and otherwise a file that must not block gets EAGAIN and the pipe stays as it is.
\<close>

theorem poll_truthful:
  assumes "pipe_ok p" "0 < k" "ub \<noteq> []"
  shows "\<exists>r w. scull_p_poll p = Some ((r, w), p) \<and>
      (scull_p_read False False [] 0 (int k) p \<noteq> None \<longleftrightarrow> r) \<and>
      (scull_p_write False False [] 0 ub p \<noteq> None \<longleftrightarrow> w) \<and>
      (if r then \<exists>n data p'. scull_p_read False True [] 0 (int k) p = Some (Inr n, data, p') \<and> 0 < n \<and> int (length data) = n
       else scull_p_read False True [] 0 (int k) p = Some (Inl EAGAIN, [], p)) \<and>
      (if w then \<exists>n p'. scull_p_write False True [] 0 ub p = Some (Inr n, p') \<and> 0 < n
       else scull_p_write False True [] 0 ub p = Some (Inl EAGAIN, p))"
proof -
  let ?r = "pipe_queue p \<noteq> []" and ?w = "length (pipe_queue p) < pipe_capacity p"
  have bounds: "rp p < nat (buffersize p)" "wp p < nat (buffersize p)" using assms(1) by (auto simp: pipe_ok_def)
  define c where "c = min k (if rp p < wp p then wp p - rp p else nat (buffersize p) - rp p)"
  have c: "0 < c" using assms(2) bounds by (auto simp: c_def)
  have r: "\<exists>data p'. scull_p_read False nb [] 0 (int k) p = Some (Inr (int c), data, p') \<and> length data = c" if ?r for nb
    using scull_p_read_data[OF assms(1) that c_def, of nb "[]" 0] by auto
  define e where
    "e = min (min (length ub) (pipe_capacity p - length (pipe_queue p))) (if rp p \<le> wp p then nat (buffersize p) - wp p else length ub)"
  have w: "0 < e \<and> (\<exists>p'. scull_p_write False nb [] 0 ub p = Some (Inr (int e), p'))" if ?w for nb
    using scull_p_write_room[OF assms(1) that _ e_def, of 0 nb "[]"] that assms(3) bounds by (auto simp: e_def)
  have full: "length (pipe_queue p) = pipe_capacity p" if "\<not> ?w"
    using that spacefree_queue(2)[OF assms(1)] by simp
  have "(scull_p_read False False [] 0 (int k) p \<noteq> None) = ?r"
    using r[of False] scull_p_read_empty[OF assms(1)] by (cases ?r) auto
  moreover have "(scull_p_write False False [] 0 ub p \<noteq> None) = ?w"
    using w[of False] scull_p_write_blocks[OF assms(1) full] by (cases ?w) auto
  moreover have "if ?r then \<exists>n data p'. scull_p_read False True [] 0 (int k) p = Some (Inr n, data, p') \<and> 0 < n \<and> int (length data) = n
      else scull_p_read False True [] 0 (int k) p = Some (Inl EAGAIN, [], p)"
    using r[of True] c scull_p_read_empty[OF assms(1)] by (cases ?r) auto
  moreover have "if ?w then \<exists>n p'. scull_p_write False True [] 0 ub p = Some (Inr n, p') \<and> 0 < n
      else scull_p_write False True [] 0 ub p = Some (Inl EAGAIN, p)"
    using w[of True] scull_p_write_full[OF assms(1) full] by (cases ?w) auto
  ultimately show ?thesis using pipe_ready[OF assms(1)] by blast
qed

lemma poll_truthful_witness:
  "pipe_ok (fresh_pipe 4) \<and>
   (\<exists>r w. scull_p_poll (fresh_pipe 4) = Some ((r, w), fresh_pipe 4) \<and>
      (scull_p_read False False [] 0 (int 2) (fresh_pipe 4) \<noteq> None \<longleftrightarrow> r) \<and>
      (scull_p_write False False [] 0 [7, 8] (fresh_pipe 4) \<noteq> None \<longleftrightarrow> w))"
proof -
  have "pipe_ok (fresh_pipe 4)" by (simp add: pipe_ok_def fresh_pipe_def zero_pipe_def)
  then show ?thesis using poll_truthful[of "fresh_pipe 4" 2 "[7, 8]"] by auto
qed

end
