(* ===== verification/Pipe_Tasks.thy ===== *)
theory Pipe_Tasks
  imports Scull_Pipe
begin

text \<open>
  Tasks that use a pipe of \<open>scull/pipe.c\<close> at the same time, with reads and writes that sleep.  A call
  is cut where another task can come between: what it does while it holds the mutex is one step, as
  is the look at the condition after it has put itself on the wait queue, and the waking of the other
  side after the mutex was given back.
\<close>

section \<open>Tasks\<close>

text \<open>
  Where a task is: about to take the mutex; on the wait queue, about to look at the condition; asleep
  on the queue; with its bytes transferred, about to wake the other side.
\<close>

datatype pipe_phase = Run | Look | Asleep | Wake

text \<open>
  A reader wants a number of bytes and has got some; a writer has bytes to write.  Both call again
  until there is nothing left to do.
\<close>

datatype task = Reader nat "byte list" pipe_phase | Writer "byte list" pipe_phase

text \<open>The pipe and the tasks, and the bytes that were ever written and read, in order.\<close>

record pipe_sys =
  pipe :: scull_pipe
  tasks :: "task list"
  written :: "byte list"
  obtained :: "byte list"

fun wake_reader :: "task \<Rightarrow> task" where
  "wake_reader (Reader n got Asleep) = Reader n got Look"
| "wake_reader t = t"

fun wake_writer :: "task \<Rightarrow> task" where
  "wake_writer (Writer rest Asleep) = Writer rest Look"
| "wake_writer t = t"

text \<open>
  The step of task \<open>i\<close>, if it has one.  Under the mutex a call does what it does for a file that must
  not block, but for the way it waits.  A woken task looks at the condition again.
\<close>

definition set_task :: "nat \<Rightarrow> task \<Rightarrow> pipe_sys \<Rightarrow> pipe_sys" where
  "set_task i t s = s\<lparr>tasks := (tasks s)[i := t]\<rparr>"

definition reader_run :: "nat \<Rightarrow> nat \<Rightarrow> byte list \<Rightarrow> pipe_sys \<Rightarrow> pipe_sys option" where
  "reader_run i n got s =
     (if n = 0 then None
      else case scull_p_read False True [] 0 (int n) (pipe s) of
        Some (Inr k, data, p) \<Rightarrow>
          Some (set_task i (Reader (n - nat k) (got @ data) Wake) (s\<lparr>pipe := p, obtained := obtained s @ data\<rparr>))
      | Some (Inl EAGAIN, _, p) \<Rightarrow> Some (set_task i (Reader n got Look) (s\<lparr>pipe := p\<rparr>))
      | _ \<Rightarrow> None)"

definition writer_run :: "nat \<Rightarrow> byte list \<Rightarrow> pipe_sys \<Rightarrow> pipe_sys option" where
  "writer_run i rest s =
     (if rest = [] then None
      else case scull_p_write False True [] 0 rest (pipe s) of
        Some (Inr k, p) \<Rightarrow>
          Some (set_task i (Writer (drop (nat k) rest) Wake) (s\<lparr>pipe := p, written := written s @ take (nat k) rest\<rparr>))
      | Some (Inl EAGAIN, p) \<Rightarrow> Some (set_task i (Writer rest Look) (s\<lparr>pipe := p\<rparr>))
      | _ \<Rightarrow> None)"

definition task_step :: "nat \<Rightarrow> pipe_sys \<Rightarrow> pipe_sys option" where
  "task_step i s =
     (if length (tasks s) \<le> i then None
      else case tasks s ! i of
        Reader n got Run \<Rightarrow> reader_run i n got s
      | Reader n got Look \<Rightarrow>
          Some (set_task i (Reader n got (if rp (pipe s) \<noteq> wp (pipe s) then Run else Asleep)) s)
      | Reader n got Wake \<Rightarrow> Some (set_task i (Reader n got Run) (s\<lparr>tasks := map wake_writer (tasks s)\<rparr>))
      | Reader n got Asleep \<Rightarrow> None
      | Writer rest Run \<Rightarrow> writer_run i rest s
      | Writer rest Look \<Rightarrow>
          Some (set_task i (Writer rest (if spacefree (pipe s) = Some 0 then Asleep else Run)) s)
      | Writer rest Wake \<Rightarrow> Some (set_task i (Writer rest Run) (s\<lparr>tasks := map wake_reader (tasks s)\<rparr>))
      | Writer rest Asleep \<Rightarrow> None)"

inductive pipe_step :: "pipe_sys \<Rightarrow> pipe_sys \<Rightarrow> bool" where
  "task_step i s = Some s' \<Longrightarrow> pipe_step s s'"

inductive_cases pipe_stepE: "pipe_step s s'"

section \<open>What the critical sections do\<close>

abbreviation (input) qfull :: "scull_pipe \<Rightarrow> bool" where
  "qfull p \<equiv> length (pipe_queue p) = pipe_capacity p"

lemma read_section:
  assumes "pipe_ok p" "0 < n"
  shows "if pipe_queue p = [] then scull_p_read False True [] 0 (int n) p = Some (Inl EAGAIN, [], p)
    else \<exists>data p'. scull_p_read False True [] 0 (int n) p = Some (Inr (int (length data)), data, p') \<and>
      pipe_ok p' \<and> pipe_capacity p' = pipe_capacity p \<and> pipe_queue p = data @ pipe_queue p' \<and>
      data \<noteq> [] \<and> length data \<le> n"
proof (cases "pipe_queue p = []")
  case True
  then show ?thesis using scull_p_read_empty[OF assms(1)] by simp
next
  case False
  define c where "c = min n (if rp p < wp p then wp p - rp p else nat (buffersize p) - rp p)"
  have "rp p < nat (buffersize p)" using assms(1) by (auto simp: pipe_ok_def)
  then have c: "0 < c" "c \<le> n" using assms(2) by (auto simp: c_def)
  obtain p' where p': "scull_p_read False True [] 0 (int n) p = Some (Inr (int c), take c (pipe_queue p), p')"
    "pipe_ok p'" "pipe_capacity p' = pipe_capacity p" "pipe_queue p = take c (pipe_queue p) @ pipe_queue p'"
    "c \<le> length (pipe_queue p)"
    using scull_p_read_data[OF assms(1) False c_def, of True "[]" 0] by auto
  have l: "length (take c (pipe_queue p)) = c" using p'(5) by simp
  have "scull_p_read False True [] 0 (int n) p = Some (Inr (int (length (take c (pipe_queue p)))), take c (pipe_queue p), p')"
    using p'(1) unfolding l .
  moreover have "take c (pipe_queue p) \<noteq> []" using c(1) l by fastforce
  ultimately show ?thesis using p'(2-4) l c(2) False by auto
qed

lemma write_section:
  assumes "pipe_ok p" "rest \<noteq> []"
  shows "if qfull p then scull_p_write False True [] 0 rest p = Some (Inl EAGAIN, p)
    else \<exists>k p'. scull_p_write False True [] 0 rest p = Some (Inr (int k), p') \<and>
      pipe_ok p' \<and> pipe_capacity p' = pipe_capacity p \<and> pipe_queue p' = pipe_queue p @ take k rest \<and>
      0 < k \<and> k \<le> length rest"
proof (cases "qfull p")
  case True
  then show ?thesis using scull_p_write_full[OF assms(1)] by simp
next
  case False
  then have room: "length (pipe_queue p) < pipe_capacity p" using spacefree_queue(2)[OF assms(1)] by simp
  define c where
    "c = min (min (length rest) (pipe_capacity p - length (pipe_queue p))) (if rp p \<le> wp p then nat (buffersize p) - wp p else length rest)"
  have "wp p < nat (buffersize p)" using assms(1) by (auto simp: pipe_ok_def)
  then have "0 < c" "c \<le> length rest" using room assms(2) by (auto simp: c_def)
  then show ?thesis using scull_p_write_room[OF assms(1) room _ c_def, of 0 True "[]"] False by auto
qed

lemma space_full: "pipe_ok p \<Longrightarrow> spacefree p = Some 0 \<longleftrightarrow> qfull p"
  using spacefree_queue[of p] by auto

section \<open>The steps, one by one\<close>

fun want :: "task \<Rightarrow> nat" where
  "want (Reader n got ph) = n"
| "want (Writer rest ph) = 0"

fun left :: "task \<Rightarrow> nat" where
  "left (Reader n got ph) = 0"
| "left (Writer rest ph) = length rest"

abbreviation (input) amount :: "(task \<Rightarrow> nat) \<Rightarrow> pipe_sys \<Rightarrow> nat" where
  "amount f s \<equiv> sum_list (map f (tasks s))"

lemma wake_reader_keeps: "want (wake_reader t) = want t \<and> left (wake_reader t) = left t"
  by (induction t rule: wake_reader.induct) auto

lemma wake_writer_keeps: "want (wake_writer t) = want t \<and> left (wake_writer t) = left t"
  by (induction t rule: wake_writer.induct) auto

lemma wake_keeps_map [simp]:
  "map want (map wake_reader ts) = map want ts" "map left (map wake_reader ts) = map left ts"
  "map want (map wake_writer ts) = map want ts" "map left (map wake_writer ts) = map left ts"
  by (simp_all add: wake_reader_keeps wake_writer_keeps)

text \<open>
  A step changes one task, and may wake others: the six kinds of step, with the tasks before and after
  the one that takes it.
\<close>

inductive moves :: "pipe_sys \<Rightarrow> pipe_sys \<Rightarrow> bool" where
  get: "tasks s = xs @ Reader n got Run # ys \<Longrightarrow> data \<noteq> [] \<Longrightarrow> length data \<le> n \<Longrightarrow> pipe_ok p \<Longrightarrow>
    pipe_capacity p = pipe_capacity (pipe s) \<Longrightarrow> pipe_queue (pipe s) = data @ pipe_queue p \<Longrightarrow>
    moves s (s\<lparr>pipe := p, obtained := obtained s @ data, tasks := xs @ Reader (n - length data) (got @ data) Wake # ys\<rparr>)"
| empty: "tasks s = xs @ Reader n got Run # ys \<Longrightarrow> 0 < n \<Longrightarrow> pipe_queue (pipe s) = [] \<Longrightarrow>
    moves s (s\<lparr>tasks := xs @ Reader n got Look # ys\<rparr>)"
| look_reader: "tasks s = xs @ Reader n got Look # ys \<Longrightarrow>
    moves s (s\<lparr>tasks := xs @ Reader n got (if pipe_queue (pipe s) = [] then Asleep else Run) # ys\<rparr>)"
| wake_writers: "tasks s = xs @ Reader n got Wake # ys \<Longrightarrow>
    moves s (s\<lparr>tasks := map wake_writer xs @ Reader n got Run # map wake_writer ys\<rparr>)"
| put: "tasks s = xs @ Writer rest Run # ys \<Longrightarrow> 0 < k \<Longrightarrow> k \<le> length rest \<Longrightarrow> pipe_ok p \<Longrightarrow>
    pipe_capacity p = pipe_capacity (pipe s) \<Longrightarrow> pipe_queue p = pipe_queue (pipe s) @ take k rest \<Longrightarrow>
    moves s (s\<lparr>pipe := p, written := written s @ take k rest, tasks := xs @ Writer (drop k rest) Wake # ys\<rparr>)"
| full: "tasks s = xs @ Writer rest Run # ys \<Longrightarrow> rest \<noteq> [] \<Longrightarrow> qfull (pipe s) \<Longrightarrow>
    moves s (s\<lparr>tasks := xs @ Writer rest Look # ys\<rparr>)"
| look_writer: "tasks s = xs @ Writer rest Look # ys \<Longrightarrow>
    moves s (s\<lparr>tasks := xs @ Writer rest (if qfull (pipe s) then Asleep else Run) # ys\<rparr>)"
| wake_readers: "tasks s = xs @ Writer rest Wake # ys \<Longrightarrow>
    moves s (s\<lparr>tasks := map wake_reader xs @ Writer rest Run # map wake_reader ys\<rparr>)"

lemma set_task_at: "tasks s = xs @ t # ys \<Longrightarrow> set_task (length xs) t' s = s\<lparr>tasks := xs @ t' # ys\<rparr>"
  by (simp add: set_task_def)

lemma step_moves:
  assumes "pipe_ok (pipe s)" "task_step i s = Some s'"
  shows "moves s s'"
proof -
  have i: "i < length (tasks s)" using assms(2) by (auto simp: task_step_def split: if_splits)
  define xs t ys where "xs = take i (tasks s)" and "t = tasks s ! i" and "ys = drop (Suc i) (tasks s)"
  have ts: "tasks s = xs @ t # ys" using i by (simp add: xs_def t_def ys_def id_take_nth_drop)
  have ix: "i = length xs" using i by (simp add: xs_def)
  show ?thesis
  proof (cases t)
    case (Reader n got ph)
    note st = assms(2)[unfolded task_step_def, folded t_def, unfolded Reader task.case]
    show ?thesis
    proof (cases ph)
      case Run
      then have r: "reader_run i n got s = Some s'" using st i by (simp split: if_splits)
      then have n: "0 < n" by (auto simp: reader_run_def split: if_splits)
      show ?thesis
      proof (cases "pipe_queue (pipe s) = []")
        case True
        have "s' = set_task i (Reader n got Look) s"
          using r n read_section[OF assms(1) n] True by (auto simp: reader_run_def)
        then show ?thesis using ts Reader Run set_task_at[OF ts] ix empty[of s xs n got ys] n True by simp
      next
        case False
        then obtain data p where d: "scull_p_read False True [] 0 (int n) (pipe s) = Some (Inr (int (length data)), data, p)"
          "pipe_ok p" "pipe_capacity p = pipe_capacity (pipe s)" "pipe_queue (pipe s) = data @ pipe_queue p" "data \<noteq> []" "length data \<le> n"
          using read_section[OF assms(1) n] by auto
        have "s' = set_task i (Reader (n - length data) (got @ data) Wake) (s\<lparr>pipe := p, obtained := obtained s @ data\<rparr>)"
          using r n d(1) by (simp add: reader_run_def)
        then show ?thesis using ts Reader Run ix get[of s xs n got ys data p] d by (simp add: set_task_def)
      qed
    next
      case Look
      have "rp (pipe s) \<noteq> wp (pipe s) \<longleftrightarrow> pipe_queue (pipe s) \<noteq> []" using pipe_empty[OF assms(1)] by simp
      then have "s' = set_task i (Reader n got (if pipe_queue (pipe s) = [] then Asleep else Run)) s"
        using st i Look by auto
      then show ?thesis using ts Reader Look set_task_at[OF ts] ix look_reader[of s xs n got ys] by simp
    next
      case Wake
      then have "s' = set_task i (Reader n got Run) (s\<lparr>tasks := map wake_writer (tasks s)\<rparr>)" using st i by simp
      then show ?thesis using ts Reader Wake ix wake_writers[of s xs n got ys] by (simp add: set_task_def list_update_append)
    qed (use st i in simp)
  next
    case (Writer rest ph)
    note st = assms(2)[unfolded task_step_def, folded t_def, unfolded Writer task.case]
    show ?thesis
    proof (cases ph)
      case Run
      then have r: "writer_run i rest s = Some s'" using st i by (simp split: if_splits)
      then have n: "rest \<noteq> []" by (auto simp: writer_run_def split: if_splits)
      show ?thesis
      proof (cases "qfull (pipe s)")
        case True
        have "s' = set_task i (Writer rest Look) s"
          using r n write_section[OF assms(1) n] True by (auto simp: writer_run_def)
        then show ?thesis using ts Writer Run set_task_at[OF ts] ix full[of s xs rest ys] n True by simp
      next
        case False
        then obtain k p where d: "scull_p_write False True [] 0 rest (pipe s) = Some (Inr (int k), p)"
          "pipe_ok p" "pipe_capacity p = pipe_capacity (pipe s)" "pipe_queue p = pipe_queue (pipe s) @ take k rest" "0 < k" "k \<le> length rest"
          using write_section[OF assms(1) n] by auto
        have "s' = set_task i (Writer (drop k rest) Wake) (s\<lparr>pipe := p, written := written s @ take k rest\<rparr>)"
          using r n d(1) by (simp add: writer_run_def)
        then show ?thesis using ts Writer Run ix put[of s xs rest ys k p] d by (simp add: set_task_def)
      qed
    next
      case Look
      then have "s' = set_task i (Writer rest (if qfull (pipe s) then Asleep else Run)) s"
        using st i space_full[OF assms(1)] by auto
      then show ?thesis using ts Writer Look set_task_at[OF ts] ix look_writer[of s xs rest ys] by simp
    next
      case Wake
      then have "s' = set_task i (Writer rest Run) (s\<lparr>tasks := map wake_reader (tasks s)\<rparr>)" using st i by simp
      then show ?thesis using ts Writer Wake ix wake_readers[of s xs rest ys] by (simp add: set_task_def list_update_append)
    qed (use st i in simp)
  qed
qed

section \<open>Invariant\<close>

fun waiting :: "task \<Rightarrow> bool" where
  "waiting (Reader n got ph) \<longleftrightarrow> ph = Look \<or> ph = Asleep"
| "waiting (Writer rest ph) \<longleftrightarrow> ph = Look \<or> ph = Asleep"

definition pipe_sys_inv :: "pipe_sys \<Rightarrow> bool" where
  "pipe_sys_inv s \<longleftrightarrow> pipe_ok (pipe s) \<and> 0 < pipe_capacity (pipe s) \<and>
     written s = obtained s @ pipe_queue (pipe s) \<and>
     (\<forall>t \<in> set (tasks s). waiting t \<longrightarrow> 0 < want t + left t) \<and>
     ((\<exists>n got. Reader n got Asleep \<in> set (tasks s)) \<longrightarrow>
       pipe_queue (pipe s) = [] \<or> (\<exists>rest. Writer rest Wake \<in> set (tasks s))) \<and>
     ((\<exists>rest. Writer rest Asleep \<in> set (tasks s)) \<longrightarrow>
       qfull (pipe s) \<or> (\<exists>n got. Reader n got Wake \<in> set (tasks s)))"

text \<open>Waking changes who sleeps, and nothing else.\<close>

lemma wake_reader_in:
  "Reader n got Asleep \<notin> wake_reader ` A"
  "Reader n got Wake \<in> wake_reader ` A \<longleftrightarrow> Reader n got Wake \<in> A"
  "Writer rest ph \<in> wake_reader ` A \<longleftrightarrow> Writer rest ph \<in> A"
proof -
  have r: "wake_reader t = t \<or> (\<exists>n got. t = Reader n got Asleep \<and> wake_reader t = Reader n got Look)" for t
    by (induction t rule: wake_reader.induct) auto
  have a: "wake_reader t \<noteq> Reader n got Asleep" for t by (induction t rule: wake_reader.induct) auto
  show "Reader n got Asleep \<notin> wake_reader ` A" using a by (metis imageE)
  show "Reader n got Wake \<in> wake_reader ` A \<longleftrightarrow> Reader n got Wake \<in> A"
    using r by (metis (no_types, lifting) image_iff pipe_phase.distinct(9,11) task.inject(1) wake_reader.simps(4))
  show "Writer rest ph \<in> wake_reader ` A \<longleftrightarrow> Writer rest ph \<in> A"
    using r by (metis (no_types, lifting) image_iff task.distinct(1) wake_reader.simps(5))
qed

lemma wake_writer_in:
  "Writer rest Asleep \<notin> wake_writer ` A"
  "Writer rest Wake \<in> wake_writer ` A \<longleftrightarrow> Writer rest Wake \<in> A"
  "Reader n got ph \<in> wake_writer ` A \<longleftrightarrow> Reader n got ph \<in> A"
proof -
  have r: "wake_writer t = t \<or> (\<exists>rest. t = Writer rest Asleep \<and> wake_writer t = Writer rest Look)" for t
    by (induction t rule: wake_writer.induct) auto
  have a: "wake_writer t \<noteq> Writer rest Asleep" for t by (induction t rule: wake_writer.induct) auto
  show "Writer rest Asleep \<notin> wake_writer ` A" using a by (metis imageE)
  show "Writer rest Wake \<in> wake_writer ` A \<longleftrightarrow> Writer rest Wake \<in> A"
    using r by (metis (no_types, lifting) image_iff pipe_phase.distinct(9,11) task.inject(2) wake_writer.simps(4))
  show "Reader n got ph \<in> wake_writer ` A \<longleftrightarrow> Reader n got ph \<in> A"
    using r by (metis (no_types, lifting) image_iff task.distinct(1) wake_writer.simps(5))
qed

lemma waiting_wake [simp]: "waiting (wake_reader t) = waiting t" "waiting (wake_writer t) = waiting t"
  by (induction t rule: wake_reader.induct; simp) (induction t rule: wake_writer.induct; simp)

lemma moves_inv:
  assumes "moves s s'" "pipe_sys_inv s"
  shows "pipe_sys_inv s'"
  using assms(1)
proof cases
  case (get xs n got ys data p)
  then show ?thesis using assms(2) by (auto simp: pipe_sys_inv_def)
next
  case (empty xs n got ys)
  then show ?thesis using assms(2) by (auto simp: pipe_sys_inv_def)
next
  case (look_reader xs n got ys)
  then show ?thesis using assms(2) by (auto simp: pipe_sys_inv_def)
next
  case (wake_writers xs n got ys)
  then show ?thesis using assms(2)
    by (auto simp: pipe_sys_inv_def wake_writer_in wake_writer_keeps)
next
  case (put xs rest ys k p)
  have "length (pipe_queue (pipe s)) + k \<le> pipe_capacity (pipe s)"
    using put spacefree_queue(2)[of p] by simp
  then have "\<not> qfull (pipe s)" using put(3) by simp
  then show ?thesis using put assms(2) by (auto simp: pipe_sys_inv_def)
next
  case (full xs rest ys)
  then show ?thesis using assms(2) by (auto simp: pipe_sys_inv_def)
next
  case (look_writer xs rest ys)
  then show ?thesis using assms(2) by (auto simp: pipe_sys_inv_def)
next
  case (wake_readers xs rest ys)
  then show ?thesis using assms(2)
    by (auto simp: pipe_sys_inv_def wake_reader_in wake_reader_keeps)
qed

text \<open>What is still wanted and left, with what went through, is always the same.\<close>

lemma moves_totals:
  assumes "moves s s'"
  shows "length (obtained s') + amount want s' = length (obtained s) + amount want s \<and>
    length (written s') + amount left s' = length (written s) + amount left s"
  using assms by cases (auto simp del: map_map simp: wake_keeps_map)

section \<open>Every run ends\<close>

fun rank :: "bool \<Rightarrow> bool \<Rightarrow> nat \<Rightarrow> task \<Rightarrow> nat" where
  "rank e f m (Reader n got ph) = (case ph of Wake \<Rightarrow> m + 3 | Run \<Rightarrow> if e then 2 else 0 | Look \<Rightarrow> 1 | Asleep \<Rightarrow> 0)"
| "rank e f m (Writer rest ph) = (case ph of Wake \<Rightarrow> m + 3 | Run \<Rightarrow> if f then 2 else 0 | Look \<Rightarrow> 1 | Asleep \<Rightarrow> 0)"

definition ranks :: "pipe_sys \<Rightarrow> nat" where
  "ranks s = sum_list (map (rank (pipe_queue (pipe s) = []) (qfull (pipe s)) (length (tasks s))) (tasks s))"

lemma rank_wake: "rank e f m (wake_reader t) \<le> rank e f m t + 1" "rank e f m (wake_writer t) \<le> rank e f m t + 1"
  by (induction t rule: wake_reader.induct; simp) (induction t rule: wake_writer.induct; simp)

lemma ranks_wake:
  "sum_list (map (rank e f m) (map wake_reader ts)) \<le> sum_list (map (rank e f m) ts) + length ts"
  "sum_list (map (rank e f m) (map wake_writer ts)) \<le> sum_list (map (rank e f m) ts) + length ts"
  using rank_wake[of e f m] by (induction ts) (auto intro: add_mono order_trans simp: add.assoc)

definition pipe_order :: "(pipe_sys \<times> pipe_sys) set" where
  "pipe_order = measures [\<lambda>s. amount want s + amount left s, ranks]"

lemma moves_decrease:
  assumes "moves s s'"
  shows "(s', s) \<in> pipe_order"
  using assms
proof cases
  case (get xs n got ys data p)
  then obtain l where l: "length data = l" "0 < l" "l \<le> n" by simp
  have "amount want s' + amount left s' < amount want s + amount left s"
    unfolding get(1) using get(2) l by simp
  then show ?thesis by (simp add: pipe_order_def)
next
  case (put xs rest ys k p)
  then show ?thesis by (auto simp: pipe_order_def)
next
  case (wake_writers xs n got ys)
  define F where "F = rank (pipe_queue (pipe s) = []) (qfull (pipe s)) (length (tasks s))"
  have "ranks s' = sum_list (map F (map wake_writer xs)) + F (Reader n got Run) + sum_list (map F (map wake_writer ys))"
    "ranks s = sum_list (map F xs) + F (Reader n got Wake) + sum_list (map F ys)"
    using wake_writers by (simp_all add: ranks_def F_def del: map_map)
  moreover have "F (Reader n got Run) \<le> 2" "F (Reader n got Wake) = length xs + length ys + 4"
    using wake_writers by (simp_all add: F_def)
  ultimately have "ranks s' < ranks s"
    using ranks_wake(2)[of "pipe_queue (pipe s) = []" "qfull (pipe s)" "length (tasks s)" xs, folded F_def]
      ranks_wake(2)[of "pipe_queue (pipe s) = []" "qfull (pipe s)" "length (tasks s)" ys, folded F_def]
    by linarith
  moreover have "amount want s' + amount left s' = amount want s + amount left s"
    using wake_writers by (simp del: map_map add: wake_keeps_map)
  ultimately show ?thesis by (simp add: pipe_order_def)
next
  case (wake_readers xs rest ys)
  define F where "F = rank (pipe_queue (pipe s) = []) (qfull (pipe s)) (length (tasks s))"
  have "ranks s' = sum_list (map F (map wake_reader xs)) + F (Writer rest Run) + sum_list (map F (map wake_reader ys))"
    "ranks s = sum_list (map F xs) + F (Writer rest Wake) + sum_list (map F ys)"
    using wake_readers by (simp_all add: ranks_def F_def del: map_map)
  moreover have "F (Writer rest Run) \<le> 2" "F (Writer rest Wake) = length xs + length ys + 4"
    using wake_readers by (simp_all add: F_def)
  ultimately have "ranks s' < ranks s"
    using ranks_wake(1)[of "pipe_queue (pipe s) = []" "qfull (pipe s)" "length (tasks s)" xs, folded F_def]
      ranks_wake(1)[of "pipe_queue (pipe s) = []" "qfull (pipe s)" "length (tasks s)" ys, folded F_def]
    by linarith
  moreover have "amount want s' + amount left s' = amount want s + amount left s"
    using wake_readers by (simp del: map_map add: wake_keeps_map)
  ultimately show ?thesis by (simp add: pipe_order_def)
qed (auto simp: pipe_order_def ranks_def)

lemma wf_pipe_order: "wf pipe_order"
  by (simp add: pipe_order_def)

section \<open>Where a run ends\<close>

text \<open>A run ends where no task has a step.\<close>

definition stuck :: "pipe_sys \<Rightarrow> bool" where
  "stuck s \<longleftrightarrow> (\<forall>i. task_step i s = None)"

lemma stuck_tasks:
  assumes "stuck s" "pipe_sys_inv s" "t \<in> set (tasks s)"
  shows "(\<exists>n got. t = Reader n got Asleep) \<or> (\<exists>rest. t = Writer rest Asleep) \<or>
    (\<exists>got. t = Reader 0 got Run) \<or> t = Writer [] Run"
proof -
  obtain i where i: "i < length (tasks s)" "tasks s ! i = t" using assms(3) by (auto simp: in_set_conv_nth)
  have none: "task_step i s = None" using assms(1) by (simp add: stuck_def)
  have ok: "pipe_ok (pipe s)" using assms(2) by (simp add: pipe_sys_inv_def)
  show ?thesis
  proof (cases t)
    case (Reader n got ph)
    show ?thesis
    proof (cases "ph = Run \<and> 0 < n")
      case True
      then have "reader_run i n got s = None" using none i Reader by (simp add: task_step_def)
      then show ?thesis using read_section[OF ok, of n] True
        by (cases "pipe_queue (pipe s) = []") (auto simp: reader_run_def)
    next
      case False
      then show ?thesis using none i Reader by (cases ph) (auto simp: task_step_def)
    qed
  next
    case (Writer rest ph)
    show ?thesis
    proof (cases "ph = Run \<and> rest \<noteq> []")
      case True
      then have "writer_run i rest s = None" using none i Writer by (simp add: task_step_def)
      then show ?thesis using write_section[OF ok, of rest] True
        by (cases "qfull (pipe s)") (auto simp: writer_run_def)
    next
      case False
      then show ?thesis using none i Writer by (cases ph) (auto simp: task_step_def)
    qed
  qed
qed

lemma stuck_done:
  assumes "stuck s" "pipe_sys_inv s" "amount want s = amount left s + length (pipe_queue (pipe s))"
  shows "amount want s = 0 \<and> amount left s = 0 \<and> pipe_queue (pipe s) = []"
proof -
  note st = stuck_tasks[OF assms(1,2)]
  have no_wake: "Writer rest Wake \<notin> set (tasks s)" "Reader n got Wake \<notin> set (tasks s)" for n rest got
    using st[of "Writer rest Wake"] st[of "Reader n got Wake"] by auto
  have reader: "pipe_queue (pipe s) = []" if "Reader n got Asleep \<in> set (tasks s)" for n got
    using assms(2) that no_wake by (auto simp: pipe_sys_inv_def)
  have writer: "qfull (pipe s)" if "Writer rest Asleep \<in> set (tasks s)" for rest
    using assms(2) that no_wake by (auto simp: pipe_sys_inv_def)
  have cap: "0 < pipe_capacity (pipe s)" using assms(2) by (simp add: pipe_sys_inv_def)
  have w: "amount want s = 0"
  proof (rule ccontr)
    assume "amount want s \<noteq> 0"
    then obtain t where "t \<in> set (tasks s)" "want t \<noteq> 0" by (auto simp: sum_list_eq_0_iff)
    then obtain n got where "Reader n got Asleep \<in> set (tasks s)" using st[of t] by (auto simp del: not_gr_zero)
    then have q: "pipe_queue (pipe s) = []" by (rule reader)
    then have "amount left s \<noteq> 0" using assms(3) \<open>amount want s \<noteq> 0\<close> by simp
    then obtain t where "t \<in> set (tasks s)" "left t \<noteq> 0" by (auto simp: sum_list_eq_0_iff)
    then obtain rest where "Writer rest Asleep \<in> set (tasks s)" using st[of t] by auto
    then show False using writer q cap by fastforce
  qed
  then show ?thesis using assms(3) by simp
qed

lemma pipe_steps_inv:
  assumes "pipe_step\<^sup>*\<^sup>* s s'" "pipe_sys_inv s"
  shows "pipe_sys_inv s' \<and> moves\<^sup>*\<^sup>* s s'"
  using assms
proof (induction rule: rtranclp_induct)
  case (step u v)
  then have u: "pipe_sys_inv u" "moves\<^sup>*\<^sup>* s u" by auto
  from step(2) obtain i where "task_step i u = Some v" by (auto elim: pipe_stepE)
  then have "moves u v" using u(1) step_moves by (simp add: pipe_sys_inv_def)
  then show ?case using u moves_inv by auto
qed simp

lemma pipe_steps_balance:
  assumes "moves\<^sup>*\<^sup>* s s'" "pipe_sys_inv s" "pipe_sys_inv s'"
  shows "amount want s' + length (pipe_queue (pipe s)) + amount left s =
    amount want s + length (pipe_queue (pipe s')) + amount left s'"
proof -
  have "length (obtained s') + amount want s' = length (obtained s) + amount want s \<and>
    length (written s') + amount left s' = length (written s) + amount left s"
    using assms(1) by (induction rule: rtranclp_induct) (auto dest: moves_totals)
  moreover have "length (written s) = length (obtained s) + length (pipe_queue (pipe s))"
    "length (written s') = length (obtained s') + length (pipe_queue (pipe s'))"
    using assms(2,3) by (simp_all add: pipe_sys_inv_def)
  ultimately show ?thesis by linarith
qed

text \<open>The tasks start on an empty pipe.\<close>

definition pipe_start :: "scull_pipe \<Rightarrow> task list \<Rightarrow> pipe_sys" where
  "pipe_start p ts = \<lparr>pipe = p, tasks = ts, written = [], obtained = []\<rparr>"

definition at_start :: "task \<Rightarrow> bool" where
  "at_start t \<longleftrightarrow> (case t of Reader n got ph \<Rightarrow> got = [] \<and> ph = Run | Writer rest ph \<Rightarrow> ph = Run)"

lemma pipe_start_inv:
  assumes "pipe_ok p" "0 < pipe_capacity p" "pipe_queue p = []" "\<forall>t \<in> set ts. at_start t"
  shows "pipe_sys_inv (pipe_start p ts)"
proof -
  have r: "Reader n got Asleep \<notin> set ts" and w: "Writer rest Asleep \<notin> set ts" for n got rest
    using assms(4) by (auto simp: at_start_def)
  have "\<not> waiting t" if "t \<in> set ts" for t
    using bspec[OF assms(4) that] by (cases t) (auto simp: at_start_def)
  then show ?thesis using assms(1-3) r w unfolding pipe_sys_inv_def pipe_start_def by simp
qed

lemma pipe_run_ends:
  assumes "pipe_sys_inv (f 0)" "\<And>k. pipe_step (f k) (f (Suc k))"
  shows False
proof -
  have r: "pipe_step\<^sup>*\<^sup>* (f 0) (f k)" for k
    using assms(2) by (induction k) (auto intro: rtranclp.rtrancl_into_rtrancl)
  have "(f (Suc k), f k) \<in> pipe_order" for k
  proof -
    obtain i where "task_step i (f k) = Some (f (Suc k))" using assms(2)[of k] by (auto elim: pipe_stepE)
    then have "moves (f k) (f (Suc k))"
      using step_moves pipe_steps_inv[OF r assms(1), of k] by (simp add: pipe_sys_inv_def)
    then show ?thesis by (rule moves_decrease)
  qed
  then show False using wf_pipe_order unfolding wf_iff_no_infinite_down_chain by blast
qed

lemma pipe_run_done:
  assumes "pipe_ok p" "0 < pipe_capacity p" "pipe_queue p = []" "\<forall>t \<in> set ts. at_start t"
    "sum_list (map want ts) = sum_list (map left ts)"
    "pipe_step\<^sup>*\<^sup>* (pipe_start p ts) s" "\<nexists>s'. pipe_step s s'"
  shows "(\<forall>t \<in> set (tasks s). want t = 0 \<and> left t = 0) \<and> pipe_queue (pipe s) = [] \<and> obtained s = written s \<and>
    moves\<^sup>*\<^sup>* (pipe_start p ts) s"
proof -
  have inv: "pipe_sys_inv (pipe_start p ts)" using pipe_start_inv[OF assms(1-4)] .
  then have i: "pipe_sys_inv s" "moves\<^sup>*\<^sup>* (pipe_start p ts) s" using pipe_steps_inv[OF assms(6)] by auto
  have "task_step k s = None" for k
    using assms(7) by (cases "task_step k s") (auto intro: pipe_step.intros)
  then have "stuck s" by (simp add: stuck_def)
  moreover have "amount want s = amount left s + length (pipe_queue (pipe s))"
    using pipe_steps_balance[OF i(2) inv i(1)] assms(3,5) by (simp add: pipe_start_def)
  ultimately have d: "amount want s = 0" "amount left s = 0" "pipe_queue (pipe s) = []" using stuck_done i(1) by blast+
  moreover have "obtained s = written s" using d(3) i(1) by (simp add: pipe_sys_inv_def)
  ultimately show ?thesis using i(2) by auto
qed

section \<open>Properties\<close>

text \<open>
  C12: Any number of tasks that read and write a pipe with blocking calls, the readers wanting together
  as many bytes as the writers have: however they interleave, no wake-up is lost and no run goes on
  for ever, and where a run ends all tasks have finished, the pipe is empty, and what was read is what
  was written, in order.
\<close>

theorem pipe_tasks_finish:
  assumes "pipe_ok p" "0 < pipe_capacity p" "pipe_queue p = []" "\<forall>t \<in> set ts. at_start t"
    "sum_list (map want ts) = sum_list (map left ts)"
  shows "(\<nexists>f. f 0 = pipe_start p ts \<and> (\<forall>k. pipe_step (f k) (f (Suc k)))) \<and>
    (\<forall>s. pipe_step\<^sup>*\<^sup>* (pipe_start p ts) s \<and> (\<nexists>s'. pipe_step s s') \<longrightarrow>
      (\<forall>t \<in> set (tasks s). want t = 0 \<and> left t = 0) \<and> pipe_queue (pipe s) = [] \<and> obtained s = written s)"
proof (intro conjI allI impI notI)
  show False if "\<exists>f. f 0 = pipe_start p ts \<and> (\<forall>k. pipe_step (f k) (f (Suc k)))"
    using that pipe_start_inv[OF assms(1-4)] pipe_run_ends by metis
qed (use pipe_run_done[OF assms] in blast)+

lemma pipe_tasks_finish_witness:
  "\<nexists>f. f 0 = pipe_start (fresh_pipe 4) [Writer [1, 2, 3] Run, Reader 5 [] Run, Writer [4, 5] Run] \<and>
     (\<forall>k. pipe_step (f k) (f (Suc k)))"
  using pipe_tasks_finish[of "fresh_pipe 4" "[Writer [1, 2, 3] Run, Reader 5 [] Run, Writer [4, 5] Run]"]
  by (simp add: fresh_pipe_ok at_start_def)

text \<open>One writer and one reader: the reader ends with exactly the bytes of the writer.\<close>

definition one_to_one :: "byte list \<Rightarrow> pipe_sys \<Rightarrow> bool" where
  "one_to_one data s \<longleftrightarrow> (\<exists>rest ph n ph'. tasks s = [Writer rest ph, Reader n (obtained s) ph'] \<and> written s @ rest = data)"

lemma one_to_one_moves:
  assumes "moves s s'" "one_to_one data s"
  shows "one_to_one data s'"
proof -
  obtain rest ph n ph' where t: "tasks s = [Writer rest ph, Reader n (obtained s) ph']" "written s @ rest = data"
    using assms(2) by (auto simp: one_to_one_def)
  have w: "\<exists>q. wake_writer (Writer rest ph) = Writer rest q" by (cases ph) auto
  have r: "\<exists>q. wake_reader (Reader n (obtained s) ph') = Reader n (obtained s) q" by (cases ph') auto
  from assms(1) show ?thesis
    by cases (use t w r in \<open>auto simp: one_to_one_def Cons_eq_append_conv\<close>)
qed

lemma one_to_one_steps:
  assumes "moves\<^sup>*\<^sup>* s s'" "one_to_one data s"
  shows "one_to_one data s'"
  using assms by (induction rule: rtranclp_induct) (auto intro: one_to_one_moves)

lemma pipe_producer_consumer:
  assumes "pipe_ok p" "0 < pipe_capacity p" "pipe_queue p = []"
    "pipe_step\<^sup>*\<^sup>* (pipe_start p [Writer data Run, Reader (length data) [] Run]) s" "\<nexists>s'. pipe_step s s'"
  shows "\<exists>ph ph'. tasks s = [Writer [] ph, Reader 0 data ph']"
proof -
  let ?ts = "[Writer data Run, Reader (length data) [] Run]"
  have st: "\<forall>t \<in> set ?ts. at_start t" by (simp add: at_start_def)
  have d: "\<forall>t \<in> set (tasks s). want t = 0 \<and> left t = 0" "obtained s = written s"
    and m: "moves\<^sup>*\<^sup>* (pipe_start p ?ts) s"
    using pipe_run_done[OF assms(1-3) st _ assms(4,5)] by auto
  have "one_to_one data (pipe_start p ?ts)" by (simp add: one_to_one_def pipe_start_def)
  then have "one_to_one data s" by (rule one_to_one_steps[OF m])
  then show ?thesis using d by (auto simp: one_to_one_def)
qed

end
