(* ===== verification/Scull_Access.thy ===== *)
theory Scull_Access
  imports Scull_Pipe
begin

text \<open>
  The devices of \<open>scull/access.c\<close>: the bare device behind four policies for open and release.
  The single-open device is a state machine over its atomic counter; the two devices that belong
  to a user share the contract \<open>access_control\<close>; the cloned device is a map from terminals to
  devices.
\<close>

section \<open>State\<close>

text \<open>The variables of the file.\<close>

record scull_access =
  s_device :: scull_dev
  s_available :: int
  u_device :: scull_dev
  u_count :: int
  u_owner :: nat
  w_device :: scull_dev
  w_count :: int
  w_owner :: nat
  c_device :: scull_dev
  c_list :: "(nat \<times> scull_dev) list"

text \<open>Who calls: the real and the effective user, and whether access control is overridden.\<close>

record cred =
  current_uid :: nat
  current_euid :: nat
  dac_override :: bool

text \<open>What the opens have in common after access was granted: no lock is taken.\<close>

definition trim_wronly :: "nat \<Rightarrow> scull_vars \<Rightarrow> scull_dev \<Rightarrow> scull_dev option" where
  "trim_wronly f_flags g d = (if f_flags mod 4 = 1 then scull_trim g d else Some d)"

section \<open>The single-open device\<close>

text \<open>The two atomic operations: decrement and test for 0, and increment.\<close>

definition s_dec_and_test :: "scull_access \<Rightarrow> bool \<times> scull_access" where
  "s_dec_and_test a = (let v = s32 (s_available a - 1) in (v = 0, a\<lparr>s_available := v\<rparr>))"

definition s_inc :: "scull_access \<Rightarrow> scull_access" where
  "s_inc a = a\<lparr>s_available := s32 (s_available a + 1)\<rparr>"

definition scull_s_open :: "nat \<Rightarrow> scull_vars \<Rightarrow> scull_access \<Rightarrow> (int ret \<times> scull_access) option" where
  "scull_s_open f_flags g a =
     (case s_dec_and_test a of
        (False, a) \<Rightarrow> Some (Inl EBUSY, s_inc a)
      | (True, a) \<Rightarrow> do {
          d \<leftarrow> trim_wronly f_flags g (s_device a);
          Some (Inr 0, a\<lparr>s_device := d\<rparr>)
        })"

definition scull_s_release :: "scull_access \<Rightarrow> int ret \<times> scull_access" where
  "scull_s_release a = (Inr 0, s_inc a)"

section \<open>The device of a user\<close>

definition scull_u_open :: "cred \<Rightarrow> nat \<Rightarrow> scull_vars \<Rightarrow> scull_access \<Rightarrow> (int ret \<times> scull_access) option" where
  "scull_u_open c f_flags g a =
     (if u_count a \<noteq> 0 \<and> u_owner a \<noteq> current_uid c \<and> u_owner a \<noteq> current_euid c \<and> \<not> dac_override c
      then Some (Inl EBUSY, a)
      else do {
        let a = (if u_count a = 0 then a\<lparr>u_owner := current_uid c\<rparr> else a);
        let a = a\<lparr>u_count := s32 (u_count a + 1)\<rparr>;
        d \<leftarrow> trim_wronly f_flags g (u_device a);
        Some (Inr 0, a\<lparr>u_device := d\<rparr>)
      })"

definition scull_u_release :: "scull_access \<Rightarrow> int ret \<times> scull_access" where
  "scull_u_release a = (Inr 0, a\<lparr>u_count := s32 (u_count a - 1)\<rparr>)"

section \<open>The device of a user that waits\<close>

definition scull_w_available :: "cred \<Rightarrow> scull_access \<Rightarrow> bool" where
  "scull_w_available c a \<longleftrightarrow>
     w_count a = 0 \<or> w_owner a = current_uid c \<or> w_owner a = current_euid c \<or> dac_override c"

text \<open>The loop: the state is what the others have made of it when the sleep ends.\<close>

fun w_wait :: "cred \<Rightarrow> bool \<Rightarrow> scull_access wake list \<Rightarrow> scull_access \<Rightarrow> (errno option \<times> scull_access) option" where
  "w_wait c nonblock [] a =
     (if scull_w_available c a then Some (None, a) else if nonblock then Some (Some EAGAIN, a) else None)"
| "w_wait c nonblock (w # ws) a =
     (if scull_w_available c a then Some (None, a)
      else if nonblock then Some (Some EAGAIN, a)
      else case w of Signal \<Rightarrow> Some (Some ERESTARTSYS, a) | Woken a' \<Rightarrow> w_wait c nonblock ws a')"

definition scull_w_open ::
  "cred \<Rightarrow> bool \<Rightarrow> scull_access wake list \<Rightarrow> nat \<Rightarrow> scull_vars \<Rightarrow> scull_access \<Rightarrow> (int ret \<times> scull_access) option" where
  "scull_w_open c nonblock ws f_flags g a = do {
     (err, a) \<leftarrow> w_wait c nonblock ws a;
     case err of
       Some e \<Rightarrow> Some (Inl e, a)
     | None \<Rightarrow> do {
         let a = (if w_count a = 0 then a\<lparr>w_owner := current_uid c\<rparr> else a);
         let a = a\<lparr>w_count := s32 (w_count a + 1)\<rparr>;
         d \<leftarrow> trim_wronly f_flags g (w_device a);
         Some (Inr 0, a\<lparr>w_device := d\<rparr>)
       }
   }"

text \<open>The second result says whether the sleepers are woken.\<close>

definition scull_w_release :: "scull_access \<Rightarrow> int ret \<times> bool \<times> scull_access" where
  "scull_w_release a = (let a = a\<lparr>w_count := s32 (w_count a - 1)\<rparr> in (Inr 0, w_count a = 0, a))"

section \<open>The cloned device\<close>

definition zero_dev :: scull_dev where
  "zero_dev = \<lparr>sdata = [], quantum = 0, qset = 0, ssize = 0, slock = False\<rparr>"

text \<open>The position of the device for a key in the list.\<close>

fun c_position :: "nat \<Rightarrow> (nat \<times> scull_dev) list \<Rightarrow> nat option" where
  "c_position key [] = None"
| "c_position key (l # ls) = (if fst l = key then Some 0 else map_option Suc (c_position key ls))"

definition scull_c_lookfor_device ::
  "bool \<Rightarrow> scull_vars \<Rightarrow> nat \<Rightarrow> (nat \<times> scull_dev) list \<Rightarrow> (nat option \<times> (nat \<times> scull_dev) list) option" where
  "scull_c_lookfor_device mem g key ls =
     (case c_position key ls of
        Some i \<Rightarrow> Some (Some i, ls)
      | None \<Rightarrow>
          if \<not> mem then Some (None, ls)
          else do {
            d \<leftarrow> scull_trim g zero_dev;
            Some (Some 0, (key, d) # ls)
          })"

definition scull_c_open ::
  "nat option \<Rightarrow> bool \<Rightarrow> nat \<Rightarrow> scull_vars \<Rightarrow> scull_access \<Rightarrow> (int ret \<times> scull_access) option" where
  "scull_c_open tty mem f_flags g a =
     (case tty of
        None \<Rightarrow> Some (Inl EINVAL, a)
      | Some key \<Rightarrow> do {
          (r, ls) \<leftarrow> scull_c_lookfor_device mem g key (c_list a);
          case r of
            None \<Rightarrow> Some (Inl ENOMEM, a\<lparr>c_list := ls\<rparr>)
          | Some i \<Rightarrow> do {
              d \<leftarrow> trim_wronly f_flags g (snd (ls ! i));
              Some (Inr 0, a\<lparr>c_list := ls[i := (fst (ls ! i), d)]\<rparr>)
            }
        })"

definition scull_c_release :: "scull_access \<Rightarrow> int ret \<times> scull_access" where
  "scull_c_release a = (Inr 0, a)"

section \<open>Initialisation and cleanup\<close>

definition scull_access_setup :: "scull_vars \<Rightarrow> scull_dev \<Rightarrow> scull_dev" where
  "scull_access_setup g d = d\<lparr>quantum := scull_quantum g, qset := scull_qset g, slock := False\<rparr>"

definition scull_access_init :: "bool \<Rightarrow> scull_vars \<Rightarrow> scull_access \<Rightarrow> nat \<times> scull_access" where
  "scull_access_init registered g a =
     (if \<not> registered then (0, a)
      else (4, a\<lparr>s_device := scull_access_setup g (s_device a), u_device := scull_access_setup g (u_device a),
              w_device := scull_access_setup g (w_device a), c_device := scull_access_setup g (c_device a)\<rparr>))"

fun trim_all :: "scull_vars \<Rightarrow> (nat \<times> scull_dev) list \<Rightarrow> unit option" where
  "trim_all g [] = Some ()"
| "trim_all g (l # ls) = do { scull_trim g (snd l); trim_all g ls }"

definition scull_access_cleanup :: "scull_vars \<Rightarrow> scull_access \<Rightarrow> scull_access option" where
  "scull_access_cleanup g a = do {
     sd \<leftarrow> scull_trim g (s_device a);
     ud \<leftarrow> scull_trim g (u_device a);
     wd \<leftarrow> scull_trim g (w_device a);
     cd \<leftarrow> scull_trim g (c_device a);
     trim_all g (c_list a);
     Some (a\<lparr>s_device := sd, u_device := ud, w_device := wd, c_device := cd, c_list := []\<rparr>)
   }"

section \<open>One opener at a time\<close>

text \<open>
  The steps of any number of calls that open and release the single-open device, in any order:
  the state, the files that are open and the calls whose test failed and that have not yet
  undone their decrement.  A call is named by its task, of which there are at most \<open>2^22\<close>.
\<close>

type_synonym s_state = "scull_access \<times> nat set \<times> nat set"

inductive s_step :: "s_state \<Rightarrow> s_state \<Rightarrow> bool" where
  grab: "p < 2 ^ 22 \<Longrightarrow> p \<notin> F \<Longrightarrow> s_dec_and_test a = (True, a') \<Longrightarrow> s_step (a, H, F) (a', insert p H, F)"
| busy: "p < 2 ^ 22 \<Longrightarrow> p \<notin> F \<Longrightarrow> s_dec_and_test a = (False, a') \<Longrightarrow> s_step (a, H, F) (a', H, insert p F)"
| undo: "p \<in> F \<Longrightarrow> s_step (a, H, F) (s_inc a, H, F - {p})"
| release: "p \<in> H \<Longrightarrow> s_step (a, H, F) (snd (scull_s_release a), H - {p}, F)"

inductive_cases s_stepE: "s_step s s'"

definition s_inv :: "s_state \<Rightarrow> bool" where
  "s_inv s = (case s of (a, H, F) \<Rightarrow>
     F \<subseteq> {..<2 ^ 22} \<and> finite H \<and> card H \<le> 1 \<and> s_available a = 1 - int (card H) - int (card F))"

lemma s_inv_card: "F \<subseteq> {..<2 ^ 22 :: nat} \<Longrightarrow> finite F \<and> card F \<le> 2 ^ 22"
  using card_mono [of "{..<2 ^ 22 :: nat}" F] finite_subset [of F "{..<2 ^ 22}"] by simp

lemma s_step_inv: "s_step s s' \<Longrightarrow> s_inv s \<Longrightarrow> s_inv s'"
proof (induction rule: s_step.induct)
  case (grab p F a a' H)
  then have F: "finite F" "card F \<le> 2 ^ 22" using s_inv_card [of F] by (auto simp: s_inv_def)
  from grab have v: "s_available a = 1 - int (card H) - int (card F)" "card H \<le> 1" "finite H" by (auto simp: s_inv_def)
  have "s32 (s_available a - 1) = s_available a - 1" using F v by (intro s32_id) auto
  with grab.hyps(3) have "s_available a = 1" "a' = a\<lparr>s_available := 0\<rparr>"
    by (auto simp: s_dec_and_test_def Let_def)
  with v have "card H = 0" "card F = 0" by linarith+
  with v F have "H = {}" "F = {}" by simp_all
  with \<open>a' = _\<close> show ?case by (simp add: s_inv_def)
next
  case (busy p F a a' H)
  then have F: "finite F" "card F \<le> 2 ^ 22" using s_inv_card [of F] by (auto simp: s_inv_def)
  from busy have v: "s_available a = 1 - int (card H) - int (card F)" "card H \<le> 1" "finite H" "F \<subseteq> {..<2 ^ 22}"
    by (auto simp: s_inv_def)
  have "s32 (s_available a - 1) = s_available a - 1" using F v by (intro s32_id) auto
  with busy.hyps(3) have "a' = a\<lparr>s_available := s_available a - 1\<rparr>"
    by (auto simp: s_dec_and_test_def Let_def)
  with v F busy.hyps(1,2) show ?case by (simp add: s_inv_def)
next
  case (undo p F a H)
  then have F: "finite F" "card F \<le> 2 ^ 22" using s_inv_card [of F] by (auto simp: s_inv_def)
  from undo have v: "s_available a = 1 - int (card H) - int (card F)" "card H \<le> 1" "finite H" "F \<subseteq> {..<2 ^ 22}"
    by (auto simp: s_inv_def)
  have "0 < card F" using undo.hyps F by (auto simp: card_gt_0_iff)
  moreover have "s32 (s_available a + 1) = s_available a + 1" using F v by (intro s32_id) auto
  ultimately show ?case using v F undo.hyps by (auto simp: s_inv_def s_inc_def of_nat_diff)
next
  case (release p H a F)
  then have F: "finite F" "card F \<le> 2 ^ 22" using s_inv_card [of F] by (auto simp: s_inv_def)
  from release have v: "s_available a = 1 - int (card H) - int (card F)" "card H \<le> 1" "finite H" "F \<subseteq> {..<2 ^ 22}"
    by (auto simp: s_inv_def)
  have "0 < card H" using release.hyps v by (auto simp: card_gt_0_iff)
  moreover have "s32 (s_available a + 1) = s_available a + 1" using F v by (intro s32_id) auto
  ultimately show ?case using v release.hyps by (auto simp: s_inv_def s_inc_def scull_s_release_def of_nat_diff)
qed

lemma s_reach_inv: "s_step\<^sup>*\<^sup>* s s' \<Longrightarrow> s_inv s \<Longrightarrow> s_inv s'"
  by (induction rule: rtranclp_induct) (auto intro: s_step_inv)

section \<open>Devices of a user\<close>

definition entitled :: "cred \<Rightarrow> nat \<Rightarrow> bool" where
  "entitled c u \<longleftrightarrow> u = current_uid c \<or> u = current_euid c \<or> dac_override c"

datatype access_event = Open_by cred | Close_of nat

text \<open>
  A sequence of calls: the holders of open files, in the order they came, and the state.  A
  refused open leaves both.
\<close>

fun access_run :: "(cred \<Rightarrow> 's \<Rightarrow> 's option) \<Rightarrow> ('s \<Rightarrow> 's) \<Rightarrow> access_event list \<Rightarrow> cred list \<Rightarrow> 's \<Rightarrow> cred list \<times> 's" where
  "access_run opn rel [] h s = (h, s)"
| "access_run opn rel (Open_by c # es) h s =
     (case opn c s of None \<Rightarrow> access_run opn rel es h s | Some s' \<Rightarrow> access_run opn rel es (h @ [c]) s')"
| "access_run opn rel (Close_of i # es) h s =
     (if i < length h then access_run opn rel es (take i h @ drop (Suc i) h) (rel s) else access_run opn rel es h s)"

locale access_control =
  fixes opn :: "cred \<Rightarrow> 's \<Rightarrow> 's option"
    and rel :: "'s \<Rightarrow> 's"
    and users :: "'s \<Rightarrow> int"
    and owner :: "'s \<Rightarrow> nat"
  assumes open_grant: "0 \<le> users s \<Longrightarrow> users s < 2 ^ 31 - 1 \<Longrightarrow> opn c s = Some s' \<Longrightarrow>
      (users s = 0 \<or> entitled c (owner s)) \<and> users s' = users s + 1 \<and>
      owner s' = (if users s = 0 then current_uid c else owner s)"
    and close_one: "0 < users s \<Longrightarrow> users s < 2 ^ 31 \<Longrightarrow> users (rel s) = users s - 1 \<and> owner (rel s) = owner s"
begin

lemma run_exclusive:
  assumes "access_run opn rel es h s = (h', s')" "users s = int (length h)" "\<forall>c \<in> set h. entitled c (owner s)"
    and "length es + length h < 2 ^ 31"
  shows "users s' = int (length h') \<and> (\<forall>c \<in> set h'. entitled c (owner s'))"
  using assms
proof (induction es arbitrary: h s)
  case Nil
  then show ?case by simp
next
  case (Cons e es)
  show ?case
  proof (cases e)
    case (Open_by c)
    show ?thesis
    proof (cases "opn c s")
      case None
      with Cons Open_by show ?thesis by simp
    next
      case (Some s1)
      have "0 \<le> users s" "users s < 2 ^ 31 - 1" using Cons.prems by simp_all
      note g = open_grant [OF this Some]
      have "\<forall>d \<in> set (h @ [c]). entitled d (owner s1)"
      proof (cases "users s = 0")
        case True
        with Cons.prems(2) have "h = []" by simp
        with g True show ?thesis by (simp add: entitled_def)
      next
        case False
        with g Cons.prems(3) show ?thesis by auto
      qed
      with Cons.prems g Open_by Some show ?thesis by (intro Cons.IH [of "h @ [c]" s1]) auto
    qed
  next
    case (Close_of i)
    show ?thesis
    proof (cases "i < length h")
      case False
      with Cons Close_of show ?thesis by simp
    next
      case True
      then have "0 < users s" "users s < 2 ^ 31" using Cons.prems by auto
      note r = close_one [OF this]
      have "set (take i h @ drop (Suc i) h) \<subseteq> set h" by (auto dest: in_set_takeD in_set_dropD)
      with r Cons.prems(3) have "\<forall>d \<in> set (take i h @ drop (Suc i) h). entitled d (owner (rel s))" by auto
      moreover have "users (rel s) = int (length (take i h @ drop (Suc i) h))"
        using r Cons.prems(2) True by auto
      ultimately show ?thesis
        using Cons.prems True Close_of by (intro Cons.IH [of "take i h @ drop (Suc i) h" "rel s"]) auto
    qed
  qed
qed

end

text \<open>The opens as their callers see them: the state after a granted open.\<close>

definition u_opn :: "nat \<Rightarrow> scull_vars \<Rightarrow> cred \<Rightarrow> scull_access \<Rightarrow> scull_access option" where
  "u_opn f_flags g c a = (case scull_u_open c f_flags g a of Some (Inr _, a') \<Rightarrow> Some a' | _ \<Rightarrow> None)"

definition w_opn :: "bool \<Rightarrow> nat \<Rightarrow> scull_vars \<Rightarrow> cred \<Rightarrow> scull_access \<Rightarrow> scull_access option" where
  "w_opn nonblock f_flags g c a = (case scull_w_open c nonblock [] f_flags g a of Some (Inr _, a') \<Rightarrow> Some a' | _ \<Rightarrow> None)"

lemma u_opn_grant:
  assumes "u_opn f_flags g c a = Some a'" "0 \<le> u_count a" "u_count a < 2 ^ 31 - 1"
  shows "(u_count a = 0 \<or> entitled c (u_owner a)) \<and> u_count a' = u_count a + 1 \<and>
    u_owner a' = (if u_count a = 0 then current_uid c else u_owner a)"
proof (cases "u_count a \<noteq> 0 \<and> \<not> entitled c (u_owner a)")
  case True
  with assms(1) show ?thesis by (simp add: u_opn_def scull_u_open_def entitled_def)
next
  case False
  then have "\<not> (u_count a \<noteq> 0 \<and> u_owner a \<noteq> current_uid c \<and> u_owner a \<noteq> current_euid c \<and> \<not> dac_override c)"
    by (auto simp: entitled_def)
  with assms show ?thesis
    by (cases "trim_wronly f_flags g (u_device a)") (auto simp: u_opn_def scull_u_open_def Let_def entitled_def)
qed

lemma w_opn_grant:
  assumes "w_opn nonblock f_flags g c a = Some a'" "0 \<le> w_count a" "w_count a < 2 ^ 31 - 1"
  shows "(w_count a = 0 \<or> entitled c (w_owner a)) \<and> w_count a' = w_count a + 1 \<and>
    w_owner a' = (if w_count a = 0 then current_uid c else w_owner a)"
proof (cases "scull_w_available c a")
  case True
  with assms show ?thesis
    by (cases "trim_wronly f_flags g (w_device a)")
      (auto simp: w_opn_def scull_w_open_def Let_def scull_w_available_def entitled_def)
next
  case False
  with assms(1) show ?thesis by (cases nonblock) (simp_all add: w_opn_def scull_w_open_def)
qed

interpretation sculluid: access_control "u_opn f_flags g" "\<lambda>a. snd (scull_u_release a)" u_count u_owner for f_flags g
proof unfold_locales
  fix a a' :: scull_access and c :: cred
  assume "0 \<le> u_count a" "u_count a < 2 ^ 31 - 1" "u_opn f_flags g c a = Some a'"
  then show "(u_count a = 0 \<or> entitled c (u_owner a)) \<and> u_count a' = u_count a + 1 \<and>
      u_owner a' = (if u_count a = 0 then current_uid c else u_owner a)"
    by (intro u_opn_grant)
next
  fix a :: scull_access
  assume "0 < u_count a" "u_count a < 2 ^ 31"
  then show "u_count (snd (scull_u_release a)) = u_count a - 1 \<and> u_owner (snd (scull_u_release a)) = u_owner a"
    by (simp add: scull_u_release_def)
qed

interpretation scullwuid: access_control "w_opn nonblock f_flags g" "\<lambda>a. snd (snd (scull_w_release a))" w_count w_owner
  for nonblock f_flags g
proof unfold_locales
  fix a a' :: scull_access and c :: cred
  assume "0 \<le> w_count a" "w_count a < 2 ^ 31 - 1" "w_opn nonblock f_flags g c a = Some a'"
  then show "(w_count a = 0 \<or> entitled c (w_owner a)) \<and> w_count a' = w_count a + 1 \<and>
      w_owner a' = (if w_count a = 0 then current_uid c else w_owner a)"
    by (intro w_opn_grant)
next
  fix a :: scull_access
  assume "0 < w_count a" "w_count a < 2 ^ 31"
  then show "w_count (snd (snd (scull_w_release a))) = w_count a - 1 \<and> w_owner (snd (snd (scull_w_release a))) = w_owner a"
    by (simp add: scull_w_release_def Let_def)
qed

section \<open>Private devices\<close>

lemma c_position_None: "c_position key ls = None \<longleftrightarrow> key \<notin> fst ` set ls"
  by (induction ls) auto

lemma c_position_Some:
  "c_position key ls = Some i \<Longrightarrow> i < length ls \<and> fst (ls ! i) = key \<and> map_of ls key = Some (snd (ls ! i))"
  by (induction ls arbitrary: i) (auto split: if_splits)

lemma map_of_position:
  "c_position key ls = Some i \<Longrightarrow> map_of (ls[i := (key, d)]) = (map_of ls)(key \<mapsto> d) \<and> map fst (ls[i := (key, d)]) = map fst ls"
  by (induction ls arbitrary: i) (auto simp: fun_eq_iff split: if_splits)

section \<open>Properties\<close>

definition quiet_access :: scull_access where
  "quiet_access = \<lparr>s_device = zero_dev, s_available = 1, u_device = zero_dev, u_count = 0, u_owner = 0,
     w_device = zero_dev, w_count = 0, w_owner = 0, c_device = zero_dev, c_list = []\<rparr>"

lemma quiet_access_inv: "s_inv (quiet_access, {}, {})"
  by (simp add: s_inv_def quiet_access_def)

text \<open>The steps of the single-open device from its initial state, two of them colliding.\<close>

lemma s_collision:
  "s_step\<^sup>*\<^sup>* (quiet_access, {}, {}) (quiet_access\<lparr>s_available := 0\<rparr>, {}, {2})"
proof -
  have "s_step\<^sup>*\<^sup>* (quiet_access, {}, {}) (quiet_access\<lparr>s_available := 0\<rparr>, {1}, {})"
    by (rule r_into_rtranclp, rule s_step.grab) (simp_all add: s_dec_and_test_def quiet_access_def)
  also have "s_step (quiet_access\<lparr>s_available := 0\<rparr>, {1}, {}) (quiet_access\<lparr>s_available := - 1\<rparr>, {1}, {2})"
    by (rule s_step.busy) (simp_all add: s_dec_and_test_def)
  also have "s_step (quiet_access\<lparr>s_available := - 1\<rparr>, {1}, {2}) (quiet_access\<lparr>s_available := 0\<rparr>, {}, {2})"
    using s_step.release [of 1 "{1}" "quiet_access\<lparr>s_available := - 1\<rparr>" "{2}"] by (simp add: scull_s_release_def s_inc_def)
  finally show ?thesis by simp
qed

text \<open>
  C14: However the opens and releases of the single-open device interleave, at their two atomic
  operations, at most one file is open at a time; and when no call is between its test and the
  undoing of its decrement, the counter says exactly whether the device is free.
\<close>

theorem single_open_exclusive:
  assumes "s_step\<^sup>*\<^sup>* (a, {}, {}) (a', H, F)" "s_available a = 1"
  shows "card H \<le> 1 \<and> (F = {} \<longrightarrow> s_available a' = (if H = {} then 1 else 0))"
proof -
  have "s_inv (a, {}, {})" using assms(2) by (simp add: s_inv_def)
  from s_reach_inv [OF assms(1) this] have i: "card H \<le> 1" "finite H" "s_available a' = 1 - int (card H) - int (card F)"
    by (auto simp: s_inv_def)
  have "card H = 1" if "H \<noteq> {}" using that i(1,2) card_gt_0_iff [of H] by auto
  with i show ?thesis by auto
qed

lemma single_open_exclusive_witness: "card ({} :: nat set) \<le> 1 \<and> s_step\<^sup>*\<^sup>* (quiet_access, {}, {}) (quiet_access\<lparr>s_available := 0\<rparr>, {}, {2})"
  using single_open_exclusive [OF s_collision] s_collision by (simp add: quiet_access_def)

text \<open>
  The single-open device can turn everybody away although nobody has it: after a collision
  of a failing open with a release, an open of the free device reports that it is busy.
\<close>

theorem single_open_spurious_busy:
  "\<exists>a F. s_step\<^sup>*\<^sup>* (quiet_access, {}, {}) (a, {}, F) \<and> (\<forall>f_flags g. scull_s_open f_flags g a = Some (Inl EBUSY, a))"
proof (intro exI conjI allI)
  show "s_step\<^sup>*\<^sup>* (quiet_access, {}, {}) (quiet_access\<lparr>s_available := 0\<rparr>, {}, {2})" by (rule s_collision)
  show "scull_s_open f_flags g (quiet_access\<lparr>s_available := 0\<rparr>) = Some (Inl EBUSY, quiet_access\<lparr>s_available := 0\<rparr>)" for f_flags g
    by (simp add: scull_s_open_def s_dec_and_test_def s_inc_def Let_def)
qed

text \<open>
  C15: Over any sequence of opens and closes by any users, every file that is open on the device of
  a user, of either kind, belongs to a caller that is the owner, acts for the owner or may
  override access control; and the counter is the number of open files.
\<close>

theorem user_devices_exclusive:
  assumes "access_run (u_opn fu g) (\<lambda>a. snd (scull_u_release a)) es [] a = (h, b)" "u_count a = 0"
    and "access_run (w_opn nonblock fw g) (\<lambda>a. snd (snd (scull_w_release a))) es' [] a = (h', b')" "w_count a = 0"
    and "length es < 2 ^ 31" "length es' < 2 ^ 31"
  shows "u_count b = int (length h) \<and> (\<forall>c \<in> set h. entitled c (u_owner b)) \<and>
    w_count b' = int (length h') \<and> (\<forall>c \<in> set h'. entitled c (w_owner b'))"
  using sculluid.run_exclusive [OF assms(1)] scullwuid.run_exclusive [OF assms(3)] assms by simp

definition plain_user :: "nat \<Rightarrow> cred" where
  "plain_user u = \<lparr>current_uid = u, current_euid = u, dac_override = False\<rparr>"

definition some_vars :: scull_vars where
  "some_vars = \<lparr>scull_quantum = 4000, scull_qset = 1000, scull_p_buffer = 4000\<rparr>"

text \<open>User 5 opens, user 6 is refused, user 5 closes, user 6 gets in.\<close>

lemma user_devices_exclusive_witness:
  "let es = [Open_by (plain_user 5), Open_by (plain_user 6), Close_of 0, Open_by (plain_user 6)] in
   \<exists>b b'. access_run (u_opn 0 some_vars) (\<lambda>a. snd (scull_u_release a)) es [] quiet_access = ([plain_user 6], b) \<and>
     access_run (w_opn True 0 some_vars) (\<lambda>a. snd (snd (scull_w_release a))) es [] quiet_access = ([plain_user 6], b') \<and>
     u_count b = 1 \<and> entitled (plain_user 6) (u_owner b) \<and> w_count b' = 1 \<and> entitled (plain_user 6) (w_owner b')"
proof -
  let ?es = "[Open_by (plain_user 5), Open_by (plain_user 6), Close_of 0, Open_by (plain_user 6)]"
  let ?b = "quiet_access\<lparr>u_count := 1, u_owner := 6\<rparr>" and ?b' = "quiet_access\<lparr>w_count := 1, w_owner := 6\<rparr>"
  have e: "access_run (u_opn 0 some_vars) (\<lambda>a. snd (scull_u_release a)) ?es [] quiet_access = ([plain_user 6], ?b)"
    by (simp add: u_opn_def scull_u_open_def scull_u_release_def quiet_access_def plain_user_def trim_wronly_def)
  have e': "access_run (w_opn True 0 some_vars) (\<lambda>a. snd (snd (scull_w_release a))) ?es [] quiet_access = ([plain_user 6], ?b')"
    by (simp add: w_opn_def scull_w_open_def scull_w_release_def scull_w_available_def quiet_access_def plain_user_def
        trim_wronly_def Let_def)
  from user_devices_exclusive [OF e _ e'] e e' show ?thesis
    by (simp add: quiet_access_def)
qed

text \<open>
  Who waits for the device gets it: an opener that sleeps while another user has the device
  open once is let in when that file is closed, and owns the device from then on.
\<close>

theorem sleeper_admitted:
  assumes "w_count a = 1" "\<not> scull_w_available c a" "f_flags mod 4 \<noteq> 1"
  shows "scull_w_open c False (Woken (snd (snd (scull_w_release a))) # ws) f_flags g a =
    Some (Inr 0, a\<lparr>w_count := 1, w_owner := current_uid c\<rparr>)"
proof -
  let ?a = "a\<lparr>w_count := 0\<rparr>"
  have r: "snd (snd (scull_w_release a)) = ?a" using assms(1) by (simp add: scull_w_release_def Let_def)
  have "scull_w_available c ?a" by (simp add: scull_w_available_def)
  then have "w_wait c False ws ?a = Some (None, ?a)" by (cases ws) simp_all
  then have "w_wait c False (Woken ?a # ws) a = Some (None, ?a)" using assms(2) by simp
  moreover have "?a\<lparr>w_owner := current_uid c, w_count := 1, w_device := w_device ?a\<rparr> =
      a\<lparr>w_count := 1, w_owner := current_uid c\<rparr>"
    by (cases a) simp
  ultimately show ?thesis
    unfolding r scull_w_open_def using assms(3) by (simp del: w_wait.simps add: trim_wronly_def)
qed

lemma sleeper_admitted_witness:
  "scull_w_open (plain_user 6) False [Woken (quiet_access\<lparr>w_count := 0, w_owner := 5\<rparr>)] 0 some_vars
     (quiet_access\<lparr>w_count := 1, w_owner := 5\<rparr>) = Some (Inr 0, quiet_access\<lparr>w_count := 1, w_owner := 6\<rparr>)"
  using sleeper_admitted [of "quiet_access\<lparr>w_count := 1, w_owner := 5\<rparr>" "plain_user 6" 0 "[]" some_vars]
  by (simp add: scull_w_available_def plain_user_def scull_w_release_def Let_def quiet_access_def)

lemma trim_zero: "scull_trim g zero_dev = Some (zero_dev\<lparr>quantum := scull_quantum g, qset := scull_qset g\<rparr>)"
  by (simp add: scull_trim_def zero_dev_def)

text \<open>
  Each terminal has a device of its own that stays: a granted open of the cloned device
  from a terminal changes the map from terminals to devices at that terminal only, where it finds
  the device of the earlier opens, or else makes an empty one, trimmed for a write-only file;
  and no terminal ever has two.
\<close>

theorem private_devices:
  assumes "distinct (map fst (c_list a))" "scull_c_open (Some key) mem f_flags g a = Some (Inr 0, a')"
  shows "distinct (map fst (c_list a')) \<and>
    (\<exists>d. trim_wronly f_flags g (case map_of (c_list a) key of
        Some d \<Rightarrow> d | None \<Rightarrow> zero_dev\<lparr>quantum := scull_quantum g, qset := scull_qset g\<rparr>) = Some d \<and>
      map_of (c_list a') = (map_of (c_list a))(key \<mapsto> d))"
proof (cases "c_position key (c_list a)")
  case (Some i)
  note p = c_position_Some [OF Some]
  from Some assms(2) obtain d where "trim_wronly f_flags g (snd (c_list a ! i)) = Some d"
    "a' = a\<lparr>c_list := (c_list a)[i := (key, d)]\<rparr>"
    using p by (auto simp: scull_c_open_def scull_c_lookfor_device_def bind_eq_Some_conv)
  moreover have "map_of (c_list a) key = Some (snd (c_list a ! i))" using p by blast
  ultimately show ?thesis
    using map_of_position [OF Some, of d] assms(1) by (intro conjI exI [of _ d]) (simp_all del: map_of_eq_Some_iff)
next
  case None
  then have k: "key \<notin> fst ` set (c_list a)" by (simp add: c_position_None)
  then have m: "map_of (c_list a) key = None" by (simp add: map_of_eq_None_iff)
  from None assms(2) have mem by (cases mem) (simp_all add: scull_c_open_def scull_c_lookfor_device_def)
  with None assms(2) obtain d where
    "trim_wronly f_flags g (zero_dev\<lparr>quantum := scull_quantum g, qset := scull_qset g\<rparr>) = Some d"
    "c_list a' = (key, d) # c_list a"
    by (auto simp: scull_c_open_def scull_c_lookfor_device_def bind_eq_Some_conv trim_zero)
  with m k assms(1) show ?thesis by simp
qed

lemma private_devices_witness:
  "\<exists>a'. scull_c_open (Some 4) True 1 some_vars (quiet_access\<lparr>c_list := [(3, zero_dev)]\<rparr>) = Some (Inr 0, a') \<and>
     distinct (map fst (c_list a')) \<and> map_of (c_list a') 3 = Some zero_dev"
proof -
  let ?a = "quiet_access\<lparr>c_list := [(3, zero_dev)]\<rparr>"
  let ?d = "zero_dev\<lparr>quantum := 4000, qset := 1000\<rparr>"
  have "scull_c_open (Some 4) True 1 some_vars ?a = Some (Inr 0, ?a\<lparr>c_list := [(4, ?d), (3, zero_dev)]\<rparr>)"
    by (simp add: scull_c_open_def scull_c_lookfor_device_def trim_zero trim_wronly_def some_vars_def)
      (simp add: scull_trim_def zero_dev_def some_vars_def)
  from this private_devices [OF _ this] show ?thesis by auto
qed

text \<open>
  The opens of these devices trim without the mutex of the device: a write-only open frees all
  quanta while another task is inside a read or a write that holds it.
\<close>

theorem open_trims_locked:
  assumes "slock (u_device a)" "u_count a = 0 \<or> entitled c (u_owner a)" "f_flags mod 4 = 1"
    and "scull_trim g (u_device a) = Some d"
  shows "\<exists>a'. scull_u_open c f_flags g a = Some (Inr 0, a') \<and> sdata (u_device a') = [] \<and> slock (u_device a')"
proof -
  have d: "sdata d = []" "slock d" using assms(1,4) by (auto simp: scull_trim_def split: if_splits)
  have "\<not> (u_count a \<noteq> 0 \<and> u_owner a \<noteq> current_uid c \<and> u_owner a \<noteq> current_euid c \<and> \<not> dac_override c)"
    using assms(2) by (auto simp: entitled_def)
  with assms(3,4) d show ?thesis by (simp add: scull_u_open_def trim_wronly_def)
qed

lemma open_trims_locked_witness:
  "\<exists>a'. scull_u_open (plain_user 5) 1 some_vars (quiet_access\<lparr>u_device := zero_dev\<lparr>slock := True\<rparr>\<rparr>) = Some (Inr 0, a') \<and>
     sdata (u_device a') = [] \<and> slock (u_device a')"
  using open_trims_locked [of "quiet_access\<lparr>u_device := zero_dev\<lparr>slock := True\<rparr>\<rparr>" "plain_user 5" 1 some_vars]
  by (simp add: quiet_access_def zero_dev_def scull_trim_def)

end
