(* ===== verification/Scull_Files.thy ===== *)
theory Scull_Files
  imports Scull_Access
begin

text \<open>
  Files on the devices of \<open>scull/access.c\<close>.  The four devices differ in \<open>open\<close> and \<open>release\<close> only:
  their tables of operations name the read, write and seek of the bare device, and an open file is
  the device it was opened on and a position.  Here the calls of any number of tasks on any number
  of files come one after the other; the opens of a device that would sleep are those of files
  that must not block.
\<close>

section \<open>Files and calls\<close>

text \<open>The entries of \<open>scull_access_devs\<close>.\<close>

datatype adev = Scullsingle | Sculluid | Scullwuid | Scullpriv

text \<open>An open file: its device, the terminal it was opened from, its position.\<close>

record afile =
  adev_of :: adev
  tty_of :: nat
  f_pos :: int

type_synonym files = "scull_access \<times> (nat \<rightharpoonup> afile)"

text \<open>The calls, with what they meet: signals, memory, bytes that cannot be copied.\<close>

datatype file_call =
    Open_file adev cred "nat option" bool nat
  | Read_file bool smem nat nat
  | Write_file bool smem nat "byte list"
  | Seek_file nat int
  | Close_file

type_synonym answer = "int ret \<times> byte list"

text \<open>The operations of the four tables.\<close>

fun adev_open :: "adev \<Rightarrow> cred \<Rightarrow> nat option \<Rightarrow> bool \<Rightarrow> nat \<Rightarrow> scull_vars \<Rightarrow> scull_access \<Rightarrow> (int ret \<times> scull_access) option" where
  "adev_open Scullsingle c tty mem fl g a = scull_s_open fl g a"
| "adev_open Sculluid c tty mem fl g a = scull_u_open c fl g a"
| "adev_open Scullwuid c tty mem fl g a = scull_w_open c True [] fl g a"
| "adev_open Scullpriv c tty mem fl g a = scull_c_open tty mem fl g a"

fun adev_release :: "adev \<Rightarrow> scull_access \<Rightarrow> int ret \<times> scull_access" where
  "adev_release Scullsingle a = scull_s_release a"
| "adev_release Sculluid a = scull_u_release a"
| "adev_release Scullwuid a = (let (r, _, a) = scull_w_release a in (r, a))"
| "adev_release Scullpriv a = scull_c_release a"

definition file_dev :: "afile \<Rightarrow> scull_access \<Rightarrow> scull_dev option" where
  "file_dev f a = (case adev_of f of
     Scullsingle \<Rightarrow> Some (s_device a) | Sculluid \<Rightarrow> Some (u_device a) | Scullwuid \<Rightarrow> Some (w_device a)
   | Scullpriv \<Rightarrow> map_of (c_list a) (tty_of f))"

definition set_file_dev :: "afile \<Rightarrow> scull_dev \<Rightarrow> scull_access \<Rightarrow> scull_access" where
  "set_file_dev f d a = (case adev_of f of
     Scullsingle \<Rightarrow> a\<lparr>s_device := d\<rparr> | Sculluid \<Rightarrow> a\<lparr>u_device := d\<rparr> | Scullwuid \<Rightarrow> a\<lparr>w_device := d\<rparr>
   | Scullpriv \<Rightarrow> a\<lparr>c_list := map (\<lambda>(k, d'). (k, if k = tty_of f then d else d')) (c_list a)\<rparr>)"

text \<open>Read, write and seek, on a device and a position.\<close>

fun data_call :: "file_call \<Rightarrow> int \<times> scull_dev \<Rightarrow> (answer \<times> int \<times> scull_dev) option" where
  "data_call (Read_file intr m nc n) (pos, d) =
     do { (r, pos, data, d) \<leftarrow> scull_read intr m nc (int n) pos d; Some ((r, data), pos, d) }"
| "data_call (Write_file intr m nc ub) (pos, d) =
     do { (r, pos, d) \<leftarrow> scull_write intr m nc ub pos d; Some ((r, []), pos, d) }"
| "data_call (Seek_file whence off) (pos, d) =
     (let (r, pos) = scull_llseek (ssize d) whence off pos in Some ((r, []), pos, d))"
| "data_call _ (pos, d) = None"

text \<open>A call with a number that is no open file, or an open with one that is, changes nothing.\<close>

abbreviation (input) bad_file :: answer where
  "bad_file \<equiv> (Inl (ESRC 9), [])"

fun file_step :: "scull_vars \<Rightarrow> nat \<times> file_call \<Rightarrow> files \<Rightarrow> (answer \<times> files) option" where
  "file_step g (fd, Open_file k c tty mem fl) (a, fs) =
     (if fs fd \<noteq> None then Some (bad_file, (a, fs))
      else do {
        (r, a) \<leftarrow> adev_open k c tty mem fl g a;
        case r of
          Inl e \<Rightarrow> Some ((r, []), (a, fs))
        | Inr n \<Rightarrow> Some ((r, []), (a, fs(fd \<mapsto> \<lparr>adev_of = k, tty_of = (case tty of Some t \<Rightarrow> t | None \<Rightarrow> 0), f_pos = 0\<rparr>)))
      })"
| "file_step g (fd, Close_file) (a, fs) =
     (case fs fd of
        None \<Rightarrow> Some (bad_file, (a, fs))
      | Some f \<Rightarrow> let (r, a) = adev_release (adev_of f) a in Some ((r, []), (a, fs(fd := None))))"
| "file_step g (fd, c) (a, fs) =
     (case fs fd of
        None \<Rightarrow> Some (bad_file, (a, fs))
      | Some f \<Rightarrow> do {
          d \<leftarrow> file_dev f a;
          (ans, pos, d) \<leftarrow> data_call c (f_pos f, d);
          Some (ans, (set_file_dev f d a, fs(fd \<mapsto> f\<lparr>f_pos := pos\<rparr>)))
        })"

fun file_run :: "scull_vars \<Rightarrow> (nat \<times> file_call) list \<Rightarrow> files \<Rightarrow> ((nat \<times> answer) list \<times> files) option" where
  "file_run g [] st = Some ([], st)"
| "file_run g (e # es) st = do {
     (ans, st) \<leftarrow> file_step g e st;
     (rs, st) \<leftarrow> file_run g es st;
     Some ((fst e, ans) # rs, st)
   }"

text \<open>The same calls on the bare device, by nobody else.\<close>

fun data_run :: "file_call list \<Rightarrow> int \<times> scull_dev \<Rightarrow> (answer list \<times> int \<times> scull_dev) option" where
  "data_run [] pd = Some ([], pd)"
| "data_run (c # cs) pd = do {
     (ans, pd) \<leftarrow> data_call c pd;
     (rs, pd) \<leftarrow> data_run cs pd;
     Some (ans # rs, pd)
   }"

section \<open>Invariant\<close>

text \<open>
  The counter of the single-open device tells whether a file is open on it, which then is the only
  one; and a terminal with an open file has one device.
\<close>

definition on_single :: "(nat \<rightharpoonup> afile) \<Rightarrow> nat set" where
  "on_single fs = {fd. \<exists>f. fs fd = Some f \<and> adev_of f = Scullsingle}"

definition files_inv :: "files \<Rightarrow> bool" where
  "files_inv st \<longleftrightarrow> (case st of (a, fs) \<Rightarrow>
     (on_single fs = {} \<and> s_available a = 1 \<or> (\<exists>fd. on_single fs = {fd}) \<and> s_available a = 0) \<and>
     distinct (map fst (c_list a)))"

lemma on_single_upd:
  "on_single (fs(fd \<mapsto> f)) = (if adev_of f = Scullsingle then insert fd (on_single fs) else on_single fs - {fd})"
  "on_single (fs(fd := None)) = on_single fs - {fd}"
  by (auto simp: on_single_def)

lemma set_file_dev_simps [simp]:
  "s_available (set_file_dev f d a) = s_available a" "map fst (c_list (set_file_dev f d a)) = map fst (c_list a)"
  by (auto simp: set_file_dev_def split: adev.splits)

text \<open>What the opens and releases of a device leave alone.\<close>

lemma scull_c_open_keys:
  assumes "scull_c_open tty mem fl g a = Some (r, a')" "distinct (map fst (c_list a))"
  shows "distinct (map fst (c_list a')) \<and> s_available a' = s_available a \<and> s_device a' = s_device a \<and>
    (\<forall>k. tty \<noteq> Some k \<longrightarrow> map_of (c_list a') k = map_of (c_list a) k)"
proof (cases "\<exists>n. r = Inr n")
  case True
  then obtain key where key: "tty = Some key" using assms(1) by (cases tty) (auto simp: scull_c_open_def)
  have r: "r = Inr 0" using True assms(1) key by (auto simp: scull_c_open_def bind_eq_Some_conv split: option.splits)
  have "s_available a' = s_available a \<and> s_device a' = s_device a"
    using assms(1) key r by (auto simp: scull_c_open_def bind_eq_Some_conv split: option.splits)
  then show ?thesis using private_devices[OF assms(2), of key mem fl g a'] assms(1) key r by auto
next
  case False
  then show ?thesis using assms
    by (auto simp: scull_c_open_def scull_c_lookfor_device_def bind_eq_Some_conv split: option.splits if_splits)
qed

lemma s_open_cases:
  assumes "scull_s_open fl g a = Some (r, a')" "s_available a \<in> {0, 1}"
  shows "c_list a' = c_list a \<and>
    (if s_available a = 1 then r = Inr 0 \<and> s_available a' = 0 else r = Inl EBUSY \<and> a' = a)"
  using assms by (auto simp: scull_s_open_def s_dec_and_test_def s_inc_def s32_def bind_eq_Some_conv Let_def)

lemma other_open:
  assumes "adev_open k c tty mem fl g a = Some (r, a')" "k \<noteq> Scullsingle" "distinct (map fst (c_list a))"
  shows "s_available a' = s_available a \<and> s_device a' = s_device a \<and> distinct (map fst (c_list a')) \<and>
    (\<forall>t. \<not> (k = Scullpriv \<and> tty = Some t) \<longrightarrow> map_of (c_list a') t = map_of (c_list a) t)"
proof (cases k)
  case Sculluid
  then show ?thesis using assms
    by (auto simp: scull_u_open_def bind_eq_Some_conv Let_def split: if_splits)
next
  case Scullwuid
  then show ?thesis using assms
    by (auto simp: scull_w_open_def bind_eq_Some_conv Let_def split: if_splits option.splits)
next
  case Scullpriv
  then show ?thesis using assms scull_c_open_keys[of tty mem fl g a r a'] by auto
qed (use assms in simp)

lemma release_leaves:
  "adev_release k a = (r, a') \<Longrightarrow> s_device a' = s_device a \<and> c_list a' = c_list a \<and>
     (k \<noteq> Scullsingle \<longrightarrow> s_available a' = s_available a)"
  by (cases k) (auto simp: scull_s_release_def s_inc_def scull_u_release_def scull_w_release_def scull_c_release_def Let_def)

lemma map_of_set_key:
  "map_of (map (\<lambda>(k, d'). (k, if k = t then d else d')) ls) t' =
     (if t' = t then map_option (\<lambda>_. d) (map_of ls t) else map_of ls t')"
  by (induction ls) auto

lemma file_dev_set:
  "file_dev f a = Some d0 \<Longrightarrow> file_dev f (set_file_dev f d a) = Some d"
  "\<not> (adev_of f' = adev_of f \<and> (adev_of f = Scullpriv \<longrightarrow> tty_of f' = tty_of f)) \<Longrightarrow>
     file_dev f' (set_file_dev f d a) = file_dev f' a"
  by (auto simp: file_dev_def set_file_dev_def map_of_set_key split: adev.splits)

text \<open>A call on a file that is open, other than close, is one on its device and position.\<close>

definition is_data :: "file_call \<Rightarrow> bool" where
  "is_data c \<longleftrightarrow> (case c of Open_file _ _ _ _ _ \<Rightarrow> False | Close_file \<Rightarrow> False | _ \<Rightarrow> True)"

lemma file_step_data:
  "is_data c \<Longrightarrow> file_step g (fd, c) (a, fs) =
     (case fs fd of
        None \<Rightarrow> Some (bad_file, (a, fs))
      | Some f \<Rightarrow> do {
          d \<leftarrow> file_dev f a;
          (ans, pos, d) \<leftarrow> data_call c (f_pos f, d);
          Some (ans, (set_file_dev f d a, fs(fd \<mapsto> f\<lparr>f_pos := pos\<rparr>)))
        })"
  by (cases c; hypsubst; simp add: is_data_def)

lemma on_single_pos: "fs fd = Some f \<Longrightarrow> on_single (fs(fd \<mapsto> f\<lparr>f_pos := p\<rparr>)) = on_single fs"
  by (auto simp: on_single_def)

lemma file_step_inv:
  assumes "files_inv st" "file_step g (fd, c) st = Some (ans, st')"
  shows "files_inv st'"
proof -
  obtain a fs where st: "st = (a, fs)" by fastforce
  have inv: "on_single fs = {} \<and> s_available a = 1 \<or> (\<exists>fd. on_single fs = {fd}) \<and> s_available a = 0"
    and d: "distinct (map fst (c_list a))" using assms(1) st by (auto simp: files_inv_def)
  consider (open_file) k cr tty mem fl where "c = Open_file k cr tty mem fl" | (close_file) "c = Close_file" | (data) "is_data c"
    by (cases c) (auto simp: is_data_def)
  then show ?thesis
  proof cases
    case data
    show ?thesis
    proof (cases "fs fd")
      case None
      then show ?thesis using assms st data by (simp add: file_step_data)
    next
      case (Some f)
      then obtain d' pos where "st' = (set_file_dev f d' a, fs(fd \<mapsto> f\<lparr>f_pos := pos\<rparr>))"
        using assms(2) st data by (auto simp: file_step_data bind_eq_Some_conv)
      then show ?thesis using inv d Some by (simp add: files_inv_def on_single_pos)
    qed
  next
    case close_file
    show ?thesis
    proof (cases "fs fd")
      case None
      then show ?thesis using assms st close_file by simp
    next
      case (Some f)
      then obtain r a' where r: "adev_release (adev_of f) a = (r, a')" "st' = (a', fs(fd := None))"
        using assms(2) st close_file by (cases "adev_release (adev_of f) a") auto
      note l = release_leaves[OF r(1)]
      show ?thesis
      proof (cases "adev_of f = Scullsingle")
        case True
        then have "fd \<in> on_single fs" using Some by (auto simp: on_single_def)
        then have "on_single fs = {fd}" "s_available a = 0" using inv by auto
        moreover from this have "s_available a' = 1" using r(1) True by (auto simp: scull_s_release_def s_inc_def s32_def)
        ultimately show ?thesis using r(2) l d by (simp add: files_inv_def on_single_upd)
      next
        case False
        then have "fd \<notin> on_single fs" using Some by (auto simp: on_single_def)
        then show ?thesis using r(2) l d inv False by (simp add: files_inv_def on_single_upd)
      qed
    qed
  next
    case open_file
    show ?thesis
    proof (cases "fs fd = None")
      case False
      then show ?thesis using assms st open_file by simp
    next
      case True
      then have no: "fd \<notin> on_single fs" by (auto simp: on_single_def)
      obtain r a' where r: "adev_open k cr tty mem fl g a = Some (r, a')"
        using assms(2) st open_file True by (auto simp: bind_eq_Some_conv)
      have st': "st' = (a', if \<exists>n. r = Inr n then fs(fd \<mapsto> \<lparr>adev_of = k, tty_of = (case tty of Some t \<Rightarrow> t | None \<Rightarrow> 0), f_pos = 0\<rparr>) else fs)"
        using assms(2) st open_file True r by (auto split: sum.splits)
      show ?thesis
      proof (cases "k = Scullsingle")
        case True
        have "s_available a \<in> {0, 1}" using inv by auto
        from s_open_cases[OF _ this, of fl g r a'] have o: "c_list a' = c_list a"
          "if s_available a = 1 then r = Inr 0 \<and> s_available a' = 0 else r = Inl EBUSY \<and> a' = a"
          using r True by auto
        then show ?thesis using inv d True st' by (auto simp: files_inv_def on_single_upd split: if_splits)
      next
        case False
        note o = other_open[OF r False d]
        show ?thesis using inv o no False st' by (auto simp: files_inv_def on_single_upd)
      qed
    qed
  qed
qed

lemma file_run_inv: "files_inv st \<Longrightarrow> file_run g es st = Some (rs, st') \<Longrightarrow> files_inv st'"
proof (induction es arbitrary: st rs)
  case (Cons e es)
  obtain fd c where e: "e = (fd, c)" by fastforce
  obtain ans st1 rs1 where s1: "file_step g (fd, c) st = Some (ans, st1)" "file_run g es st1 = Some (rs1, st')"
    using Cons.prems(2) e by (auto simp: bind_eq_Some_conv)
  then show ?case using Cons.IH[OF file_step_inv[OF Cons.prems(1) s1(1)] s1(2)] by simp
qed simp

lemma no_files_inv: "files_inv (quiet_access, Map.empty)"
  by (simp add: files_inv_def on_single_def quiet_access_def)

section \<open>A file that has its device for itself\<close>

text \<open>
  The file \<open>h\<close> is open, and on the single-open device, or on a device of a terminal without another
  file there; the other calls do not open the device of that terminal, and the file is not closed.
\<close>

definition sole_file :: "nat \<Rightarrow> afile \<Rightarrow> files \<Rightarrow> bool" where
  "sole_file h f st \<longleftrightarrow> (case st of (a, fs) \<Rightarrow> fs h = Some f \<and>
     (adev_of f = Scullsingle \<or>
      adev_of f = Scullpriv \<and>
      (\<forall>fd f'. fd \<noteq> h \<and> fs fd = Some f' \<longrightarrow> \<not> (adev_of f' = Scullpriv \<and> tty_of f' = tty_of f))))"

definition undisturbing :: "nat \<Rightarrow> afile \<Rightarrow> nat \<times> file_call \<Rightarrow> bool" where
  "undisturbing h f e \<longleftrightarrow>
     (if fst e = h then is_data (snd e)
      else adev_of f = Scullpriv \<longrightarrow>
        (case snd e of Open_file Scullpriv _ tty _ _ \<Rightarrow> tty \<noteq> None \<and> tty \<noteq> Some (tty_of f) | _ \<Rightarrow> True))"

lemma moved_file [simp]:
  "file_dev (f\<lparr>f_pos := p\<rparr>) a = file_dev f a" "undisturbing h (f\<lparr>f_pos := p\<rparr>) e = undisturbing h f e"
  by (cases "adev_of f"; simp add: file_dev_def)
     (auto simp: undisturbing_def split: file_call.splits adev.splits)

lemma sole_file_only:
  assumes "files_inv (a, fs)" "sole_file h f (a, fs)" "fd \<noteq> h" "fs fd = Some f'"
  shows "\<not> (adev_of f' = adev_of f \<and> (adev_of f = Scullpriv \<longrightarrow> tty_of f' = tty_of f))"
proof
  assume same: "adev_of f' = adev_of f \<and> (adev_of f = Scullpriv \<longrightarrow> tty_of f' = tty_of f)"
  then have s: "adev_of f = Scullsingle" "fs h = Some f" using assms(2-4) by (auto simp: sole_file_def)
  then have "fd \<in> on_single fs" "h \<in> on_single fs" using assms(4) same by (auto simp: on_single_def)
  then show False using assms(1,3) by (auto simp: files_inv_def)
qed

lemma sole_file_others:
  assumes "files_inv (a, fs)" "sole_file h f (a, fs)" "fd \<noteq> h" "undisturbing h f (fd, c)"
    "file_step g (fd, c) (a, fs) = Some (ans, (a', fs'))"
  shows "sole_file h f (a', fs') \<and> file_dev f a' = file_dev f a"
proof -
  have f: "fs h = Some f" "adev_of f = Scullsingle \<or> adev_of f = Scullpriv" using assms(2) by (auto simp: sole_file_def)
  consider (open_file) k cr tty mem fl where "c = Open_file k cr tty mem fl" | (close_file) "c = Close_file" | (data) "is_data c"
    by (cases c) (auto simp: is_data_def)
  then show ?thesis
  proof cases
    case data
    show ?thesis
    proof (cases "fs fd")
      case None
      then show ?thesis using assms data by (simp add: file_step_data)
    next
      case (Some f')
      then obtain d' pos where "a' = set_file_dev f' d' a" "fs' = fs(fd \<mapsto> f'\<lparr>f_pos := pos\<rparr>)"
        using assms(5) data by (auto simp: file_step_data bind_eq_Some_conv)
      moreover have "file_dev f (set_file_dev f' d' a) = file_dev f a"
        using sole_file_only[OF assms(1-3) Some] by (intro file_dev_set(2)) auto
      ultimately show ?thesis using assms(2,3) Some by (auto simp: sole_file_def)
    qed
  next
    case close_file
    show ?thesis
    proof (cases "fs fd")
      case None
      then show ?thesis using assms close_file by simp
    next
      case (Some f')
      then obtain r where r: "adev_release (adev_of f') a = (r, a')" "fs' = fs(fd := None)"
        using assms(5) close_file by (cases "adev_release (adev_of f') a") auto
      then have "file_dev f a' = file_dev f a" using release_leaves[OF r(1)] f(2) by (auto simp: file_dev_def)
      then show ?thesis using assms(2,3) r(2) by (auto simp: sole_file_def)
    qed
  next
    case open_file
    show ?thesis
    proof (cases "fs fd = None")
      case False
      then show ?thesis using assms open_file by simp
    next
      case True
      have inv: "s_available a \<in> {0, 1}" "distinct (map fst (c_list a))"
        "adev_of f = Scullsingle \<Longrightarrow> s_available a = 0"
        using assms(1) f(1) by (auto simp: files_inv_def on_single_def)
      obtain r b where r: "adev_open k cr tty mem fl g a = Some (r, b)"
        using assms(5) open_file True by (auto simp: bind_eq_Some_conv)
      moreover from this have "b = a'" using assms(5) open_file True by (cases r) auto
      ultimately have r: "adev_open k cr tty mem fl g a = Some (r, a')" by simp
      have fs': "fs' = (if \<exists>n. r = Inr n then fs(fd \<mapsto> \<lparr>adev_of = k, tty_of = (case tty of Some t \<Rightarrow> t | None \<Rightarrow> 0), f_pos = 0\<rparr>) else fs)"
        using assms(5) open_file True r by (auto split: sum.splits)
      show ?thesis
      proof (cases "k = Scullsingle")
        case k: True
        with s_open_cases[of fl g a r a'] r inv(1) have o: "c_list a' = c_list a"
          "if s_available a = 1 then r = Inr 0 \<and> s_available a' = 0 else r = Inl EBUSY \<and> a' = a" by auto
        show ?thesis
        proof (cases "adev_of f = Scullsingle")
          case True
          then show ?thesis using o inv(3) fs' assms(2) by auto
        next
          case False
          then show ?thesis using o f fs' k assms(2,3) by (auto simp: file_dev_def sole_file_def)
        qed
      next
        case k: False
        note o = other_open[OF r k inv(2)]
        have t: "adev_of f = Scullpriv \<Longrightarrow> k = Scullpriv \<Longrightarrow> tty \<noteq> None \<and> tty \<noteq> Some (tty_of f)"
          using assms(3,4) open_file by (auto simp: undisturbing_def)
        have "file_dev f a' = file_dev f a" using o t f(2) by (auto simp: file_dev_def)
        moreover have "sole_file h f (a', fs')"
          using assms(2,3) fs' t by (auto simp: sole_file_def split: option.splits)
        ultimately show ?thesis by blast
      qed
    qed
  qed
qed

lemma sole_file_own:
  assumes "sole_file h f (a, fs)" "is_data c" "file_step g (h, c) (a, fs) = Some (ans, (a', fs'))"
  shows "\<exists>d pos d'. file_dev f a = Some d \<and> data_call c (f_pos f, d) = Some (ans, pos, d') \<and>
    sole_file h (f\<lparr>f_pos := pos\<rparr>) (a', fs') \<and> file_dev (f\<lparr>f_pos := pos\<rparr>) a' = Some d'"
proof -
  have "fs h = Some f" using assms(1) by (simp add: sole_file_def)
  then obtain d pos d' where d: "file_dev f a = Some d" "data_call c (f_pos f, d) = Some (ans, pos, d')"
    "a' = set_file_dev f d' a" "fs' = fs(h \<mapsto> f\<lparr>f_pos := pos\<rparr>)"
    using assms(2,3) by (auto simp: file_step_data bind_eq_Some_conv)
  then show ?thesis using d file_dev_set(1)[OF d(1)] assms(1) by (auto simp: sole_file_def)
qed

text \<open>
  C16: A file on the single-open device, or the only file of a terminal on the cloned device, has its
  device for itself: whatever other tasks do meanwhile with any files, its reads, writes and seeks
  give exactly what they give on a bare device that nobody else uses, and leave that device as they
  leave the bare one.
\<close>

theorem sole_file_undisturbed:
  assumes "files_inv st" "sole_file h f st" "file_dev f (fst st) = Some d"
    "\<forall>e \<in> set es. undisturbing h f e" "file_run g es st = Some (rs, st')"
  shows "\<exists>pos d'. data_run (map snd (filter (\<lambda>e. fst e = h) es)) (f_pos f, d) =
      Some (map snd (filter (\<lambda>r. fst r = h) rs), pos, d') \<and> file_dev f (fst st') = Some d'"
  using assms
proof (induction es arbitrary: st f d rs)
  case (Cons e es)
  obtain a fs where st: "st = (a, fs)" by fastforce
  obtain fd c where e: "e = (fd, c)" by fastforce
  obtain ans a1 fs1 rs1 where step: "file_step g (fd, c) (a, fs) = Some (ans, (a1, fs1))"
    and run: "file_run g es (a1, fs1) = Some (rs1, st')" and rs: "rs = (fd, ans) # rs1"
    using Cons.prems(5) st e by (auto simp: bind_eq_Some_conv)
  have inv: "files_inv (a1, fs1)" using file_step_inv[OF _ step] Cons.prems(1) st by simp
  show ?case
  proof (cases "fd = h")
    case True
    have c: "is_data c" using Cons.prems(4) e True by (simp add: undisturbing_def)
    obtain pos d1 where d1: "data_call c (f_pos f, d) = Some (ans, pos, d1)"
      "sole_file h (f\<lparr>f_pos := pos\<rparr>) (a1, fs1)" "file_dev (f\<lparr>f_pos := pos\<rparr>) a1 = Some d1"
      using sole_file_own[of h f a fs c g ans a1 fs1] Cons.prems(2,3) st c step True by auto
    have "\<forall>e \<in> set es. undisturbing h (f\<lparr>f_pos := pos\<rparr>) e" using Cons.prems(4) by simp
    from Cons.IH[OF inv d1(2) _ this run, of d1] d1(3) obtain pos' d' where
      "data_run (map snd (filter (\<lambda>e. fst e = h) es)) (pos, d1) = Some (map snd (filter (\<lambda>r. fst r = h) rs1), pos', d')"
      "file_dev (f\<lparr>f_pos := pos\<rparr>) (fst st') = Some d'" by auto
    then show ?thesis using d1(1) True e rs by simp
  next
    case False
    have "undisturbing h f (fd, c)" using Cons.prems(4) e by simp
    from sole_file_others[OF _ _ False this step] Cons.prems(1,2) st
    have "sole_file h f (a1, fs1)" "file_dev f a1 = file_dev f a" by auto
    then show ?thesis using Cons.IH[OF inv _ _ _ run, of f d] Cons.prems(3,4) st False e rs by simp
  qed
qed simp

text \<open>While task 3 has the single-open device, file 5 is refused, and the seek and the read of 3 go on.\<close>

lemma sole_file_undisturbed_witness:
  "\<exists>rs st'. file_run some_vars
       [(5, Open_file Scullsingle (plain_user 6) None True 1), (3, Seek_file 0 2), (3, Read_file False calm_mem 0 4)]
       (quiet_access\<lparr>s_available := 0\<rparr>, [3 \<mapsto> \<lparr>adev_of = Scullsingle, tty_of = 0, f_pos = 0\<rparr>]) = Some (rs, st') \<and>
     rs = [(5, Inl EBUSY, []), (3, Inr 2, []), (3, Inr 0, [])] \<and>
     (\<exists>pos d'. data_run [Seek_file 0 2, Read_file False calm_mem 0 4] (0, s_device quiet_access) =
        Some ([(Inr 2, []), (Inr 0, [])], pos, d') \<and> file_dev \<lparr>adev_of = Scullsingle, tty_of = 0, f_pos = 0\<rparr> (fst st') = Some d')"
proof -
  let ?f = "\<lparr>adev_of = Scullsingle, tty_of = 0, f_pos = 0\<rparr>" and ?a = "quiet_access\<lparr>s_available := 0\<rparr>"
  let ?es = "[(5, Open_file Scullsingle (plain_user 6) None True 1), (3, Seek_file 0 2), (3, Read_file False calm_mem 0 4)]"
  let ?rs = "[(5, Inl EBUSY, []), (3, Inr 2, []), (3, Inr 0, [])]"
  have run: "file_run some_vars ?es (?a, [3 \<mapsto> ?f]) = Some (?rs, (?a, [3 \<mapsto> ?f\<lparr>f_pos := 2\<rparr>]))"
    by (simp add: scull_s_open_def s_dec_and_test_def s_inc_def Let_def quiet_access_def file_dev_def set_file_dev_def
        scull_llseek_def scull_read_def scull_lock_def scull_unlock_def zero_dev_def s64_def u64_def s32_def)
  have "files_inv (?a, [3 \<mapsto> ?f])" "sole_file 3 ?f (?a, [3 \<mapsto> ?f])" "file_dev ?f (fst (?a, [3 \<mapsto> ?f])) = Some (s_device quiet_access)"
    "\<forall>e \<in> set ?es. undisturbing 3 ?f e"
    by (auto simp: files_inv_def on_single_def quiet_access_def sole_file_def file_dev_def undisturbing_def is_data_def)
  from sole_file_undisturbed[OF this run] show ?thesis using run by simp
qed

end
