(* ===== verification/Misc_Modules.thy ===== *)
theory Misc_Modules
  imports Prelude
begin

text \<open>
  Small modules of \<open>misc-modules\<close>: \<open>sleepy.c\<close> and \<open>complete.c\<close>, whose readers sleep until a write
  wakes them, with the steps of any number of readers and writers interleaved; \<open>jiq.c\<close>, which
  prints from deferred work until a limit is reached; and \<open>faulty.c\<close>.
\<close>

section \<open>sleepy and complete\<close>

text \<open>A reader sleeps, or has stopped sleeping and goes on, or has returned its value.\<close>

datatype reader = Sleeping | Awake | Returned int

text \<open>The flag of \<open>sleepy\<close>, its readers, and the number of writes.\<close>

record sleepy =
  flag :: int
  sleepers :: "reader list"
  sleepy_writes :: nat

definition sleepy_write :: "nat \<Rightarrow> sleepy \<Rightarrow> int ret \<times> sleepy" where
  "sleepy_write count s = (Inr (int count), s\<lparr>flag := 1, sleepy_writes := sleepy_writes s + 1\<rparr>)"

text \<open>
  A read in its three parts: it begins to sleep; the condition holds or a signal arrives, and it
  looks at neither; it resets the flag and returns 0.
\<close>

definition sleepy_read_begin :: "sleepy \<Rightarrow> sleepy" where
  "sleepy_read_begin s = s\<lparr>sleepers := sleepers s @ [Sleeping]\<rparr>"

definition sleepy_read_wake :: "bool \<Rightarrow> nat \<Rightarrow> sleepy \<Rightarrow> sleepy option" where
  "sleepy_read_wake intr i s =
     (if sleepers s ! i = Sleeping \<and> (flag s \<noteq> 0 \<or> intr) then Some (s\<lparr>sleepers := (sleepers s)[i := Awake]\<rparr>) else None)"

definition sleepy_read_end :: "nat \<Rightarrow> sleepy \<Rightarrow> sleepy option" where
  "sleepy_read_end i s =
     (if sleepers s ! i = Awake then Some (s\<lparr>flag := 0, sleepers := (sleepers s)[i := Returned 0]\<rparr>) else None)"

inductive sleepy_step :: "sleepy \<Rightarrow> sleepy \<Rightarrow> bool" where
  "sleepy_step s (snd (sleepy_write count s))"
| "sleepy_step s (sleepy_read_begin s)"
| "i < length (sleepers s) \<Longrightarrow> sleepy_read_wake intr i s = Some s' \<Longrightarrow> sleepy_step s s'"
| "i < length (sleepers s) \<Longrightarrow> sleepy_read_end i s = Some s' \<Longrightarrow> sleepy_step s s'"

text \<open>
  The kernel's completion: a count that \<open>complete\<close> raises and that a waiter takes one from before it
  goes on.
\<close>

record completer =
  comp_done :: nat
  waiters :: "reader list"
  complete_writes :: nat

definition complete_write :: "nat \<Rightarrow> completer \<Rightarrow> int ret \<times> completer" where
  "complete_write count c = (Inr (int count), c\<lparr>comp_done := comp_done c + 1, complete_writes := complete_writes c + 1\<rparr>)"

definition complete_read_begin :: "completer \<Rightarrow> completer" where
  "complete_read_begin c = c\<lparr>waiters := waiters c @ [Sleeping]\<rparr>"

definition complete_read_end :: "nat \<Rightarrow> completer \<Rightarrow> completer option" where
  "complete_read_end i c =
     (if waiters c ! i = Sleeping \<and> comp_done c \<noteq> 0
      then Some (c\<lparr>comp_done := comp_done c - 1, waiters := (waiters c)[i := Returned 0]\<rparr>) else None)"

inductive complete_step :: "completer \<Rightarrow> completer \<Rightarrow> bool" where
  "complete_step c (snd (complete_write count c))"
| "complete_step c (complete_read_begin c)"
| "i < length (waiters c) \<Longrightarrow> complete_read_end i c = Some c' \<Longrightarrow> complete_step c c'"

inductive_cases sleepy_stepE: "sleepy_step s s'"
inductive_cases complete_stepE: "complete_step c c'"

text \<open>Both modules register a device; a dynamic number is kept.\<close>

definition module_init :: "int \<Rightarrow> int ret \<Rightarrow> int ret \<times> int" where
  "module_init major registered =
     (case registered of
        Inl e \<Rightarrow> (Inl e, major)
      | Inr result \<Rightarrow> (Inr 0, if major = 0 then result else major))"

section \<open>jiq\<close>

text \<open>
  The data of the deferred functions: the sequence file's size and how much it holds, the amount
  counted by the module, whether the reader is woken, whether the function is to run again, and
  the lines printed.  \<open>LIMIT\<close> is \<open>PAGE_SIZE - 128\<close>.
\<close>

record clientdata =
  m_size :: nat
  m_count :: nat
  jiq_len :: int
  jiq_jiffies :: nat
  woken :: bool
  rescheduled :: bool
  jiq_lines :: nat

abbreviation (input) LIMIT :: int where "LIMIT \<equiv> 4096 - 128"

text \<open>Printing to a sequence file: what does not fit marks the file as full.\<close>

definition seq_print :: "nat \<Rightarrow> clientdata \<Rightarrow> clientdata" where
  "seq_print n d = d\<lparr>m_count := (if m_count d + n < m_size d then m_count d + n else m_size d)\<rparr>"

definition jiq_header :: nat where
  "jiq_header = length ''    time  delta preempt   pid cpu command'' + 1"

text \<open>One line of length \<open>n\<close>, at time \<open>j\<close>; the first result says whether to run again.\<close>

definition jiq_print :: "nat \<Rightarrow> nat \<Rightarrow> clientdata \<Rightarrow> bool \<times> clientdata" where
  "jiq_print n j d =
     (if LIMIT < jiq_len d then (False, d\<lparr>woken := True\<rparr>)
      else
        let d1 = (if jiq_len d = 0 then seq_print jiq_header d else d);
            len = (if jiq_len d = 0 then int (m_count d1) else 0);
            d2 = (seq_print n d1)\<lparr>jiq_lines := jiq_lines d1 + 1\<rparr>;
            len = s32 (len + int (m_count d2))
        in (True, d2\<lparr>jiq_len := s32 (jiq_len d + len), jiq_jiffies := j\<rparr>))"

text \<open>The work function, and its delayed and tasklet forms: print, and run again if told so.\<close>

definition jiq_print_wq :: "nat \<Rightarrow> nat \<Rightarrow> clientdata \<Rightarrow> clientdata" where
  "jiq_print_wq n j d = (let (again, d) = jiq_print n j d in d\<lparr>rescheduled := again\<rparr>)"

definition jiq_print_wq_delayed :: "nat \<Rightarrow> nat \<Rightarrow> clientdata \<Rightarrow> clientdata" where
  "jiq_print_wq_delayed n j d = (let (again, d) = jiq_print n j d in d\<lparr>rescheduled := again\<rparr>)"

definition jiq_print_tasklet :: "nat \<Rightarrow> nat \<Rightarrow> clientdata \<Rightarrow> clientdata" where
  "jiq_print_tasklet n j d = (let (again, d) = jiq_print n j d in d\<lparr>rescheduled := again\<rparr>)"

definition jiq_timedout :: "nat \<Rightarrow> nat \<Rightarrow> clientdata \<Rightarrow> clientdata" where
  "jiq_timedout n j d = (snd (jiq_print n j d))\<lparr>woken := True\<rparr>"

text \<open>The beginning of a read: nothing printed yet, and the work scheduled.\<close>

definition jiq_start :: "nat \<Rightarrow> clientdata \<Rightarrow> clientdata" where
  "jiq_start j d = d\<lparr>jiq_len := 0, jiq_jiffies := j, rescheduled := True, woken := False\<rparr>"

text \<open>The work queue runs the work while it is scheduled; \<open>ls\<close> are the lengths of the lines.\<close>

fun jiq_runs :: "nat list \<Rightarrow> clientdata \<Rightarrow> clientdata" where
  "jiq_runs [] d = d"
| "jiq_runs (n # ls) d = (if rescheduled d then jiq_runs ls (jiq_print_wq n 0 d) else d)"

section \<open>faulty\<close>

definition faulty_read :: "byte list \<Rightarrow> nat \<Rightarrow> (int ret \<times> byte list) option" where
  "faulty_read stack_buf count = do {
     b \<leftarrow> mem_write stack_buf 0 (replicate 20 255);
     let count = (if 4 < count then 4 else count);
     data \<leftarrow> mem_read b 0 count;
     Some (Inr (int count), data)
   }"

text \<open>The write stores through NULL, where no block is.\<close>

definition faulty_write :: "heap \<Rightarrow> (int ret \<times> heap) option" where
  "faulty_write h = do {
     b \<leftarrow> h NULL;
     b \<leftarrow> mem_write b 0 (replicate 4 0);
     Some (Inr 0, h(NULL \<mapsto> b))
   }"

section \<open>Sleepers\<close>

definition returned :: "reader list \<Rightarrow> nat" where
  "returned rs = length (filter (\<lambda>r. \<exists>v. r = Returned v) rs)"

lemma returned_snoc [simp]: "returned (rs @ [Sleeping]) = returned rs" "returned [] = 0"
  by (simp_all add: returned_def)

lemma returned_update:
  assumes "i < length rs" "rs ! i = Sleeping \<or> rs ! i = Awake"
  shows "returned (rs[i := Returned v]) = returned rs + 1" "returned (rs[i := Awake]) = returned rs"
proof -
  have r: "rs = take i rs @ rs ! i # drop (Suc i) rs" using assms(1) by (rule id_take_nth_drop)
  have u: "rs[i := x] = take i rs @ x # drop (Suc i) rs" for x using assms(1) by (rule upd_conv_take_nth_drop)
  have n: "returned rs = returned (take i rs) + returned (drop (Suc i) rs)"
    using assms(2) by (subst r) (auto simp: returned_def)
  show "returned (rs[i := Returned v]) = returned rs + 1" "returned (rs[i := Awake]) = returned rs"
    unfolding u n by (simp_all add: returned_def)
qed

lemma complete_step_count:
  "complete_step c c' \<Longrightarrow> returned (waiters c) + comp_done c = complete_writes c \<Longrightarrow>
    returned (waiters c') + comp_done c' = complete_writes c'"
  by (erule complete_stepE)
    (auto simp: complete_write_def complete_read_begin_def complete_read_end_def returned_update split: if_splits)

definition fresh_completer :: completer where
  "fresh_completer = \<lparr>comp_done = 0, waiters = [], complete_writes = 0\<rparr>"

definition fresh_sleepy :: sleepy where
  "fresh_sleepy = \<lparr>flag = 0, sleepers = [], sleepy_writes = 0\<rparr>"

text \<open>The readers of \<open>sleepy\<close> and one write, in the order in which all of them get through.\<close>

lemma sleepy_begin_all:
  "sleepy_step\<^sup>*\<^sup>* fresh_sleepy (fresh_sleepy\<lparr>sleepers := replicate n Sleeping\<rparr>)"
proof (induction n)
  case 0
  have "fresh_sleepy\<lparr>sleepers := replicate 0 Sleeping\<rparr> = fresh_sleepy" by (simp add: fresh_sleepy_def)
  then show ?case by simp
next
  case (Suc n)
  have "sleepy_step (fresh_sleepy\<lparr>sleepers := replicate n Sleeping\<rparr>) (fresh_sleepy\<lparr>sleepers := replicate (Suc n) Sleeping\<rparr>)"
    using sleepy_step.intros(2) [of "fresh_sleepy\<lparr>sleepers := replicate n Sleeping\<rparr>"]
    by (simp add: sleepy_read_begin_def replicate_append_same)
  with Suc show ?case by (rule rtranclp.rtrancl_into_rtrancl)
qed

lemma sleepy_wake_all:
  assumes "flag s = 1" "sleepers s = xs @ replicate n Sleeping"
  shows "sleepy_step\<^sup>*\<^sup>* s (s\<lparr>sleepers := xs @ replicate n Awake\<rparr>)"
  using assms
proof (induction n arbitrary: xs s)
  case 0
  then have "s\<lparr>sleepers := xs @ replicate 0 Awake\<rparr> = s" by (cases s) simp
  then show ?case by simp
next
  case (Suc n)
  let ?s = "s\<lparr>sleepers := (xs @ [Awake]) @ replicate n Sleeping\<rparr>"
  have "sleepy_step s ?s"
    using Suc.prems by (intro sleepy_step.intros(3) [of "length xs" _ False])
      (simp_all add: sleepy_read_wake_def list_update_append)
  moreover have "sleepy_step\<^sup>*\<^sup>* ?s (?s\<lparr>sleepers := (xs @ [Awake]) @ replicate n Awake\<rparr>)"
    using Suc.prems(1) by (intro Suc.IH) simp_all
  ultimately show ?case by simp
qed

lemma sleepy_end_all:
  assumes "sleepers s = replicate k (Returned 0) @ replicate n Awake" "0 < n"
  shows "sleepy_step\<^sup>*\<^sup>* s (s\<lparr>flag := 0, sleepers := replicate (k + n) (Returned 0)\<rparr>)"
  using assms
proof (induction n arbitrary: k s)
  case 0
  then show ?case by simp
next
  case (Suc n)
  let ?s = "s\<lparr>flag := 0, sleepers := replicate (Suc k) (Returned 0) @ replicate n Awake\<rparr>"
  have st: "sleepy_step s ?s"
    using Suc.prems(1) by (intro sleepy_step.intros(4) [of k])
      (simp_all add: sleepy_read_end_def list_update_append nth_append replicate_app_Cons_same)
  show ?case
  proof (cases "n = 0")
    case True
    with st show ?thesis by simp
  next
    case False
    with Suc.IH [of ?s "Suc k"] have "sleepy_step\<^sup>*\<^sup>* ?s (?s\<lparr>flag := 0, sleepers := replicate (Suc k + n) (Returned 0)\<rparr>)" by simp
    with st show ?thesis by simp
  qed
qed

section \<open>jiq stops\<close>

text \<open>
  While the sequence file has room, \<open>k\<close> lines after the start the module has counted the header and
  the lines again for each line: the file's fill after the header and after every line.
\<close>

fun fills :: "nat \<Rightarrow> nat list \<Rightarrow> nat" where
  "fills c [] = 0"
| "fills c (n # ls) = (c + n) + fills (c + n) ls"

lemma fills_snoc: "fills c (ls @ [n]) = fills c ls + c + sum_list ls + n"
  by (induction ls arbitrary: c) simp_all

definition jiq_counted :: "nat list \<Rightarrow> nat" where
  "jiq_counted ls = (if ls = [] then 0 else jiq_header + fills jiq_header ls)"

lemma jiq_counted_snoc:
  "jiq_counted (ls @ [n]) = jiq_counted ls + (if ls = [] then jiq_header else 0) + jiq_header + sum_list ls + n"
  by (simp add: jiq_counted_def fills_snoc)

lemma jiq_print_counts:
  assumes "jiq_len d = int (jiq_counted ls)" "m_count d = (if ls = [] then 0 else jiq_header + sum_list ls)"
    "jiq_counted ls \<le> 3968" "0 < n" "jiq_header + sum_list ls + n < m_size d" "m_size d < 2 ^ 20"
  shows "\<exists>d'. jiq_print n j d = (True, d') \<and> jiq_len d' = int (jiq_counted (ls @ [n])) \<and>
    m_count d' = jiq_header + sum_list (ls @ [n]) \<and> m_size d' = m_size d \<and> jiq_lines d' = jiq_lines d + 1 \<and> woken d' = woken d"
proof -
  have h: "0 < jiq_header" by (simp add: jiq_header_def)
  have z: "jiq_counted ls = 0 \<longleftrightarrow> ls = []" using h by (auto simp: jiq_counted_def)
  have lim: "\<not> LIMIT < jiq_len d" using assms(1,3) by simp
  show ?thesis
  proof (cases "ls = []")
    case True
    then have "jiq_len d = 0" "m_count d = 0" using assms(1,2) z by simp_all
    then show ?thesis
      using assms(5,6) lim True by (simp add: jiq_print_def seq_print_def Let_def jiq_counted_snoc) (simp add: jiq_counted_def)
  next
    case False
    then have l: "jiq_len d \<noteq> 0" "m_count d = jiq_header + sum_list ls" using assms(1,2) z by simp_all
    show ?thesis
      using assms(1,3,5,6) lim l False by (simp add: jiq_print_def seq_print_def Let_def jiq_counted_snoc)
  qed
qed

text \<open>Lines of 40 to 100 characters.\<close>

definition usual_lines :: "nat list \<Rightarrow> bool" where
  "usual_lines ls \<longleftrightarrow> (\<forall>n \<in> set ls. 40 \<le> n \<and> n \<le> 100)"

lemma header_42: "jiq_header = 42"
  by (simp add: jiq_header_def)

lemma sum_usual: "usual_lines ls \<Longrightarrow> 40 * length ls \<le> sum_list ls \<and> sum_list ls \<le> 100 * length ls"
  by (induction ls) (auto simp: usual_lines_def)

lemma counted_usual:
  assumes "usual_lines ls" "ls \<noteq> []"
  shows "42 + 42 * length ls + 20 * length ls * (length ls + 1) \<le> jiq_counted ls"
  using assms
proof (induction ls rule: rev_induct)
  case Nil
  then show ?case by simp
next
  case (snoc n ls)
  have n: "40 \<le> n" "usual_lines ls" using snoc.prems by (simp_all add: usual_lines_def)
  show ?case
  proof (cases "ls = []")
    case True
    then show ?thesis using n by (simp add: jiq_counted_def header_42)
  next
    case False
    with snoc.IH n(2) sum_usual [OF n(2)] n(1) show ?thesis
      by (simp add: jiq_counted_snoc header_42 algebra_simps)
  qed
qed

lemma counted_length:
  assumes "usual_lines ls" "jiq_counted ls \<le> 3968"
  shows "length ls \<le> 12"
proof (rule ccontr)
  assume "\<not> length ls \<le> 12"
  then have k: "13 \<le> length ls" "ls \<noteq> []" by auto
  have "13 * 14 \<le> length ls * (length ls + 1)" using k(1) by (intro mult_le_mono) simp_all
  with counted_usual [OF assms(1) k(2)] k(1) assms(2) show False by (simp add: mult.assoc)
qed

lemma jiq_runs_done: "\<not> rescheduled d \<Longrightarrow> jiq_runs ls d = d"
  by (cases ls) simp_all

lemma jiq_runs_stop:
  assumes "usual_lines (ps @ ls)" "length ps \<le> 13" "13 < length ps + length ls" "rescheduled d"
    "jiq_len d = int (jiq_counted ps)" "m_count d = (if ps = [] then 0 else jiq_header + sum_list ps)"
    "m_size d = 4096" "jiq_lines d = length ps"
  shows "\<not> rescheduled (jiq_runs ls d) \<and> woken (jiq_runs ls d) \<and> jiq_lines (jiq_runs ls d) \<le> 13 \<and>
    m_count (jiq_runs ls d) = jiq_header + sum_list (take (jiq_lines (jiq_runs ls d)) (ps @ ls))"
  using assms
proof (induction ls arbitrary: ps d)
  case Nil
  then show ?case by simp
next
  case (Cons n ls)
  have u: "usual_lines ps" "40 \<le> n" "n \<le> 100" using Cons.prems(1) by (simp_all add: usual_lines_def)
  show ?case
  proof (cases "jiq_counted ps \<le> 3968")
    case False
    then have "ps \<noteq> []" by (auto simp: jiq_counted_def)
    moreover have "jiq_print_wq n 0 d = d\<lparr>woken := True, rescheduled := False\<rparr>"
      using False Cons.prems(5) by (simp add: jiq_print_wq_def jiq_print_def)
    then have "jiq_runs (n # ls) d = d\<lparr>woken := True, rescheduled := False\<rparr>"
      using Cons.prems(4) by (simp add: jiq_runs_done)
    ultimately show ?thesis using Cons.prems(2,6,8) by simp
  next
    case True
    then have l: "length ps \<le> 12" using counted_length [OF u(1)] by simp
    have "sum_list ps \<le> 1200" using sum_usual [OF u(1)] l by linarith
    then have "jiq_header + sum_list ps + n < m_size d" using u(3) Cons.prems(7) by (simp add: header_42)
    from jiq_print_counts [OF Cons.prems(5,6) True _ this, of 0] u(2) Cons.prems(7) obtain d1 where
      d1: "jiq_print n 0 d = (True, d1)" "jiq_len d1 = int (jiq_counted (ps @ [n]))" "m_count d1 = jiq_header + sum_list (ps @ [n])"
        "m_size d1 = 4096" "jiq_lines d1 = length (ps @ [n])" using Cons.prems(8) by auto
    have e: "jiq_runs (n # ls) d = jiq_runs ls (d1\<lparr>rescheduled := True\<rparr>)"
      using Cons.prems(4) d1(1) by (simp add: jiq_print_wq_def)
    have "usual_lines ((ps @ [n]) @ ls)" "length (ps @ [n]) \<le> 13" "13 < length (ps @ [n]) + length ls"
      using Cons.prems(1,3) l by simp_all
    from Cons.IH [OF this, of "d1\<lparr>rescheduled := True\<rparr>"] d1 show ?thesis unfolding e by simp
  qed
qed

section \<open>Properties\<close>

text \<open>
  The deferred printing ends, but long before its page is full: for lines of 40 to 100
  characters at most 13 are printed, whatever the times, until the work is no longer scheduled and
  the reader woken, because the module counts the whole file again for each line; the file holds
  at most 1342 characters, where the code's limit is 3968.
\<close>

theorem jiq_stops_early:
  assumes "usual_lines ls" "13 < length ls" "m_count d = 0" "m_size d = 4096" "jiq_lines d = 0"
  shows "\<not> rescheduled (jiq_runs ls (jiq_start j d)) \<and> woken (jiq_runs ls (jiq_start j d)) \<and>
    jiq_lines (jiq_runs ls (jiq_start j d)) \<le> 13 \<and> m_count (jiq_runs ls (jiq_start j d)) \<le> 1342"
proof -
  let ?d = "jiq_runs ls (jiq_start j d)"
  have r: "\<not> rescheduled ?d \<and> woken ?d \<and> jiq_lines ?d \<le> 13 \<and> m_count ?d = jiq_header + sum_list (take (jiq_lines ?d) ls)"
    using jiq_runs_stop [of "[]" ls "jiq_start j d"] assms by (simp add: jiq_start_def jiq_counted_def)
  have "usual_lines (take (jiq_lines ?d) ls)" using assms(1) by (auto simp: usual_lines_def dest: in_set_takeD)
  from sum_usual [OF this] r length_take [of "jiq_lines ?d" ls] have "sum_list (take (jiq_lines ?d) ls) \<le> 1300" by linarith
  with r show ?thesis by (simp add: header_42)
qed

lemma jiq_stops_early_witness:
  "woken (jiq_runs (replicate 20 48) (jiq_start 7 \<lparr>m_size = 4096, m_count = 0, jiq_len = 5, jiq_jiffies = 0, woken = False,
    rescheduled = False, jiq_lines = 0\<rparr>))"
  using jiq_stops_early [of "replicate 20 48" "\<lparr>m_size = 4096, m_count = 0, jiq_len = 5, jiq_jiffies = 0, woken = False,
    rescheduled = False, jiq_lines = 0\<rparr>" 7] by (simp add: usual_lines_def)

text \<open>
  Each write to \<open>complete\<close> lets exactly one reader through: in every state that reads and writes,
  in any number and order, lead to, the readers that returned and the writes not yet used are as
  many as the writes.
\<close>

theorem complete_counts:
  assumes "complete_step\<^sup>*\<^sup>* fresh_completer c"
  shows "returned (waiters c) + comp_done c = complete_writes c"
  using assms by (induction rule: rtranclp_induct) (simp_all add: fresh_completer_def complete_step_count)

lemma complete_counts_witness:
  "returned (waiters (fresh_completer\<lparr>comp_done := 1, complete_writes := 1\<rparr>)) + 1 = 1"
proof -
  have "complete_step fresh_completer (fresh_completer\<lparr>comp_done := 1, complete_writes := 1\<rparr>)"
    using complete_step.intros(1) [of fresh_completer 0] by (simp add: complete_write_def fresh_completer_def)
  then have "complete_step\<^sup>*\<^sup>* fresh_completer (fresh_completer\<lparr>comp_done := 1, complete_writes := 1\<rparr>)" by simp
  from complete_counts [OF this] show ?thesis by simp
qed

text \<open>
  In \<open>sleepy\<close> the flag is tested and reset in separate steps: a single write can let any number
  of sleeping readers through.
\<close>

theorem sleepy_wakes_many:
  assumes "0 < n"
  shows "\<exists>s. sleepy_step\<^sup>*\<^sup>* fresh_sleepy s \<and> sleepy_writes s = 1 \<and> returned (sleepers s) = n"
proof -
  let ?s0 = "fresh_sleepy\<lparr>sleepers := replicate n Sleeping\<rparr>"
  let ?s1 = "?s0\<lparr>flag := 1, sleepy_writes := 1\<rparr>" and ?s2 = "?s0\<lparr>flag := 1, sleepy_writes := 1, sleepers := replicate n Awake\<rparr>"
  let ?s3 = "?s2\<lparr>flag := 0, sleepers := replicate n (Returned 0)\<rparr>"
  have "sleepy_step ?s0 ?s1"
    using sleepy_step.intros(1) [of ?s0 0] by (simp add: sleepy_write_def fresh_sleepy_def)
  moreover have "sleepy_step\<^sup>*\<^sup>* ?s1 ?s2" using sleepy_wake_all [of ?s1 "[]" n] by simp
  moreover have "sleepy_step\<^sup>*\<^sup>* ?s2 ?s3" using sleepy_end_all [of ?s2 0 n] assms by simp
  ultimately have "sleepy_step\<^sup>*\<^sup>* fresh_sleepy ?s3"
    using sleepy_begin_all [of n] by (meson rtranclp.rtrancl_into_rtrancl rtranclp_trans)
  then show ?thesis by (intro exI [of _ ?s3]) (simp add: returned_def)
qed

lemma sleepy_wakes_many_witness:
  "\<exists>s. sleepy_step\<^sup>*\<^sup>* fresh_sleepy s \<and> sleepy_writes s = 1 \<and> returned (sleepers s) = 2"
  using sleepy_wakes_many [of 2] by simp

text \<open>A signal lets a reader of \<open>sleepy\<close> through without a write, with the value of a success.\<close>

lemma sleepy_signal:
  "\<exists>s. sleepy_step\<^sup>*\<^sup>* fresh_sleepy s \<and> sleepy_writes s = 0 \<and> sleepers s = [Returned 0]"
proof -
  let ?s0 = "fresh_sleepy\<lparr>sleepers := [Sleeping]\<rparr>" and ?s1 = "fresh_sleepy\<lparr>sleepers := [Awake]\<rparr>" and ?s2 = "fresh_sleepy\<lparr>sleepers := [Returned 0]\<rparr>"
  have "sleepy_step fresh_sleepy ?s0"
    using sleepy_step.intros(2) [of fresh_sleepy] by (simp add: sleepy_read_begin_def fresh_sleepy_def)
  moreover have "sleepy_step ?s0 ?s1"
    by (rule sleepy_step.intros(3) [of 0 _ True]) (simp_all add: sleepy_read_wake_def)
  moreover have "sleepy_step ?s1 ?s2"
    by (rule sleepy_step.intros(4) [of 0]) (simp_all add: sleepy_read_end_def fresh_sleepy_def)
  ultimately have "sleepy_step\<^sup>*\<^sup>* fresh_sleepy ?s2" by (meson converse_rtranclp_into_rtranclp rtranclp.rtrancl_refl)
  then show ?thesis by (intro exI [of _ ?s2]) (simp add: fresh_sleepy_def)
qed

text \<open>The read of \<open>faulty\<close> overruns its buffer of four bytes, and its write uses NULL.\<close>

lemma faulty_undefined: "length stack_buf = 4 \<Longrightarrow> faulty_read stack_buf count = None" "h NULL = None \<Longrightarrow> faulty_write h = None"
  by (simp_all add: faulty_read_def faulty_write_def mem_write_def)

end
