(* ===== verification/Seq_Files.thy ===== *)
theory Seq_Files
  imports Scull Misc_Modules
begin

text \<open>
  Sequence files: the iterator of \<open>misc-modules/seq.c\<close>, whose records are the numbers, and that of
  \<open>scull/main.c\<close>, whose records are the devices.  The four operations of an iterator are called in
  sessions, in the order that their documentation gives; who calls them is no part of the program.
  The contract \<open>seq_iterator\<close> says what they owe their caller, \<open>ending_iterator\<close> what is owed where there
  is a last record.
\<close>

section \<open>The calling order\<close>









section \<open>The iterator of seq.c\<close>










section \<open>The iterator of scull\<close>







section \<open>Properties\<close>



end
