(* ===== verification/Scull_Family.thy ===== *)
theory Scull_Family
  imports Scull
begin

text \<open>
  The drivers \<open>scullc\<close>, \<open>scullp\<close>, \<open>sculld\<close> and \<open>scullv\<close>: the bare device over other
  allocators.  Their texts are the same up to the allocation of a quantum and the unit in which
  its size is given, so each operation is defined here once, over what differs, and the
  operations of the four drivers, in the theories of their own, are its instances.
\<close>

section \<open>State\<close>

text \<open>
  The device is itself the first item of its list, which is therefore never empty.  \<open>xunit\<close> is
  the field \<open>quantum\<close> of \<open>scullc\<close> and the field \<open>order\<close> of the others.
\<close>

record xdev =
  xitems :: "item list"
  vmas :: int
  xunit :: int
  xqset :: int
  xsize :: int
  xlock :: bool

text \<open>The parameters of a module: the unit and the number of quanta to an item.\<close>

record xvars =
  vunit :: int
  vqset :: int

definition x_lock :: "xdev \<Rightarrow> xdev option" where
  "x_lock d = (if xlock d then None else Some (d\<lparr>xlock := True\<rparr>))"

definition x_unlock :: "xdev \<Rightarrow> xdev" where
  "x_unlock d = d\<lparr>xlock := False\<rparr>"

definition x_zero :: xdev where
  "x_zero = \<lparr>xitems = [None], vmas = 0, xunit = 0, xqset = 0, xsize = 0, xlock = False\<rparr>"

text \<open>
  What differs: the size of a quantum for a unit, undefined where the shift is, and the memory a
  new quantum for item \<open>k\<close> is given.
\<close>

type_synonym quantum_size = "int \<Rightarrow> int option"
type_synonym new_quantum = "xdev \<Rightarrow> nat \<Rightarrow> byte list ret option"

section \<open>Trim, open, release\<close>

definition x_trim :: "xvars \<Rightarrow> xdev \<Rightarrow> (int ret \<times> xdev) option" where
  "x_trim g d =
     (if vmas d \<noteq> 0 then Some (Inl EBUSY, d)
      else if list_all (\<lambda>it. case it of None \<Rightarrow> True | Some arr \<Rightarrow> nat (xqset d) \<le> length arr) (xitems d)
      then Some (Inr 0, d\<lparr>xitems := [None], xsize := 0, xqset := vqset g, xunit := vunit g\<rparr>)
      else None)"

definition x_open :: "bool \<Rightarrow> nat \<Rightarrow> xvars \<Rightarrow> xdev \<Rightarrow> (int ret \<times> xdev) option" where
  "x_open intr f_flags g d =
     (if f_flags mod 4 = 1 then
        if intr then Some (Inl ERESTARTSYS, d)
        else do {
          d \<leftarrow> x_lock d;
          (r, d) \<leftarrow> x_trim g d;
          Some (Inr 0, x_unlock d)
        }
      else Some (Inr 0, d))"

section \<open>Read and write\<close>

text \<open>A failed allocation of an item is not checked: the \<open>memset\<close> of NULL is undefined.\<close>

definition x_follow :: "(nat \<Rightarrow> bool) \<Rightarrow> xdev \<Rightarrow> int \<Rightarrow> (nat \<times> xdev) option" where
  "x_follow ok d n =
     (case q_walk ok (walk_count n) 0 (xitems d) of
        (None, its) \<Rightarrow> None
      | (Some k, its) \<Rightarrow> Some (k, d\<lparr>xitems := its\<rparr>))"

definition x_read ::
  "quantum_size \<Rightarrow> bool \<Rightarrow> (nat \<Rightarrow> bool) \<Rightarrow> nat \<Rightarrow> int \<Rightarrow> int \<Rightarrow> xdev \<Rightarrow> (int ret \<times> int \<times> byte list \<times> xdev) option" where
  "x_read quantum_of intr ok nc count f_pos d = do {
     qu \<leftarrow> quantum_of (xunit d);
     let qset' = xqset d;
     if intr then Some (Inl ERESTARTSYS, f_pos, [], d)
     else do {
       d \<leftarrow> x_lock d;
       if xsize d < u64 f_pos then Some (Inr 0, f_pos, [], x_unlock d)
       else do {
         let count = (if xsize d < u64 (f_pos + count) then u64 (xsize d - f_pos) else count);
         (item, s_pos, q_pos) \<leftarrow> q_locate qu qset' f_pos;
         (k, d) \<leftarrow> x_follow ok d item;
         if xitems d ! k = None then Some (Inr 0, f_pos, [], x_unlock d)
         else do {
           e \<leftarrow> q_entry (xitems d) k s_pos;
           case e of
             None \<Rightarrow> Some (Inr 0, f_pos, [], x_unlock d)
           | Some blk \<Rightarrow> do {
               let count = (if u64 (qu - q_pos) < count then u64 (qu - q_pos) else count);
               data \<leftarrow> blk_get blk q_pos count;
               if nc \<noteq> 0 then Some (Inl EFAULT, f_pos, take (length data - nc) data, x_unlock d)
               else Some (Inr count, f_pos + count, data, x_unlock d)
             }
         }
       }
     }
   }"

definition x_need_quantum :: "byte list ret option \<Rightarrow> item list \<Rightarrow> nat \<Rightarrow> int \<Rightarrow> (byte list \<times> item list) ret option" where
  "x_need_quantum new its k s_pos = do {
     e \<leftarrow> q_entry its k s_pos;
     case e of
       Some blk \<Rightarrow> Some (Inr (blk, its))
     | None \<Rightarrow> do {
         r \<leftarrow> new;
         case r of
           Inl e \<Rightarrow> Some (Inl e)
         | Inr blk \<Rightarrow> Some (Inr (blk, q_set its k s_pos blk))
       }
   }"

definition x_write ::
  "quantum_size \<Rightarrow> new_quantum \<Rightarrow> bool \<Rightarrow> (nat \<Rightarrow> bool) \<Rightarrow> bool \<Rightarrow> nat \<Rightarrow> byte list \<Rightarrow> int \<Rightarrow> xdev \<Rightarrow>
     (int ret \<times> int \<times> xdev) option" where
  "x_write quantum_of new intr ok dok nc ub f_pos d = do {
     qu \<leftarrow> quantum_of (xunit d);
     let qset' = xqset d;
     if intr then Some (Inl ERESTARTSYS, f_pos, d)
     else do {
       d \<leftarrow> x_lock d;
       (item, s_pos, q_pos) \<leftarrow> q_locate qu qset' f_pos;
       (k, d) \<leftarrow> x_follow ok d item;
       (case q_need_data dok qset' k (xitems d) of
          Inl e \<Rightarrow> Some (Inl e, f_pos, x_unlock d)
        | Inr its \<Rightarrow> do {
            r \<leftarrow> x_need_quantum (new d k) its k s_pos;
            case r of
              Inl e \<Rightarrow> Some (Inl e, f_pos, x_unlock (d\<lparr>xitems := its\<rparr>))
            | Inr (blk, its) \<Rightarrow> do {
                let count = int (length ub);
                let count = (if u64 (qu - q_pos) < count then u64 (qu - q_pos) else count);
                blk \<leftarrow> blk_put blk q_pos (user_bytes (take (nat count) ub) nc);
                let d = d\<lparr>xitems := q_set its k s_pos blk\<rparr>;
                if nc \<noteq> 0 then Some (Inl EFAULT, f_pos, x_unlock d)
                else
                  let f_pos = f_pos + count in
                  Some (Inr count, f_pos, x_unlock (if xsize d < u64 f_pos then d\<lparr>xsize := u64 f_pos\<rparr> else d))
              }
          })
     }
   }"

section \<open>Control operations\<close>

text \<open>
  The numbers of the commands are not those of the bare device, and no command asks for a
  capability.
\<close>

fun x_nr :: "ioc_op \<Rightarrow> nat" where
  "x_nr Ioc_Set = 1"
| "x_nr Ioc_Tell = 2"
| "x_nr Ioc_Get = 3"
| "x_nr Ioc_Query = 4"
| "x_nr Ioc_Exchange = 5"
| "x_nr Ioc_Shift = 6"

definition x_magic :: nat where "x_magic = 75"

definition x_cmd :: "ioc_op \<Rightarrow> bool \<Rightarrow> nat" where
  "x_cmd opr for_qset = ioc_dir_size opr + x_magic * 256 + x_nr opr + (if for_qset then 6 else 0)"

definition x_decode :: "nat \<Rightarrow> (ioc_op \<times> bool) option" where
  "x_decode cmd =
     map_of (concat (map (\<lambda>opr. [(x_cmd opr False, (opr, False)), (x_cmd opr True, (opr, True))]) ioc_all)) cmd"

definition x_ioctl :: "int \<Rightarrow> int \<Rightarrow> nat \<Rightarrow> user_arg \<Rightarrow> xvars \<Rightarrow> int ret \<times> int option \<times> xvars" where
  "x_ioctl unit_default qset_default cmd a g =
     (case ioctl_checks x_magic 12 cmd a of
        Some e \<Rightarrow> (Inl e, None, g)
      | None \<Rightarrow>
          if cmd = x_magic * 256 then (Inr 0, None, g\<lparr>vqset := qset_default, vunit := unit_default\<rparr>)
          else (case x_decode cmd of
            Some (opr, False) \<Rightarrow> (let (r, p, v) = param_op True opr a (vunit g) in (r, p, g\<lparr>vunit := v\<rparr>))
          | Some (opr, True) \<Rightarrow> (let (r, p, v) = param_op True opr a (vqset g) in (r, p, g\<lparr>vqset := v\<rparr>))
          | None \<Rightarrow> (Inl ENOTTY, None, g)))"

section \<open>The file of /proc\<close>

text \<open>
  The lines printed for the entries of an array from \<open>j\<close> on, with \<open>c\<close> lines printed before;
  \<open>full c\<close> says that the limit is passed after \<open>c\<close> lines.  The number of lines follows.
\<close>

fun x_entry_lines :: "(nat \<Rightarrow> bool) \<Rightarrow> nat \<Rightarrow> nat \<Rightarrow> byte list option list \<Rightarrow> seq_line list" where
  "x_entry_lines full c j [] = []"
| "x_entry_lines full c j (e # es) =
     (let ls = (if e = None then [] else [Entry_line j]); c = c + length ls
      in if full c then ls else ls @ x_entry_lines full c (j + 1) es)"

fun x_item_lines :: "(nat \<Rightarrow> bool) \<Rightarrow> nat \<Rightarrow> int \<Rightarrow> item list \<Rightarrow> seq_line list option" where
  "x_item_lines full c n [] = Some []"
| "x_item_lines full c n (it # its) =
     (if full (c + 1) then Some [Item_line]
      else if its = [] then
        (case it of
           None \<Rightarrow> Some [Item_line]
         | Some arr \<Rightarrow> if nat n \<le> length arr then Some (Item_line # x_entry_lines full (c + 1) 0 (take (nat n) arr)) else None)
      else map_option (\<lambda>ls. Item_line # ls) (x_item_lines full (c + 1) n its))"

fun x_read_procmem :: "(nat \<Rightarrow> bool) \<Rightarrow> nat \<Rightarrow> nat \<Rightarrow> xdev list \<Rightarrow> seq_line list option" where
  "x_read_procmem full c i [] = Some []"
| "x_read_procmem full c i (d # ds) = do {
     d \<leftarrow> x_lock d;
     ls \<leftarrow> x_item_lines full (c + 1) (xqset d) (xitems d);
     let c = c + 1 + length ls;
     rest \<leftarrow> (if full c then Some [] else x_read_procmem full c (i + 1) ds);
     Some (Device_line i (xqset d) (xunit d) (xsize d) # ls @ rest)
   }"

section \<open>Initialisation and cleanup\<close>

definition x_setup :: "xvars \<Rightarrow> xdev \<Rightarrow> xdev" where
  "x_setup g d = d\<lparr>xunit := vunit g, xqset := vqset g, xlock := False\<rparr>"

definition x_init :: "errno option \<Rightarrow> bool \<Rightarrow> nat \<Rightarrow> xvars \<Rightarrow> xdev list ret" where
  "x_init reg_err mem ndevs g =
     (case reg_err of
        Some e \<Rightarrow> Inl e
      | None \<Rightarrow> if \<not> mem then Inl ENOMEM else Inr (map (\<lambda>i. x_setup g x_zero) [0..<ndevs]))"

text \<open>
  Cleanup trims every device, whatever the trim says, and frees the array; the result are the
  items that are left without an owner.
\<close>

fun x_cleanup :: "xvars \<Rightarrow> xdev list \<Rightarrow> item list option" where
  "x_cleanup g [] = Some []"
| "x_cleanup g (d # ds) = do {
     (r, d) \<leftarrow> x_trim g d;
     rest \<leftarrow> x_cleanup g ds;
     Some (filter (\<lambda>it. it \<noteq> None) (xitems d) @ rest)
   }"

section \<open>Mapping\<close>

definition x_vma_open :: "xdev \<Rightarrow> xdev" where
  "x_vma_open d = d\<lparr>vmas := s32 (vmas d + 1)\<rparr>"

definition x_vma_close :: "xdev \<Rightarrow> xdev" where
  "x_vma_close d = d\<lparr>vmas := s32 (vmas d - 1)\<rparr>"

text \<open>The walk of a page fault: the item and the index into its array, or the end of the list.\<close>

fun nopage_walk :: "int \<Rightarrow> item list \<Rightarrow> int \<Rightarrow> (item \<times> int) option" where
  "nopage_walk n [] offset = None"
| "nopage_walk n (it # its) offset =
     (if u64 n \<le> offset then nopage_walk n its (u64 (offset - n)) else Some (it, offset))"

text \<open>
  A page fault at an address: the block whose first page is mapped there, or no page.  The
  address is given relative to the start of the area, which begins at page \<open>pgoff\<close> of the device.
\<close>

definition x_vma_nopage :: "int \<Rightarrow> int \<Rightarrow> xdev \<Rightarrow> (byte list option \<times> xdev) option" where
  "x_vma_nopage rel pgoff d = do {
     d \<leftarrow> x_lock d;
     let offset = u64 (rel + pgoff * 4096);
     if xsize d \<le> offset then Some (None, x_unlock d)
     else case nopage_walk (xqset d) (xitems d) (offset div 4096) of
       None \<Rightarrow> Some (None, x_unlock d)
     | Some (None, i) \<Rightarrow> Some (None, x_unlock d)
     | Some (Some arr, i) \<Rightarrow> do {
         page \<leftarrow> mem_at arr (nat i);
         Some (page, x_unlock d)
       }
   }"

section \<open>The family and the bare device\<close>

text \<open>
  A device of the family with quanta of \<open>q\<close> bytes seen as a bare device, and the device that a
  bare device stands for.
\<close>

definition as_scull :: "int \<Rightarrow> xdev \<Rightarrow> scull_dev" where
  "as_scull q d = \<lparr>sdata = xitems d, quantum = q, qset = xqset d, ssize = xsize d, slock = xlock d\<rparr>"

definition from_scull :: "xdev \<Rightarrow> scull_dev \<Rightarrow> xdev" where
  "from_scull d s = d\<lparr>xitems := sdata s, xsize := ssize s, xlock := slock s\<rparr>"

lemma as_from_scull:
  "quantum s = q \<Longrightarrow> qset s = xqset d \<Longrightarrow> as_scull q (from_scull d s) = s"
  by (cases s) (simp add: as_scull_def from_scull_def)

lemma from_scull_simps [simp]:
  "xunit (from_scull d s) = xunit d" "xqset (from_scull d s) = xqset d" "vmas (from_scull d s) = vmas d"
  "xitems (from_scull d s) = sdata s"
  by (simp_all add: from_scull_def)

lemma q_walk_all: "k < length its \<Longrightarrow> (\<forall>i. ok i) \<Longrightarrow> \<exists>its'. q_walk ok n k its = (Some (k + n), its') \<and> its' \<noteq> []"
  using q_walk_any [of k its ok n] by (metis append_is_Nil_conv length_0_conv not_less_zero)

lemma follow_scull:
  assumes "xitems d \<noteq> []" "\<forall>i. ok i"
  shows "\<exists>its. its \<noteq> [] \<and> x_follow ok (d\<lparr>xlock := b\<rparr>) n = Some (walk_count n, d\<lparr>xlock := b, xitems := its\<rparr>) \<and>
    (\<forall>m. item_ok m = ok \<longrightarrow> scull_follow m (as_scull q d\<lparr>slock := b\<rparr>) n = (Some (walk_count n), as_scull q d\<lparr>slock := b, sdata := its\<rparr>))"
proof -
  from assms q_walk_all [of 0 "xitems d" ok "walk_count n"] obtain its where
    "q_walk ok (walk_count n) 0 (xitems d) = (Some (walk_count n), its)" "its \<noteq> []" by auto
  with assms show ?thesis by (auto simp: x_follow_def scull_follow_def as_scull_def)
qed

text \<open>
  While memory lasts, a read of a device of the family is the read of the bare device, except
  exactly at the end of the data, where it walks on and delivers no byte.
\<close>

lemma x_read_scull:
  assumes "quantum_of (xunit d) = Some q" "xitems d \<noteq> []" "\<forall>i. ok i" "item_ok m = ok" "xsize d \<noteq> u64 f_pos"
  shows "x_read quantum_of intr ok nc count f_pos d =
    map_option (\<lambda>(r, f, data, s). (r, f, data, from_scull d s)) (scull_read intr m nc count f_pos (as_scull q d))"
proof (cases "intr \<or> xlock d \<or> xsize d < u64 f_pos")
  case True
  then show ?thesis using assms(1)
    by (cases d) (auto simp: x_read_def scull_read_def x_lock_def scull_lock_def as_scull_def from_scull_def
      x_unlock_def scull_unlock_def)
next
  case False
  with assms(5) have z: "\<not> intr" "\<not> xlock d" "\<not> xsize d < u64 f_pos" "\<not> xsize d \<le> u64 f_pos" by auto
  define c where "c = (if xsize d < u64 (f_pos + count) then u64 (xsize d - f_pos) else count)"
  show ?thesis
  proof (cases "q_locate q (xqset d) f_pos")
    case None
    with z assms(1) show ?thesis
      by (simp add: x_read_def scull_read_def x_lock_def scull_lock_def as_scull_def)
  next
    case (Some l)
    obtain item s_pos q_pos where l: "l = (item, s_pos, q_pos)" by (cases l) auto
    from follow_scull [OF assms(2,3), where b = True and q = q and n = item] assms(4) obtain its where
      f: "its \<noteq> []" "x_follow ok (d\<lparr>xlock := True\<rparr>) item = Some (walk_count item, d\<lparr>xlock := True, xitems := its\<rparr>)"
        "scull_follow m (as_scull q d\<lparr>slock := True\<rparr>) item = (Some (walk_count item), as_scull q d\<lparr>slock := True, sdata := its\<rparr>)"
      by auto
    let ?k = "walk_count item"
    define c' where "c' = (if u64 (q - q_pos) < c then u64 (q - q_pos) else c)"
    have e1: "from_scull d (scull_unlock (as_scull q d\<lparr>slock := True, sdata := its\<rparr>)) = d\<lparr>xitems := its\<rparr>"
      "x_unlock (d\<lparr>xlock := True, xitems := its\<rparr>) = d\<lparr>xitems := its\<rparr>"
      using z(2) by (cases d, simp add: from_scull_def scull_unlock_def as_scull_def x_unlock_def)+
    have x: "x_read quantum_of intr ok nc count f_pos d =
      (if its ! ?k = None then Some (Inr 0, f_pos, [], d\<lparr>xitems := its\<rparr>)
       else q_entry its ?k s_pos \<bind> (\<lambda>e. case e of
           None \<Rightarrow> Some (Inr 0, f_pos, [], d\<lparr>xitems := its\<rparr>)
         | Some blk \<Rightarrow> blk_get blk q_pos c' \<bind> (\<lambda>data.
             if nc \<noteq> 0 then Some (Inl EFAULT, f_pos, take (length data - nc) data, d\<lparr>xitems := its\<rparr>)
             else Some (Inr c', f_pos + c', data, d\<lparr>xitems := its\<rparr>))))"
      using z assms(1) Some l f(2) e1(2)
      by (simp add: x_read_def x_lock_def c_def c'_def Let_def cong: option.case_cong if_cong split del: if_split)
    have s: "scull_read intr m nc count f_pos (as_scull q d) =
      (let s = scull_unlock (as_scull q d\<lparr>slock := True, sdata := its\<rparr>) in
       if its ! ?k = None then Some (Inr 0, f_pos, [], s)
       else q_entry its ?k s_pos \<bind> (\<lambda>e. case e of
           None \<Rightarrow> Some (Inr 0, f_pos, [], s)
         | Some blk \<Rightarrow> blk_get blk q_pos c' \<bind> (\<lambda>data.
             if nc \<noteq> 0 then Some (Inl EFAULT, f_pos, take (length data - nc) data, s)
             else Some (Inr c', f_pos + c', data, s))))"
    proof -
      have p: "slock (as_scull q d) = False" "ssize (as_scull q d) = xsize d" "quantum (as_scull q d) = q"
        "qset (as_scull q d) = xqset d" using z(2) by (simp_all add: as_scull_def)
      show ?thesis
        using z Some l f(3)
        by (simp add: p scull_read_def scull_lock_def c_def c'_def Let_def cong: option.case_cong if_cong split del: if_split)
    qed
    show ?thesis
      unfolding x s Let_def
      by (auto simp: e1(1) bind_eq_Some_conv split: option.splits Option.bind_splits)
  qed
qed

lemma need_quantum_scull:
  assumes "new = (if quantum_ok m \<and> 0 \<le> q then Some (Inr (map (fill m) [0..<nat q])) else Some (Inl ENOMEM))"
  shows "x_need_quantum new its k s_pos = scull_need_quantum m q its k s_pos"
  unfolding assms x_need_quantum_def scull_need_quantum_def Let_def
  by (cases "quantum_ok m \<and> 0 \<le> q") (auto cong: option.case_cong)

text \<open>
  While memory for the items lasts, a write to a device of the family is the write of the bare
  device, provided the memory it takes for a quantum is what the bare device would be given.
\<close>

lemma x_write_scull:
  assumes "quantum_of (xunit d) = Some q" "xitems d \<noteq> []" "\<forall>i. ok i" "item_ok m = ok"
    and new: "\<forall>item s_pos q_pos its. q_locate q (xqset d) f_pos = Some (item, s_pos, q_pos) \<longrightarrow>
      new (d\<lparr>xlock := True, xitems := its\<rparr>) (walk_count item) =
        (if quantum_ok m \<and> 0 \<le> q then Some (Inr (map (fill m) [0..<nat q])) else Some (Inl ENOMEM))"
  shows "x_write quantum_of new intr ok (data_ok m) nc ub f_pos d =
    map_option (\<lambda>(r, f, s). (r, f, from_scull d s)) (scull_write intr m nc ub f_pos (as_scull q d))"
proof (cases "intr \<or> xlock d \<or> q_locate q (xqset d) f_pos = None")
  case True
  then show ?thesis using assms(1)
    by (cases d) (auto simp: x_write_def scull_write_def x_lock_def scull_lock_def as_scull_def from_scull_def)
next
  case False
  then obtain item s_pos q_pos where z: "\<not> intr" "\<not> xlock d" and l: "q_locate q (xqset d) f_pos = Some (item, s_pos, q_pos)"
    by (cases "q_locate q (xqset d) f_pos") auto
  from follow_scull [OF assms(2,3), where b = True and q = q and n = item] assms(4) obtain its where
    f: "its \<noteq> []" "x_follow ok (d\<lparr>xlock := True\<rparr>) item = Some (walk_count item, d\<lparr>xlock := True, xitems := its\<rparr>)"
      "scull_follow m (as_scull q d\<lparr>slock := True\<rparr>) item = (Some (walk_count item), as_scull q d\<lparr>slock := True, sdata := its\<rparr>)"
    by auto
  let ?k = "walk_count item"
  define c where "c = (if u64 (q - q_pos) < int (length ub) then u64 (q - q_pos) else int (length ub))"
  have e1: "from_scull d (scull_unlock (as_scull q d\<lparr>slock := True, sdata := its\<rparr>)) = d\<lparr>xitems := its\<rparr>"
    "x_unlock (d\<lparr>xlock := True, xitems := its\<rparr>) = d\<lparr>xitems := its\<rparr>"
    "from_scull d (scull_unlock (as_scull q d\<lparr>slock := True, sdata := its, ssize := sz\<rparr>)) = d\<lparr>xitems := its, xsize := sz\<rparr>"
    "x_unlock (d\<lparr>xlock := True, xitems := its, xsize := sz\<rparr>) = d\<lparr>xitems := its, xsize := sz\<rparr>" for its sz
    using z(2) by (cases d, simp add: from_scull_def scull_unlock_def as_scull_def x_unlock_def)+
  have p: "slock (as_scull q d) = False" "ssize (as_scull q d) = xsize d" "quantum (as_scull q d) = q"
    "qset (as_scull q d) = xqset d" using z(2) by (simp_all add: as_scull_def)
  have nq: "x_need_quantum (new (d\<lparr>xlock := True, xitems := its\<rparr>) ?k) its' ?k s_pos = scull_need_quantum m q its' ?k s_pos" for its'
    using new l by (intro need_quantum_scull) blast
  have x: "x_write quantum_of new intr ok (data_ok m) nc ub f_pos d =
    (case q_need_data (data_ok m) (xqset d) ?k its of
       Inl e \<Rightarrow> Some (Inl e, f_pos, d\<lparr>xitems := its\<rparr>)
     | Inr its1 \<Rightarrow> scull_need_quantum m q its1 ?k s_pos \<bind> (\<lambda>r. case r of
         Inl e \<Rightarrow> Some (Inl e, f_pos, d\<lparr>xitems := its1\<rparr>)
       | Inr (blk, its2) \<Rightarrow> blk_put blk q_pos (user_bytes (take (nat c) ub) nc) \<bind> (\<lambda>blk.
           if nc \<noteq> 0 then Some (Inl EFAULT, f_pos, d\<lparr>xitems := q_set its2 ?k s_pos blk\<rparr>)
           else Some (Inr c, f_pos + c, if xsize d < u64 (f_pos + c)
             then d\<lparr>xitems := q_set its2 ?k s_pos blk, xsize := u64 (f_pos + c)\<rparr>
             else d\<lparr>xitems := q_set its2 ?k s_pos blk\<rparr>))))"
    using z assms(1) l f(2) e1(2,4) nq
    by (simp add: x_write_def x_lock_def c_def Let_def if_distrib [of x_unlock]
        cong: option.case_cong if_cong sum.case_cong prod.case_cong split del: if_split)
  have s: "scull_write intr m nc ub f_pos (as_scull q d) =
    (case q_need_data (data_ok m) (xqset d) ?k its of
       Inl e \<Rightarrow> Some (Inl e, f_pos, scull_unlock (as_scull q d\<lparr>slock := True, sdata := its\<rparr>))
     | Inr its1 \<Rightarrow> scull_need_quantum m q its1 ?k s_pos \<bind> (\<lambda>r. case r of
         Inl e \<Rightarrow> Some (Inl e, f_pos, scull_unlock (as_scull q d\<lparr>slock := True, sdata := its1\<rparr>))
       | Inr (blk, its2) \<Rightarrow> blk_put blk q_pos (user_bytes (take (nat c) ub) nc) \<bind> (\<lambda>blk.
           if nc \<noteq> 0 then Some (Inl EFAULT, f_pos, scull_unlock (as_scull q d\<lparr>slock := True, sdata := q_set its2 ?k s_pos blk\<rparr>))
           else Some (Inr c, f_pos + c, if xsize d < u64 (f_pos + c)
             then scull_unlock (as_scull q d\<lparr>slock := True, sdata := q_set its2 ?k s_pos blk, ssize := u64 (f_pos + c)\<rparr>)
             else scull_unlock (as_scull q d\<lparr>slock := True, sdata := q_set its2 ?k s_pos blk\<rparr>)))))"
    using z l f(3)
    by (simp add: p scull_write_def scull_lock_def c_def Let_def if_distrib [of scull_unlock]
        cong: option.case_cong if_cong sum.case_cong prod.case_cong split del: if_split)
  show ?thesis
    unfolding x s
    by (auto simp: e1 split: option.splits sum.splits prod.splits Option.bind_splits)
qed

section \<open>What an allocator promises\<close>

text \<open>The device as a store of bytes, through the bare device it stands for.\<close>

definition x_quantum :: "quantum_size \<Rightarrow> xdev \<Rightarrow> int" where
  "x_quantum quantum_of d = (case quantum_of (xunit d) of None \<Rightarrow> 0 | Some q \<Rightarrow> q)"

definition x_view :: "quantum_size \<Rightarrow> xdev \<Rightarrow> byte list" where
  "x_view quantum_of d = scull_view (as_scull (x_quantum quantum_of d) d)"

definition x_good :: "quantum_size \<Rightarrow> xdev \<Rightarrow> bool" where
  "x_good quantum_of d \<longleftrightarrow> quantum_of (xunit d) \<noteq> None \<and> xitems d \<noteq> [] \<and> scull_good (as_scull (x_quantum quantum_of d) d)"

text \<open>
  The positions that can be written: those whose item number is an \<open>int\<close> and below the number of
  items the allocator serves.
\<close>

definition x_limit :: "quantum_size \<Rightarrow> nat \<Rightarrow> xdev \<Rightarrow> nat" where
  "x_limit quantum_of reach d =
     min (reach * (nat (x_quantum quantum_of d) * nat (xqset d))) (scull_limit (as_scull (x_quantum quantum_of d) d))"

definition x_rd :: "quantum_size \<Rightarrow> nat \<Rightarrow> nat \<Rightarrow> xdev \<Rightarrow> (byte list \<times> nat \<times> xdev) option" where
  "x_rd quantum_of n pos d =
     (case x_read quantum_of False (\<lambda>_. True) 0 (int n) (int pos) d of
        Some (Inr _, f_pos, data, d') \<Rightarrow> Some (data, nat f_pos, d') | _ \<Rightarrow> None)"

definition x_wr :: "quantum_size \<Rightarrow> new_quantum \<Rightarrow> byte list \<Rightarrow> nat \<Rightarrow> xdev \<Rightarrow> (nat \<times> xdev) option" where
  "x_wr quantum_of new data pos d =
     (case x_write quantum_of new False (\<lambda>_. True) True 0 data (int pos) d of
        Some (Inr n, _, d') \<Rightarrow> Some (nat n, d') | _ \<Rightarrow> None)"

definition zero_mem :: smem where
  "zero_mem = \<lparr>item_ok = (\<lambda>_. True), data_ok = True, quantum_ok = True, fill = (\<lambda>_. 0)\<rparr>"

lemma zero_mem_ok: "mem_ok zero_mem"
  by (simp add: zero_mem_def mem_ok_def)

text \<open>What a step of the bare device gives for the device of the family.\<close>

lemma x_good_from:
  assumes "x_good quantum_of d" "scull_good s" "quantum s = x_quantum quantum_of d" "qset s = xqset d" "sdata s \<noteq> []"
  shows "x_good quantum_of (from_scull d s)" "x_view quantum_of (from_scull d s) = scull_view s"
    "x_limit quantum_of reach (from_scull d s) = x_limit quantum_of reach d"
proof -
  have q: "x_quantum quantum_of (from_scull d s) = x_quantum quantum_of d" by (simp add: x_quantum_def)
  have a: "as_scull (x_quantum quantum_of d) (from_scull d s) = s" using assms by (intro as_from_scull)
  show "x_good quantum_of (from_scull d s)" using assms by (simp add: x_good_def q a)
  show "x_view quantum_of (from_scull d s) = scull_view s" by (simp add: x_view_def q a)
  show "x_limit quantum_of reach (from_scull d s) = x_limit quantum_of reach d"
    using assms(3,4) by (simp add: x_limit_def q a) (simp add: scull_limit_def as_scull_def)
qed

lemma good_items: "scull_good s \<Longrightarrow> scull_view s \<noteq> [] \<Longrightarrow> sdata s \<noteq> []"
  by (auto simp: scull_good_def scull_view_def sbyte_def q_byte_def q_page_def dest!: spec [of _ 0])

text \<open>A read at the end of the data, which walks on and delivers nothing.\<close>

lemma x_read_bump:
  assumes "quantum_of (xunit d) = Some q" "xitems d \<noteq> []" "\<not> xlock d" "xsize d = int pos" "pos < 2 ^ 62" "n < 2 ^ 62"
  shows "x_read quantum_of False (\<lambda>_. True) 0 (int n) (int pos) d =
    map_option (\<lambda>(r, f, data, d'). (r, f, data, d'\<lparr>xsize := xsize d\<rparr>))
      (x_read quantum_of False (\<lambda>_. True) 0 0 (int pos) (d\<lparr>xsize := int pos + 1\<rparr>))"
proof (cases "q_locate q (xqset d) (int pos)")
  case None
  with assms show ?thesis by (simp add: x_read_def x_lock_def)
next
  case (Some l)
  obtain item s_pos q_pos where l: "l = (item, s_pos, q_pos)" by (cases l) auto
  let ?d = "d\<lparr>xsize := int pos + 1\<rparr>"
  obtain its where w: "q_walk (\<lambda>_. True) (walk_count item) 0 (xitems d) = (Some (walk_count item), its)"
    using q_walk_all [of 0 "xitems d" "\<lambda>_. True" "walk_count item"] assms(2) by auto
  have f: "x_follow (\<lambda>_. True) (d\<lparr>xlock := True\<rparr>) item = Some (walk_count item, d\<lparr>xlock := True, xitems := its\<rparr>)"
    "x_follow (\<lambda>_. True) (?d\<lparr>xlock := True\<rparr>) item = Some (walk_count item, ?d\<lparr>xlock := True, xitems := its\<rparr>)"
    using w by (simp_all add: x_follow_def)
  have e: "x_unlock (d\<lparr>xlock := True, xitems := its\<rparr>) = d\<lparr>xitems := its\<rparr>"
    "x_unlock (?d\<lparr>xlock := True, xitems := its\<rparr>) = ?d\<lparr>xitems := its\<rparr>"
    using assms(3) by (cases d, simp add: x_unlock_def)+
  have p: "u64 (int pos) = int pos" using assms(5) by simp
  have c: "(if xsize d < u64 (int pos + int n) then u64 (xsize d - int pos) else int n) = 0"
    using assms(4,5,6) by simp
  let ?tail = "\<lambda>d'. if its ! walk_count item = None then Some (Inr 0, int pos, [], d')
    else q_entry its (walk_count item) s_pos \<bind> (\<lambda>e. case e of
        None \<Rightarrow> Some (Inr 0, int pos, [], d')
      | Some blk \<Rightarrow> blk_get blk q_pos (if u64 (q - q_pos) < 0 then u64 (q - q_pos) else 0) \<bind> (\<lambda>data.
          Some (Inr (if u64 (q - q_pos) < 0 then u64 (q - q_pos) else 0),
            int pos + (if u64 (q - q_pos) < 0 then u64 (q - q_pos) else 0), data, d')))"
  have a: "x_read quantum_of False (\<lambda>_. True) 0 (int n) (int pos) d = ?tail (d\<lparr>xitems := its\<rparr>)"
    using assms(1,3,4) Some l f(1) e(1) p c
    by (simp add: x_read_def x_lock_def Let_def cong: option.case_cong if_cong split del: if_split)
  have b: "x_read quantum_of False (\<lambda>_. True) 0 0 (int pos) ?d = ?tail (?d\<lparr>xitems := its\<rparr>)"
    using assms(1,3,4) Some l f(2) e(2) p
    by (simp add: x_read_def x_lock_def Let_def cong: option.case_cong if_cong split del: if_split)
  have "?d\<lparr>xitems := its, xsize := xsize d\<rparr> = d\<lparr>xitems := its\<rparr>" by (cases d) simp
  then show ?thesis
    unfolding a b by (auto split: option.splits Option.bind_splits)
qed

lemma x_rd_end:
  assumes good: "x_good quantum_of d" and pos: "pos = length (x_view quantum_of d)" and n: "n < 2 ^ 62"
  shows "\<exists>d'. x_rd quantum_of n pos d = Some ([], pos, d') \<and> x_good quantum_of d' \<and> x_view quantum_of d' = x_view quantum_of d \<and>
    xunit d' = xunit d"
proof -
  obtain q where q: "quantum_of (xunit d) = Some q" "x_quantum quantum_of d = q"
    using good by (auto simp: x_good_def x_quantum_def)
  let ?s = "as_scull q d"
  have s: "scull_good ?s" "xitems d \<noteq> []" using good q by (auto simp: x_good_def)
  have ok: "scull_ok (nat q) (nat (xqset d)) ?s" using s(1) by (simp add: scull_good_def as_scull_def)
  then have o: "0 \<le> xsize d" "\<not> xlock d" "nat (xsize d) \<le> scull_limit ?s"
    using s(1) by (auto simp: scull_ok_def as_scull_def scull_good_def)
  have z: "xsize d = int pos" using pos o(1) q(2) by (simp add: x_view_def scull_view_def as_scull_def)
  note b = scull_good_bounds [OF s(1), of pos]
  have pb: "pos < 2 ^ 62" "pos div (nat q * nat (xqset d)) < 2 ^ 31"
    using b o(3) z by (simp_all add: as_scull_def)
  let ?d = "d\<lparr>xsize := int pos + 1\<rparr>"
  have ok2: "scull_ok (nat q) (nat (xqset d)) (as_scull q ?d)"
    using ok pb(1) by (simp add: scull_ok_def as_scull_def)
  have "int pos + 0 < 2 ^ 63" using pb(1) by simp
  from scull_read_spec [OF ok2 pb(2) order_refl this, of zero_mem 0] obtain j where
    r: "scull_read False zero_mem 0 0 (int pos) (as_scull q ?d) =
      Some (Inr 0, int pos, [], as_scull q ?d\<lparr>sdata := xitems d @ replicate j None\<rparr>)"
    by (auto simp: as_scull_def Let_def split: if_splits)
  have "xsize ?d \<noteq> u64 (int pos)" using pb(1) by simp
  from x_read_scull [OF _ _ _ _ this, of quantum_of q "\<lambda>_. True" zero_mem False 0 0] r q(1) s(2)
  have "x_read quantum_of False (\<lambda>_. True) 0 0 (int pos) ?d =
      Some (Inr 0, int pos, [], from_scull ?d (as_scull q ?d\<lparr>sdata := xitems d @ replicate j None\<rparr>))"
    by (simp add: zero_mem_def)
  with x_read_bump [where quantum_of = quantum_of, OF q(1) s(2) o(2) z pb(1) n]
  have rd: "x_rd quantum_of n pos d = Some ([], pos, d\<lparr>xitems := xitems d @ replicate j None\<rparr>)"
    by (cases d) (simp add: x_rd_def from_scull_def as_scull_def)
  let ?s' = "?s\<lparr>sdata := sdata ?s @ replicate j None\<rparr>"
  have e: "d\<lparr>xitems := xitems d @ replicate j None\<rparr> = from_scull d ?s'"
    by (cases d) (simp add: from_scull_def as_scull_def)
  note pad = scull_pad [OF s(1), of j]
  have c: "quantum ?s' = x_quantum quantum_of d" "qset ?s' = xqset d" "sdata ?s' \<noteq> []"
    using q(2) s(2) by (simp_all add: as_scull_def)
  show ?thesis
    using rd x_good_from [OF good pad(1) c] pad(2) q(2) unfolding e by (auto simp: x_view_def)
qed


lemma x_rd_next:
  assumes good: "x_good quantum_of d" and n: "0 < n" "n < 2 ^ 62" and pos: "pos \<le> length (x_view quantum_of d)"
  shows "\<exists>data pos' d' rest. x_rd quantum_of n pos d = Some (data, pos', d') \<and> x_good quantum_of d' \<and> xunit d' = xunit d \<and>
    x_view quantum_of d' = x_view quantum_of d \<and> length data \<le> n \<and> drop pos (x_view quantum_of d) = data @ rest \<and>
    (data = [] \<longrightarrow> rest = []) \<and> (data \<noteq> [] \<longrightarrow> pos' = pos + length data)"
proof (cases "pos = length (x_view quantum_of d)")
  case True
  from x_rd_end [OF good True n(2)] True show ?thesis by auto
next
  case False
  obtain q where q: "quantum_of (xunit d) = Some q" "x_quantum quantum_of d = q"
    using good by (auto simp: x_good_def x_quantum_def)
  let ?s = "as_scull q d"
  have s: "scull_good ?s" "xitems d \<noteq> []" using good q by (auto simp: x_good_def)
  have v: "x_view quantum_of d = scull_view ?s" using q(2) by (simp add: x_view_def)
  have pz: "int pos < xsize d" using False pos by (simp add: v scull_view_def as_scull_def)
  have "xsize d < 2 ^ 63" using s(1) by (simp add: scull_good_def scull_ok_def as_scull_def)
  with pz have "u64 (int pos) = int pos" by simp
  with pz have "xsize d \<noteq> u64 (int pos)" by simp
  note x = x_read_scull [where quantum_of = quantum_of and ok = "\<lambda>_. True" and m = zero_mem, OF q(1) s(2) _ _ this]
  have "pos \<le> length (scull_view ?s)" using pos v by simp
  from scull_rd_next [OF s(1) n this, of zero_mem] obtain data pos' s' rest where
    r: "scull_rd zero_mem n pos ?s = Some (data, pos', s')" "scull_good s'" "quantum s' = quantum ?s" "qset s' = qset ?s"
      "scull_view s' = scull_view ?s" "length data \<le> n" "drop pos (scull_view ?s) = data @ rest"
      "data = [] \<longrightarrow> rest = []" "data \<noteq> [] \<longrightarrow> pos' = pos + length data" by blast
  have "scull_view s' \<noteq> []" using pz r(5) by (auto simp: scull_view_def as_scull_def)
  then have i: "sdata s' \<noteq> []" by (rule good_items [OF r(2)])
  have rd: "x_rd quantum_of n pos d = Some (data, pos', from_scull d s')"
    using r(1) x [of False 0 "int n"]
    by (auto simp: x_rd_def scull_rd_def zero_mem_def split: option.splits sum.splits prod.splits)
  have c: "quantum s' = x_quantum quantum_of d" "qset s' = xqset d" using r(3,4) q(2) by (simp_all add: as_scull_def)
  note g = x_good_from [OF good r(2) c i]
  show ?thesis using rd g(1,2) r(5-9) v by auto
qed

text \<open>
  The contract of an allocator: for the devices it admits, it gives the items below \<open>reach\<close> zeroed
  quanta of the full size.  Then the driver is a store of bytes up to the limit.
\<close>

locale quantum_allocator =
  fixes quantum_of :: quantum_size
    and new :: new_quantum
    and admitted :: "int \<Rightarrow> bool"
    and reach :: "int \<Rightarrow> nat"
  assumes new_full: "admitted (xunit d) \<Longrightarrow> quantum_of (xunit d) = Some q \<Longrightarrow> k < reach (xunit d) \<Longrightarrow>
    new d k = Some (Inr (replicate (nat q) 0))"
begin

lemma x_wr_next:
  assumes good: "x_good quantum_of d" and adm: "admitted (xunit d)" and data: "data \<noteq> []"
    and pos: "pos \<le> length (x_view quantum_of d)" and lim: "pos + length data \<le> x_limit quantum_of (reach (xunit d)) d"
  shows "\<exists>n d'. x_wr quantum_of new data pos d = Some (n, d') \<and> 0 < n \<and> n \<le> length data \<and> x_good quantum_of d' \<and>
    xunit d' = xunit d \<and> x_limit quantum_of (reach (xunit d')) d' = x_limit quantum_of (reach (xunit d)) d \<and>
    x_view quantum_of d' = take pos (x_view quantum_of d) @ take n data @ drop (pos + n) (x_view quantum_of d)"
proof -
  obtain q where q: "quantum_of (xunit d) = Some q" "x_quantum quantum_of d = q"
    using good by (auto simp: x_good_def x_quantum_def)
  let ?s = "as_scull q d"
  have s: "scull_good ?s" "xitems d \<noteq> []" using good q by (auto simp: x_good_def)
  have v: "x_view quantum_of d = scull_view ?s" using q(2) by (simp add: x_view_def)
  have wf: "0 < nat q" "0 < nat (xqset d)" "nat q * nat (xqset d) < 2 ^ 31" "q = int (nat q)" "xqset d = int (nat (xqset d))"
    using s(1) by (auto simp: scull_good_def scull_ok_def as_scull_def q_wf_def)
  have sl: "pos + length data \<le> scull_limit ?s" and rl: "pos + length data \<le> reach (xunit d) * (nat q * nat (xqset d))"
    using lim q(2) by (simp_all add: x_limit_def)
  have "pos \<le> scull_limit ?s" using sl by simp
  from scull_good_bounds(1) [OF s(1) this] have b: "pos div (nat q * nat (xqset d)) < 2 ^ 31" by (simp add: as_scull_def)
  have "pos < reach (xunit d) * (nat q * nat (xqset d))" using rl data by (cases data) auto
  then have k: "pos div nat q div nat (xqset d) < reach (xunit d)"
    by (simp add: less_mult_imp_div_less flip: div_mult2_eq)
  have loc: "q_locate q (xqset d) (int pos) = Some (int (pos div nat q div nat (xqset d)), int (pos div nat q mod nat (xqset d)), int (pos mod nat q))"
    using q_locate_nat [OF wf(1-3) b] wf(4,5) by simp
  have "walk_count (int (pos div nat q div nat (xqset d))) = pos div nat q div nat (xqset d)"
    using b by (intro walk_count_nat) (simp add: div_mult2_eq)
  then have new: "\<forall>item s_pos q_pos its. q_locate q (xqset d) (int pos) = Some (item, s_pos, q_pos) \<longrightarrow>
      new (d\<lparr>xlock := True, xitems := its\<rparr>) (walk_count item) =
        (if quantum_ok zero_mem \<and> 0 \<le> q then Some (Inr (map (fill zero_mem) [0..<nat q])) else Some (Inl ENOMEM))"
    using loc k wf(1) adm q(1) new_full [of "d\<lparr>xlock := True, xitems := its\<rparr>" q for its]
    by (simp add: zero_mem_def map_replicate_const)
  have "pos \<le> length (scull_view ?s)" using pos v by simp
  from scull_wr_next [OF s(1) zero_mem_ok data this sl] obtain n s' where
    r: "scull_wr zero_mem data pos ?s = Some (n, s')" "0 < n" "n \<le> length data" "scull_good s'" "quantum s' = quantum ?s"
      "qset s' = qset ?s" "scull_view s' = take pos (scull_view ?s) @ take n data @ drop (pos + n) (scull_view ?s)" by blast
  have "scull_view s' \<noteq> []" using r(2,3,7) data by auto
  then have i: "sdata s' \<noteq> []" by (rule good_items [OF r(4)])
  have wr: "x_wr quantum_of new data pos d = Some (n, from_scull d s')"
    using r(1) x_write_scull [where quantum_of = quantum_of and ok = "\<lambda>_. True" and m = zero_mem and new = new and intr = False
      and nc = 0 and ub = data, OF q(1) s(2) _ _ new]
    by (auto simp: x_wr_def scull_wr_def zero_mem_def split: option.splits sum.splits prod.splits)
  have c: "quantum s' = x_quantum quantum_of d" "qset s' = xqset d" using r(5,6) q(2) by (simp_all add: as_scull_def)
  note g = x_good_from [OF good r(4) c i]
  show ?thesis
    by (rule exI [of _ n], rule exI [of _ "from_scull d s'"]) (simp add: wr g v r(2,3,7))
qed

end

sublocale quantum_allocator \<subseteq> byte_store
  "\<lambda>d. x_good quantum_of d \<and> admitted (xunit d)" "x_view quantum_of" "x_rd quantum_of" "x_wr quantum_of new"
  "\<lambda>d. x_limit quantum_of (reach (xunit d)) d"
proof unfold_locales
  fix d :: xdev and n pos :: nat
  assume "x_good quantum_of d \<and> admitted (xunit d)" "0 < n" "n < 2 ^ 62" "pos \<le> length (x_view quantum_of d)"
  with x_rd_next [of quantum_of d n pos] show "\<exists>data pos' s' rest. x_rd quantum_of n pos d = Some (data, pos', s') \<and>
      (x_good quantum_of s' \<and> admitted (xunit s')) \<and> x_view quantum_of s' = x_view quantum_of d \<and> length data \<le> n \<and>
      drop pos (x_view quantum_of d) = data @ rest \<and> (data = [] \<longrightarrow> rest = []) \<and>
      (data \<noteq> [] \<longrightarrow> pos' = pos + length data)" by metis
next
  fix d :: xdev and data :: "byte list" and pos :: nat
  assume "x_good quantum_of d \<and> admitted (xunit d)" "data \<noteq> []" "pos \<le> length (x_view quantum_of d)"
    "pos + length data \<le> x_limit quantum_of (reach (xunit d)) d"
  with x_wr_next [of d data pos] show "\<exists>n s'. x_wr quantum_of new data pos d = Some (n, s') \<and> 0 < n \<and> n \<le> length data \<and>
      (x_good quantum_of s' \<and> admitted (xunit s')) \<and>
      x_limit quantum_of (reach (xunit s')) s' = x_limit quantum_of (reach (xunit d)) d \<and>
      x_view quantum_of s' = take pos (x_view quantum_of d) @ take n data @ drop (pos + n) (x_view quantum_of d)" by metis
qed

end
