(* ===== verification/Scull_C.thy ===== *)
theory Scull_C
  imports Scull_Family
begin

text \<open>
  The driver \<open>scullc\<close>: quanta come from a memory cache whose object size is the parameter
  \<open>scullc_quantum\<close> when the module is loaded.
\<close>

section \<open>Operations\<close>

text \<open>
  An object of the cache, with what it happens to contain, cleared for the length that the
  parameter has now.
\<close>

definition scullc_new_quantum :: "bool \<Rightarrow> nat \<Rightarrow> (nat \<Rightarrow> byte) \<Rightarrow> xvars \<Rightarrow> new_quantum" where
  "scullc_new_quantum mem cache_size contents g d k =
     (if \<not> mem then Some (Inl ENOMEM)
      else if vunit g < 0 then None
      else map_option Inr (mem_write (map contents [0..<cache_size]) 0 (replicate (nat (vunit g)) 0)))"

definition scullc_trim :: "xvars \<Rightarrow> xdev \<Rightarrow> (int ret \<times> xdev) option" where
  "scullc_trim g d = x_trim g d"

definition scullc_open :: "bool \<Rightarrow> nat \<Rightarrow> xvars \<Rightarrow> xdev \<Rightarrow> (int ret \<times> xdev) option" where
  "scullc_open intr f_flags g d = x_open intr f_flags g d"

definition scullc_release :: "xdev \<Rightarrow> int ret \<times> xdev" where
  "scullc_release d = (Inr 0, d)"

definition scullc_follow :: "(nat \<Rightarrow> bool) \<Rightarrow> xdev \<Rightarrow> int \<Rightarrow> (nat \<times> xdev) option" where
  "scullc_follow ok d n = x_follow ok d n"

definition scullc_read ::
  "bool \<Rightarrow> (nat \<Rightarrow> bool) \<Rightarrow> nat \<Rightarrow> int \<Rightarrow> int \<Rightarrow> xdev \<Rightarrow> (int ret \<times> int \<times> byte list \<times> xdev) option" where
  "scullc_read intr ok nc count f_pos d = x_read Some intr ok nc count f_pos d"

definition scullc_write ::
  "nat \<Rightarrow> (nat \<Rightarrow> byte) \<Rightarrow> xvars \<Rightarrow> bool \<Rightarrow> (nat \<Rightarrow> bool) \<Rightarrow> bool \<Rightarrow> bool \<Rightarrow> nat \<Rightarrow> byte list \<Rightarrow> int \<Rightarrow> xdev \<Rightarrow>
     (int ret \<times> int \<times> xdev) option" where
  "scullc_write cache_size contents g intr ok dok qok nc ub f_pos d =
     x_write Some (scullc_new_quantum qok cache_size contents g) intr ok dok nc ub f_pos d"

definition scullc_ioctl :: "nat \<Rightarrow> user_arg \<Rightarrow> xvars \<Rightarrow> int ret \<times> int option \<times> xvars" where
  "scullc_ioctl cmd a g = x_ioctl 4000 500 cmd a g"

definition scullc_llseek :: "xdev \<Rightarrow> nat \<Rightarrow> int \<Rightarrow> int \<Rightarrow> int ret \<times> int" where
  "scullc_llseek d whence off f_pos = scull_llseek (xsize d) whence off f_pos"

definition scullc_read_procmem :: "(nat \<Rightarrow> bool) \<Rightarrow> xdev list \<Rightarrow> seq_line list option" where
  "scullc_read_procmem full devs = x_read_procmem full 0 0 devs"

definition scullc_setup_cdev :: "bool \<Rightarrow> xdev \<Rightarrow> xdev \<times> bool" where
  "scullc_setup_cdev added d = (d, added)"

definition scullc_cleanup :: "xvars \<Rightarrow> xdev list \<Rightarrow> item list option" where
  "scullc_cleanup g devs = x_cleanup g devs"

text \<open>
  The devices and the object size of the cache; without a cache everything is cleaned up again.
\<close>

definition scullc_init :: "errno option \<Rightarrow> bool \<Rightarrow> bool \<Rightarrow> nat \<Rightarrow> xvars \<Rightarrow> (xdev list \<times> int) ret option" where
  "scullc_init reg_err mem cache_made ndevs g =
     (case x_init reg_err mem ndevs g of
        Inl e \<Rightarrow> Some (Inl e)
      | Inr devs \<Rightarrow>
          if cache_made then Some (Inr (devs, vunit g))
          else do { scullc_cleanup g devs; Some (Inl ENOMEM) })"

section \<open>The device as a store\<close>

text \<open>While the parameter is what the cache was made for and the device was trimmed with it.\<close>

interpretation scullc_store: quantum_allocator
  Some "scullc_new_quantum True (nat (vunit g)) contents g" "\<lambda>u. u = vunit g \<and> 0 \<le> u" "\<lambda>_. 2 ^ 31" for g contents
  by unfold_locales (auto simp: scullc_new_quantum_def mem_write_def)

definition small_vars :: xvars where
  "small_vars = \<lparr>vunit = 4, vqset = 2\<rparr>"

definition empty_xdev :: "xvars \<Rightarrow> xdev" where
  "empty_xdev g = x_setup g x_zero"

lemma empty_xdev_good:
  assumes "quantum_of (vunit g) = Some q" "0 < q" "0 < vqset g" "q * vqset g < 2 ^ 31"
  shows "x_good quantum_of (empty_xdev g)" "x_view quantum_of (empty_xdev g) = []"
proof -
  have u: "xunit (empty_xdev g) = vunit g" by (simp add: empty_xdev_def x_setup_def)
  then have q: "x_quantum quantum_of (empty_xdev g) = q" using assms(1) by (simp add: x_quantum_def)
  have s: "as_scull q (empty_xdev g) = \<lparr>sdata = [None], quantum = q, qset = vqset g, ssize = 0, slock = False\<rparr>"
    by (simp add: as_scull_def empty_xdev_def x_setup_def x_zero_def)
  have "nat q * nat (vqset g) = nat (q * vqset g)" using assms(2,3) by (simp add: nat_mult_distrib)
  then have "nat q * nat (vqset g) < 2 ^ 31" using assms(2-4) by simp
  then show "x_good quantum_of (empty_xdev g)"
    using assms u unfolding x_good_def q s by (simp add: scull_good_def scull_ok_def q_wf_def empty_xdev_def x_setup_def x_zero_def)
  show "x_view quantum_of (empty_xdev g) = []" unfolding x_view_def q s by (simp add: scull_view_def)
qed

section \<open>Properties\<close>

text \<open>
  Bytes written to a device of \<open>scullc\<close>, with as many writes as it takes, are read back in
  their place, as long as the quantum parameter is what it was when the cache was made.
\<close>

theorem scullc_roundtrip:
  assumes "x_good Some d" "xunit d = vunit g" "0 \<le> vunit g" "pos \<le> length (x_view Some d)"
    and "pos + length data \<le> x_limit Some (2 ^ 31) d" "0 < n" "n < 2 ^ 62"
  shows "\<exists>d' d''. store_all (x_wr Some (scullc_new_quantum True (nat (vunit g)) contents g)) (length data) data pos d = Some d' \<and>
    drain (x_rd Some n) (Suc (length (x_view Some d'))) 0 d' =
      Some (take pos (x_view Some d) @ data @ drop (pos + length data) (x_view Some d), d'')"
  using scullc_store.store_then_drain [of d g pos data n contents] assms by simp

lemma scullc_roundtrip_witness:
  "\<exists>d' d''. store_all (x_wr Some (scullc_new_quantum True 4 (\<lambda>_. 255) small_vars)) (length [1, 2, 3, 4, 5 :: byte]) [1, 2, 3, 4, 5] 0 (empty_xdev small_vars) = Some d' \<and>
    drain (x_rd Some 3) (Suc (length (x_view Some d'))) 0 d' = Some ([1, 2, 3, 4, 5], d'')"
proof -
  note e = empty_xdev_good [of Some small_vars 4, simplified small_vars_def, simplified, folded small_vars_def]
  have "x_limit Some (2 ^ 31) (empty_xdev small_vars) = 2 ^ 31 * 8 - 1"
    by (simp add: x_limit_def x_quantum_def scull_limit_def as_scull_def empty_xdev_def x_setup_def small_vars_def x_zero_def)
  moreover have "xunit (empty_xdev small_vars) = vunit small_vars" "vunit small_vars = 4"
    by (simp_all add: empty_xdev_def x_setup_def small_vars_def)
  ultimately show ?thesis
    using scullc_roundtrip [OF e(1), of small_vars 0 "[1, 2, 3, 4, 5]" 3 "\<lambda>_. 255"] by (simp del: store_all.simps drain.simps add: e(2))
qed

text \<open>
  After the quantum parameter is raised above the object size of the cache, which needs no
  privilege, the first write that takes a new quantum clears memory behind the object.
\<close>

theorem scullc_cache_overflow:
  assumes "arg_ok a" "cache_size < nat (s32 (arg a))"
  shows "\<exists>g'. scullc_ioctl (x_cmd Ioc_Tell False) a g = (Inr 0, None, g') \<and>
    scullc_write cache_size contents g' False (\<lambda>_. True) True True 0 [b] 0 (empty_xdev small_vars) = None"
proof -
  let ?g = "g\<lparr>vunit := s32 (arg a)\<rparr>"
  have "scullc_ioctl (x_cmd Ioc_Tell False) a g = (Inr 0, None, ?g)"
    by (simp add: scullc_ioctl_def x_ioctl_def ioctl_checks_def x_cmd_def x_magic_def x_decode_def ioc_all_def)
  moreover have "scullc_new_quantum True cache_size contents ?g d k = None" for d k
    using assms(2) by (simp add: scullc_new_quantum_def mem_write_def)
  then have "scullc_write cache_size contents ?g False (\<lambda>_. True) True True 0 [b] 0 (empty_xdev small_vars) = None"
    by (simp add: scullc_write_def x_write_def empty_xdev_def x_setup_def x_zero_def small_vars_def x_lock_def q_locate_def
        c_div_def c_rem_def x_follow_def walk_count_def u32_def q_need_data_def x_need_quantum_def q_entry_def mem_at_def
        numeral_2_eq_2)
  ultimately show ?thesis by blast
qed

lemma scullc_cache_overflow_witness:
  "\<exists>g'. scullc_ioctl (x_cmd Ioc_Tell False) \<lparr>arg = 8000, arg_ok = True, uval = None, put_ok = True\<rparr> small_vars = (Inr 0, None, g') \<and>
    scullc_write 4000 (\<lambda>_. 0) g' False (\<lambda>_. True) True True 0 [1] 0 (empty_xdev small_vars) = None"
  using scullc_cache_overflow [of "\<lparr>arg = 8000, arg_ok = True, uval = None, put_ok = True\<rparr>" 4000 small_vars "\<lambda>_. 0" 1] by simp

text \<open>
  C18: Apart from its allocator \<open>scullc\<close> is the bare device with cleared quanta: while memory for
  list items lasts and the cache fits the parameter, every write, failing ones included, has the
  result, the file position and the effect of \<open>scull_write\<close>.
\<close>

theorem scullc_write_equiv:
  assumes "xitems d \<noteq> []" "xunit d = vunit g" "0 \<le> vunit g"
  shows "scullc_write (nat (vunit g)) contents g intr (\<lambda>_. True) dok qok nc ub f_pos d =
    map_option (\<lambda>(r, f, s). (r, f, from_scull d s))
      (scull_write intr \<lparr>item_ok = (\<lambda>_. True), data_ok = dok, quantum_ok = qok, fill = (\<lambda>_. 0)\<rparr> nc ub f_pos (as_scull (vunit g) d))"
proof -
  let ?m = "\<lparr>item_ok = (\<lambda>_. True), data_ok = dok, quantum_ok = qok, fill = (\<lambda>_. 0)\<rparr>"
  have "scullc_new_quantum qok (nat (vunit g)) contents g d' k =
      (if quantum_ok ?m \<and> 0 \<le> vunit g then Some (Inr (map (fill ?m) [0..<nat (vunit g)])) else Some (Inl ENOMEM))" for d' k
    using assms(3) by (simp add: scullc_new_quantum_def mem_write_def map_replicate_const)
  then show ?thesis
    using x_write_scull [where quantum_of = Some and d = d and q = "vunit g" and ok = "\<lambda>_. True" and m = ?m and
      new = "scullc_new_quantum qok (nat (vunit g)) contents g" and intr = intr and nc = nc and ub = ub and f_pos = f_pos] assms
    unfolding scullc_write_def by simp
qed

lemma scullc_write_equiv_witness:
  "scullc_write 4 (\<lambda>_. 9) small_vars False (\<lambda>_. True) True True 0 [1, 2] 3 (empty_xdev small_vars) =
    map_option (\<lambda>(r, f, s). (r, f, from_scull (empty_xdev small_vars) s))
      (scull_write False \<lparr>item_ok = (\<lambda>_. True), data_ok = True, quantum_ok = True, fill = (\<lambda>_. 0)\<rparr> 0 [1, 2] 3
        (as_scull 4 (empty_xdev small_vars)))"
  using scullc_write_equiv [of "empty_xdev small_vars" small_vars "\<lambda>_. 9" False True True 0 "[1, 2]" 3]
  by (simp add: empty_xdev_def x_setup_def small_vars_def x_zero_def)

end
