(* ===== verification/Scull_Pages.thy ===== *)
theory Scull_Pages
  imports Scull_Family
begin

text \<open>
  The drivers \<open>scullp\<close>, \<open>sculld\<close> and \<open>scullv\<close>: a quantum is \<open>2^order\<close> pages, from the page
  allocator or, in \<open>scullv\<close>, from virtual memory; devices can be mapped.
\<close>

section \<open>Quanta of pages\<close>

text \<open>\<open>int quantum = PAGE_SIZE << order\<close>, undefined for an order that is no shift of 64 bits.\<close>

definition page_quantum :: quantum_size where
  "page_quantum order = (if 0 \<le> order \<and> order < 64 then Some (s32 (4096 * 2 ^ nat order)) else None)"

text \<open>
  A new quantum for item \<open>k\<close> has the order of that item, which is 0, as \<open>memset\<close> left it, for
  every item but the first, the device itself.
\<close>

definition dptr_order :: "xdev \<Rightarrow> nat \<Rightarrow> int" where
  "dptr_order d k = (if k = 0 then xunit d else 0)"

section \<open>The driver scullp\<close>

definition scullp_new_quantum :: "bool \<Rightarrow> new_quantum" where
  "scullp_new_quantum mem d k =
     (let order = dptr_order d k in
      if order < 0 \<or> 64 \<le> order then None
      else if mem then Some (Inr (replicate (4096 * 2 ^ nat order) 0)) else Some (Inl ENOMEM))"

definition scullp_trim :: "xvars \<Rightarrow> xdev \<Rightarrow> (int ret \<times> xdev) option" where
  "scullp_trim g d = x_trim g d"

definition scullp_open :: "bool \<Rightarrow> nat \<Rightarrow> xvars \<Rightarrow> xdev \<Rightarrow> (int ret \<times> xdev) option" where
  "scullp_open intr f_flags g d = x_open intr f_flags g d"

definition scullp_release :: "xdev \<Rightarrow> int ret \<times> xdev" where
  "scullp_release d = (Inr 0, d)"

definition scullp_follow :: "(nat \<Rightarrow> bool) \<Rightarrow> xdev \<Rightarrow> int \<Rightarrow> (nat \<times> xdev) option" where
  "scullp_follow ok d n = x_follow ok d n"

definition scullp_read ::
  "bool \<Rightarrow> (nat \<Rightarrow> bool) \<Rightarrow> nat \<Rightarrow> int \<Rightarrow> int \<Rightarrow> xdev \<Rightarrow> (int ret \<times> int \<times> byte list \<times> xdev) option" where
  "scullp_read intr ok nc count f_pos d = x_read page_quantum intr ok nc count f_pos d"

definition scullp_write ::
  "bool \<Rightarrow> (nat \<Rightarrow> bool) \<Rightarrow> bool \<Rightarrow> bool \<Rightarrow> nat \<Rightarrow> byte list \<Rightarrow> int \<Rightarrow> xdev \<Rightarrow> (int ret \<times> int \<times> xdev) option" where
  "scullp_write intr ok dok qok nc ub f_pos d = x_write page_quantum (scullp_new_quantum qok) intr ok dok nc ub f_pos d"

definition scullp_ioctl :: "nat \<Rightarrow> user_arg \<Rightarrow> xvars \<Rightarrow> int ret \<times> int option \<times> xvars" where
  "scullp_ioctl cmd a g = x_ioctl 0 500 cmd a g"

definition scullp_llseek :: "xdev \<Rightarrow> nat \<Rightarrow> int \<Rightarrow> int \<Rightarrow> int ret \<times> int" where
  "scullp_llseek d whence off f_pos = scull_llseek (xsize d) whence off f_pos"

definition scullp_read_procmem :: "(nat \<Rightarrow> bool) \<Rightarrow> xdev list \<Rightarrow> seq_line list option" where
  "scullp_read_procmem full devs = x_read_procmem full 0 0 devs"

definition scullp_setup_cdev :: "bool \<Rightarrow> xdev \<Rightarrow> xdev \<times> bool" where
  "scullp_setup_cdev added d = (d, added)"

definition scullp_init :: "errno option \<Rightarrow> bool \<Rightarrow> nat \<Rightarrow> xvars \<Rightarrow> xdev list ret" where
  "scullp_init reg_err mem ndevs g = x_init reg_err mem ndevs g"

definition scullp_cleanup :: "xvars \<Rightarrow> xdev list \<Rightarrow> item list option" where
  "scullp_cleanup g devs = x_cleanup g devs"

definition scullp_vma_open :: "xdev \<Rightarrow> xdev" where
  "scullp_vma_open d = x_vma_open d"

definition scullp_vma_close :: "xdev \<Rightarrow> xdev" where
  "scullp_vma_close d = x_vma_close d"

definition scullp_vma_nopage :: "int \<Rightarrow> int \<Rightarrow> xdev \<Rightarrow> (byte list option \<times> xdev) option" where
  "scullp_vma_nopage rel pgoff d = x_vma_nopage rel pgoff d"

definition scullp_mmap :: "xdev \<Rightarrow> int ret \<times> xdev" where
  "scullp_mmap d = (if xunit d \<noteq> 0 then (Inl ENODEV, d) else (Inr 0, scullp_vma_open d))"

section \<open>The driver sculld\<close>

definition sculld_new_quantum :: "bool \<Rightarrow> new_quantum" where
  "sculld_new_quantum mem d k =
     (let order = dptr_order d k in
      if order < 0 \<or> 64 \<le> order then None
      else if mem then Some (Inr (replicate (4096 * 2 ^ nat order) 0)) else Some (Inl ENOMEM))"

definition sculld_trim :: "xvars \<Rightarrow> xdev \<Rightarrow> (int ret \<times> xdev) option" where
  "sculld_trim g d = x_trim g d"

definition sculld_open :: "bool \<Rightarrow> nat \<Rightarrow> xvars \<Rightarrow> xdev \<Rightarrow> (int ret \<times> xdev) option" where
  "sculld_open intr f_flags g d = x_open intr f_flags g d"

definition sculld_release :: "xdev \<Rightarrow> int ret \<times> xdev" where
  "sculld_release d = (Inr 0, d)"

definition sculld_follow :: "(nat \<Rightarrow> bool) \<Rightarrow> xdev \<Rightarrow> int \<Rightarrow> (nat \<times> xdev) option" where
  "sculld_follow ok d n = x_follow ok d n"

definition sculld_read ::
  "bool \<Rightarrow> (nat \<Rightarrow> bool) \<Rightarrow> nat \<Rightarrow> int \<Rightarrow> int \<Rightarrow> xdev \<Rightarrow> (int ret \<times> int \<times> byte list \<times> xdev) option" where
  "sculld_read intr ok nc count f_pos d = x_read page_quantum intr ok nc count f_pos d"

definition sculld_write ::
  "bool \<Rightarrow> (nat \<Rightarrow> bool) \<Rightarrow> bool \<Rightarrow> bool \<Rightarrow> nat \<Rightarrow> byte list \<Rightarrow> int \<Rightarrow> xdev \<Rightarrow> (int ret \<times> int \<times> xdev) option" where
  "sculld_write intr ok dok qok nc ub f_pos d = x_write page_quantum (sculld_new_quantum qok) intr ok dok nc ub f_pos d"

definition sculld_ioctl :: "nat \<Rightarrow> user_arg \<Rightarrow> xvars \<Rightarrow> int ret \<times> int option \<times> xvars" where
  "sculld_ioctl cmd a g = x_ioctl 0 500 cmd a g"

definition sculld_llseek :: "xdev \<Rightarrow> nat \<Rightarrow> int \<Rightarrow> int \<Rightarrow> int ret \<times> int" where
  "sculld_llseek d whence off f_pos = scull_llseek (xsize d) whence off f_pos"

definition sculld_read_procmem :: "(nat \<Rightarrow> bool) \<Rightarrow> xdev list \<Rightarrow> seq_line list option" where
  "sculld_read_procmem full devs = x_read_procmem full 0 0 devs"

definition sculld_setup_cdev :: "bool \<Rightarrow> xdev \<Rightarrow> xdev \<times> bool" where
  "sculld_setup_cdev added d = (d, added)"

definition sculld_init :: "errno option \<Rightarrow> bool \<Rightarrow> nat \<Rightarrow> xvars \<Rightarrow> xdev list ret" where
  "sculld_init reg_err mem ndevs g = x_init reg_err mem ndevs g"

definition sculld_cleanup :: "xvars \<Rightarrow> xdev list \<Rightarrow> item list option" where
  "sculld_cleanup g devs = x_cleanup g devs"

definition sculld_vma_open :: "xdev \<Rightarrow> xdev" where
  "sculld_vma_open d = x_vma_open d"

definition sculld_vma_close :: "xdev \<Rightarrow> xdev" where
  "sculld_vma_close d = x_vma_close d"

definition sculld_vma_nopage :: "int \<Rightarrow> int \<Rightarrow> xdev \<Rightarrow> (byte list option \<times> xdev) option" where
  "sculld_vma_nopage rel pgoff d = x_vma_nopage rel pgoff d"

definition sculld_mmap :: "xdev \<Rightarrow> int ret \<times> xdev" where
  "sculld_mmap d = (if xunit d \<noteq> 0 then (Inl ENODEV, d) else (Inr 0, sculld_vma_open d))"

section \<open>The driver scullv\<close>

text \<open>Its default order is 4, and mapping does not look at the order.\<close>

definition scullv_new_quantum :: "bool \<Rightarrow> new_quantum" where
  "scullv_new_quantum mem d k =
     (let order = dptr_order d k in
      if order < 0 \<or> 64 \<le> order then None
      else if mem then Some (Inr (replicate (4096 * 2 ^ nat order) 0)) else Some (Inl ENOMEM))"

definition scullv_trim :: "xvars \<Rightarrow> xdev \<Rightarrow> (int ret \<times> xdev) option" where
  "scullv_trim g d = x_trim g d"

definition scullv_open :: "bool \<Rightarrow> nat \<Rightarrow> xvars \<Rightarrow> xdev \<Rightarrow> (int ret \<times> xdev) option" where
  "scullv_open intr f_flags g d = x_open intr f_flags g d"

definition scullv_release :: "xdev \<Rightarrow> int ret \<times> xdev" where
  "scullv_release d = (Inr 0, d)"

definition scullv_follow :: "(nat \<Rightarrow> bool) \<Rightarrow> xdev \<Rightarrow> int \<Rightarrow> (nat \<times> xdev) option" where
  "scullv_follow ok d n = x_follow ok d n"

definition scullv_read ::
  "bool \<Rightarrow> (nat \<Rightarrow> bool) \<Rightarrow> nat \<Rightarrow> int \<Rightarrow> int \<Rightarrow> xdev \<Rightarrow> (int ret \<times> int \<times> byte list \<times> xdev) option" where
  "scullv_read intr ok nc count f_pos d = x_read page_quantum intr ok nc count f_pos d"

definition scullv_write ::
  "bool \<Rightarrow> (nat \<Rightarrow> bool) \<Rightarrow> bool \<Rightarrow> bool \<Rightarrow> nat \<Rightarrow> byte list \<Rightarrow> int \<Rightarrow> xdev \<Rightarrow> (int ret \<times> int \<times> xdev) option" where
  "scullv_write intr ok dok qok nc ub f_pos d = x_write page_quantum (scullv_new_quantum qok) intr ok dok nc ub f_pos d"

definition scullv_ioctl :: "nat \<Rightarrow> user_arg \<Rightarrow> xvars \<Rightarrow> int ret \<times> int option \<times> xvars" where
  "scullv_ioctl cmd a g = x_ioctl 4 500 cmd a g"

definition scullv_llseek :: "xdev \<Rightarrow> nat \<Rightarrow> int \<Rightarrow> int \<Rightarrow> int ret \<times> int" where
  "scullv_llseek d whence off f_pos = scull_llseek (xsize d) whence off f_pos"

definition scullv_read_procmem :: "(nat \<Rightarrow> bool) \<Rightarrow> xdev list \<Rightarrow> seq_line list option" where
  "scullv_read_procmem full devs = x_read_procmem full 0 0 devs"

definition scullv_setup_cdev :: "bool \<Rightarrow> xdev \<Rightarrow> xdev \<times> bool" where
  "scullv_setup_cdev added d = (d, added)"

definition scullv_init :: "errno option \<Rightarrow> bool \<Rightarrow> nat \<Rightarrow> xvars \<Rightarrow> xdev list ret" where
  "scullv_init reg_err mem ndevs g = x_init reg_err mem ndevs g"

definition scullv_cleanup :: "xvars \<Rightarrow> xdev list \<Rightarrow> item list option" where
  "scullv_cleanup g devs = x_cleanup g devs"

definition scullv_vma_open :: "xdev \<Rightarrow> xdev" where
  "scullv_vma_open d = x_vma_open d"

definition scullv_vma_close :: "xdev \<Rightarrow> xdev" where
  "scullv_vma_close d = x_vma_close d"

definition scullv_vma_nopage :: "int \<Rightarrow> int \<Rightarrow> xdev \<Rightarrow> (byte list option \<times> xdev) option" where
  "scullv_vma_nopage rel pgoff d = x_vma_nopage rel pgoff d"

definition scullv_mmap :: "xdev \<Rightarrow> int ret \<times> xdev" where
  "scullv_mmap d = (Inr 0, scullv_vma_open d)"

section \<open>The devices as stores\<close>

text \<open>
  With order 0 every position can be written; with a higher order only those of the first item.
\<close>

lemma page_new_full:
  assumes "0 \<le> order \<and> order \<le> 18" "page_quantum order = Some q"
  shows "nat q = 4096 * 2 ^ nat order"
proof -
  obtain y :: int where y: "2 ^ nat order = y" by blast
  have "y \<le> 2 ^ 18" unfolding y [symmetric] using assms(1) by (intro power_increasing) auto
  moreover have "0 < y" unfolding y [symmetric] by simp
  ultimately have "s32 (4096 * 2 ^ nat order) = 4096 * 2 ^ nat order" unfolding y by (intro s32_id) simp_all
  with assms have "q = 4096 * 2 ^ nat order" by (simp add: page_quantum_def)
  then have "q = int (4096 * 2 ^ nat order)" by simp
  then show ?thesis by (simp only: nat_int)
qed

lemma page_quantum_0: "page_quantum 0 = Some 4096"
  by (simp add: page_quantum_def)

interpretation scullp_store: quantum_allocator
  page_quantum "scullp_new_quantum True" "\<lambda>order. 0 \<le> order \<and> order \<le> 18" "\<lambda>order. if order = 0 then 2 ^ 31 else 1"
proof unfold_locales
  fix d :: xdev and q :: int and k :: nat
  assume a: "0 \<le> xunit d \<and> xunit d \<le> 18" "page_quantum (xunit d) = Some q" "k < (if xunit d = 0 then 2 ^ 31 else 1)"
  then have "dptr_order d k = xunit d" by (auto simp: dptr_order_def split: if_splits)
  with page_new_full [OF a(1,2)] a(1) show "scullp_new_quantum True d k = Some (Inr (replicate (nat q) 0))"
    by (simp add: scullp_new_quantum_def Let_def)
qed

lemma same_allocator: "sculld_new_quantum = scullp_new_quantum" "scullv_new_quantum = scullp_new_quantum"
  by (simp_all add: fun_eq_iff sculld_new_quantum_def scullv_new_quantum_def scullp_new_quantum_def)

interpretation sculld_store: quantum_allocator
  page_quantum "sculld_new_quantum True" "\<lambda>order. 0 \<le> order \<and> order \<le> 18" "\<lambda>order. if order = 0 then 2 ^ 31 else 1"
  unfolding same_allocator by (rule scullp_store.quantum_allocator_axioms)

interpretation scullv_store: quantum_allocator
  page_quantum "scullv_new_quantum True" "\<lambda>order. 0 \<le> order \<and> order \<le> 18" "\<lambda>order. if order = 0 then 2 ^ 31 else 1"
  unfolding same_allocator by (rule scullp_store.quantum_allocator_axioms)

section \<open>Page faults\<close>

text \<open>The walk of a page fault reaches the array for the page.\<close>

lemma nopage_walk_page:
  assumes "0 < n" "n < 2 ^ 31" "p < 2 ^ 52"
  shows "nopage_walk (int n) its (int p) =
    (if p div n < length its then Some (its ! (p div n), int (p mod n)) else None)"
  using assms(3)
proof (induction its arbitrary: p)
  case Nil
  then show ?case by simp
next
  case (Cons it its)
  have u: "u64 (int n) = int n" using assms(2) by simp
  show ?case
  proof (cases "n \<le> p")
    case True
    then have "u64 (int p - int n) = int (p - n)" using Cons.prems by (simp add: of_nat_diff)
    moreover have "p div n = Suc ((p - n) div n)" "p mod n = (p - n) mod n"
      using True assms(1) by (simp_all add: le_div_geq le_mod_geq)
    ultimately show ?thesis using Cons.IH [of "p - n"] Cons.prems True u by simp
  next
    case False
    then show ?thesis using u by simp
  qed
qed

lemma good_page:
  assumes good: "x_good page_quantum d" and unit: "xunit d = 0" and x: "int x < xsize d"
  shows "\<exists>blk. q_page (nat (xqset d)) (xitems d) (x div 4096) = Some blk \<and> length blk = 4096 \<and>
    blk ! (x mod 4096) = x_view page_quantum d ! x"
proof -
  have q: "x_quantum page_quantum d = 4096" using unit by (simp add: x_quantum_def page_quantum_0)
  let ?s = "as_scull 4096 d"
  have s: "scull_good ?s" using good by (simp add: x_good_def q)
  have wf: "q_wf 4096 (nat (xqset d)) (xitems d)" "0 \<le> xsize d"
    using s by (auto simp: scull_good_def scull_ok_def as_scull_def)
  have "sbyte ?s x \<noteq> None" using s x by (auto simp: scull_good_def as_scull_def)
  then obtain blk where b: "q_page (nat (xqset d)) (xitems d) (x div 4096) = Some blk"
    by (auto simp: sbyte_def q_byte_def as_scull_def)
  moreover have "length blk = 4096" using page_length [OF wf(1) b] .
  moreover have "x_view page_quantum d ! x = the (sbyte ?s x)"
  proof -
    from x obtain z where "xsize d = int z" "x < z" by (metis of_nat_0_le_iff of_nat_less_iff order.trans less_imp_le zero_le_imp_eq_int)
    then show ?thesis by (simp add: x_view_def q scull_view_def as_scull_def)
  qed
  then have "blk ! (x mod 4096) = x_view page_quantum d ! x"
    using b by (simp add: sbyte_def q_byte_def as_scull_def)
  ultimately show ?thesis by blast
qed

lemma x_relock [simp]: "\<not> xlock d \<Longrightarrow> x_unlock (d\<lparr>xlock := True\<rparr>) = d"
  by (cases d) (simp add: x_unlock_def)

text \<open>
  What a page fault inside the data finds: the block at the index that is the number of the page.
\<close>

lemma x_nopage_index:
  assumes good: "x_good quantum_of d" and x: "int x = rel + pgoff * 4096" "int x < xsize d"
  shows "x_vma_nopage rel pgoff d = Some (q_page (nat (xqset d)) (xitems d) (x div 4096), d)"
proof -
  let ?s = "as_scull (x_quantum quantum_of d) d"
  have s: "scull_good ?s" using good by (simp add: x_good_def)
  then have o: "\<not> xlock d" "xsize d < 2 ^ 63" "q_wf (nat (x_quantum quantum_of d)) (nat (xqset d)) (xitems d)"
      "xqset d = int (nat (xqset d))"
    by (auto simp: scull_good_def scull_ok_def as_scull_def)
  have n: "0 < nat (xqset d)" "nat (xqset d) < 2 ^ 31"
  proof -
    have "0 < nat (x_quantum quantum_of d)" "0 < nat (xqset d)" "nat (x_quantum quantum_of d) * nat (xqset d) < 2 ^ 31"
      using o(3) by (auto simp: q_wf_def)
    moreover from this have "nat (xqset d) \<le> nat (x_quantum quantum_of d) * nat (xqset d)" by simp
    ultimately show "0 < nat (xqset d)" "nat (xqset d) < 2 ^ 31" by linarith+
  qed
  have u: "u64 (rel + pgoff * 4096) = int x" using x o(2) by (simp flip: x(1))
  have p: "x div 4096 < 2 ^ 52" using x(2) o(2) by (simp add: less_mult_imp_div_less)
  have w: "nopage_walk (xqset d) (xitems d) (int x div 4096) =
    (if x div 4096 div nat (xqset d) < length (xitems d)
     then Some (xitems d ! (x div 4096 div nat (xqset d)), int (x div 4096 mod nat (xqset d))) else None)"
    using nopage_walk_page [OF n p] o(4) by (simp add: zdiv_int)
  show ?thesis
  proof (cases "x div 4096 div nat (xqset d) < length (xitems d)")
    case False
    then show ?thesis using o(1) u x(2) w by (simp add: x_vma_nopage_def x_lock_def q_page_def)
  next
    case True
    show ?thesis
    proof (cases "xitems d ! (x div 4096 div nat (xqset d))")
      case None
      then show ?thesis using True o(1) u x(2) w by (simp add: x_vma_nopage_def x_lock_def q_page_def)
    next
      case (Some arr)
      then have "length arr = nat (xqset d)" using o(3) True by (metis q_wf_def nth_mem)
      moreover have "int (x div 4096 mod nat (xqset d)) < xqset d"
        using n(1) o(4) by (metis mod_less_divisor of_nat_less_iff)
      ultimately show ?thesis
        using Some True o(1) u x(2) w n(1) by (simp add: x_vma_nopage_def x_lock_def q_page_def mem_at_def)
    qed
  qed
qed

section \<open>Properties\<close>

text \<open>
  C17: Bytes written to a device of \<open>scullp\<close>, \<open>sculld\<close> or \<open>scullv\<close>, with as many writes as it
  takes, are read back in their place: anywhere for order 0, in the first item for higher orders.
\<close>

theorem page_drivers_roundtrip:
  assumes "x_good page_quantum d" "0 \<le> xunit d" "xunit d \<le> 18" "pos \<le> length (x_view page_quantum d)"
    and "pos + length data \<le> x_limit page_quantum (if xunit d = 0 then 2 ^ 31 else 1) d" "0 < n" "n < 2 ^ 62"
    and "new \<in> {scullp_new_quantum True, sculld_new_quantum True, scullv_new_quantum True}"
  shows "\<exists>d' d''. store_all (x_wr page_quantum new) (length data) data pos d = Some d' \<and>
    drain (x_rd page_quantum n) (Suc (length (x_view page_quantum d'))) 0 d' =
      Some (take pos (x_view page_quantum d) @ data @ drop (pos + length data) (x_view page_quantum d), d'')"
proof -
  have "new = scullp_new_quantum True" using assms(8) by (auto simp: same_allocator)
  with scullp_store.store_then_drain [of d pos data n] assms(1-7) show ?thesis by simp
qed

definition page_vars :: "int \<Rightarrow> int \<Rightarrow> xvars" where
  "page_vars order n = \<lparr>vunit = order, vqset = n\<rparr>"

definition new_xdev :: "xvars \<Rightarrow> xdev" where
  "new_xdev g = x_setup g x_zero"

lemma new_xdev_good:
  assumes "page_quantum (vunit g) = Some q" "0 < q" "0 < vqset g" "q * vqset g < 2 ^ 31"
  shows "x_good page_quantum (new_xdev g)" "x_view page_quantum (new_xdev g) = []"
proof -
  have u: "xunit (new_xdev g) = vunit g" by (simp add: new_xdev_def x_setup_def)
  then have q: "x_quantum page_quantum (new_xdev g) = q" using assms(1) by (simp add: x_quantum_def)
  have s: "as_scull q (new_xdev g) = \<lparr>sdata = [None], quantum = q, qset = vqset g, ssize = 0, slock = False\<rparr>"
    by (simp add: as_scull_def new_xdev_def x_setup_def x_zero_def)
  have "nat q * nat (vqset g) = nat (q * vqset g)" using assms(2,3) by (simp add: nat_mult_distrib)
  then have "nat q * nat (vqset g) < 2 ^ 31" using assms(2-4) by simp
  then show "x_good page_quantum (new_xdev g)"
    using assms u unfolding x_good_def q s by (simp add: scull_good_def scull_ok_def q_wf_def new_xdev_def x_setup_def x_zero_def)
  show "x_view page_quantum (new_xdev g) = []" unfolding x_view_def q s by (simp add: scull_view_def)
qed

lemma page_drivers_roundtrip_witness:
  "\<exists>d' d''. store_all (x_wr page_quantum (scullv_new_quantum True)) (length [7, 8, 9 :: byte]) [7, 8, 9] 0 (new_xdev (page_vars 4 500)) = Some d' \<and>
    drain (x_rd page_quantum 2) (Suc (length (x_view page_quantum d'))) 0 d' = Some ([7, 8, 9], d'')"
proof -
  have q: "page_quantum (vunit (page_vars 4 500)) = Some 65536" by (simp add: page_quantum_def page_vars_def)
  note e = new_xdev_good [OF q, simplified page_vars_def, simplified, folded page_vars_def]
  have "xunit (new_xdev (page_vars 4 500)) = 4" by (simp add: new_xdev_def x_setup_def page_vars_def)
  moreover have "x_limit page_quantum 1 (new_xdev (page_vars 4 500)) = 32768000"
    by (simp add: x_limit_def x_quantum_def scull_limit_def as_scull_def new_xdev_def x_setup_def page_vars_def x_zero_def page_quantum_def)
  ultimately show ?thesis
    using page_drivers_roundtrip [OF e(1), of 0 "[7, 8, 9]" 2 "scullv_new_quantum True"]
    by (simp del: store_all.simps drain.simps add: e(2))
qed

text \<open>
  For an order above 0, in particular for the default order 4 of \<open>scullv\<close>, a new quantum of any
  item but the first is one page only, and a write to a position behind that page runs past the
  end of the allocation.
\<close>

theorem page_order_overflow:
  assumes "1 \<le> order" "order \<le> 18" "0 < n" "4096 * 2 ^ order * n < (2 :: nat) ^ 31" "1 \<le> k" "k < 2 ^ 31"
  shows "scullv_write False (\<lambda>_. True) True True 0 [b] (int (k * (4096 * 2 ^ order * n) + 4096)) (new_xdev (page_vars (int order) (int n))) = None"
proof -
  define q :: nat where "q = 4096 * 2 ^ order"
  define x :: nat where "x = k * (q * n) + 4096"
  have o: "(2::nat) ^ order = 2 * 2 ^ (order - 1)" using assms(1) by (cases order) auto
  have q: "8192 \<le> q" using o by (simp add: q_def)
  have qb: "q * n < 2 ^ 31" using assms(4) by (simp add: q_def)
  have "q \<le> q * n" using assms(3) by simp
  then have "q < 2 ^ 31" using qb by linarith
  then have "s32 (int q) = int q" by simp
  moreover have "4096 * 2 ^ nat (int order) = int q" by (simp add: q_def)
  ultimately have pq: "page_quantum (int order) = Some (int q)"
    using assms(2) unfolding page_quantum_def by simp
  have lt: "4096 < q * n" using q assms(3) \<open>q \<le> q * n\<close> by linarith
  have "(k * m + 4096) div m = k \<and> (k * m + 4096) mod m = 4096" if "4096 < m" for m :: nat using that by simp
  from this [OF lt] have xd: "x div (q * n) = k" "x mod (q * n) = 4096" by (simp_all add: x_def)
  have k: "x div q div n = k" using xd(1) by (simp add: div_mult2_eq)
  have "x = q * (k * n) + 4096" by (simp add: x_def)
  moreover have "(q * m + 4096) mod q = 4096" for m using q by simp
  ultimately have s: "x mod q = 4096" by simp
  have loc: "q_locate (int q) (int n) (int x) = Some (int k, int (x div q mod n), 4096)"
    using q_locate_nat [of q n x] q qb assms(3,6) k s xd(1) by simp
  define d where "d = new_xdev (page_vars (int order) (int n))"
  have d: "xunit d = int order" "xqset d = int n" "xitems d = [None]" "\<not> xlock d"
    by (simp_all add: d_def new_xdev_def page_vars_def x_setup_def x_zero_def)
  have "0 < length [None :: item]" by simp
  from q_walk_any [OF this, of "\<lambda>_. True" k] obtain m where
    w: "q_walk (\<lambda>_. True) k 0 [None] = (Some k, [None] @ replicate m None)" "k < 1 + m" by auto
  let ?its = "[None :: item] @ replicate m None"
  have f: "x_follow (\<lambda>_. True) (d\<lparr>xlock := True\<rparr>) (int k) = Some (k, d\<lparr>xlock := True, xitems := ?its\<rparr>)"
    using w(1) walk_count_nat [OF assms(6)] d(3) by (simp add: x_follow_def)
  have itk: "?its ! k = None" "k < length ?its" using w(2) by (auto simp: nth_append nth_Cons')
  define its where "its = ?its[k := Some (replicate n None)]"
  have ik: "its ! k = Some (replicate n None)" "k < length its" using itk(2) unfolding its_def by (simp_all del: append_Cons)
  have nd: "q_need_data True (int n) k ?its = Inr its" using itk by (simp add: q_need_data_def its_def)
  have sl: "x div q mod n < n" using assms(3) by simp
  have en: "q_entry its k (int (x div q mod n)) = Some None"
    using ik sl by (simp add: q_entry_def mem_at_def)
  have new: "scullv_new_quantum True (d\<lparr>xlock := True, xitems := ?its\<rparr>) k = Some (Inr (replicate 4096 0))"
    using assms(5) by (simp add: scullv_new_quantum_def dptr_order_def Let_def)
  have c: "u64 (int q - 4096) = int q - 4096" "\<not> int q - 4096 < 1" using q \<open>q < 2 ^ 31\<close> by auto
  have put: "blk_put (replicate 4096 0) 4096 [b] = None"
    by (simp add: blk_put_def mem_write_def)
  show ?thesis
    unfolding scullv_write_def q_def [symmetric] x_def [symmetric] d_def [symmetric] x_write_def
    using d pq loc f nd en new c put by (simp add: x_lock_def x_need_quantum_def Let_def)
qed

lemma page_order_overflow_witness:
  "scullv_write False (\<lambda>_. True) True True 0 [1] (int (1 * (4096 * 2 ^ 4 * 500) + 4096)) (new_xdev (page_vars (int 4) (int 500))) = None"
  by (rule page_order_overflow) simp_all

text \<open>
  A mapped page of an order 0 device shows the data: a fault at an address inside the data
  finds the page, and its byte at that address is the byte of the file there.
\<close>

theorem mapped_page_shows_data:
  assumes "x_good page_quantum d" "xunit d = 0" "int x = rel + pgoff * 4096" "int x < xsize d"
  shows "\<exists>blk. scullp_vma_nopage rel pgoff d = Some (Some blk, d) \<and> length blk = 4096 \<and>
    blk ! (x mod 4096) = x_view page_quantum d ! x"
  using x_nopage_index [OF assms(1,3,4)] good_page [OF assms(1,2,4)] by (auto simp: scullp_vma_nopage_def)

definition one_page :: "int \<Rightarrow> byte list \<Rightarrow> xdev" where
  "one_page order blk = \<lparr>xitems = [Some [Some blk]], vmas = 0, xunit = order, xqset = 1, xsize = int (length blk), xlock = False\<rparr>"

lemma one_page_good:
  assumes "page_quantum order = Some (int (length blk))" "0 < length blk" "length blk < 2 ^ 31"
  shows "x_good page_quantum (one_page order blk)"
proof -
  have q: "x_quantum page_quantum (one_page order blk) = int (length blk)"
    using assms(1) by (simp add: x_quantum_def one_page_def)
  have "scull_good (as_scull (int (length blk)) (one_page order blk))"
    using assms(2,3) by (auto simp: scull_good_def scull_ok_def as_scull_def one_page_def q_wf_def scull_limit_def sbyte_def
        q_byte_def q_page_def)
  then show ?thesis using assms(1) by (simp add: x_good_def q) (simp add: one_page_def)
qed

lemma mapped_page_shows_data_witness:
  "\<exists>blk. scullp_vma_nopage 100 0 (one_page 0 (replicate 4096 5)) = Some (Some blk, one_page 0 (replicate 4096 5)) \<and>
     length blk = 4096 \<and> blk ! 100 = x_view page_quantum (one_page 0 (replicate 4096 5)) ! 100"
proof -
  have "page_quantum 0 = Some (int (length (replicate 4096 (5::byte))))" by (simp add: page_quantum_0)
  from mapped_page_shows_data [OF one_page_good [OF this], of 100 100 0] show ?thesis
    by (simp add: one_page_def)
qed

text \<open>
  \<open>scullv\<close> maps devices of any order, but a fault takes the number of the page for the number of
  the quantum: with quanta of at least two pages, a fault at the second page of a device that has
  one full quantum finds no page, although the file has data there.
\<close>

theorem scullv_map_misses:
  assumes "page_quantum order = Some (int (length blk))" "4096 < length blk" "length blk < 2 ^ 31"
  shows "\<exists>d. scullv_mmap (one_page order blk) = (Inr 0, d) \<and> scullv_vma_nopage 4096 0 d = Some (None, d) \<and>
    4096 < xsize d"
proof -
  have "0 < length blk" using assms(2) by linarith
  let ?d = "one_page order blk\<lparr>vmas := 1\<rparr>"
  have "x_good page_quantum (one_page order blk)" by (rule one_page_good [OF assms(1) \<open>0 < length blk\<close> assms(3)])
  then have g: "x_good page_quantum ?d" by (simp add: x_good_def x_quantum_def as_scull_def)
  have "int 4096 = 4096 + 0 * 4096" "int 4096 < xsize ?d" using assms(2) by (simp_all add: one_page_def)
  from x_nopage_index [OF g this] have "scullv_vma_nopage 4096 0 ?d = Some (None, ?d)"
    by (simp add: scullv_vma_nopage_def q_page_def one_page_def)
  moreover have "scullv_mmap (one_page order blk) = (Inr 0, ?d)"
    by (simp add: scullv_mmap_def scullv_vma_open_def x_vma_open_def one_page_def)
  ultimately show ?thesis using assms(2) by (intro exI [of _ ?d]) (simp add: one_page_def)
qed

lemma scullv_map_misses_witness:
  "\<exists>d. scullv_mmap (one_page 1 (replicate 8192 0)) = (Inr 0, d) \<and> scullv_vma_nopage 4096 0 d = Some (None, d)"
  using scullv_map_misses [of 1 "replicate 8192 0"] by (auto simp: page_quantum_def)

end
