(* ===== verification/Sbull.thy ===== *)
theory Sbull
  imports Prelude
begin

text \<open>
  The block driver \<open>sbull/sbull.c\<close>: a disk in memory with its transfer routine, the three ways to
  serve requests, the simulated change of the medium, the geometry, and the set-up of the
  devices with its error paths.
\<close>

section \<open>State\<close>

text \<open>The pointer to the data array: NULL, an array, or an array that was given back.\<close>

datatype varea = VNull | VLive "byte list" | VFreed

record sbull_dev =
  dsize :: "32 word"
  ddata :: varea
  users :: "16 word"
  media_change :: bool
  armed :: bool
  has_queue :: bool
  has_gd :: bool

text \<open>
  A segment of a request: its length and the memory from its start to the end of its page.  A
  bio has its first sector and its segments; a request is a list of bios.
\<close>

record bio_vec =
  bv_len :: nat
  bv_mem :: "byte list"

record bio =
  bi_sector :: "64 word"
  bi_vecs :: "bio_vec list"

record request =
  rq_pos :: "64 word"
  rq_bios :: "bio list"
  rq_write :: bool
  rq_passthrough :: bool

datatype blk_status = BLK_STS_OK | BLK_STS_IOERR

section \<open>Transfers\<close>

text \<open>\<open>offset\<close> and \<open>nbytes\<close> are unsigned; \<open>size\<close>, an \<open>int\<close>, is extended for the comparison.\<close>

definition sbull_transfer ::
  "sbull_dev \<Rightarrow> 64 word \<Rightarrow> 64 word \<Rightarrow> byte list \<Rightarrow> bool \<Rightarrow> (sbull_dev \<times> byte list) option" where
  "sbull_transfer d sector nsect buffer write =
     (let offset = sector * 512; nbytes = nsect * 512 in
      if scast (dsize d) < offset + nbytes then Some (d, buffer)
      else case ddata d of
        VLive dat \<Rightarrow>
          if write then do {
            src \<leftarrow> mem_read buffer 0 (unat nbytes);
            dat \<leftarrow> mem_write dat (unat offset) src;
            Some (d\<lparr>ddata := VLive dat\<rparr>, buffer)
          }
          else do {
            src \<leftarrow> mem_read dat (unat offset) (unat nbytes);
            buffer \<leftarrow> mem_write buffer 0 src;
            Some (d, buffer)
          }
      | _ \<Rightarrow> None)"

text \<open>
  The loops over the segments transfer the same number of sectors for each of them: the size of
  the current segment, which is the first, since the loops do not advance the request.
\<close>

fun xfer_segments ::
  "bool \<Rightarrow> 64 word \<Rightarrow> 64 word \<Rightarrow> bio_vec list \<Rightarrow> sbull_dev \<Rightarrow> (bio_vec list \<times> sbull_dev) option" where
  "xfer_segments write nsect sector [] d = Some ([], d)"
| "xfer_segments write nsect sector (v # vs) d = do {
     (d, buffer) \<leftarrow> sbull_transfer d sector nsect (bv_mem v) write;
     (vs, d) \<leftarrow> xfer_segments write nsect (sector + nsect) vs d;
     Some (v\<lparr>bv_mem := buffer\<rparr> # vs, d)
   }"

definition cur_sectors :: "bio_vec list \<Rightarrow> 64 word" where
  "cur_sectors vs = (case vs of [] \<Rightarrow> 0 | v # _ \<Rightarrow> of_nat (bv_len v div 512))"

definition bi_size :: "bio \<Rightarrow> nat" where
  "bi_size b = sum_list (map bv_len (bi_vecs b))"

definition sbull_xfer_bio :: "bool \<Rightarrow> bio \<Rightarrow> sbull_dev \<Rightarrow> (bio \<times> sbull_dev) option" where
  "sbull_xfer_bio write b d = do {
     (vs, d) \<leftarrow> xfer_segments write (cur_sectors (bi_vecs b)) (bi_sector b) (bi_vecs b) d;
     Some (b\<lparr>bi_vecs := vs\<rparr>, d)
   }"

text \<open>The number of sectors, the bios with their memory, and the device.\<close>

fun sbull_xfer_request :: "bool \<Rightarrow> bio list \<Rightarrow> sbull_dev \<Rightarrow> (nat \<times> bio list \<times> sbull_dev) option" where
  "sbull_xfer_request write [] d = Some (0, [], d)"
| "sbull_xfer_request write (b # bs) d = do {
     (b', d) \<leftarrow> sbull_xfer_bio write b d;
     (n, bs, d) \<leftarrow> sbull_xfer_request write bs d;
     Some (bi_size b div 512 + n, b' # bs, d)
   }"

section \<open>The three request functions\<close>

text \<open>The segments of a request put back into its bios.\<close>

fun refill :: "bio list \<Rightarrow> bio_vec list \<Rightarrow> bio list" where
  "refill [] vs = []"
| "refill (b # bs) vs = b\<lparr>bi_vecs := take (length (bi_vecs b)) vs\<rparr> # refill bs (drop (length (bi_vecs b)) vs)"

definition sbull_request :: "request \<Rightarrow> sbull_dev \<Rightarrow> (blk_status \<times> bio list \<times> sbull_dev) option" where
  "sbull_request r d =
     (if rq_passthrough r then Some (BLK_STS_IOERR, rq_bios r, d)
      else do {
        let segs = concat (map bi_vecs (rq_bios r));
        (vs, d) \<leftarrow> xfer_segments (rq_write r) (cur_sectors segs) (rq_pos r) segs d;
        Some (BLK_STS_OK, refill (rq_bios r) vs, d)
      })"

definition sbull_full_request :: "request \<Rightarrow> sbull_dev \<Rightarrow> (blk_status \<times> bio list \<times> sbull_dev) option" where
  "sbull_full_request r d =
     (if rq_passthrough r then Some (BLK_STS_IOERR, rq_bios r, d)
      else do {
        (sectors_xferred, bs, d) \<leftarrow> sbull_xfer_request (rq_write r) (rq_bios r) d;
        Some (BLK_STS_OK, bs, d)
      })"

definition sbull_make_request :: "bool \<Rightarrow> bio \<Rightarrow> sbull_dev \<Rightarrow> (blk_status \<times> bio \<times> sbull_dev) option" where
  "sbull_make_request write b d = do {
     (b, d) \<leftarrow> sbull_xfer_bio write b d;
     Some (BLK_STS_OK, b, d)
   }"

section \<open>The medium\<close>

definition sbull_media_changed :: "sbull_dev \<Rightarrow> bool" where
  "sbull_media_changed d = media_change d"

definition sbull_revalidate :: "sbull_dev \<Rightarrow> sbull_dev option" where
  "sbull_revalidate d =
     (if media_change d then
        case ddata d of
          VLive dat \<Rightarrow>
            if unat (scast (dsize d) :: 64 word) \<le> length dat
            then Some (d\<lparr>media_change := False,
              ddata := VLive (replicate (unat (scast (dsize d) :: 64 word)) 0 @ drop (unat (scast (dsize d) :: 64 word)) dat)\<rparr>)
            else None
        | _ \<Rightarrow> None
      else Some d)"

text \<open>\<open>asked\<close>: the kernel asks the driver whether the medium changed, as older versions do.\<close>

definition sbull_open :: "bool \<Rightarrow> sbull_dev \<Rightarrow> (int ret \<times> sbull_dev) option" where
  "sbull_open asked d = do {
     let d = d\<lparr>armed := False\<rparr>;
     d \<leftarrow> (if users d = 0 \<and> asked \<and> sbull_media_changed d then sbull_revalidate d else Some d);
     Some (Inr 0, d\<lparr>users := users d + 1\<rparr>)
   }"

definition sbull_release :: "sbull_dev \<Rightarrow> sbull_dev" where
  "sbull_release d =
     (let d = d\<lparr>users := users d - 1\<rparr> in if users d = 0 then d\<lparr>armed := True\<rparr> else d)"

text \<open>The timer; the first result says whether the sanity check failed.\<close>

definition sbull_invalidate :: "sbull_dev \<Rightarrow> bool \<times> sbull_dev" where
  "sbull_invalidate d =
     (if users d \<noteq> 0 \<or> ddata d = VNull then (True, d\<lparr>armed := False\<rparr>)
      else (False, d\<lparr>armed := False, media_change := True\<rparr>))"

section \<open>Geometry\<close>

record hd_geometry =
  heads :: nat
  sectors :: nat
  cylinders :: "16 word"
  start :: nat

definition sbull_ioctl :: "bool \<Rightarrow> bool \<Rightarrow> int \<Rightarrow> sbull_dev \<Rightarrow> int ret \<times> hd_geometry option" where
  "sbull_ioctl getgeo copied hardsect_size d =
     (if getgeo then
        let total = s32 (sint (dsize d) * (the (c_div hardsect_size 512)));
            geo = \<lparr>heads = 4, sectors = 16, cylinders = word_of_int (total div 64), start = 4\<rparr>
        in if copied then (Inr 0, Some geo) else (Inl EFAULT, None)
      else (Inl ENOTTY, None))"

section \<open>Set-up and exit\<close>

text \<open>
  What the calls of one set-up answer: the memory, the queue and the disk.  A failure later than
  the memory gives it back and leaves the pointer.
\<close>

record setup_calls =
  got_mem :: "byte list option"
  got_queue :: bool
  got_disk :: bool

definition zero_sbull :: sbull_dev where
  "zero_sbull = \<lparr>dsize = 0, ddata = VNull, users = 0, media_change = False, armed = False, has_queue = False, has_gd = False\<rparr>"

definition setup_device :: "int \<Rightarrow> int \<Rightarrow> setup_calls \<Rightarrow> sbull_dev" where
  "setup_device nsectors hardsect_size c =
     (let d = zero_sbull\<lparr>dsize := word_of_int (nsectors * hardsect_size)\<rparr> in
      case got_mem c of
        None \<Rightarrow> d
      | Some m \<Rightarrow>
          let d = d\<lparr>ddata := VLive m\<rparr> in
          if \<not> got_queue c then d\<lparr>ddata := VFreed\<rparr>
          else let d = d\<lparr>has_queue := True\<rparr> in
            if \<not> got_disk c then d\<lparr>ddata := VFreed\<rparr> else d\<lparr>has_gd := True\<rparr>)"

text \<open>\<open>register major\<close> is what \<open>register_blkdev\<close> answers.\<close>

definition sbull_init :: "(int \<Rightarrow> int) \<Rightarrow> int \<Rightarrow> bool \<Rightarrow> int \<Rightarrow> int \<Rightarrow> setup_calls list \<Rightarrow> sbull_dev list ret" where
  "sbull_init register major mem nsectors hardsect_size calls =
     (if register major \<le> 0 then Inl EBUSY
      else if \<not> mem then Inl ENOMEM
      else Inr (map (setup_device nsectors hardsect_size) calls))"

fun sbull_exit :: "sbull_dev list \<Rightarrow> sbull_dev list option" where
  "sbull_exit [] = Some []"
| "sbull_exit (d # ds) =
     (let d = d\<lparr>armed := False, has_gd := False, has_queue := False\<rparr> in
      case ddata d of
        VFreed \<Rightarrow> None
      | VNull \<Rightarrow> map_option (\<lambda>ds. d # ds) (sbull_exit ds)
      | VLive _ \<Rightarrow> map_option (\<lambda>ds. d\<lparr>ddata := VFreed\<rparr> # ds) (sbull_exit ds))"

section \<open>Transfers in range\<close>

text \<open>
  A disk of \<open>n\<close> bytes, and requests whose segments have all the same length, a positive number of
  \<open>k\<close> sectors.
\<close>

definition disk :: "sbull_dev \<Rightarrow> byte list \<Rightarrow> bool" where
  "disk d dat \<longleftrightarrow> ddata d = VLive dat \<and> length dat < 2 ^ 31 \<and> dsize d = of_nat (length dat)"

definition uniform :: "nat \<Rightarrow> bio_vec list \<Rightarrow> bool" where
  "uniform k vs \<longleftrightarrow> (\<forall>v \<in> set vs. bv_len v = 512 * k \<and> 512 * k \<le> length (bv_mem v))"

lemma unat64: "n < 2 ^ 64 \<Longrightarrow> unat (of_nat n :: 64 word) = n"
  by (simp add: unat_of_nat)

lemma unat64_add: "unat a + unat b < 2 ^ 64 \<Longrightarrow> unat (a + b :: 64 word) = unat a + unat b"
  by (simp add: unat_word_ariths)

lemma disk_size:
  assumes "disk d dat"
  shows "scast (dsize d) = (of_nat (length dat) :: 64 word)"
proof -
  have "sint (dsize d) = int (length dat)"
    using assms by (simp add: disk_def signed_of_nat signed_take_bit_int_eq_self)
  then show ?thesis by (simp add: scast_eq)
qed

lemma transfer_check:
  fixes sector :: "64 word"
  assumes d: "disk d dat" and r: "unat sector * 512 + 512 * k \<le> length dat"
  shows "unat (sector * 512) = unat sector * 512" "unat (of_nat k * 512 :: 64 word) = 512 * k"
    "\<not> scast (dsize d) < sector * 512 + of_nat k * 512"
proof -
  have n: "length dat < 2 ^ 31" using d by (simp add: disk_def)
  have o: "sector * 512 = of_nat (unat sector * 512)" "of_nat k * 512 = (of_nat (512 * k) :: 64 word)" by simp_all
  show u1: "unat (sector * 512) = unat sector * 512"
    using n r unfolding o(1) by (subst unat64) simp_all
  show u2: "unat (of_nat k * 512 :: 64 word) = 512 * k"
    using n r unfolding o(2) by (subst unat64) simp_all
  have "unat (sector * 512 + of_nat k * 512) = unat sector * 512 + 512 * k"
    using n r u1 u2 by (subst unat64_add) simp_all
  moreover have "unat (scast (dsize d) :: 64 word) = length dat"
    using n unfolding disk_size [OF d] by (subst unat64) simp_all
  ultimately show "\<not> scast (dsize d) < sector * 512 + of_nat k * 512" using r by (simp add: word_less_nat_alt)
qed

lemma transfer_in_range:
  assumes d: "disk d dat" and r: "unat sector * 512 + 512 * k \<le> length dat" and b: "512 * k \<le> length buffer"
  shows "sbull_transfer d sector (of_nat k) buffer write =
    Some (if write then (d\<lparr>ddata := VLive (take (unat sector * 512) dat @ take (512 * k) buffer @ drop (unat sector * 512 + 512 * k) dat)\<rparr>, buffer)
      else (d, take (512 * k) (drop (unat sector * 512) dat) @ drop (512 * k) buffer))"
proof -
  note c = transfer_check [OF d r]
  have m: "min (length dat - unat sector * 512) (512 * k) = 512 * k" "min (length buffer) (512 * k) = 512 * k"
    using r b by linarith+
  have "ddata d = VLive dat" using d by (simp add: disk_def)
  then show ?thesis
    using c(3) r b unfolding sbull_transfer_def Let_def c(1,2)
    by (simp add: mem_read_def mem_write_def m)
qed

text \<open>Writing a list of segments: their bytes, one after the other, from the sector on.\<close>

definition seg_bytes :: "nat \<Rightarrow> bio_vec list \<Rightarrow> byte list" where
  "seg_bytes k vs = concat (map (\<lambda>v. take (512 * k) (bv_mem v)) vs)"

lemma length_seg_bytes: "uniform k vs \<Longrightarrow> length (seg_bytes k vs) = length vs * (512 * k)"
  by (induction vs) (auto simp: seg_bytes_def uniform_def min_def)

lemma seg_bytes_Cons: "seg_bytes k (v # vs) = take (512 * k) (bv_mem v) @ seg_bytes k vs"
  by (simp add: seg_bytes_def)

lemma uniform_Cons [simp]:
  "uniform k (v # vs) \<longleftrightarrow> bv_len v = 512 * k \<and> 512 * k \<le> length (bv_mem v) \<and> uniform k vs"
  by (auto simp: uniform_def)

lemma next_sector:
  assumes "unat (sector :: 64 word) * 512 + 512 * k \<le> n" "n < 2 ^ 31"
  shows "unat (sector + of_nat k) = unat sector + k"
proof -
  have "unat (of_nat k :: 64 word) = k" using assms by (subst unat64) simp_all
  moreover have "unat sector + k < 2 ^ 64" using assms by simp
  ultimately show ?thesis by (subst unat64_add) simp_all
qed

lemma write_segments:
  assumes "disk d dat" "uniform k vs" "unat sector * 512 + length vs * (512 * k) \<le> length dat"
  shows "xfer_segments True (of_nat k) sector vs d =
    Some (vs, d\<lparr>ddata := VLive (take (unat sector * 512) dat @ seg_bytes k vs @ drop (unat sector * 512 + length vs * (512 * k)) dat)\<rparr>)"
  using assms
proof (induction vs arbitrary: sector d dat)
  case Nil
  then show ?case by (cases d) (simp add: seg_bytes_def disk_def)
next
  case (Cons v vs)
  let ?o = "unat sector * 512" and ?L = "512 * k"
  let ?dat = "take ?o dat @ take ?L (bv_mem v) @ drop (?o + ?L) dat"
  let ?d = "d\<lparr>ddata := VLive ?dat\<rparr>"
  have r: "?o + ?L \<le> length dat" using Cons.prems(3) by simp
  have b: "?L \<le> length (bv_mem v)" using Cons.prems(2) by simp
  note t = transfer_in_range [OF Cons.prems(1) r b, of True]
  have lb: "length ?dat = length dat" using r b by simp
  have d: "disk ?d ?dat" using Cons.prems(1) lb by (simp add: disk_def)
  have n: "length dat < 2 ^ 31" using Cons.prems(1) by (simp add: disk_def)
  note ns = next_sector [OF r n]
  have "unat (sector + of_nat k) * 512 + length vs * ?L \<le> length ?dat"
    using Cons.prems(3) ns lb by (simp add: algebra_simps)
  with Cons.IH [OF d, of "sector + of_nat k"] Cons.prems(2) have
    "xfer_segments True (of_nat k) (sector + of_nat k) vs ?d =
     Some (vs, ?d\<lparr>ddata := VLive (take (?o + ?L) ?dat @ seg_bytes k vs @ drop (?o + ?L + length vs * ?L) ?dat)\<rparr>)"
    by (simp add: ns algebra_simps)
  moreover have "take (?o + ?L) ?dat = take ?o dat @ take ?L (bv_mem v)" using r b by simp
  moreover have "drop (?o + ?L + length vs * ?L) ?dat = drop (?o + ?L + length vs * ?L) dat"
    using r b by (simp add: add.commute)
  ultimately show ?case using t by (simp add: seg_bytes_Cons algebra_simps)
qed

lemma read_segments:
  assumes "disk d dat" "uniform k vs" "unat sector * 512 + length vs * (512 * k) \<le> length dat"
  shows "\<exists>vs'. xfer_segments False (of_nat k) sector vs d = Some (vs', d) \<and> uniform k vs' \<and> length vs' = length vs \<and>
    seg_bytes k vs' = take (length vs * (512 * k)) (drop (unat sector * 512) dat)"
  using assms(2,3)
proof (induction vs arbitrary: sector)
  case Nil
  then show ?case by (simp add: seg_bytes_def)
next
  case (Cons v vs)
  let ?o = "unat sector * 512" and ?L = "512 * k"
  have r: "?o + ?L \<le> length dat" using Cons.prems(2) by simp
  have b: "?L \<le> length (bv_mem v)" using Cons.prems(1) by simp
  note t = transfer_in_range [OF assms(1) r b, of False]
  have n: "length dat < 2 ^ 31" using assms(1) by (simp add: disk_def)
  note ns = next_sector [OF r n]
  have "unat (sector + of_nat k) * 512 + length vs * ?L \<le> length dat"
    using Cons.prems(2) ns by (simp add: algebra_simps)
  with Cons.IH [of "sector + of_nat k"] Cons.prems(1) obtain vs' where
    v: "xfer_segments False (of_nat k) (sector + of_nat k) vs d = Some (vs', d)" "uniform k vs'" "length vs' = length vs"
      "seg_bytes k vs' = take (length vs * ?L) (drop (unat (sector + of_nat k) * 512) dat)" by auto
  let ?v = "v\<lparr>bv_mem := take ?L (drop ?o dat) @ drop ?L (bv_mem v)\<rparr>"
  have "take ?L (bv_mem ?v) = take ?L (drop ?o dat)"
    using r by (simp add: min_absorb2 [of "512 * k" "length dat - unat sector * 512"] add_le_imp_le_diff)
  moreover have "take ?L (drop ?o dat) @ take (length vs * ?L) (drop (?o + ?L) dat) = take (?L + length vs * ?L) (drop ?o dat)"
    by (simp add: take_add add.commute)
  moreover have "unat (sector + of_nat k) * 512 = ?o + ?L" using ns by simp
  ultimately have "seg_bytes k (?v # vs') = take (length (v # vs) * ?L) (drop ?o dat)"
    using v(4) unfolding seg_bytes_Cons by (simp only: length_Cons mult_Suc)
  moreover have "uniform k (?v # vs')" using v(2) Cons.prems(1) r by simp
  ultimately show ?case using t v(1,3) by (intro exI [of _ "?v # vs'"]) simp
qed

section \<open>Requests\<close>

lemma xfer_length: "xfer_segments w n s vs d = Some (vs', d') \<Longrightarrow> length vs' = length vs"
  by (induction vs arbitrary: s d vs') (auto simp: bind_eq_Some_conv)

lemma xfer_append:
  "xfer_segments w n s (us @ vs) d = do {
     (us', d) \<leftarrow> xfer_segments w n s us d;
     (vs', d) \<leftarrow> xfer_segments w n (s + of_nat (length us) * n) vs d;
     Some (us' @ vs', d)
   }"
proof (induction us arbitrary: s d)
  case Nil
  have "x \<bind> (\<lambda>(vs', d). Some (vs', d)) = x" for x :: "(bio_vec list \<times> sbull_dev) option" by (cases x) auto
  then show ?case by simp
next
  case (Cons u us)
  have "s + n + of_nat (length us) * n = s + of_nat (length (u # us)) * n" by (simp add: algebra_simps)
  with Cons.IH [of "s + n"] show ?case
    by (cases "sbull_transfer d s n (bv_mem u) w") (auto simp: algebra_simps split: prod.splits Option.bind_splits)
qed

lemma refill_concat: "length vs = length (concat (map bi_vecs bs)) \<Longrightarrow> concat (map bi_vecs (refill bs vs)) = vs"
  by (induction bs arbitrary: vs) auto

lemma refill_same: "refill bs (concat (map bi_vecs bs)) = bs"
  by (induction bs) auto

text \<open>The bios of a request follow each other on the disk.\<close>

fun contiguous :: "nat \<Rightarrow> 64 word \<Rightarrow> bio list \<Rightarrow> bool" where
  "contiguous k sector [] = True"
| "contiguous k sector (b # bs) \<longleftrightarrow>
     bi_sector b = sector \<and> bi_vecs b \<noteq> [] \<and> contiguous k (sector + of_nat (length (bi_vecs b)) * of_nat k) bs"

lemma cur_sectors_uniform:
  "vs \<noteq> [] \<Longrightarrow> \<forall>v \<in> set vs. bv_len v = 512 * k \<Longrightarrow> cur_sectors vs = of_nat k"
  by (cases vs) (auto simp: cur_sectors_def)

lemma xfer_request_segments:
  assumes "contiguous k sector bs" "\<forall>v \<in> set (concat (map bi_vecs bs)). bv_len v = 512 * k"
  shows "\<exists>n. sbull_xfer_request w bs d =
    map_option (\<lambda>(vs, d). (n, refill bs vs, d)) (xfer_segments w (of_nat k) sector (concat (map bi_vecs bs)) d)"
  using assms
proof (induction bs arbitrary: sector d)
  case Nil
  then show ?case by simp
next
  case (Cons b bs)
  then have c: "cur_sectors (bi_vecs b) = of_nat k" "bi_sector b = sector" by (auto intro: cur_sectors_uniform)
  let ?s = "sector + of_nat (length (bi_vecs b)) * of_nat k"
  show ?case
  proof (cases "xfer_segments w (of_nat k) sector (bi_vecs b) d")
    case None
    with c show ?thesis by (simp add: sbull_xfer_bio_def xfer_append)
  next
    case (Some r)
    then obtain us d1 where r: "xfer_segments w (of_nat k) sector (bi_vecs b) d = Some (us, d1)" by (cases r) auto
    note l = xfer_length [OF r]
    from Cons.IH [of ?s d1] Cons.prems obtain n where
      "sbull_xfer_request w bs d1 =
        map_option (\<lambda>(vs, d). (n, refill bs vs, d)) (xfer_segments w (of_nat k) ?s (concat (map bi_vecs bs)) d1)" by auto
    with r c l show ?thesis
      by (cases "xfer_segments w (of_nat k) ?s (concat (map bi_vecs bs)) d1") (auto simp: sbull_xfer_bio_def xfer_append)
  qed
qed

section \<open>The medium as a state machine\<close>

text \<open>The device and the number of its openings; a change of the medium takes an armed timer.\<close>

inductive sbull_step :: "bool \<Rightarrow> sbull_dev \<times> nat \<Rightarrow> sbull_dev \<times> nat \<Rightarrow> bool" for asked where
  opened: "n + 1 < 2 ^ 16 \<Longrightarrow> sbull_open asked d = Some (Inr 0, d') \<Longrightarrow> sbull_step asked (d, n) (d', n + 1)"
| closed: "0 < n \<Longrightarrow> sbull_step asked (d, n) (sbull_release d, n - 1)"
| fired: "armed d \<Longrightarrow> sbull_step asked (d, n) (snd (sbull_invalidate d), n)"

inductive_cases sbull_stepE: "sbull_step asked (d, n) s"

definition media_inv :: "bool \<Rightarrow> nat \<Rightarrow> sbull_dev \<times> nat \<Rightarrow> bool" where
  "media_inv asked len s = (case s of (d, n) \<Rightarrow> n < 2 ^ 16 \<and> users d = of_nat n \<and> (armed d \<longrightarrow> n = 0) \<and>
     (asked \<and> media_change d \<longrightarrow> n = 0) \<and> (\<exists>dat. disk d dat \<and> length dat = len))"

lemma users_zero: "n < 2 ^ 16 \<Longrightarrow> (of_nat n :: 16 word) = 0 \<longleftrightarrow> n = 0"
  by (simp add: word_of_nat_eq_0_iff) (metis dvd_imp_le linorder_not_less not_gr_zero dvd_0_right)

lemma revalidate_disk:
  assumes "disk d dat"
  shows "\<exists>dat'. sbull_revalidate d = Some (d\<lparr>media_change := False, ddata := VLive dat'\<rparr>) \<and>
    disk (d\<lparr>media_change := False, ddata := VLive dat'\<rparr>) dat' \<and> length dat' = length dat \<and>
    dat' = (if media_change d then replicate (length dat) 0 else dat)"
proof -
  have "length dat < 2 ^ 64" using assms by (simp add: disk_def)
  then have u: "unat (scast (dsize d) :: 64 word) = length dat"
    unfolding disk_size [OF assms] by (rule unat64)
  have "ddata d = VLive dat" using assms by (simp add: disk_def)
  then show ?thesis
    using assms u by (cases d) (auto simp: sbull_revalidate_def disk_def)
qed

lemma sbull_step_inv: "sbull_step asked s s' \<Longrightarrow> media_inv asked len s \<Longrightarrow> media_inv asked len s'"
proof (induction rule: sbull_step.induct)
  case (opened n d d')
  then have i: "n < 2 ^ 16" "users d = of_nat n" "armed d \<longrightarrow> n = 0" "asked \<and> media_change d \<longrightarrow> n = 0"
    by (auto simp: media_inv_def)
  from opened.prems obtain dat where dat: "disk d dat" "length dat = len" by (auto simp: media_inv_def)
  then have d0: "disk (d\<lparr>armed := False\<rparr>) dat" by (simp add: disk_def)
  from revalidate_disk [OF d0] obtain dat' where
    r: "sbull_revalidate (d\<lparr>armed := False\<rparr>) = Some (d\<lparr>armed := False, media_change := False, ddata := VLive dat'\<rparr>)"
      "disk (d\<lparr>armed := False, media_change := False, ddata := VLive dat'\<rparr>) dat'" "length dat' = len"
    using dat by auto
  have u: "users d + 1 = of_nat (n + 1)" using i(2) by simp
  show ?case
  proof (cases "users d = 0 \<and> asked \<and> media_change d")
    case True
    then have "d' = d\<lparr>armed := False, media_change := False, ddata := VLive dat', users := users d + 1\<rparr>"
      using opened.hyps(2) r(1) by (simp add: sbull_open_def sbull_media_changed_def)
    with r(2,3) u opened.hyps(1) show ?thesis by (auto simp: media_inv_def disk_def)
  next
    case False
    then have "d' = d\<lparr>armed := False, users := users d + 1\<rparr>"
      using opened.hyps(2) by (auto simp: sbull_open_def sbull_media_changed_def)
    moreover have "\<not> (asked \<and> media_change d)" using False i users_zero by auto
    ultimately show ?thesis using dat u opened.hyps(1) by (auto simp: media_inv_def disk_def)
  qed
next
  case (closed n d)
  then have i: "n < 2 ^ 16" "users d = of_nat n" "asked \<and> media_change d \<longrightarrow> n = 0" by (auto simp: media_inv_def)
  have u: "users d - 1 = of_nat (n - 1)" using i(2) closed.hyps by (simp add: of_nat_diff)
  have z: "users d - 1 = 0 \<longleftrightarrow> n - 1 = 0" unfolding u using i(1) by (intro users_zero) simp
  from closed show ?case using u z i by (auto simp: media_inv_def sbull_release_def disk_def Let_def)
next
  case (fired d n)
  then show ?case by (auto simp: media_inv_def sbull_invalidate_def disk_def)
qed

lemma sbull_reach_inv: "(sbull_step asked)\<^sup>*\<^sup>* s s' \<Longrightarrow> media_inv asked len s \<Longrightarrow> media_inv asked len s'"
  by (induction rule: rtranclp_induct) (auto intro: sbull_step_inv)

section \<open>Properties\<close>

text \<open>
  C19: The simple and the full request function do the same: for a request whose bios follow each
  other on the disk and whose segments all have the same length, they leave the same disk and
  the same memory, and report the same, whatever the position, the direction and the size.
\<close>

theorem sbull_modes_agree:
  assumes "contiguous k (rq_pos r) (rq_bios r)" "\<forall>v \<in> set (concat (map bi_vecs (rq_bios r))). bv_len v = 512 * k"
  shows "sbull_full_request r d = sbull_request r d"
proof -
  let ?vs = "concat (map bi_vecs (rq_bios r))"
  from xfer_request_segments [OF assms] obtain n where
    f: "sbull_xfer_request (rq_write r) (rq_bios r) d =
      map_option (\<lambda>(vs, d). (n, refill (rq_bios r) vs, d)) (xfer_segments (rq_write r) (of_nat k) (rq_pos r) ?vs d)" by blast
  have "xfer_segments (rq_write r) (cur_sectors ?vs) (rq_pos r) ?vs d = xfer_segments (rq_write r) (of_nat k) (rq_pos r) ?vs d"
  proof (cases "?vs = []")
    case True
    show ?thesis unfolding True by simp
  next
    case False
    with assms(2) cur_sectors_uniform [of ?vs k] show ?thesis by simp
  qed
  then show ?thesis
    using f by (cases "xfer_segments (rq_write r) (of_nat k) (rq_pos r) ?vs d") (auto simp: sbull_full_request_def sbull_request_def)
qed

text \<open>A request of one bio whose segments are the given blocks of bytes.\<close>

definition plain_request :: "bool \<Rightarrow> 64 word \<Rightarrow> byte list list \<Rightarrow> request" where
  "plain_request write sector blocks =
     \<lparr>rq_pos = sector, rq_bios = [\<lparr>bi_sector = sector, bi_vecs = map (\<lambda>b. \<lparr>bv_len = length b, bv_mem = b\<rparr>) blocks\<rparr>],
      rq_write = write, rq_passthrough = False\<rparr>"

definition plain_disk :: "byte list \<Rightarrow> sbull_dev" where
  "plain_disk dat = zero_sbull\<lparr>dsize := of_nat (length dat), ddata := VLive dat\<rparr>"

lemma plain_disk: "length dat < 2 ^ 31 \<Longrightarrow> disk (plain_disk dat) dat"
  by (simp add: disk_def plain_disk_def)

lemma sbull_modes_agree_witness:
  "sbull_full_request (plain_request True 1 [replicate 512 7, replicate 512 8]) (plain_disk (replicate 4096 0)) =
   sbull_request (plain_request True 1 [replicate 512 7, replicate 512 8]) (plain_disk (replicate 4096 0))"
  by (rule sbull_modes_agree [of 1]) (simp_all add: plain_request_def)

text \<open>
  C20: What a request writes a later request reads.  The segments of a request are all of one size, a
  multiple of 512 bytes, which may be another size for the read than for the write (for other
  segments the code is not right, see \<open>sbull_short_segment_overrun\<close>): after a write inside the disk, a
  read of the same sectors fills its segments with the bytes of the write, one after the other; and
  the rest of the disk is as before.
\<close>

theorem sbull_write_read:
  assumes "disk d dat" "\<not> rq_passthrough r" "rq_write r" "\<not> rq_passthrough r'" "\<not> rq_write r'" "rq_pos r' = rq_pos r"
    and "uniform k (concat (map bi_vecs (rq_bios r)))" "uniform k' (concat (map bi_vecs (rq_bios r')))"
    and "len = length (concat (map bi_vecs (rq_bios r))) * (512 * k)" "len = length (concat (map bi_vecs (rq_bios r'))) * (512 * k')"
    and "unat (rq_pos r) * 512 + len \<le> length dat"
  shows "\<exists>d' bs. sbull_request r d = Some (BLK_STS_OK, rq_bios r, d') \<and>
    disk d' (take (unat (rq_pos r) * 512) dat @ seg_bytes k (concat (map bi_vecs (rq_bios r))) @ drop (unat (rq_pos r) * 512 + len) dat) \<and>
    sbull_request r' d' = Some (BLK_STS_OK, bs, d') \<and>
    seg_bytes k' (concat (map bi_vecs bs)) = seg_bytes k (concat (map bi_vecs (rq_bios r)))"
proof -
  define vs where "vs = concat (map bi_vecs (rq_bios r))"
  define ws where "ws = concat (map bi_vecs (rq_bios r'))"
  define o' where "o' = unat (rq_pos r) * 512"
  have u: "uniform k vs" "uniform k' ws" using assms(7,8) by (simp_all add: vs_def ws_def)
  have tv: "length vs * (512 * k) = len" "length ws * (512 * k') = len" using assms(9,10) by (simp_all add: vs_def ws_def)
  have le: "o' + len \<le> length dat" using assms(11) by (simp add: o'_def)
  let ?dat = "take o' dat @ seg_bytes k vs @ drop (o' + len) dat"
  let ?d = "d\<lparr>ddata := VLive ?dat\<rparr>"
  have ls: "length (seg_bytes k vs) = len" using length_seg_bytes [OF u(1)] tv(1) by simp
  have lb: "length ?dat = length dat" using le ls by simp
  have dk: "disk ?d ?dat" using assms(1) lb by (simp add: disk_def)
  have xs: "xfer_segments (rq_write q) (cur_sectors vs') (rq_pos r) vs' d0 = xfer_segments (rq_write q) (of_nat j) (rq_pos r) vs' d0"
    if "uniform j vs'" for q vs' j d0
    using that cur_sectors_uniform [of vs' j] by (cases "vs' = []") (auto simp: uniform_def)
  have "xfer_segments True (of_nat k) (rq_pos r) vs d = Some (vs, ?d)"
    using write_segments [OF assms(1) u(1), of "rq_pos r"] le tv(1) by (simp add: o'_def)
  then have w: "sbull_request r d = Some (BLK_STS_OK, rq_bios r, ?d)"
    using assms(2,3) xs [OF u(1), of r d] refill_same [of "rq_bios r"] by (simp add: sbull_request_def flip: vs_def)
  have "unat (rq_pos r) * 512 + length ws * (512 * k') \<le> length ?dat" using le tv(2) lb by (simp add: o'_def)
  from read_segments [OF dk u(2) this] obtain ws' where
    rd: "xfer_segments False (of_nat k') (rq_pos r) ws ?d = Some (ws', ?d)" "length ws' = length ws"
      "seg_bytes k' ws' = take (length ws * (512 * k')) (drop (unat (rq_pos r) * 512) ?dat)" by blast
  have "sbull_request r' ?d = Some (BLK_STS_OK, refill (rq_bios r') ws', ?d)"
    using assms(4,5,6) rd(1) xs [OF u(2), of r' ?d] by (simp add: sbull_request_def flip: ws_def)
  moreover have "concat (map bi_vecs (refill (rq_bios r') ws')) = ws'"
    using rd(2) by (intro refill_concat) (simp add: ws_def)
  moreover have "seg_bytes k' ws' = seg_bytes k vs"
    unfolding rd(3) tv(2) o'_def [symmetric] using le ls by simp
  ultimately show ?thesis
    using w dk unfolding vs_def [symmetric] o'_def [symmetric]
    by (intro exI [of _ ?d] exI [of _ "refill (rq_bios r') ws'"]) simp
qed

lemma sbull_write_read_witness:
  "\<exists>d' bs. sbull_request (plain_request True 2 [replicate 512 7, replicate 512 8]) (plain_disk (replicate 4096 0)) =
      Some (BLK_STS_OK, rq_bios (plain_request True 2 [replicate 512 7, replicate 512 8]), d') \<and>
    sbull_request (plain_request False 2 [replicate 1024 0]) d' = Some (BLK_STS_OK, bs, d') \<and>
    seg_bytes 2 (concat (map bi_vecs bs)) = replicate 512 7 @ replicate 512 8"
proof -
  have "disk (plain_disk (replicate 4096 0)) (replicate 4096 0)" by (rule plain_disk) simp
  note d = this
  have p: "concat (map bi_vecs (rq_bios (plain_request b s bs))) = map (\<lambda>b. \<lparr>bv_len = length b, bv_mem = b\<rparr>) bs"
    "rq_pos (plain_request b s bs) = s" "rq_write (plain_request b s bs) = b" "\<not> rq_passthrough (plain_request b s bs)" for b s bs
    by (simp_all add: plain_request_def)
  let ?r = "plain_request True 2 [replicate 512 7, replicate 512 8]" and ?r' = "plain_request False 2 [replicate 1024 0]"
  have u: "uniform 1 (concat (map bi_vecs (rq_bios ?r)))" "uniform 2 (concat (map bi_vecs (rq_bios ?r')))"
    by (simp_all add: p uniform_def)
  have l: "1024 = length (concat (map bi_vecs (rq_bios ?r))) * (512 * 1)" "1024 = length (concat (map bi_vecs (rq_bios ?r'))) * (512 * 2)"
    "unat (rq_pos ?r) * 512 + 1024 \<le> length (replicate 4096 (0 :: byte))" "rq_write ?r" "\<not> rq_write ?r'" "rq_pos ?r' = rq_pos ?r"
    by (simp_all add: p)
  have s: "seg_bytes 1 (concat (map bi_vecs (rq_bios ?r))) = replicate 512 7 @ replicate 512 8"
    by (simp add: p seg_bytes_def)
  from sbull_write_read [OF d p(4) l(4) p(4) l(5,6) u l(1-3)] show ?thesis
    unfolding s by (elim exE conjE) (intro exI conjI, assumption+)
qed

text \<open>
  A read request with a segment shorter than its first one writes past the end of the memory of
  the shorter segment, because every segment is given the size of the first.
\<close>

theorem sbull_short_segment_overrun:
  assumes "disk d dat" "unat sector * 512 + 512 * k + 512 * k \<le> length dat"
    and "length b1 = 512 * k" "length b2 < 512 * k"
  shows "sbull_request (plain_request False sector [b1, b2]) d = None"
proof -
  have r: "unat sector * 512 + 512 * k \<le> length dat" using assms(2) by simp
  have n: "length dat < 2 ^ 31" "ddata d = VLive dat" using assms(1) by (simp_all add: disk_def)
  have t1: "\<exists>b. sbull_transfer d sector (of_nat k) b1 False = Some (d, b)"
    using transfer_in_range [OF assms(1) r, of b1 False] assms(3) by simp
  let ?s = "sector + of_nat k"
  have s2: "unat ?s * 512 + 512 * k \<le> length dat" using assms(2) next_sector [OF r n(1)] by simp
  note c = transfer_check [OF assms(1) s2]
  have "length (take (512 * k) (drop (unat ?s * 512) dat)) = 512 * k" using s2 by simp
  then have "mem_write b2 0 (take (512 * k) (drop (unat ?s * 512) dat)) = None"
    using assms(4) by (simp add: mem_write_def)
  then have "sbull_transfer d ?s (of_nat k) b2 False = None"
    using c(3) s2 n(2) unfolding sbull_transfer_def Let_def c(1,2) by (simp add: mem_read_def)
  moreover have "cur_sectors (map (\<lambda>b. \<lparr>bv_len = length b, bv_mem = b\<rparr>) [b1, b2]) = of_nat k"
    using assms(3) by (simp add: cur_sectors_def)
  ultimately show ?thesis using t1 by (auto simp: sbull_request_def plain_request_def)
qed

lemma sbull_short_segment_overrun_witness:
  "sbull_request (plain_request False 0 [replicate 1024 0, replicate 512 0]) (plain_disk (replicate 4096 0)) = None"
proof -
  have "disk (plain_disk (replicate 4096 0)) (replicate 4096 0)" by (rule plain_disk) simp
  then show ?thesis by (rule sbull_short_segment_overrun [where k = 2]) simp_all
qed

text \<open>
  The check of the end of the disk wraps: a sector number and the same number plus \<open>2^55\<close> are
  served alike, so a sector far behind the end reads and writes the disk.
\<close>

theorem sbull_sector_wraps:
  "sbull_transfer d (sector + 2 ^ 55) nsect buffer write = sbull_transfer d sector nsect buffer write"
proof -
  have "(sector + 2 ^ 55) * 512 = sector * 512 + 2 ^ 55 * 512" by (rule distrib_right)
  moreover have "(2 :: 64 word) ^ 55 * 512 = 0" by simp
  ultimately have "(sector + 2 ^ 55) * 512 = sector * 512" by (simp only: add_0_right)
  then show ?thesis by (simp only: sbull_transfer_def)
qed

text \<open>
  C21: In every state that opens, closes and runs of the timer lead to from a new device, with fewer
  than \<open>2^16\<close> openings at a time, an armed timer finds the device closed, so that its sanity check
  never fails; the array keeps its size; and no step changes the data while a file is open.
\<close>

theorem sbull_medium_safe:
  assumes "(sbull_step asked)\<^sup>*\<^sup>* (plain_disk dat, 0) (d, n)" "length dat < 2 ^ 31"
  shows "(armed d \<longrightarrow> n = 0 \<and> \<not> fst (sbull_invalidate d)) \<and> (\<exists>dat'. disk d dat' \<and> length dat' = length dat) \<and>
    (0 < n \<longrightarrow> (\<forall>d' n'. sbull_step asked (d, n) (d', n') \<longrightarrow> ddata d' = ddata d))"
proof -
  have "media_inv asked (length dat) (plain_disk dat, 0)"
    using plain_disk [OF assms(2)] by (auto simp: media_inv_def) (simp_all add: plain_disk_def zero_sbull_def)
  from sbull_reach_inv [OF assms(1) this] have i: "n < 2 ^ 16" "users d = of_nat n" "armed d \<longrightarrow> n = 0"
    "\<exists>dat'. disk d dat' \<and> length dat' = length dat" by (auto simp: media_inv_def)
  have "ddata d' = ddata d" if s: "sbull_step asked (d, n) (d', n')" and n: "0 < n" for d' n'
  proof -
    have u: "users d \<noteq> 0" using i(1,2) n users_zero by auto
    from s show ?thesis
      by (rule sbull_stepE) (use u in \<open>auto simp: sbull_open_def sbull_release_def sbull_invalidate_def Let_def\<close>)
  qed
  moreover have "armed d \<longrightarrow> n = 0 \<and> \<not> fst (sbull_invalidate d)"
    using i by (auto simp: sbull_invalidate_def disk_def)
  ultimately show ?thesis using i(4) by blast
qed

lemma sbull_medium_safe_witness:
  "\<exists>d. (sbull_step True)\<^sup>*\<^sup>* (plain_disk [1, 2, 3], 0) (d, 0) \<and> \<not> fst (sbull_invalidate d)"
proof -
  let ?d = "plain_disk [1, 2, 3]" and ?d1 = "plain_disk [1, 2, 3]\<lparr>users := 1\<rparr>"
  have "sbull_step True (?d, 0) (?d1, 0 + 1)"
    by (rule sbull_step.opened) (simp_all add: sbull_open_def plain_disk_def zero_sbull_def sbull_media_changed_def)
  moreover have "sbull_step True (?d1, 1) (sbull_release ?d1, 1 - 1)" by (rule sbull_step.closed) simp
  ultimately have r: "(sbull_step True)\<^sup>*\<^sup>* (?d, 0) (sbull_release ?d1, 0)"
    by (simp add: rtranclp.rtrancl_into_rtrancl)
  have "armed (sbull_release ?d1)" by (simp add: sbull_release_def Let_def)
  with sbull_medium_safe [OF r] r show ?thesis by auto
qed

text \<open>
  The geometry is computed from the size in bytes as if it were in sectors: for the default
  disk of 1024 sectors of 512 bytes it claims 8192 cylinders, 512 times the disk.
\<close>

theorem sbull_geometry_wrong:
  "\<exists>geo. sbull_ioctl True True 512 (setup_device 1024 512 c) = (Inr 0, Some geo) \<and>
    unat (cylinders geo) * heads geo * sectors geo = 512 * 1024"
proof -
  have "dsize (setup_device 1024 512 c) = 524288"
    by (simp add: setup_device_def Let_def zero_sbull_def split: option.splits)
  then show ?thesis by (simp add: sbull_ioctl_def c_div_def Let_def)
qed

text \<open>
  When the queue or the disk of a device cannot be made, its array is given back and the pointer
  kept; the module loads all the same, and gives the array back again when it is removed.
\<close>

theorem sbull_double_free:
  assumes "0 < register major" "c \<in> set calls" "got_mem c \<noteq> None" "\<not> got_queue c \<or> \<not> got_disk c"
  shows "\<exists>devs. sbull_init register major True nsectors hardsect_size calls = Inr devs \<and> sbull_exit devs = None"
proof -
  have "ddata (setup_device nsectors hardsect_size c) = VFreed"
    using assms(3,4) by (auto simp: setup_device_def Let_def)
  then have "\<exists>d \<in> set (map (setup_device nsectors hardsect_size) calls). ddata d = VFreed" using assms(2) by auto
  moreover have "\<exists>d \<in> set ds. ddata d = VFreed \<Longrightarrow> sbull_exit ds = None" for ds
    by (induction ds) (auto simp: Let_def split: varea.splits)
  ultimately show ?thesis using assms(1) by (simp add: sbull_init_def)
qed

lemma sbull_double_free_witness:
  "\<exists>devs. sbull_init (\<lambda>m. if m = 0 then 250 else 0) 0 True 1024 512 [\<lparr>got_mem = Some [0], got_queue = True, got_disk = False\<rparr>] = Inr devs \<and>
    sbull_exit devs = None"
  by (rule sbull_double_free [where c = "\<lparr>got_mem = Some [0], got_queue = True, got_disk = False\<rparr>"]) simp_all

text \<open>
  A major number that is given to the module makes the registration answer 0 on success, which the
  initialisation takes for a failure.
\<close>

lemma sbull_fixed_major:
  assumes "\<And>m. m \<noteq> 0 \<Longrightarrow> register m \<le> 0" "major \<noteq> 0"
  shows "sbull_init register major mem nsectors hardsect_size calls = Inl EBUSY"
  using assms by (simp add: sbull_init_def)

end
