(* ===== verification/Short.thy ===== *)
theory Short
  imports Prelude
begin

text \<open>
  The driver \<open>short/short.c\<close>: access to ports in four modes, a page of text that interrupts fill
  with 16-byte records and readers empty, the split of the interrupt into a top half and a bottom
  half over an array of time values, the probing for the interrupt line, and the module's
  initialisation and cleanup.  The formatting of the records is shared with \<open>Shortprint\<close>.
\<close>

section \<open>Formatting\<close>

text \<open>Decimal digits, as character codes, and padding to a width on the left.\<close>

fun digits :: "nat \<Rightarrow> nat list" where
  "digits n = (if n < 10 then [n] else digits (n div 10) @ [n mod 10])"

declare digits.simps [simp del]

definition fmt :: "nat \<Rightarrow> byte \<Rightarrow> nat \<Rightarrow> byte list" where
  "fmt width pad n =
     (let ds = map (\<lambda>k. of_nat (48 + k)) (digits n) in replicate (width - length ds) pad @ ds)"

text \<open>\<open>"%08u.%06lu\n"\<close> of a time, the seconds as \<open>unsigned int\<close>, the microseconds as \<open>unsigned long\<close>.\<close>

type_synonym timespec = "int \<times> int"

text \<open>A quotient and a remainder by a positive constant, as C computes them.\<close>

definition quot_by :: "int \<Rightarrow> int \<Rightarrow> int" where
  "quot_by a b = (case c_div a b of Some q \<Rightarrow> q | None \<Rightarrow> 0)"

definition rem_by :: "int \<Rightarrow> int \<Rightarrow> int" where
  "rem_by a b = (case c_rem a b of Some r \<Rightarrow> r | None \<Rightarrow> 0)"

definition short_record :: "timespec \<Rightarrow> byte list" where
  "short_record tv =
     fmt 8 48 (nat (u32 (rem_by (fst tv) 100000000))) @ [46] @ fmt 6 48 (nat (u64 (quot_by (s32 (snd tv)) 1000))) @ [10]"

text \<open>\<open>"bh after %6i\n"\<close>; the counter is not negative.\<close>

definition bh_record :: "int \<Rightarrow> byte list" where
  "bh_record n = [98, 104, 32, 97, 102, 116, 101, 114, 32] @ fmt 6 32 (nat n) @ [10]"

section \<open>State\<close>

abbreviation (input) PAGE_SIZE :: nat where "PAGE_SIZE \<equiv> 4096"
abbreviation (input) NR_TIMEVAL :: nat where "NR_TIMEVAL \<equiv> 512"

text \<open>The page and the positions in it; the time values with their positions; the counter.\<close>

record short_dev =
  short_buffer :: "byte list"
  short_head :: nat
  short_tail :: nat
  tv_data :: "timespec list"
  tv_head :: nat
  tv_tail :: nat
  short_wq_count :: int

definition short_incr_bp :: "nat \<Rightarrow> nat \<Rightarrow> nat" where
  "short_incr_bp index delta = (if PAGE_SIZE \<le> index + delta then 0 else index + delta)"

definition short_incr_tv :: "nat \<Rightarrow> nat" where
  "short_incr_tv i = (if i = NR_TIMEVAL - 1 then 0 else i + 1)"

text \<open>\<open>sprintf\<close> to the head: the text and the terminating zero must fit into the page.\<close>

definition short_print :: "byte list \<Rightarrow> short_dev \<Rightarrow> short_dev option" where
  "short_print s d = do {
     b \<leftarrow> mem_write (short_buffer d) (short_head d) (s @ [0]);
     Some (d\<lparr>short_buffer := b, short_head := short_incr_bp (short_head d) (length s)\<rparr>)
   }"

section \<open>The port-oriented device\<close>

datatype short_mode = SHORT_DEFAULT | SHORT_PAUSE | SHORT_STRING | SHORT_MEMORY

text \<open>The mode of a minor number; memory-mapped ports have one mode only.\<close>

definition short_mode_of :: "bool \<Rightarrow> nat \<Rightarrow> short_mode option" where
  "short_mode_of use_mem minor =
     (if use_mem then Some SHORT_MEMORY
      else case minor div 16 mod 8 of
        0 \<Rightarrow> Some SHORT_DEFAULT | Suc 0 \<Rightarrow> Some SHORT_PAUSE | Suc (Suc 0) \<Rightarrow> Some SHORT_STRING
      | Suc (Suc (Suc 0)) \<Rightarrow> Some SHORT_MEMORY | _ \<Rightarrow> None)"

text \<open>
  A read: \<open>port i\<close> is the \<open>i\<close>-th byte that the port delivers.  The results are the value and the
  bytes stored for the user; whether the copy to the user succeeds is \<open>copied\<close>.
\<close>

definition do_short_read :: "bool \<Rightarrow> bool \<Rightarrow> bool \<Rightarrow> nat \<Rightarrow> (nat \<Rightarrow> byte) \<Rightarrow> nat \<Rightarrow> int ret \<times> byte list" where
  "do_short_read mem copied use_mem minor port count =
     (if \<not> mem then (Inl ENOMEM, [])
      else case short_mode_of use_mem minor of
        None \<Rightarrow> (Inl EINVAL, [])
      | Some _ \<Rightarrow>
          let retval = s32 (int count); kbuf = map port [0..<count] in
          if 0 < retval then
            if copied then (Inr retval, take (nat retval) kbuf) else (Inl EFAULT, [])
          else (Inr retval, []))"

text \<open>
  A write: the value, the bytes put out to the port, and whether the buffer stays allocated.
\<close>

definition do_short_write :: "bool \<Rightarrow> nat \<Rightarrow> bool \<Rightarrow> nat \<Rightarrow> byte list \<Rightarrow> int ret \<times> byte list \<times> bool" where
  "do_short_write mem nc use_mem minor ub =
     (if \<not> mem then (Inl ENOMEM, [], False)
      else if nc \<noteq> 0 then (Inl EFAULT, [], True)
      else case short_mode_of use_mem minor of
        None \<Rightarrow> (Inl EINVAL, [], False)
      | Some _ \<Rightarrow> (Inr (s32 (int (length ub))), ub, False))"

text \<open>The interrupt node is chosen by the highest bit of the minor number.\<close>

definition short_open :: "nat \<Rightarrow> bool" where
  "short_open minor \<longleftrightarrow> minor div 128 mod 2 = 1"

section \<open>The interrupt-driven device\<close>

text \<open>
  A read of at most \<open>count\<close> bytes when there is something to read; \<open>None\<close> while a reader would
  sleep.  The buffer wraps at the end of the page, so a read stops there.
\<close>

definition short_i_read :: "bool \<Rightarrow> nat \<Rightarrow> short_dev \<Rightarrow> (int ret \<times> byte list \<times> short_dev) option" where
  "short_i_read copied count d =
     (if short_head d = short_tail d then None
      else do {
        let count0 = (if short_head d < short_tail d then PAGE_SIZE - short_tail d else short_head d - short_tail d);
        let count = (if count0 < count then count0 else count);
        data \<leftarrow> mem_read (short_buffer d) (short_tail d) count;
        if copied then Some (Inr (int count), data, d\<lparr>short_tail := short_incr_bp (short_tail d) count\<rparr>)
        else Some (Inl EFAULT, [], d)
      })"

text \<open>The bytes put out: all ones and zeros in turn, from the parity of the position on.\<close>

fun toggles :: "nat \<Rightarrow> nat \<Rightarrow> nat \<Rightarrow> byte list" where
  "toggles parity 0 written = []"
| "toggles parity (Suc n) written = (if (written + 1 + parity) mod 2 = 1 then 255 else 0) # toggles parity n (written + 1)"

definition short_i_write :: "nat \<Rightarrow> nat \<Rightarrow> int ret \<times> byte list \<times> nat" where
  "short_i_write count f_pos = (Inr (int count), toggles (f_pos mod 2) count 0, f_pos + count)"

section \<open>Interrupt handlers\<close>

datatype irqreturn = IRQ_HANDLED | IRQ_NONE

definition short_interrupt :: "timespec \<Rightarrow> short_dev \<Rightarrow> (irqreturn \<times> short_dev) option" where
  "short_interrupt now d =
     (if length (short_record now) \<noteq> 16 then None
      else do { d \<leftarrow> short_print (short_record now) d; Some (IRQ_HANDLED, d) })"

text \<open>The shared handler: the byte put out to clear the interrupting bit is the second result.\<close>

definition short_sh_interrupt :: "byte \<Rightarrow> timespec \<Rightarrow> short_dev \<Rightarrow> (irqreturn \<times> byte option \<times> short_dev) option" where
  "short_sh_interrupt value now d =
     (if unat value < 128 then Some (IRQ_NONE, None, d)
      else do {
        d \<leftarrow> short_print (short_record now) d;
        Some (IRQ_HANDLED, Some (value - 128), d)
      })"

text \<open>The top half, for the tasklet and for the work queue alike.\<close>

definition short_tl_interrupt :: "timespec \<Rightarrow> short_dev \<Rightarrow> irqreturn \<times> short_dev" where
  "short_tl_interrupt now d =
     (IRQ_HANDLED, d\<lparr>tv_data := (tv_data d)[tv_head d := now], tv_head := short_incr_tv (tv_head d),
        short_wq_count := s32 (short_wq_count d + 1)\<rparr>)"

definition short_wq_interrupt :: "timespec \<Rightarrow> short_dev \<Rightarrow> irqreturn \<times> short_dev" where
  "short_wq_interrupt now d =
     (IRQ_HANDLED, d\<lparr>tv_data := (tv_data d)[tv_head d := now], tv_head := short_incr_tv (tv_head d),
        short_wq_count := s32 (short_wq_count d + 1)\<rparr>)"

text \<open>The \<open>do ... while\<close> loop of the bottom half over the time values, with a bound on its rounds.\<close>

fun tv_loop :: "nat \<Rightarrow> short_dev \<Rightarrow> short_dev option" where
  "tv_loop 0 d = None"
| "tv_loop (Suc fuel) d = do {
     tv \<leftarrow> mem_at (tv_data d) (tv_tail d);
     d \<leftarrow> short_print (short_record tv) d;
     let d = d\<lparr>tv_tail := short_incr_tv (tv_tail d)\<rparr>;
     if tv_tail d \<noteq> tv_head d then tv_loop fuel d else Some d
   }"

definition short_do_tasklet :: "nat \<Rightarrow> short_dev \<Rightarrow> short_dev option" where
  "short_do_tasklet fuel d = do {
     let savecount = short_wq_count d;
     d \<leftarrow> short_print (bh_record savecount) (d\<lparr>short_wq_count := 0\<rparr>);
     tv_loop fuel d
   }"

section \<open>Probing\<close>

text \<open>
  The kernel's probing: the answers of \<open>probe_irq_off\<close> in turn; 0 stands for no interrupt, a negative
  number for several.  The loop runs at most six times.  \<open>None\<close> when the answers run out.
\<close>

fun kernelprobe_loop :: "int list \<Rightarrow> nat \<Rightarrow> (int \<times> nat) option" where
  "kernelprobe_loop [] count = None"
| "kernelprobe_loop (a # as) count =
     (let short_irq = (if a = 0 then - 1 else a) in
      if 0 \<le> short_irq then Some (short_irq, count)
      else if count < 5 then kernelprobe_loop as (count + 1) else Some (short_irq, count + 1))"

definition short_kernelprobe :: "int list \<Rightarrow> int option" where
  "short_kernelprobe answers = map_option fst (kernelprobe_loop answers 0)"

definition short_probing :: "int \<Rightarrow> int \<Rightarrow> int" where
  "short_probing irq short_irq =
     (let short_irq = (if short_irq = 0 then irq else short_irq) in if short_irq \<noteq> irq then - irq else short_irq)"

text \<open>
  The driver's own probing: the interrupts that arrive in each round, of the lines that could be
  had.
\<close>

fun selfprobe_loop :: "int list list \<Rightarrow> nat \<Rightarrow> int option" where
  "selfprobe_loop [] count = None"
| "selfprobe_loop (irqs # rounds) count =
     (let short_irq = fold short_probing irqs 0 in
      if 0 < short_irq then Some short_irq
      else if count < 5 then selfprobe_loop rounds (count + 1) else Some short_irq)"

definition short_selfprobe :: "(int \<Rightarrow> bool) \<Rightarrow> int list list \<Rightarrow> int option" where
  "short_selfprobe granted rounds =
     selfprobe_loop (map (filter (\<lambda>i. i \<in> set [3, 5, 7, 9] \<and> granted i)) rounds) 0"

section \<open>Initialisation and cleanup\<close>

datatype handler = Plain_irq | Shared_irq | Wq_irq | Tasklet_irq

record short_params =
  base :: nat
  use_mem :: bool
  irq :: int
  probe :: int
  share :: int
  wq :: int
  tasklet :: int

record short_env =
  region_ok :: bool
  mapped :: nat
  chrdev :: "int ret"
  kernel_answers :: "int list"
  self_granted :: "int \<Rightarrow> bool"
  self_rounds :: "int list list"
  irq_free :: "handler \<Rightarrow> bool"

text \<open>What is left installed: the line, the handler, whether interrupts are enabled, the region.\<close>

record short_setup =
  setup_irq :: int
  setup_handler :: "handler option"
  setup_enabled :: bool
  setup_region :: bool

definition default_irq :: "nat \<Rightarrow> int" where
  "default_irq b = (if b = 888 then 7 else if b = 632 then 2 else if b = 956 then 5 else - 1)"

definition short_find_irq :: "short_params \<Rightarrow> short_env \<Rightarrow> int option" where
  "short_find_irq p e = do {
     i \<leftarrow> (if irq p < 0 \<and> probe p = 1 then short_kernelprobe (kernel_answers e) else Some (irq p));
     i \<leftarrow> (if i < 0 \<and> probe p = 2 then short_selfprobe (self_granted e) (self_rounds e) else Some i);
     let short_base = (if use_mem p then mapped e else base p);
     Some (if i < 0 \<and> default_irq short_base \<noteq> - 1 then default_irq short_base else i)
   }"

definition short_init :: "short_params \<Rightarrow> short_env \<Rightarrow> (int ret \<times> short_setup) option" where
  "short_init p e =
     (let none = \<lparr>setup_irq = irq p, setup_handler = None, setup_enabled = False, setup_region = False\<rparr> in
      if \<not> region_ok e then Some (Inl ENODEV, none)
      else case chrdev e of
        Inl r \<Rightarrow> Some (Inl r, none\<lparr>setup_region := use_mem p\<rparr>)
      | Inr _ \<Rightarrow> do {
          i \<leftarrow> short_find_irq p e;
          let s = none\<lparr>setup_region := True, setup_irq := i\<rparr>;
          if 0 \<le> i \<and> 0 < share p then
            if irq_free e Shared_irq
            then Some (Inr 0, s\<lparr>setup_handler := Some Shared_irq, setup_enabled := True\<rparr>)
            else Some (Inr 0, s\<lparr>setup_irq := - 1\<rparr>)
          else
            let s = (if 0 \<le> i then
                       if irq_free e Plain_irq then s\<lparr>setup_handler := Some Plain_irq, setup_enabled := True\<rparr>
                       else s\<lparr>setup_irq := - 1\<rparr>
                     else s);
                h = (if tasklet p \<noteq> 0 then Tasklet_irq else Wq_irq);
                s = (if 0 \<le> setup_irq s \<and> 0 < wq p + tasklet p then
                       if irq_free e h then s\<lparr>setup_handler := Some h\<rparr>
                       else s\<lparr>setup_handler := None, setup_irq := - 1\<rparr>
                     else s)
            in Some (Inr 0, s)
        })"

text \<open>The handler that cleanup asks the kernel to remove, by the identity it was installed with.\<close>

definition short_cleanup :: "short_params \<Rightarrow> short_setup \<Rightarrow> short_setup option" where
  "short_cleanup p s =
     (if 0 \<le> setup_irq s then
        if (setup_handler s = Some Shared_irq) = (share p \<noteq> 0) \<and> setup_handler s \<noteq> None
        then Some (s\<lparr>setup_handler := None, setup_enabled := False, setup_region := False\<rparr>)
        else None
      else Some (s\<lparr>setup_region := False\<rparr>))"

section \<open>Records have 16 bytes\<close>

lemma length_digits: "n < 10 ^ Suc w \<Longrightarrow> length (digits n) \<le> Suc w"
proof (induction w arbitrary: n)
  case 0
  then show ?case by (subst digits.simps) simp
next
  case (Suc w)
  show ?case
  proof (cases "n < 10")
    case True
    then show ?thesis by (subst digits.simps) simp
  next
    case False
    have "n div 10 < 10 ^ Suc w" using Suc.prems by (simp add: less_mult_imp_div_less)
    from Suc.IH [OF this] False show ?thesis by (subst digits.simps) simp
  qed
qed

lemma length_fmt: "n < 10 ^ Suc w \<Longrightarrow> length (fmt (Suc w) pad n) = Suc w"
  using length_digits [of n w] by (simp add: fmt_def Let_def)

definition valid_time :: "timespec \<Rightarrow> bool" where
  "valid_time tv \<longleftrightarrow> 0 \<le> fst tv \<and> 0 \<le> snd tv \<and> snd tv < 1000000000"

lemma length_short_record: "valid_time tv \<Longrightarrow> length (short_record tv) = 16"
proof -
  assume v: "valid_time tv"
  then have "rem_by (fst tv) 100000000 = fst tv mod 100000000" by (simp add: rem_by_def c_rem_pos valid_time_def)
  moreover have "0 \<le> fst tv mod 100000000" "fst tv mod 100000000 < 100000000" by simp_all
  ultimately have s: "nat (u32 (rem_by (fst tv) 100000000)) < 10 ^ Suc 7" by simp
  have "quot_by (s32 (snd tv)) 1000 = snd tv div 1000" using v by (simp add: quot_by_def c_div_pos valid_time_def)
  moreover have "0 \<le> snd tv" "snd tv < 1000000000" using v by (simp_all add: valid_time_def)
  then have "0 \<le> snd tv div 1000" "snd tv div 1000 < 1000000"
    using zdiv_mono1 [of "snd tv" 999999999 1000] by (simp_all add: pos_imp_zdiv_nonneg_iff)
  ultimately have n: "nat (u64 (quot_by (s32 (snd tv)) 1000)) < 10 ^ Suc 5" by simp
  from length_fmt [OF s, of 48] length_fmt [OF n, of 48] show ?thesis by (simp add: short_record_def)
qed

lemma length_bh_record: "0 \<le> n \<Longrightarrow> n < 1000000 \<Longrightarrow> length (bh_record n) = 16"
  using length_fmt [of "nat n" 5 32] by (simp add: bh_record_def)

section \<open>Printing into the page\<close>

lemma short_print_room:
  assumes "length (short_buffer d) = PAGE_SIZE" "short_head d + length s < PAGE_SIZE"
  shows "\<exists>b. short_print s d = Some (d\<lparr>short_buffer := b, short_head := short_head d + length s\<rparr>) \<and>
    length b = PAGE_SIZE \<and> take (short_head d + length s) b = take (short_head d) (short_buffer d) @ s"
proof -
  let ?b = "take (short_head d) (short_buffer d) @ (s @ [0]) @ drop (short_head d + length (s @ [0])) (short_buffer d)"
  have "short_print s d = Some (d\<lparr>short_buffer := ?b, short_head := short_head d + length s\<rparr>)"
    using assms by (simp add: short_print_def mem_write_def short_incr_bp_def)
  moreover have "length ?b = PAGE_SIZE" "take (short_head d + length s) ?b = take (short_head d) (short_buffer d) @ s"
    using assms by simp_all
  ultimately show ?thesis by blast
qed

lemma short_print_full: "length (short_buffer d) = PAGE_SIZE \<Longrightarrow> PAGE_SIZE \<le> short_head d + length s \<Longrightarrow> short_print s d = None"
  by (simp add: short_print_def mem_write_def)

text \<open>A series of interrupts.\<close>

fun short_run :: "timespec list \<Rightarrow> short_dev \<Rightarrow> short_dev option" where
  "short_run [] d = Some d"
| "short_run (tv # tvs) d = do { (r, d) \<leftarrow> short_interrupt tv d; short_run tvs d }"

lemma short_run_room:
  assumes "length (short_buffer d) = PAGE_SIZE" "short_head d + 16 * length tvs < PAGE_SIZE" "\<forall>tv \<in> set tvs. valid_time tv"
  shows "\<exists>b. short_run tvs d = Some (d\<lparr>short_buffer := b, short_head := short_head d + 16 * length tvs\<rparr>) \<and>
    length b = PAGE_SIZE \<and> take (short_head d + 16 * length tvs) b = take (short_head d) (short_buffer d) @ concat (map short_record tvs)"
  using assms
proof (induction tvs arbitrary: d)
  case Nil
  then show ?case by (intro exI [of _ "short_buffer d"]) simp
next
  case (Cons tv tvs)
  have l: "length (short_record tv) = 16" using Cons.prems(3) by (simp add: length_short_record)
  have "short_head d + length (short_record tv) < PAGE_SIZE" using l Cons.prems(2) by simp
  from short_print_room [OF Cons.prems(1) this] l obtain b where
    b: "short_print (short_record tv) d = Some (d\<lparr>short_buffer := b, short_head := short_head d + 16\<rparr>)" "length b = PAGE_SIZE"
      "take (short_head d + 16) b = take (short_head d) (short_buffer d) @ short_record tv" by auto
  let ?d = "d\<lparr>short_buffer := b, short_head := short_head d + 16\<rparr>"
  from Cons.IH [of ?d] Cons.prems b(2) obtain b' where
    r: "short_run tvs ?d = Some (?d\<lparr>short_buffer := b', short_head := short_head ?d + 16 * length tvs\<rparr>)" "length b' = PAGE_SIZE"
      "take (short_head ?d + 16 * length tvs) b' = take (short_head ?d) (short_buffer ?d) @ concat (map short_record tvs)" by auto
  have "short_run (tv # tvs) d = Some (d\<lparr>short_buffer := b', short_head := short_head d + 16 * length (tv # tvs)\<rparr>)"
    using r(1) b(1) l by (simp add: short_interrupt_def)
  with r(2,3) b(3) show ?case by (intro exI [of _ b']) (simp add: add.assoc)
qed

section \<open>The two halves\<close>

text \<open>The top halves of a series of interrupts.\<close>

definition top_halves :: "timespec list \<Rightarrow> short_dev \<Rightarrow> short_dev" where
  "top_halves tvs d = fold (\<lambda>tv d. snd (short_tl_interrupt tv d)) tvs d"

lemma mod_add_inj:
  fixes a b h m :: nat
  assumes "(h + a) mod m = (h + b) mod m" "a < m" "b < m"
  shows "a = b"
proof -
  have "x = y" if "(h + x) mod m = (h + y) mod m" "x \<le> y" "y < m" for x y
    using that mod_eq_dvd_iff_nat [of "h + x" "h + y" m] by (metis add_le_cancel_left diff_add_inverse diff_diff_left diff_is_0_eq'
      dvd_imp_le le_antisym less_imp_diff_less linorder_not_less zero_less_diff)
  with assms show ?thesis by (metis linear)
qed

lemma incr_tv_mod: "i < NR_TIMEVAL \<Longrightarrow> short_incr_tv i = (i + 1) mod NR_TIMEVAL"
  by (auto simp: short_incr_tv_def mod_if)

lemma top_halves_state:
  assumes "length (tv_data d) = NR_TIMEVAL" "tv_head d < NR_TIMEVAL" "length tvs \<le> NR_TIMEVAL"
    "0 \<le> short_wq_count d" "short_wq_count d + int (length tvs) < 2 ^ 31"
  shows "\<exists>ts. top_halves tvs d = d\<lparr>tv_data := ts, tv_head := (tv_head d + length tvs) mod NR_TIMEVAL,
      short_wq_count := short_wq_count d + int (length tvs)\<rparr> \<and> length ts = NR_TIMEVAL \<and>
    (\<forall>i < NR_TIMEVAL. ts ! ((tv_head d + i) mod NR_TIMEVAL) = (if i < length tvs then tvs ! i else tv_data d ! ((tv_head d + i) mod NR_TIMEVAL)))"
  using assms
proof (induction tvs rule: rev_induct)
  case Nil
  then show ?case by (intro exI [of _ "tv_data d"]) (simp add: top_halves_def)
next
  case (snoc tv tvs)
  let ?h = "(tv_head d + length tvs) mod NR_TIMEVAL"
  from snoc obtain ts where
    t: "top_halves tvs d = d\<lparr>tv_data := ts, tv_head := ?h, short_wq_count := short_wq_count d + int (length tvs)\<rparr>"
      "length ts = NR_TIMEVAL"
      "\<forall>i < NR_TIMEVAL. ts ! ((tv_head d + i) mod NR_TIMEVAL) = (if i < length tvs then tvs ! i else tv_data d ! ((tv_head d + i) mod NR_TIMEVAL))"
    by auto
  have e: "top_halves (tvs @ [tv]) d = snd (short_tl_interrupt tv (top_halves tvs d))" by (simp add: top_halves_def)
  have h: "short_incr_tv ?h = (tv_head d + length (tvs @ [tv])) mod NR_TIMEVAL"
    by (subst incr_tv_mod) (simp_all add: mod_simps)
  have c: "s32 (short_wq_count d + int (length tvs) + 1) = short_wq_count d + int (length (tvs @ [tv]))"
    using snoc.prems(4,5) by (subst s32_id) auto
  have n: "(ts[?h := tv]) ! ((tv_head d + i) mod NR_TIMEVAL) =
      (if i < length (tvs @ [tv]) then (tvs @ [tv]) ! i else tv_data d ! ((tv_head d + i) mod NR_TIMEVAL))" if i: "i < NR_TIMEVAL" for i
  proof (cases "i = length tvs")
    case True
    then show ?thesis using t(2) by simp
  next
    case False
    have "?h \<noteq> (tv_head d + i) mod NR_TIMEVAL"
    proof
      assume "?h = (tv_head d + i) mod NR_TIMEVAL"
      moreover have "length tvs < NR_TIMEVAL" using snoc.prems(3) by simp
      ultimately show False using False i mod_add_inj by blast
    qed
    with t(2,3) i False show ?thesis by (auto simp: nth_append less_Suc_eq)
  qed
  show ?case
    by (rule exI [of _ "ts[?h := tv]"]) (use e t(1,2) h c n in \<open>simp add: short_tl_interrupt_def\<close>)
qed

lemma tv_loop_room:
  assumes "length (short_buffer d) = PAGE_SIZE" "length (tv_data d) = NR_TIMEVAL" "tv_tail d < NR_TIMEVAL"
    and "tv_head d = (tv_tail d + k) mod NR_TIMEVAL" "0 < k" "k \<le> NR_TIMEVAL" "k \<le> fuel"
    and "short_head d + 16 * k < PAGE_SIZE" "\<forall>i < k. valid_time (tv_data d ! ((tv_tail d + i) mod NR_TIMEVAL))"
  shows "\<exists>b. tv_loop fuel d = Some (d\<lparr>short_buffer := b, short_head := short_head d + 16 * k, tv_tail := tv_head d\<rparr>) \<and>
    length b = PAGE_SIZE \<and> take (short_head d + 16 * k) b = take (short_head d) (short_buffer d) @
      concat (map (\<lambda>i. short_record (tv_data d ! ((tv_tail d + i) mod NR_TIMEVAL))) [0..<k])"
  using assms
proof (induction k arbitrary: d fuel)
  case 0
  then show ?case by simp
next
  case (Suc k)
  from Suc.prems(7) obtain f where f: "fuel = Suc f" "k \<le> f" by (cases fuel) auto
  let ?tv = "tv_data d ! tv_tail d"
  have v: "valid_time ?tv" using spec [OF Suc.prems(9), of 0] Suc.prems(3) by simp
  have l: "length (short_record ?tv) = 16" by (rule length_short_record [OF v])
  have "short_head d + length (short_record ?tv) < PAGE_SIZE" using l Suc.prems(8) by simp
  from short_print_room [OF Suc.prems(1) this] l obtain b where
    b: "short_print (short_record ?tv) d = Some (d\<lparr>short_buffer := b, short_head := short_head d + 16\<rparr>)" "length b = PAGE_SIZE"
      "take (short_head d + 16) b = take (short_head d) (short_buffer d) @ short_record ?tv" by auto
  let ?t = "short_incr_tv (tv_tail d)"
  let ?d = "d\<lparr>short_buffer := b, short_head := short_head d + 16, tv_tail := ?t\<rparr>"
  have t: "?t = (tv_tail d + 1) mod NR_TIMEVAL" "?t < NR_TIMEVAL" using incr_tv_mod [OF Suc.prems(3)] by simp_all
  have at: "mem_at (tv_data d) (tv_tail d) = Some ?tv" using Suc.prems(2,3) by (simp add: mem_at_def)
  have hd: "tv_head d = (?t + k) mod NR_TIMEVAL" using Suc.prems(4) t(1) by (simp add: mod_simps)
  have step: "tv_loop fuel d = (if ?t \<noteq> tv_head d then tv_loop f ?d else Some ?d)"
    using at b(1) f(1) by simp
  have idx: "(?t + i) mod NR_TIMEVAL = (tv_tail d + Suc i) mod NR_TIMEVAL" for i using t(1) by (simp add: mod_simps)
  show ?case
  proof (cases "k = 0")
    case True
    then have "?t = tv_head d" using hd t(2) by simp
    with step b True Suc.prems(3) show ?thesis by (intro exI [of _ b]) simp
  next
    case False
    have ne: "?t \<noteq> tv_head d"
    proof
      assume "?t = tv_head d"
      then have "(?t + 0) mod NR_TIMEVAL = (?t + k) mod NR_TIMEVAL" using hd t(2) by simp
      with mod_add_inj [of ?t 0 NR_TIMEVAL k] Suc.prems(6) False show False by simp
    qed
    have p: "length (short_buffer ?d) = PAGE_SIZE" "length (tv_data ?d) = NR_TIMEVAL" "tv_tail ?d < NR_TIMEVAL"
      "tv_head ?d = (tv_tail ?d + k) mod NR_TIMEVAL" "0 < k" "k \<le> NR_TIMEVAL" "short_head ?d + 16 * k < PAGE_SIZE"
      using b(2) Suc.prems(2,6,8) t(2) hd False by simp_all
    have "\<forall>i < k. valid_time (tv_data ?d ! ((tv_tail ?d + i) mod NR_TIMEVAL))"
    proof (intro allI impI)
      fix i assume "i < k"
      then show "valid_time (tv_data ?d ! ((tv_tail ?d + i) mod NR_TIMEVAL))"
        using spec [OF Suc.prems(9), of "Suc i"] idx [of i] by simp
    qed
    from Suc.IH [OF p(1-6) f(2) p(7) this] obtain b' where
      r: "tv_loop f ?d = Some (?d\<lparr>short_buffer := b', short_head := short_head ?d + 16 * k, tv_tail := tv_head ?d\<rparr>)"
        "length b' = PAGE_SIZE" "take (short_head ?d + 16 * k) b' = take (short_head ?d) (short_buffer ?d) @
          concat (map (\<lambda>i. short_record (tv_data ?d ! ((tv_tail ?d + i) mod NR_TIMEVAL))) [0..<k])" by blast
    have m: "map (\<lambda>i. short_record (tv_data d ! ((tv_tail d + i) mod NR_TIMEVAL))) [0..<Suc k] =
        short_record ?tv # map (\<lambda>i. short_record (tv_data d ! ((?t + i) mod NR_TIMEVAL))) [0..<k]"
      using Suc.prems(3) by (simp only: upt_conv_Cons zero_less_Suc list.map idx) (simp add: map_Suc_upt [symmetric] del: upt_Suc)
    have "take (short_head d + 16 * Suc k) b' = take (short_head d) (short_buffer d) @
        concat (map (\<lambda>i. short_record (tv_data d ! ((tv_tail d + i) mod NR_TIMEVAL))) [0..<Suc k])"
      using r(3) b(3) unfolding m by (simp add: add.assoc)
    moreover have "tv_loop fuel d = Some (d\<lparr>short_buffer := b', short_head := short_head d + 16 * Suc k, tv_tail := tv_head d\<rparr>)"
      using step ne r(1) by simp
    ultimately show ?thesis using r(2) by blast
  qed
qed

section \<open>Properties\<close>

definition fresh_short :: short_dev where
  "fresh_short = \<lparr>short_buffer = replicate PAGE_SIZE 0, short_head = 0, short_tail = 0,
     tv_data = replicate NR_TIMEVAL (0, 0), tv_head = 0, tv_tail = 0, short_wq_count = 0\<rparr>"

text \<open>
  What the interrupts record is what a reader gets: after any number of interrupts that leaves
  the page with room, at valid times, one read delivers exactly their 16-byte records, in order.
\<close>

theorem short_log_read:
  assumes "\<forall>tv \<in> set tvs. valid_time tv" "0 < length tvs" "length tvs \<le> 255" "16 * length tvs \<le> count"
  shows "\<exists>d. short_run tvs fresh_short = Some d \<and>
    (\<exists>d'. short_i_read True count d = Some (Inr (int (16 * length tvs)), concat (map short_record tvs), d'))"
proof -
  have "length (short_buffer fresh_short) = PAGE_SIZE" "short_head fresh_short + 16 * length tvs < PAGE_SIZE"
    using assms(3) by (simp_all add: fresh_short_def)
  from short_run_room [OF this assms(1)] obtain b where
    b: "short_run tvs fresh_short = Some (fresh_short\<lparr>short_buffer := b, short_head := 16 * length tvs\<rparr>)" "length b = PAGE_SIZE"
      "take (16 * length tvs) b = concat (map short_record tvs)" by (auto simp: fresh_short_def)
  let ?d = "fresh_short\<lparr>short_buffer := b, short_head := 16 * length tvs\<rparr>"
  have "\<exists>d'. short_i_read True count ?d = Some (Inr (int (16 * length tvs)), concat (map short_record tvs), d')"
    using b(2,3) assms(2-4) by (cases "16 * length tvs = count") (auto simp: short_i_read_def fresh_short_def mem_read_def Let_def)
  with b(1) show ?thesis by blast
qed

lemma short_log_read_witness:
  "\<exists>d d'. short_run [(100000007, 5000), (100000008, 999999999)] fresh_short = Some d \<and>
    short_i_read True 64 d = Some (Inr 32, concat (map short_record [(100000007, 5000), (100000008, 999999999)]), d')"
  using short_log_read [of "[(100000007, 5000), (100000008, 999999999)]" 64] by (auto simp: valid_time_def)

text \<open>
  The last record that fits into the page does not: \<open>sprintf\<close> ends it with a zero byte, so the
  256th interrupt, for an empty page, stores a byte behind the page.
\<close>

theorem short_page_overrun:
  assumes "\<forall>tv \<in> set tvs. valid_time tv" "length tvs = 255" "valid_time tv"
  shows "\<exists>d. short_run tvs fresh_short = Some d \<and> short_interrupt tv d = None"
proof -
  have p: "length (short_buffer fresh_short) = PAGE_SIZE" "short_head fresh_short + 16 * length tvs < PAGE_SIZE"
    using assms(2) by (simp_all add: fresh_short_def)
  from short_run_room [OF p assms(1)] assms(2) obtain b where
    b: "short_run tvs fresh_short = Some (fresh_short\<lparr>short_buffer := b, short_head := 4080\<rparr>)" "length b = PAGE_SIZE"
    by (auto simp: fresh_short_def)
  have "short_print (short_record tv) (fresh_short\<lparr>short_buffer := b, short_head := 4080\<rparr>) = None"
    using b(2) length_short_record [OF assms(3)] by (intro short_print_full) simp_all
  with b(1) show ?thesis by (simp add: short_interrupt_def)
qed

lemma short_page_overrun_witness:
  "\<exists>d. short_run (replicate 255 (5, 0)) fresh_short = Some d \<and> short_interrupt (6, 0) d = None"
  using short_page_overrun [of "replicate 255 (5, 0)" "(6, 0)"] by (auto simp: valid_time_def)

text \<open>
  C22: The split handler records what the plain one would, as long as the page has room for it: 16 bytes
  for the line with the number, 16 for each record and one for the zero that \<open>sprintf\<close> adds (with less
  room it writes behind the page, see \<open>short_page_overrun\<close>).  When a series of top halves has run
  since the last bottom half, the bottom half, whose loop ends after one round for each of them,
  prints their number and then the records of all of them, in order, and leaves none behind.
\<close>

theorem short_bottom_half:
  assumes "length (short_buffer d) = PAGE_SIZE" "length (tv_data d) = NR_TIMEVAL" "tv_head d < NR_TIMEVAL"
    and "tv_tail d = tv_head d" "short_wq_count d = 0" "\<forall>tv \<in> set tvs. valid_time tv" "0 < length tvs"
    and "short_head d + 16 * (length tvs + 1) < PAGE_SIZE" "length tvs \<le> fuel"
  shows "\<exists>d'. short_do_tasklet fuel (top_halves tvs d) = Some d' \<and> tv_tail d' = tv_head d' \<and>
    take (short_head d') (short_buffer d') =
      take (short_head d) (short_buffer d) @ bh_record (int (length tvs)) @ concat (map short_record tvs)"
proof -
  have n: "length tvs < 256" using assms(8) by simp
  then have n2: "length tvs \<le> NR_TIMEVAL" by simp
  have c: "0 \<le> short_wq_count d" "short_wq_count d + int (length tvs) < 2 ^ 31" using assms(5) n by simp_all
  from top_halves_state [OF assms(2,3) n2 c] obtain ts where
    t: "top_halves tvs d = d\<lparr>tv_data := ts, tv_head := (tv_head d + length tvs) mod NR_TIMEVAL, short_wq_count := int (length tvs)\<rparr>"
      "length ts = NR_TIMEVAL"
      "\<forall>i < NR_TIMEVAL. ts ! ((tv_head d + i) mod NR_TIMEVAL) = (if i < length tvs then tvs ! i else tv_data d ! ((tv_head d + i) mod NR_TIMEVAL))"
    using assms(5) by auto
  have e: "ts ! ((tv_tail d + i) mod NR_TIMEVAL) = tvs ! i" if "i < length tvs" for i
    using that n t(3) assms(4) by simp
  let ?d1 = "d\<lparr>tv_data := ts, tv_head := (tv_head d + length tvs) mod NR_TIMEVAL, short_wq_count := 0\<rparr>"
  have lb: "length (bh_record (int (length tvs))) = 16" using n by (intro length_bh_record) simp_all
  have "length (short_buffer ?d1) = PAGE_SIZE" "short_head ?d1 + length (bh_record (int (length tvs))) < PAGE_SIZE"
    using assms(1,8) lb by simp_all
  from short_print_room [OF this] lb obtain b where
    b: "short_print (bh_record (int (length tvs))) ?d1 = Some (?d1\<lparr>short_buffer := b, short_head := short_head d + 16\<rparr>)"
      "length b = PAGE_SIZE" "take (short_head d + 16) b = take (short_head d) (short_buffer d) @ bh_record (int (length tvs))" by auto
  let ?d2 = "?d1\<lparr>short_buffer := b, short_head := short_head d + 16\<rparr>"
  have p: "length (short_buffer ?d2) = PAGE_SIZE" "length (tv_data ?d2) = NR_TIMEVAL" "tv_tail ?d2 < NR_TIMEVAL"
    "tv_head ?d2 = (tv_tail ?d2 + length tvs) mod NR_TIMEVAL" "0 < length tvs" "length tvs \<le> NR_TIMEVAL" "length tvs \<le> fuel"
    "short_head ?d2 + 16 * length tvs < PAGE_SIZE" "\<forall>i < length tvs. valid_time (tv_data ?d2 ! ((tv_tail ?d2 + i) mod NR_TIMEVAL))"
    using b(2) t(2) assms n2 e by simp_all
  from tv_loop_room [OF p] obtain b' where
    r: "tv_loop fuel ?d2 = Some (?d2\<lparr>short_buffer := b', short_head := short_head ?d2 + 16 * length tvs, tv_tail := tv_head ?d2\<rparr>)"
      "take (short_head ?d2 + 16 * length tvs) b' = take (short_head ?d2) (short_buffer ?d2) @
        concat (map (\<lambda>i. short_record (tv_data ?d2 ! ((tv_tail ?d2 + i) mod NR_TIMEVAL))) [0..<length tvs])" by blast
  have "map (\<lambda>i. short_record (tv_data ?d2 ! ((tv_tail ?d2 + i) mod NR_TIMEVAL))) [0..<length tvs] = map short_record tvs"
    using e by (intro nth_equalityI) simp_all
  then have r2: "take (short_head d + 16 + 16 * length tvs) b' =
      take (short_head d) (short_buffer d) @ bh_record (int (length tvs)) @ concat (map short_record tvs)"
    using r(2) b(3) by simp
  have "short_do_tasklet fuel (top_halves tvs d) = tv_loop fuel ?d2"
    unfolding short_do_tasklet_def t(1) using b(1) by simp
  then have "short_do_tasklet fuel (top_halves tvs d) =
      Some (?d2\<lparr>short_buffer := b', short_head := short_head ?d2 + 16 * length tvs, tv_tail := tv_head ?d2\<rparr>)"
    using r(1) by (rule trans)
  with r2 show ?thesis by (intro exI conjI) (assumption, simp_all)
qed

lemma short_bottom_half_witness:
  "\<exists>d'. short_do_tasklet 2 (top_halves [(5, 0), (6, 0)] fresh_short) = Some d' \<and> tv_tail d' = tv_head d' \<and>
    take (short_head d') (short_buffer d') = bh_record 2 @ short_record (5, 0) @ short_record (6, 0)"
  using short_bottom_half [of fresh_short "[(5, 0), (6, 0)]" 2] by (simp add: fresh_short_def valid_time_def)

text \<open>
  The driver's own probing takes silence for line 0: when no interrupt is reported in any of its
  six rounds, the module goes on to install its handler on line 0.
\<close>

theorem short_probe_takes_line_0:
  assumes "irq p < 0" "probe p = 2" "region_ok e" "chrdev e = Inr major" "self_rounds e = replicate 6 []"
    and "share p \<le> 0" "wq p + tasklet p \<le> 0" "irq_free e Plain_irq"
  shows "\<exists>s. short_init p e = Some (Inr 0, s) \<and> setup_irq s = 0 \<and> setup_handler s = Some Plain_irq \<and> setup_enabled s"
proof -
  have "short_selfprobe (self_granted e) (self_rounds e) = Some 0"
    unfolding assms(5) by (simp add: short_selfprobe_def numeral_eq_Suc Let_def)
  then have "short_find_irq p e = Some 0" using assms(1,2) by (simp add: short_find_irq_def Let_def)
  then show ?thesis using assms(3-8) by (simp add: short_init_def Let_def)
qed

definition quiet_params :: short_params where
  "quiet_params = \<lparr>base = 888, use_mem = False, irq = - 1, probe = 2, share = 0, wq = 0, tasklet = 0\<rparr>"

definition quiet_env :: short_env where
  "quiet_env = \<lparr>region_ok = True, mapped = 0, chrdev = Inr 250, kernel_answers = [], self_granted = (\<lambda>_. True),
     self_rounds = replicate 6 [], irq_free = (\<lambda>_. True)\<rparr>"

lemma short_probe_takes_line_0_witness:
  "\<exists>s. short_init quiet_params quiet_env = Some (Inr 0, s) \<and> setup_irq s = 0"
  using short_probe_takes_line_0 [of quiet_params quiet_env 250] by (auto simp: quiet_params_def quiet_env_def)

text \<open>
  Cleanup removes what initialisation installed: for a non-negative sharing parameter, after
  every initialisation that succeeds, cleanup asks for the handler that is installed, if there is
  one, and neither handler, enabled interrupts nor region are left.
\<close>

theorem short_init_cleanup:
  assumes "short_init p e = Some (Inr 0, s)" "0 \<le> share p"
  shows "\<exists>s'. short_cleanup p s = Some s' \<and> setup_handler s' = None \<and> \<not> setup_region s' \<and> (0 \<le> setup_irq s \<longrightarrow> \<not> setup_enabled s')"
proof -
  from assms(1) obtain i where i: "short_find_irq p e = Some i" "region_ok e" "\<exists>m. chrdev e = Inr m"
    by (cases "short_find_irq p e") (auto simp: short_init_def Let_def split: if_splits sum.splits)
  show ?thesis
    using assms i by (auto simp: short_init_def short_cleanup_def Let_def split: if_splits)
qed

lemma short_init_cleanup_witness:
  "\<exists>s s'. short_init quiet_params quiet_env = Some (Inr 0, s) \<and> short_cleanup quiet_params s = Some s' \<and> setup_handler s' = None"
proof -
  have "short_init quiet_params quiet_env =
      Some (Inr 0, \<lparr>setup_irq = 0, setup_handler = Some Plain_irq, setup_enabled = True, setup_region = True\<rparr>)"
    by (simp add: short_init_def quiet_params_def quiet_env_def short_find_irq_def short_selfprobe_def numeral_eq_Suc Let_def)
  from short_init_cleanup [OF this] this show ?thesis by (auto simp: quiet_params_def)
qed

end
