(* ===== verification/Shortprint.thy ===== *)
theory Shortprint
  imports Byte_Ring Short
begin

text \<open>
  The printer driver \<open>shortprint/shortprint.c\<close>: writers fill a ring of one page, a work function
  strobes one byte of it out at each interrupt and logs the time of the interrupt to an input
  page, and a timer stands in for lost interrupts.  The writer, the work function, the interrupt
  handler and the timer run interleaved; their steps form the relation \<open>sp_step\<close>.
\<close>

unbundle bit_operations_syntax

section \<open>State\<close>

text \<open>
  The input page with its positions, the time of the last interrupt, the output ring with its
  positions, whether output is active, whether the timer and the work are pending, and what was
  written to the ports, as pairs of a port and a value.
\<close>

record shortp =
  in_page :: "byte list"
  in_head :: nat
  in_tail :: nat
  shortp_tv :: timespec
  out_page :: "byte list"
  out_head :: nat
  out_tail :: nat
  output_active :: bool
  timer_pending :: bool
  work_pending :: bool
  ports :: "(nat \<times> byte) list"

abbreviation (input) SP_DATA :: nat where "SP_DATA \<equiv> 0"
abbreviation (input) SP_CONTROL :: nat where "SP_CONTROL \<equiv> 2"
abbreviation (input) SP_SR_BUSY :: byte where "SP_SR_BUSY \<equiv> 128"
abbreviation (input) SP_SR_ACK :: byte where "SP_SR_ACK \<equiv> 64"
abbreviation (input) SP_CR_STROBE :: byte where "SP_CR_STROBE \<equiv> 1"

text \<open>
  The timer and the work queue of the kernel: adding a timer that is pending is an error that
  stops the kernel; queueing work that is queued has no effect.
\<close>

definition add_timer :: "shortp \<Rightarrow> shortp option" where
  "add_timer d = (if timer_pending d then None else Some (d\<lparr>timer_pending := True\<rparr>))"

definition queue_work :: "shortp \<Rightarrow> shortp" where
  "queue_work d = d\<lparr>work_pending := True\<rparr>"

section \<open>Positions\<close>

definition shortp_incr_bp :: "nat \<Rightarrow> nat \<Rightarrow> nat" where
  "shortp_incr_bp index delta = (if PAGE_SIZE \<le> index + delta then 0 else index + delta)"

definition shortp_out_space :: "shortp \<Rightarrow> int" where
  "shortp_out_space d =
     (if out_tail d \<le> out_head d then
        let space = int PAGE_SIZE - int (out_head d) in if out_tail d = 0 then space - 1 else space
      else int (out_tail d) - int (out_head d) - 1)"

definition shortp_incr_out_bp :: "nat \<Rightarrow> nat \<Rightarrow> nat" where
  "shortp_incr_out_bp bp incr = (if PAGE_SIZE \<le> bp + incr then bp + incr - PAGE_SIZE else bp + incr)"

section \<open>Reading the log\<close>

text \<open>\<open>intr\<close>: a signal arrives while the reader sleeps; without one the sleep has no end.\<close>

definition shortp_read :: "bool \<Rightarrow> bool \<Rightarrow> nat \<Rightarrow> shortp \<Rightarrow> (int ret \<times> byte list \<times> shortp) option" where
  "shortp_read intr copied count d =
     (if in_head d = in_tail d then (if intr then Some (Inl ERESTARTSYS, [], d) else None)
      else do {
        let count0 = (if in_head d < in_tail d then PAGE_SIZE - in_tail d else in_head d - in_tail d);
        let count = (if count0 < count then count0 else count);
        data \<leftarrow> mem_read (in_page d) (in_tail d) count;
        if copied then Some (Inr (int count), data, d\<lparr>in_tail := shortp_incr_bp (in_tail d) count\<rparr>)
        else Some (Inl EFAULT, [], d)
      })"

text \<open>What \<open>poll\<close> reports, as readable and writable: always both, though a read of an empty log sleeps.\<close>

definition shortp_poll :: "bool \<times> bool" where
  "shortp_poll = (True, True)"

lemma shortp_poll_untrue:
  "in_head d = in_tail d \<Longrightarrow> fst shortp_poll \<and> shortp_read False copied count d = None"
  by (simp add: shortp_poll_def shortp_read_def)

section \<open>Writing to the ring\<close>

definition shortp_start_output :: "shortp \<Rightarrow> shortp option" where
  "shortp_start_output d =
     (if output_active d then Some d
      else do {
        d \<leftarrow> add_timer (d\<lparr>output_active := True\<rparr>);
        Some (queue_work d)
      })"

text \<open>The copy of one round: \<open>data\<close> is what fits, \<open>nc\<close> the number of bytes that cannot be copied.\<close>

definition shortp_copy :: "nat \<Rightarrow> byte list \<Rightarrow> shortp \<Rightarrow> (bool \<times> shortp) option" where
  "shortp_copy nc data d = do {
     b \<leftarrow> mem_write (out_page d) (out_head d) (user_bytes data nc);
     let d = d\<lparr>out_page := b\<rparr>;
     if nc \<noteq> 0 then Some (False, d)
     else Some (True, d\<lparr>out_head := shortp_incr_out_bp (out_head d) (length data)\<rparr>)
   }"

text \<open>The loop over the rounds: the result, how far the file position moves, and the device.\<close>

function shortp_write_loop ::
  "shortp wake list \<Rightarrow> (nat \<Rightarrow> nat) \<Rightarrow> byte list \<Rightarrow> nat \<Rightarrow> shortp \<Rightarrow> (int ret \<times> nat \<times> shortp) option" where
  "shortp_write_loop ws fails buf written d =
     (if buf = [] then Some (Inr (int written), written, d)
      else let space = shortp_out_space d in
        if space \<le> 0 then
          case ws of
            [] \<Rightarrow> None
          | Signal # _ \<Rightarrow> Some (Inr (int written), written, d)
          | Woken d' # ws' \<Rightarrow> shortp_write_loop ws' fails buf written d'
        else
          let n = min (nat space) (length buf) in
          case shortp_copy (fails written) (take n buf) d of
            None \<Rightarrow> None
          | Some (False, d) \<Rightarrow> Some (Inl EFAULT, 0, d)
          | Some (True, d) \<Rightarrow>
              (case shortp_start_output d of
                 None \<Rightarrow> None
               | Some d \<Rightarrow> shortp_write_loop ws fails (drop n buf) (written + n) d))"
  by pat_completeness auto
termination by (relation "measure (\<lambda>(ws, fails, buf, written, d). length ws + length buf)") auto

declare shortp_write_loop.simps [simp del]

definition shortp_write ::
  "bool \<Rightarrow> shortp wake list \<Rightarrow> (nat \<Rightarrow> nat) \<Rightarrow> byte list \<Rightarrow> nat \<Rightarrow> shortp \<Rightarrow> (int ret \<times> nat \<times> shortp) option" where
  "shortp_write intr ws fails buf f_pos d =
     (if intr then Some (Inl ERESTARTSYS, f_pos, d)
      else do {
        (r, n, d) \<leftarrow> shortp_write_loop ws fails buf 0 d;
        Some (r, f_pos + n, d)
      })"

section \<open>The work function\<close>

text \<open>Waiting for the printer: the values of the status register in turn; what is left of them.\<close>

fun wait_ready :: "byte list \<Rightarrow> byte list option" where
  "wait_ready [] = None"
| "wait_ready (s # ss) = (if s AND SP_SR_BUSY = 0 then wait_ready ss else Some ss)"

definition shortp_wait :: "byte list \<Rightarrow> byte list option" where
  "shortp_wait ss =
     (case ss of
        [] \<Rightarrow> None
      | s # ss \<Rightarrow> if s AND SP_SR_BUSY = 0 then (case ss of [] \<Rightarrow> None | _ # ss \<Rightarrow> wait_ready ss) else Some ss)"

text \<open>\<open>cr\<close> is the value of the control register.\<close>

definition shortp_do_write :: "byte \<Rightarrow> shortp \<Rightarrow> shortp option" where
  "shortp_do_write cr d = do {
     let d = d\<lparr>timer_pending := True\<rparr>;
     c \<leftarrow> mem_at (out_page d) (out_tail d);
     Some (d\<lparr>out_tail := shortp_incr_out_bp (out_tail d) 1,
       ports := ports d @ [(SP_DATA, c), (SP_CONTROL, cr OR SP_CR_STROBE), (SP_CONTROL, cr AND NOT SP_CR_STROBE)]\<rparr>)
   }"

text \<open>\<open>"%08u.%09u\n"\<close>\<close>

definition shortp_record :: "timespec \<Rightarrow> byte list" where
  "shortp_record tv =
     fmt 8 48 (nat (u32 (rem_by (fst tv) 100000000))) @ [46] @ fmt 9 48 (nat (u32 (s32 (snd tv)))) @ [10]"

text \<open>Under the lock: nothing more to write, or another byte.\<close>

definition work_output :: "byte \<Rightarrow> shortp \<Rightarrow> shortp option" where
  "work_output cr d =
     (if out_head d = out_tail d then Some (d\<lparr>output_active := False, timer_pending := False\<rparr>) else shortp_do_write cr d)"

text \<open>The part behind the wait; the first result says whether sleeping writers are woken.\<close>

definition shortp_do_work :: "byte \<Rightarrow> shortp \<Rightarrow> (bool \<times> shortp) option" where
  "shortp_do_work cr d = do {
     d \<leftarrow> work_output cr d;
     let woken = (PAGE_SIZE div 2 < (PAGE_SIZE + out_tail d - out_head d) mod PAGE_SIZE);
     b \<leftarrow> mem_write (in_page d) (in_head d) (shortp_record (shortp_tv d) @ [0]);
     Some (woken, d\<lparr>in_page := b, in_head := shortp_incr_bp (in_head d) (length (shortp_record (shortp_tv d)))\<rparr>)
   }"

section \<open>Interrupt and timer\<close>

definition shortp_interrupt :: "timespec \<Rightarrow> shortp \<Rightarrow> irqreturn \<times> shortp" where
  "shortp_interrupt now d =
     (if \<not> output_active d then (IRQ_NONE, d) else (IRQ_HANDLED, queue_work (d\<lparr>shortp_tv := now\<rparr>)))"

text \<open>
  The timer function: the check without the lock, and the rest, which may find that others have
  had the lock in between.
\<close>

definition shortp_timeout_check :: "shortp \<Rightarrow> bool" where
  "shortp_timeout_check d = output_active d"

definition shortp_timeout_locked :: "byte \<Rightarrow> timespec \<Rightarrow> shortp \<Rightarrow> shortp option" where
  "shortp_timeout_locked status now d =
     (if status AND SP_SR_BUSY = 0 \<or> status AND SP_SR_ACK \<noteq> 0 then add_timer d
      else Some (snd (shortp_interrupt now d)))"

definition shortp_timeout :: "byte \<Rightarrow> timespec \<Rightarrow> shortp \<Rightarrow> shortp option" where
  "shortp_timeout status now d = (if \<not> shortp_timeout_check d then Some d else shortp_timeout_locked status now d)"

text \<open>The last close waits until the output is done; a signal ends the wait.\<close>

definition shortp_release :: "bool \<Rightarrow> shortp \<Rightarrow> int ret option" where
  "shortp_release intr d = (if \<not> output_active d \<or> intr then Some (Inr 0) else None)"

section \<open>Initialisation and cleanup\<close>

text \<open>What the module holds.\<close>

record shortp_res =
  res_region :: bool
  res_chrdev :: bool
  res_pages :: nat
  res_workqueue :: bool
  res_irq :: "int option"
  res_enabled :: bool

definition no_res :: shortp_res where
  "no_res = \<lparr>res_region = False, res_chrdev = False, res_pages = 0, res_workqueue = False, res_irq = None, res_enabled = False\<rparr>"

definition shortp_cleanup :: "int \<Rightarrow> shortp_res \<Rightarrow> shortp_res" where
  "shortp_cleanup line r =
     (let r = (if 0 \<le> line then r\<lparr>res_enabled := False, res_irq := None\<rparr> else r) in
      r\<lparr>res_chrdev := False, res_region := False, res_workqueue := False, res_pages := 0\<rparr>)"

text \<open>
  The answers of the kernel are arguments: the region, the registration and the interrupt.  The
  results are the value, the line (\<open>-1\<close> after a failure) and what is held.
\<close>

definition shortp_init ::
  "nat \<Rightarrow> int \<Rightarrow> bool \<Rightarrow> int ret \<Rightarrow> (int \<Rightarrow> unit ret) \<Rightarrow> int ret \<times> int \<times> shortp_res" where
  "shortp_init port line got_region registered request_irq =
     (if \<not> got_region then (Inl ENODEV, line, no_res)
      else case registered of
        Inl e \<Rightarrow> (Inl e, line, no_res)
      | Inr major \<Rightarrow>
          let r = no_res\<lparr>res_region := True, res_chrdev := True, res_pages := 2, res_workqueue := True\<rparr>;
              line = (if line < 0 \<and> default_irq port \<noteq> - 1 then default_irq port else line)
          in case request_irq line of
               Inl e \<Rightarrow> (Inl e, - 1, shortp_cleanup (- 1) r)
             | Inr _ \<Rightarrow> (Inr 0, line, r\<lparr>res_irq := Some line, res_enabled := True\<rparr>))"

definition fresh_shortp :: shortp where
  "fresh_shortp = \<lparr>in_page = replicate PAGE_SIZE 0, in_head = 0, in_tail = 0, shortp_tv = (0, 0),
     out_page = replicate PAGE_SIZE 0, out_head = 0, out_tail = 0, output_active = False,
     timer_pending = False, work_pending = False, ports = []\<rparr>"

section \<open>The output ring as a queue\<close>

definition shortp_queue :: "shortp \<Rightarrow> byte list" where
  "shortp_queue d = ring PAGE_SIZE (out_page d) (out_tail d) (out_head d)"

definition out_ok :: "shortp \<Rightarrow> bool" where
  "out_ok d \<longleftrightarrow> length (out_page d) = PAGE_SIZE \<and> out_head d < PAGE_SIZE \<and> out_tail d < PAGE_SIZE"

lemma out_incr: "p < PAGE_SIZE \<Longrightarrow> p + n \<le> PAGE_SIZE \<Longrightarrow> shortp_incr_out_bp p n = (if p + n = PAGE_SIZE then 0 else p + n)"
  by (auto simp: shortp_incr_out_bp_def)

lemma out_incr_less: "p + n \<le> PAGE_SIZE \<Longrightarrow> shortp_incr_out_bp p n < PAGE_SIZE"
  by (auto simp: shortp_incr_out_bp_def)

lemma queue_length:
  "out_ok d \<Longrightarrow> length (shortp_queue d) =
     (if out_tail d \<le> out_head d then out_head d - out_tail d else out_head d + PAGE_SIZE - out_tail d)"
  by (simp add: out_ok_def shortp_queue_def length_ring)

lemma queue_empty: "out_ok d \<Longrightarrow> shortp_queue d = [] \<longleftrightarrow> out_head d = out_tail d"
  using queue_length [of d] by (auto simp: out_ok_def split: if_splits)

text \<open>The contiguous space is free space that ends at the end of the page; it is used up only when the ring is full.\<close>

lemma out_space:
  assumes "out_ok d"
  shows "0 \<le> shortp_out_space d" "shortp_out_space d \<le> int (PAGE_SIZE - 1 - length (shortp_queue d))"
    "out_head d + nat (shortp_out_space d) \<le> PAGE_SIZE"
    "shortp_out_space d = 0 \<longleftrightarrow> length (shortp_queue d) = PAGE_SIZE - 1"
  using assms unfolding queue_length [OF assms] shortp_out_space_def out_ok_def Let_def
  by (auto split: if_splits)

lemma copy_queue:
  assumes ok: "out_ok d" and n: "int (length bs) \<le> shortp_out_space d"
  shows "\<exists>b. shortp_copy 0 bs d = Some (True, d\<lparr>out_page := b, out_head := shortp_incr_out_bp (out_head d) (length bs)\<rparr>) \<and>
    out_ok (d\<lparr>out_page := b, out_head := shortp_incr_out_bp (out_head d) (length bs)\<rparr>) \<and>
    shortp_queue (d\<lparr>out_page := b, out_head := shortp_incr_out_bp (out_head d) (length bs)\<rparr>) = shortp_queue d @ bs"
proof -
  let ?b = "take (out_head d) (out_page d) @ bs @ drop (out_head d + length bs) (out_page d)"
  note s = out_space [OF ok]
  have le: "out_head d + length bs \<le> PAGE_SIZE" using n s(3) by linarith
  have l: "length bs \<le> PAGE_SIZE - 1 - length (shortp_queue d)" using n s(2) by linarith
  have o: "length (out_page d) = PAGE_SIZE" "out_head d < PAGE_SIZE" "out_tail d < PAGE_SIZE"
    using ok by (simp_all add: out_ok_def)
  have "shortp_copy 0 bs d = Some (True, d\<lparr>out_page := ?b, out_head := shortp_incr_out_bp (out_head d) (length bs)\<rparr>)"
    using le o by (simp add: shortp_copy_def mem_write_def Let_def)
  moreover have "ring PAGE_SIZE ?b (out_tail d) (shortp_incr_out_bp (out_head d) (length bs)) = shortp_queue d @ bs"
    unfolding out_incr [OF o(2) le] shortp_queue_def using o l le
    by (intro ring_put) (simp_all add: shortp_queue_def)
  moreover have "length ?b = PAGE_SIZE" using le o(1) by simp
  ultimately show ?thesis using out_incr_less [OF le] o(3)
    by (intro exI [of _ ?b]) (simp add: out_ok_def shortp_queue_def)
qed

lemma do_write_queue:
  assumes ok: "out_ok d" and some: "shortp_queue d \<noteq> []"
  shows "\<exists>c t. shortp_do_write cr d = Some (d\<lparr>timer_pending := True, out_tail := t,
      ports := ports d @ [(SP_DATA, c), (SP_CONTROL, cr OR SP_CR_STROBE), (SP_CONTROL, cr AND NOT SP_CR_STROBE)]\<rparr>) \<and>
    t < PAGE_SIZE \<and> shortp_queue d = c # shortp_queue (d\<lparr>out_tail := t\<rparr>)"
proof -
  have o: "length (out_page d) = PAGE_SIZE" "out_head d < PAGE_SIZE" "out_tail d < PAGE_SIZE"
    using ok by (simp_all add: out_ok_def)
  have ne: "out_tail d \<noteq> out_head d" using some queue_empty [OF ok] by metis
  have c: "(1 :: nat) \<le> (if out_tail d < out_head d then out_head d - out_tail d else PAGE_SIZE - out_tail d)"
    using o ne by auto
  have r: "ring PAGE_SIZE (out_page d) (out_tail d) (out_head d) = take 1 (drop (out_tail d) (out_page d)) @
      ring PAGE_SIZE (out_page d) (if out_tail d + 1 = PAGE_SIZE then 0 else out_tail d + 1) (out_head d)"
    by (rule ring_get [OF o(3,2) _ c ne]) (simp add: o(1))
  have t: "take 1 (drop (out_tail d) (out_page d)) = [out_page d ! out_tail d]"
    using o by (simp add: take_Suc_conv_app_nth hd_drop_conv_nth take_Suc)
  have i: "shortp_incr_out_bp (out_tail d) 1 = (if out_tail d + 1 = PAGE_SIZE then 0 else out_tail d + 1)"
    using o by (intro out_incr) simp_all
  have "out_tail d + 1 \<le> PAGE_SIZE" using o(3) by simp
  from out_incr_less [OF this] show ?thesis
    using o r unfolding t i [symmetric]
    by (intro exI [of _ "out_page d ! out_tail d"] exI [of _ "shortp_incr_out_bp (out_tail d) 1"])
      (simp add: shortp_do_write_def mem_at_def shortp_queue_def)
qed

lemma do_write_space:
  assumes "out_ok d" "out_tail d \<noteq> out_head d" "t = shortp_incr_out_bp (out_tail d) 1"
  shows "shortp_out_space d \<le> shortp_out_space (d\<lparr>out_tail := t\<rparr>)"
  using assms unfolding out_ok_def shortp_out_space_def Let_def shortp_incr_out_bp_def
  by (auto split: if_splits)

text \<open>What the printer gets: the value of the data port at each strobe.\<close>

fun strobed :: "byte \<Rightarrow> (nat \<times> byte) list \<Rightarrow> byte list" where
  "strobed latch [] = []"
| "strobed latch ((p, v) # ps) =
     (if p = SP_DATA then strobed v ps
      else if p = SP_CONTROL \<and> v AND SP_CR_STROBE \<noteq> 0 then latch # strobed latch ps
      else strobed latch ps)"

definition printed :: "shortp \<Rightarrow> byte list" where
  "printed d = strobed 0 (ports d)"

fun latch_after :: "byte \<Rightarrow> (nat \<times> byte) list \<Rightarrow> byte" where
  "latch_after latch [] = latch"
| "latch_after latch ((p, v) # ps) = latch_after (if p = SP_DATA then v else latch) ps"

lemma strobed_append: "strobed l (ps @ qs) = strobed l ps @ strobed (latch_after l ps) qs"
  by (induction l ps rule: strobed.induct) auto

lemma strobe_bits:
  fixes cr :: byte
  shows "(cr OR 1) AND 1 \<noteq> 0" "(cr AND NOT 1) AND 1 = 0" "(cr AND - 2) AND 1 = 0"
proof -
  have "bit ((cr OR 1) AND 1) 0" by (simp add: bit_simps)
  then show "(cr OR 1) AND 1 \<noteq> 0" by auto
  show "(cr AND NOT 1) AND 1 = 0" by (rule bit_eqI) (auto simp: bit_simps)
  then show "(cr AND - 2) AND 1 = 0" by simp
qed

lemma strobe_once: "strobed l (ps @ [(SP_DATA, c), (SP_CONTROL, cr OR SP_CR_STROBE), (SP_CONTROL, cr AND NOT SP_CR_STROBE)]) = strobed l ps @ [c]"
  by (simp add: strobed_append strobe_bits)

text \<open>One round of a write, and the output of one byte, as operations of a queue.\<close>

definition shortp_put :: "byte list \<Rightarrow> shortp \<Rightarrow> (nat \<times> shortp) option" where
  "shortp_put bs d = do {
     let n = min (nat (shortp_out_space d)) (length bs);
     if n = 0 then Some (0, d)
     else do {
       (ok, d) \<leftarrow> shortp_copy 0 (take n bs) d;
       d \<leftarrow> shortp_start_output d;
       Some (n, d)
     }
   }"

definition shortp_get :: "byte \<Rightarrow> nat \<Rightarrow> shortp \<Rightarrow> (byte list \<times> shortp) option" where
  "shortp_get cr k d =
     (if k = 0 then Some ([], d)
      else do {
        d' \<leftarrow> work_output cr d;
        Some (strobed 0 (drop (length (ports d)) (ports d')), d')
      })"

definition shortp_inv :: "shortp \<Rightarrow> bool" where
  "shortp_inv d \<longleftrightarrow> out_ok d \<and> (shortp_queue d \<noteq> [] \<longrightarrow> output_active d) \<and> (timer_pending d \<longrightarrow> output_active d)"

lemma start_output_some:
  "timer_pending d \<longrightarrow> output_active d \<Longrightarrow> \<exists>t w. shortp_start_output d =
     Some (d\<lparr>output_active := True, timer_pending := t, work_pending := w\<rparr>) \<and> (\<not> output_active d \<longrightarrow> t \<and> w) \<and>
       (output_active d \<longrightarrow> t = timer_pending d \<and> w = work_pending d)"
  by (cases "output_active d"; cases d) (auto simp: shortp_start_output_def add_timer_def queue_work_def)

lemma queue_flags [simp]:
  "shortp_queue (d\<lparr>output_active := a\<rparr>) = shortp_queue d" "shortp_queue (d\<lparr>timer_pending := t\<rparr>) = shortp_queue d"
  "shortp_queue (d\<lparr>work_pending := w\<rparr>) = shortp_queue d" "shortp_queue (d\<lparr>shortp_tv := tv\<rparr>) = shortp_queue d"
  "shortp_queue (d\<lparr>in_page := b\<rparr>) = shortp_queue d" "shortp_queue (d\<lparr>in_head := i\<rparr>) = shortp_queue d"
  "shortp_queue (d\<lparr>in_tail := i\<rparr>) = shortp_queue d" "shortp_queue (d\<lparr>ports := ps\<rparr>) = shortp_queue d"
  by (simp_all add: shortp_queue_def)

lemma out_ok_flags [simp]:
  "out_ok (d\<lparr>output_active := a\<rparr>) = out_ok d" "out_ok (d\<lparr>timer_pending := t\<rparr>) = out_ok d"
  "out_ok (d\<lparr>work_pending := w\<rparr>) = out_ok d" "out_ok (d\<lparr>shortp_tv := tv\<rparr>) = out_ok d"
  "out_ok (d\<lparr>in_page := b\<rparr>) = out_ok d" "out_ok (d\<lparr>in_head := i\<rparr>) = out_ok d"
  "out_ok (d\<lparr>in_tail := i\<rparr>) = out_ok d" "out_ok (d\<lparr>ports := ps\<rparr>) = out_ok d"
  by (simp_all add: out_ok_def)

lemma put_queue:
  assumes "shortp_inv d"
  shows "\<exists>n d'. shortp_put bs d = Some (n, d') \<and> shortp_inv d' \<and> n = min (nat (shortp_out_space d)) (length bs) \<and>
    shortp_queue d' = shortp_queue d @ take n bs \<and> (0 < n \<longrightarrow> output_active d')"
proof -
  define n where "n = min (nat (shortp_out_space d)) (length bs)"
  have i: "out_ok d" "shortp_queue d \<noteq> [] \<longrightarrow> output_active d" "timer_pending d \<longrightarrow> output_active d"
    using assms by (simp_all add: shortp_inv_def)
  show ?thesis
  proof (cases "n = 0")
    case True
    then show ?thesis using assms unfolding n_def by (intro exI [of _ 0] exI [of _ d]) (simp add: shortp_put_def Let_def)
  next
    case False
    have "int (length (take n bs)) \<le> shortp_out_space d" using out_space(1) [OF i(1)] by (auto simp: n_def)
    from copy_queue [OF i(1) this] obtain b h where
      c: "shortp_copy 0 (take n bs) d = Some (True, d\<lparr>out_page := b, out_head := h\<rparr>)"
        "out_ok (d\<lparr>out_page := b, out_head := h\<rparr>)" "shortp_queue (d\<lparr>out_page := b, out_head := h\<rparr>) = shortp_queue d @ take n bs" by blast
    from start_output_some [of "d\<lparr>out_page := b, out_head := h\<rparr>"] i(3) obtain d' t w where
      s: "shortp_start_output (d\<lparr>out_page := b, out_head := h\<rparr>) = Some d'"
        "d' = d\<lparr>out_page := b, out_head := h, output_active := True, timer_pending := t, work_pending := w\<rparr>" by auto
    have "shortp_put bs d = Some (n, d')"
      using False c(1) s(1) by (simp add: shortp_put_def Let_def n_def [symmetric])
    moreover have "shortp_inv d'" using c(2) unfolding s(2) shortp_inv_def by (auto simp: out_ok_def)
    moreover have "shortp_queue d' = shortp_queue d @ take n bs" using c(3) unfolding s(2) by (simp add: shortp_queue_def)
    ultimately show ?thesis using s(2) unfolding n_def [symmetric] by auto
  qed
qed

lemma work_output_queue:
  assumes "out_ok d"
  shows "\<exists>d'. work_output cr d = Some d' \<and> out_ok d' \<and> in_page d' = in_page d \<and> in_head d' = in_head d \<and> shortp_tv d' = shortp_tv d \<and>
    work_pending d' = work_pending d \<and>
    (if shortp_queue d = [] then d' = d\<lparr>output_active := False, timer_pending := False\<rparr>
     else timer_pending d' \<and> output_active d' = output_active d \<and>
       (\<exists>c ps. shortp_queue d = c # shortp_queue d' \<and> ports d' = ports d @ ps \<and> (\<forall>l qs. strobed l (qs @ ps) = strobed l qs @ [c])))"
proof (cases "shortp_queue d = []")
  case True
  then show ?thesis using assms queue_empty [OF assms] by (simp add: work_output_def)
next
  case False
  from do_write_queue [OF assms False, of cr] obtain c t where
    w: "shortp_do_write cr d = Some (d\<lparr>timer_pending := True, out_tail := t,
      ports := ports d @ [(SP_DATA, c), (SP_CONTROL, cr OR SP_CR_STROBE), (SP_CONTROL, cr AND NOT SP_CR_STROBE)]\<rparr>)"
      "t < PAGE_SIZE" "shortp_queue d = c # shortp_queue (d\<lparr>out_tail := t\<rparr>)" by blast
  let ?ps = "[(SP_DATA, c), (SP_CONTROL, cr OR SP_CR_STROBE), (SP_CONTROL, cr AND NOT SP_CR_STROBE)]"
  let ?d = "d\<lparr>timer_pending := True, out_tail := t, ports := ports d @ ?ps\<rparr>"
  have "work_output cr d = Some ?d" using w(1) False queue_empty [OF assms] by (simp add: work_output_def)
  moreover have "out_ok ?d" using assms w(2) by (simp add: out_ok_def)
  moreover have "shortp_queue d = c # shortp_queue ?d" using w(3) by (simp add: shortp_queue_def)
  moreover have "\<forall>l qs. strobed l (qs @ ?ps) = strobed l qs @ [c]" using strobe_once by blast
  moreover have "(\<exists>c ps. shortp_queue d = c # shortp_queue ?d \<and> ports ?d = ports d @ ps \<and> (\<forall>l qs. strobed l (qs @ ps) = strobed l qs @ [c]))"
    using calculation(3,4) by (intro exI [of _ c] exI [of _ ?ps] conjI) simp_all
  ultimately show ?thesis using False by (intro exI [of _ ?d] conjI) simp_all
qed

lemma get_queue:
  assumes "shortp_inv d"
  shows "\<exists>bs d'. shortp_get cr k d = Some (bs, d') \<and> shortp_inv d' \<and> length bs \<le> k \<and> shortp_queue d = bs @ shortp_queue d' \<and>
    (0 < k \<longrightarrow> shortp_queue d \<noteq> [] \<longrightarrow> bs \<noteq> [])"
proof (cases "k = 0")
  case True
  with assms show ?thesis by (simp add: shortp_get_def)
next
  case False
  have i: "out_ok d" "shortp_queue d \<noteq> [] \<longrightarrow> output_active d" "timer_pending d \<longrightarrow> output_active d"
    using assms by (simp_all add: shortp_inv_def)
  from work_output_queue [OF i(1), of cr] obtain d' where
    w: "work_output cr d = Some d'" "out_ok d'"
      "if shortp_queue d = [] then d' = d\<lparr>output_active := False, timer_pending := False\<rparr>
       else timer_pending d' \<and> output_active d' = output_active d \<and>
         (\<exists>c ps. shortp_queue d = c # shortp_queue d' \<and> ports d' = ports d @ ps \<and> (\<forall>l qs. strobed l (qs @ ps) = strobed l qs @ [c]))"
    by blast
  show ?thesis
  proof (cases "shortp_queue d = []")
    case True
    with w(3) have d': "d' = d\<lparr>output_active := False, timer_pending := False\<rparr>" by simp
    with w(1) False True i(1) show ?thesis by (simp add: shortp_get_def shortp_inv_def)
  next
    case ne: False
    with w(3) obtain c ps where p: "timer_pending d'" "output_active d' = output_active d" "shortp_queue d = c # shortp_queue d'"
      "ports d' = ports d @ ps" "\<forall>l qs. strobed l (qs @ ps) = strobed l qs @ [c]" by auto
    have "strobed 0 ps = [c]" using spec [OF spec [OF p(5), of 0], of "[]"] by simp
    then have "shortp_get cr k d = Some ([c], d')" using w(1) False p(4) by (simp add: shortp_get_def)
    moreover have "shortp_inv d'" using w(2) p(1,2) i(2) ne by (simp add: shortp_inv_def)
    ultimately show ?thesis using p(3) False by auto
  qed
qed

interpretation shortprint: byte_fifo shortp_inv shortp_queue "\<lambda>_. PAGE_SIZE - 1" shortp_put "shortp_get cr" for cr
proof unfold_locales
  fix d :: shortp and bs n d'
  assume "shortp_inv d" "shortp_put bs d = Some (n, d')"
  with put_queue [of d bs] show "shortp_inv d' \<and> n \<le> length bs \<and> shortp_queue d' = shortp_queue d @ take n bs \<and> PAGE_SIZE - 1 = PAGE_SIZE - 1"
    by auto
next
  fix d :: shortp and k bs d'
  assume "shortp_inv d" "shortp_get cr k d = Some (bs, d')"
  with get_queue [of d cr k] show "shortp_inv d' \<and> length bs \<le> k \<and> shortp_queue d = bs @ shortp_queue d' \<and> PAGE_SIZE - 1 = PAGE_SIZE - 1"
    by auto
next
  fix d :: shortp and bs
  assume i: "shortp_inv d"
  then have "0 < nat (shortp_out_space d)" if "length (shortp_queue d) < PAGE_SIZE - 1"
    using that out_space(1,4) [of d] by (auto simp: shortp_inv_def)
  with put_queue [OF i, of bs] show "\<exists>n d'. shortp_put bs d = Some (n, d') \<and> (bs \<noteq> [] \<longrightarrow> length (shortp_queue d) < PAGE_SIZE - 1 \<longrightarrow> 0 < n)"
    by auto
next
  fix d :: shortp and k :: nat
  assume "shortp_inv d" "0 < k"
  with get_queue [of d cr k] show "\<exists>bs d'. shortp_get cr k d = Some (bs, d') \<and> (shortp_queue d \<noteq> [] \<longrightarrow> bs \<noteq> [])" by blast
qed

section \<open>A whole write\<close>

lemma write_loop_room:
  assumes "shortp_inv d" "length buf + length (shortp_queue d) \<le> PAGE_SIZE - 1"
  shows "\<exists>d'. shortp_write_loop ws (\<lambda>_. 0) buf written d = Some (Inr (int (written + length buf)), written + length buf, d') \<and>
    shortp_inv d' \<and> shortp_queue d' = shortp_queue d @ buf"
  using assms
proof (induction "length buf" arbitrary: buf written d rule: less_induct)
  case less
  show ?case
  proof (cases "buf = []")
    case True
    with less.prems(1) show ?thesis by (subst shortp_write_loop.simps) simp
  next
    case False
    have ok: "out_ok d" using less.prems(1) by (simp add: shortp_inv_def)
    have "0 < length buf" using False by simp
    then have sp: "0 < shortp_out_space d" using out_space(1,4) [OF ok] less.prems(2) by linarith
    define n where "n = min (nat (shortp_out_space d)) (length buf)"
    have n: "0 < n" "n \<le> length buf" using sp False by (simp_all add: n_def)
    from put_queue [OF less.prems(1), of buf] obtain d1 where
      p: "shortp_put buf d = Some (n, d1)" "shortp_inv d1" "shortp_queue d1 = shortp_queue d @ take n buf"
      by (auto simp: n_def)
    from p(1) n(1) obtain d2 ok where
      c: "shortp_copy 0 (take n buf) d = Some (ok, d2)" "shortp_start_output d2 = Some d1"
      by (auto simp: shortp_put_def Let_def n_def [symmetric] bind_eq_Some_conv)
    have "ok" using c(1) by (auto simp: shortp_copy_def Let_def bind_eq_Some_conv)
    then have step: "shortp_write_loop ws (\<lambda>_. 0) buf written d = shortp_write_loop ws (\<lambda>_. 0) (drop n buf) (written + n) d1"
      using False sp c by (subst shortp_write_loop.simps) (simp add: Let_def n_def [symmetric])
    have "length (drop n buf) < length buf" "length (drop n buf) + length (shortp_queue d1) \<le> PAGE_SIZE - 1"
      using n less.prems(2) p(3) by simp_all
    from less.hyps [OF this(1) p(2) this(2), of "written + n"] step p(3) n(2) show ?thesis by (simp add: of_nat_diff)
  qed
qed

section \<open>The interleaved driver\<close>

text \<open>
  Beside the device: whether the work function and the timer function are running, whether a
  writer has moved the head of the ring and not yet started the output, and all the bytes that
  writers put into the ring.
\<close>

record sp_world =
  sp :: shortp
  running :: bool
  fired :: bool
  moved :: bool
  accepted :: "byte list"

inductive sp_step :: "sp_world \<Rightarrow> sp_world \<Rightarrow> bool" where
  copy: "\<not> moved w \<Longrightarrow> bs \<noteq> [] \<Longrightarrow> int (length bs) \<le> shortp_out_space (sp w) \<Longrightarrow> shortp_copy 0 bs (sp w) = Some (True, d) \<Longrightarrow>
    sp_step w (w\<lparr>sp := d, moved := True, accepted := accepted w @ bs\<rparr>)"
| fault: "\<not> moved w \<Longrightarrow> int (length bs) \<le> shortp_out_space (sp w) \<Longrightarrow> shortp_copy nc bs (sp w) = Some (False, d) \<Longrightarrow>
    sp_step w (w\<lparr>sp := d\<rparr>)"
| start: "moved w \<Longrightarrow> shortp_start_output (sp w) = Some d \<Longrightarrow> sp_step w (w\<lparr>sp := d, moved := False\<rparr>)"
| work_begin: "work_pending (sp w) \<Longrightarrow> \<not> running w \<Longrightarrow> sp_step w (w\<lparr>sp := (sp w)\<lparr>work_pending := False\<rparr>, running := True\<rparr>)"
| work_end: "running w \<Longrightarrow> shortp_do_work cr (sp w) = Some (woken, d) \<Longrightarrow> sp_step w (w\<lparr>sp := d, running := False\<rparr>)"
| irq: "shortp_interrupt now (sp w) = (r, d) \<Longrightarrow> sp_step w (w\<lparr>sp := d\<rparr>)"
| fire: "timer_pending (sp w) \<Longrightarrow> \<not> fired w \<Longrightarrow>
    sp_step w (w\<lparr>sp := (sp w)\<lparr>timer_pending := False\<rparr>, fired := shortp_timeout_check (sp w)\<rparr>)"
| timeout: "fired w \<Longrightarrow> shortp_timeout_locked status now (sp w) = Some d \<Longrightarrow> sp_step w (w\<lparr>sp := d, fired := False\<rparr>)"
| reader: "shortp_read False copied n (sp w) = Some (r, data, d) \<Longrightarrow> sp_step w (w\<lparr>sp := d\<rparr>)"

inductive_cases sp_stepE: "sp_step w w'"

definition fresh_world :: sp_world where
  "fresh_world = \<lparr>sp = fresh_shortp, running = False, fired = False, moved = False, accepted = []\<rparr>"

text \<open>
  No byte is lost, doubled or reordered; what is queued will be output, or its writer is about to
  start the output; and while output is active something will carry it on.
\<close>

definition sp_good :: "sp_world \<Rightarrow> bool" where
  "sp_good w \<longleftrightarrow> out_ok (sp w) \<and> accepted w = printed (sp w) @ shortp_queue (sp w) \<and>
     (shortp_queue (sp w) \<noteq> [] \<longrightarrow> output_active (sp w) \<or> moved w) \<and>
     (output_active (sp w) \<longrightarrow> work_pending (sp w) \<or> running w \<or> timer_pending (sp w) \<or> fired w)"

named_theorems sp_simps \<open>unfolding of the small operations of the printer driver\<close>

declare shortp_start_output_def [sp_simps] add_timer_def [sp_simps] queue_work_def [sp_simps] shortp_interrupt_def [sp_simps]
  shortp_timeout_locked_def [sp_simps] shortp_timeout_check_def [sp_simps]

lemma printed_flags [simp]:
  "printed (d\<lparr>output_active := a\<rparr>) = printed d" "printed (d\<lparr>timer_pending := t\<rparr>) = printed d"
  "printed (d\<lparr>work_pending := w\<rparr>) = printed d" "printed (d\<lparr>shortp_tv := tv\<rparr>) = printed d"
  "printed (d\<lparr>in_page := b\<rparr>) = printed d" "printed (d\<lparr>in_head := i\<rparr>) = printed d"
  "printed (d\<lparr>in_tail := i\<rparr>) = printed d" "printed (d\<lparr>out_page := b\<rparr>) = printed d" "printed (d\<lparr>out_head := i\<rparr>) = printed d"
  by (simp_all add: printed_def)

lemma good_copy:
  assumes "sp_good w" "int (length bs) \<le> shortp_out_space (sp w)" "shortp_copy 0 bs (sp w) = Some (True, d)"
  shows "sp_good (w\<lparr>sp := d, moved := True, accepted := accepted w @ bs\<rparr>)"
proof -
  have ok: "out_ok (sp w)" using assms(1) by (simp add: sp_good_def)
  from copy_queue [OF ok assms(2)] assms(3) obtain b h where
    d: "d = (sp w)\<lparr>out_page := b, out_head := h\<rparr>" "out_ok d" "shortp_queue d = shortp_queue (sp w) @ bs" by auto
  with assms(1) show ?thesis by (auto simp: sp_good_def)
qed

lemma ring_beyond:
  assumes "length blk = n" "r < n" "w < n" "w + length src \<le> (if r \<le> w then n else r)"
  shows "ring n (take w blk @ src @ drop (w + length src) blk) r w = ring n blk r w"
  using assms by (auto simp: ring_def drop_take min_def)

lemma good_fault:
  assumes "sp_good w" "int (length bs) \<le> shortp_out_space (sp w)" "shortp_copy nc bs (sp w) = Some (False, d)"
  shows "sp_good (w\<lparr>sp := d\<rparr>)"
proof -
  let ?d = "sp w"
  have o: "length (out_page ?d) = PAGE_SIZE" "out_head ?d < PAGE_SIZE" "out_tail ?d < PAGE_SIZE"
    using assms(1) by (simp_all add: sp_good_def out_ok_def)
  let ?b = "take (out_head ?d) (out_page ?d) @ user_bytes bs nc @ drop (out_head ?d + length (user_bytes bs nc)) (out_page ?d)"
  have d: "d = ?d\<lparr>out_page := ?b\<rparr>" "out_head ?d + length bs \<le> PAGE_SIZE"
    using assms(3) o by (auto simp: shortp_copy_def mem_write_def Let_def split: if_splits)
  have "out_head ?d + length (user_bytes bs nc) \<le> (if out_tail ?d \<le> out_head ?d then PAGE_SIZE else out_tail ?d)"
    using d(2) assms(2) by (auto simp: shortp_out_space_def)
  then have "ring PAGE_SIZE ?b (out_tail ?d) (out_head ?d) = ring PAGE_SIZE (out_page ?d) (out_tail ?d) (out_head ?d)"
    using o by (intro ring_beyond)
  moreover have "length ?b = PAGE_SIZE" using o d(2) by simp
  ultimately have "shortp_queue d = shortp_queue ?d" "out_ok d" using o unfolding d(1) by (simp_all add: shortp_queue_def out_ok_def)
  moreover have "printed d = printed ?d" "output_active d = output_active ?d" "work_pending d = work_pending ?d" "timer_pending d = timer_pending ?d"
    unfolding d(1) by simp_all
  ultimately show ?thesis using assms(1) by (simp add: sp_good_def)
qed

lemma do_work_parts:
  assumes "shortp_do_work cr d = Some (woken, d')"
  shows "\<exists>d1 b. work_output cr d = Some d1 \<and>
    mem_write (in_page d1) (in_head d1) (shortp_record (shortp_tv d1) @ [0]) = Some b \<and>
    d' = d1\<lparr>in_page := b, in_head := shortp_incr_bp (in_head d1) (length (shortp_record (shortp_tv d1)))\<rparr>"
  using assms by (auto simp: shortp_do_work_def Let_def bind_eq_Some_conv)

lemma good_work:
  assumes "sp_good w" "running w" "shortp_do_work cr (sp w) = Some (woken, d)"
  shows "sp_good (w\<lparr>sp := d, running := False\<rparr>)"
proof -
  let ?d = "sp w"
  have ok: "out_ok ?d" using assms(1) by (simp add: sp_good_def)
  from do_work_parts [OF assms(3)] obtain d1 b where
    p: "work_output cr ?d = Some d1" "d = d1\<lparr>in_page := b, in_head := shortp_incr_bp (in_head d1) (length (shortp_record (shortp_tv d1)))\<rparr>"
    by blast
  from work_output_queue [OF ok, of cr] p(1) have w: "out_ok d1"
    "if shortp_queue ?d = [] then d1 = ?d\<lparr>output_active := False, timer_pending := False\<rparr>
     else timer_pending d1 \<and> output_active d1 = output_active ?d \<and>
       (\<exists>c ps. shortp_queue ?d = c # shortp_queue d1 \<and> ports d1 = ports ?d @ ps \<and> (\<forall>l qs. strobed l (qs @ ps) = strobed l qs @ [c]))"
    by auto
  have q: "shortp_queue d = shortp_queue d1" "printed d = printed d1" "out_ok d" "output_active d = output_active d1"
    "timer_pending d = timer_pending d1" using w(1) unfolding p(2) by simp_all
  show ?thesis
  proof (cases "shortp_queue ?d = []")
    case True
    with w(2) have "d1 = ?d\<lparr>output_active := False, timer_pending := False\<rparr>" by simp
    then show ?thesis using q assms(1) True by (simp add: sp_good_def)
  next
    case False
    with w(2) obtain c ps where c: "timer_pending d1" "output_active d1 = output_active ?d" "shortp_queue ?d = c # shortp_queue d1"
      "ports d1 = ports ?d @ ps" "\<forall>l qs. strobed l (qs @ ps) = strobed l qs @ [c]" by auto
    have "printed d1 = printed ?d @ [c]" using c(4,5) by (simp add: printed_def)
    then show ?thesis using q assms(1) c(1-3) by (simp add: sp_good_def)
  qed
qed

lemma good_step: "sp_step w w' \<Longrightarrow> sp_good w \<Longrightarrow> sp_good w'"
proof (induction rule: sp_step.induct)
  case (copy w bs d)
  then show ?case using good_copy by blast
next
  case (fault w bs nc d)
  then show ?case using good_fault by blast
next
  case (start w d)
  then show ?case by (auto simp: sp_good_def sp_simps split: if_splits)
next
  case (work_begin w)
  then show ?case by (auto simp: sp_good_def)
next
  case (work_end w cr woken d)
  then show ?case using good_work by blast
next
  case (irq now w r d)
  then show ?case by (auto simp: sp_good_def sp_simps split: if_splits)
next
  case (fire w)
  then show ?case by (auto simp: sp_good_def sp_simps)
next
  case (timeout w status now d)
  then show ?case by (auto simp: sp_good_def sp_simps split: if_splits)
next
  case (reader copied n w r data d)
  then show ?case by (auto simp: sp_good_def shortp_read_def Let_def bind_eq_Some_conv split: if_splits)
qed

lemma good_reach: "sp_step\<^sup>*\<^sup>* w w' \<Longrightarrow> sp_good w \<Longrightarrow> sp_good w'"
  by (induction rule: rtranclp_induct) (auto dest: good_step)

lemma fresh_ok: "out_ok fresh_shortp" "shortp_queue fresh_shortp = []" "printed fresh_shortp = []" "shortp_inv fresh_shortp"
  by (simp_all add: shortp_inv_def out_ok_def fresh_shortp_def shortp_queue_def ring_def printed_def)

lemma good_fresh: "sp_good fresh_world"
  using fresh_ok by (simp add: sp_good_def fresh_world_def) (simp add: fresh_shortp_def)

section \<open>The log overruns its page\<close>

lemma length_shortp_record: "valid_time tv \<Longrightarrow> length (shortp_record tv) = 19"
proof -
  assume v: "valid_time tv"
  then have "rem_by (fst tv) 100000000 = fst tv mod 100000000" by (simp add: rem_by_def c_rem_pos valid_time_def)
  moreover have "0 \<le> fst tv mod 100000000" "fst tv mod 100000000 < 100000000" by simp_all
  ultimately have s: "nat (u32 (rem_by (fst tv) 100000000)) < 10 ^ Suc 7" by simp
  have n: "nat (u32 (s32 (snd tv))) < 10 ^ Suc 8" using v by (auto simp: valid_time_def nat_less_iff)
  from length_fmt [OF s, of 48] length_fmt [OF n, of 48] show ?thesis by (simp add: shortp_record_def)
qed

text \<open>A series of interrupts, each with its run of the work function.\<close>

fun works :: "(byte \<times> timespec) list \<Rightarrow> shortp \<Rightarrow> shortp option" where
  "works [] d = Some d"
| "works ((cr, now) # ws) d = do {
     (woken, d) \<leftarrow> shortp_do_work cr (snd (shortp_interrupt now d));
     works ws d
   }"

definition log_ok :: "shortp \<Rightarrow> bool" where
  "log_ok d \<longleftrightarrow> out_ok d \<and> length (in_page d) = PAGE_SIZE \<and> valid_time (shortp_tv d)"

lemma work_logs:
  assumes "log_ok d" "in_head d + 20 \<le> PAGE_SIZE"
  shows "\<exists>woken d'. shortp_do_work cr d = Some (woken, d') \<and> log_ok d' \<and> in_head d' = in_head d + 19"
proof -
  have ok: "out_ok d" "length (in_page d) = PAGE_SIZE" "length (shortp_record (shortp_tv d)) = 19" "valid_time (shortp_tv d)"
    using assms(1) by (simp_all add: log_ok_def length_shortp_record)
  from work_output_queue [OF ok(1), of cr] obtain d1 where
    w: "work_output cr d = Some d1" "out_ok d1" "in_page d1 = in_page d" "in_head d1 = in_head d" "shortp_tv d1 = shortp_tv d" by blast
  obtain b where b: "mem_write (in_page d) (in_head d) (shortp_record (shortp_tv d) @ [0]) = Some b"
    using ok(2,3) assms(2) by (simp add: mem_write_def)
  have "length b = PAGE_SIZE" using mem_write_length [OF b] ok(2) by simp
  then show ?thesis using w b ok(3,4) assms(2) by (simp add: shortp_do_work_def Let_def log_ok_def shortp_incr_bp_def)
qed

lemma work_overruns:
  assumes "log_ok d" "PAGE_SIZE < in_head d + 20"
  shows "shortp_do_work cr d = None"
proof -
  have ok: "out_ok d" "length (in_page d) = PAGE_SIZE" "length (shortp_record (shortp_tv d)) = 19"
    using assms(1) by (simp_all add: log_ok_def length_shortp_record)
  from work_output_queue [OF ok(1), of cr] obtain d1 where
    w: "work_output cr d = Some d1" "in_page d1 = in_page d" "in_head d1 = in_head d" "shortp_tv d1 = shortp_tv d" by blast
  then show ?thesis using ok(2,3) assms(2) by (simp add: shortp_do_work_def Let_def mem_write_def)
qed

lemma log_ok_interrupt:
  assumes "log_ok d" "valid_time now"
  shows "log_ok (snd (shortp_interrupt now d)) \<and> in_head (snd (shortp_interrupt now d)) = in_head d"
  using assms by (simp add: log_ok_def sp_simps)

lemma works_log:
  assumes "log_ok d" "\<forall>w \<in> set ws. valid_time (snd w)" "in_head d + 19 * length ws < PAGE_SIZE"
  shows "\<exists>d'. works ws d = Some d' \<and> log_ok d' \<and> in_head d' = in_head d + 19 * length ws"
  using assms
proof (induction ws arbitrary: d)
  case Nil
  then show ?case by simp
next
  case (Cons w ws)
  obtain cr now where w: "w = (cr, now)" by (cases w)
  let ?d = "snd (shortp_interrupt now d)"
  have i: "log_ok ?d" "in_head ?d = in_head d" using log_ok_interrupt [OF Cons.prems(1), of now] Cons.prems(2) w by simp_all
  show ?case
  proof (cases "in_head d + 20 \<le> PAGE_SIZE")
    case True
    with work_logs [OF i(1), of cr] i(2) obtain woken d1 where
      d1: "shortp_do_work cr ?d = Some (woken, d1)" "log_ok d1" "in_head d1 = in_head d + 19" by auto
    from Cons.IH [OF d1(2)] Cons.prems(2,3) d1(3) obtain d' where
      "works ws d1 = Some d'" "log_ok d'" "in_head d' = in_head d1 + 19 * length ws" by auto
    with d1 w show ?thesis by simp
  next
    case False
    with Cons.prems(3) show ?thesis by simp
  qed
qed

section \<open>Properties\<close>

text \<open>
  C23: However writers, the work function, interrupts and the timer interleave, the bytes that the
  printer was strobed, followed by those in the ring, are the bytes that writers put in; what is
  in the ring has active output, or a writer about to start it; and active output always has
  something pending that carries it on: the work, or the timer.
\<close>

theorem shortp_no_byte_lost:
  assumes "sp_step\<^sup>*\<^sup>* fresh_world w"
  shows "accepted w = printed (sp w) @ shortp_queue (sp w) \<and>
    (shortp_queue (sp w) \<noteq> [] \<longrightarrow> output_active (sp w) \<or> moved w) \<and>
    (output_active (sp w) \<longrightarrow> work_pending (sp w) \<or> running w \<or> timer_pending (sp w) \<or> fired w)"
  using good_reach [OF assms good_fresh] by (simp add: sp_good_def)

text \<open>Two bytes are put into the ring and the output started; this is how the timer race begins.\<close>

lemma output_started:
  "\<exists>d. sp_step\<^sup>*\<^sup>* fresh_world \<lparr>sp = d, running = False, fired = False, moved = False, accepted = [7, 8]\<rparr> \<and>
    log_ok d \<and> in_head d = 0 \<and> output_active d \<and> timer_pending d \<and> work_pending d \<and> shortp_queue d = [7, 8]"
proof -
  have l: "int (length [7, 8 :: byte]) \<le> shortp_out_space fresh_shortp"
    by (simp add: shortp_out_space_def fresh_shortp_def)
  from copy_queue [OF fresh_ok(1) l] fresh_ok(2) obtain b h where
    c: "shortp_copy 0 [7, 8] fresh_shortp = Some (True, fresh_shortp\<lparr>out_page := b, out_head := h\<rparr>)"
      "out_ok (fresh_shortp\<lparr>out_page := b, out_head := h\<rparr>)" "shortp_queue (fresh_shortp\<lparr>out_page := b, out_head := h\<rparr>) = [7, 8]" by auto
  let ?d = "fresh_shortp\<lparr>out_page := b, out_head := h\<rparr>"
  let ?e = "?d\<lparr>output_active := True, timer_pending := True, work_pending := True\<rparr>"
  have "sp_step fresh_world (fresh_world\<lparr>sp := ?d, moved := True, accepted := accepted fresh_world @ [7, 8]\<rparr>)"
    using l c(1) by (intro sp_step.copy) (simp_all add: fresh_world_def)
  moreover have "shortp_start_output ?d = Some ?e" by (simp add: sp_simps fresh_shortp_def)
  then have "sp_step (fresh_world\<lparr>sp := ?d, moved := True, accepted := [7, 8]\<rparr>) (fresh_world\<lparr>sp := ?e, moved := False, accepted := [7, 8]\<rparr>)"
    using sp_step.start [of "fresh_world\<lparr>sp := ?d, moved := True, accepted := [7, 8]\<rparr>" ?e] by (simp add: fresh_world_def)
  ultimately have "sp_step\<^sup>*\<^sup>* fresh_world (fresh_world\<lparr>sp := ?e, moved := False, accepted := [7, 8]\<rparr>)"
    by (simp add: fresh_world_def)
  moreover have "log_ok ?e" using c(2) by (simp add: log_ok_def out_ok_def) (simp add: fresh_shortp_def valid_time_def)
  moreover have "in_head ?e = 0" by (simp add: fresh_shortp_def)
  ultimately show ?thesis using c(3) by (intro exI [of _ ?e]) (simp add: fresh_world_def)
qed

lemma shortp_no_byte_lost_witness:
  "\<exists>w. sp_step\<^sup>*\<^sup>* fresh_world w \<and> [7, 8] = printed (sp w) @ shortp_queue (sp w) \<and> output_active (sp w)"
proof -
  from output_started obtain d where
    d: "sp_step\<^sup>*\<^sup>* fresh_world \<lparr>sp = d, running = False, fired = False, moved = False, accepted = [7, 8]\<rparr>" "output_active d" by blast
  from shortp_no_byte_lost [OF d(1)] d show ?thesis
    by (intro exI [of _ "\<lparr>sp = d, running = False, fired = False, moved = False, accepted = [7, 8]\<rparr>"]) simp
qed

text \<open>
  The timer function can add a timer that is pending, which stops the kernel: it has passed its
  check when the work function, which holds the lock first, outputs a byte and sets the timer; when
  it gets the lock and finds the printer busy it adds the timer again.
\<close>

theorem shortp_timer_race:
  "\<exists>w. sp_step\<^sup>*\<^sup>* fresh_world w \<and> fired w \<and> shortp_timeout_locked 0 now (sp w) = None"
proof -
  from output_started obtain d where
    d: "sp_step\<^sup>*\<^sup>* fresh_world \<lparr>sp = d, running = False, fired = False, moved = False, accepted = [7, 8]\<rparr>"
      "log_ok d" "in_head d = 0" "output_active d" "timer_pending d" "work_pending d" "shortp_queue d = [7, 8]" by blast
  let ?w = "\<lparr>sp = d, running = False, fired = False, moved = False, accepted = [7, 8]\<rparr>"
  let ?d1 = "d\<lparr>timer_pending := False\<rparr>" and ?d2 = "d\<lparr>timer_pending := False, work_pending := False\<rparr>"
  have s1: "sp_step ?w (?w\<lparr>sp := ?d1, fired := True\<rparr>)"
    using sp_step.fire [of ?w] d(4,5) by (simp add: sp_simps)
  have s2: "sp_step (?w\<lparr>sp := ?d1, fired := True\<rparr>) (?w\<lparr>sp := ?d2, fired := True, running := True\<rparr>)"
    using sp_step.work_begin [of "?w\<lparr>sp := ?d1, fired := True\<rparr>"] d(6) by simp
  have "log_ok ?d2" "in_head ?d2 + 20 \<le> PAGE_SIZE" using d(2,3) by (simp_all add: log_ok_def)
  from work_logs [OF this, of 0] obtain woken d3 where d3: "shortp_do_work 0 ?d2 = Some (woken, d3)" by blast
  have s3: "sp_step (?w\<lparr>sp := ?d2, fired := True, running := True\<rparr>) (?w\<lparr>sp := d3, fired := True\<rparr>)"
    using sp_step.work_end [of "?w\<lparr>sp := ?d2, fired := True, running := True\<rparr>", OF _ ] d3 by simp
  have "timer_pending d3"
  proof -
    from do_work_parts [OF d3] obtain d4 b where
      p: "work_output 0 ?d2 = Some d4" "timer_pending d3 = timer_pending d4" by auto
    have "out_ok ?d2" using d(2) by (simp add: log_ok_def)
    from work_output_queue [OF this, of 0] p d(7) show ?thesis by auto
  qed
  moreover have "sp_step\<^sup>*\<^sup>* fresh_world (?w\<lparr>sp := d3, fired := True\<rparr>)"
    using d(1) s1 s2 s3 by (meson rtranclp.rtrancl_into_rtrancl)
  ultimately show ?thesis
    by (intro exI [of _ "?w\<lparr>sp := d3, fired := True\<rparr>"]) (simp add: sp_simps)
qed

text \<open>
  Printing overruns the log: whatever readers do, after 215 runs of the work function for an
  empty page the next one stores its record of 19 bytes and a zero byte past the end of the page.
\<close>

theorem shortp_log_overruns:
  assumes "log_ok d" "in_head d = 0" "\<forall>w \<in> set ws. valid_time (snd w)" "length ws = 215"
  shows "\<exists>d'. works ws d = Some d' \<and> (\<forall>cr now. valid_time now \<longrightarrow> works [(cr, now)] d' = None)"
proof -
  have "in_head d + 19 * length ws < PAGE_SIZE" using assms(2,4) by simp
  from works_log [OF assms(1,3) this] assms(2,4) obtain d' where
    d': "works ws d = Some d'" "log_ok d'" "in_head d' = 4085" by auto
  have "works [(cr, now)] d' = None" if "valid_time now" for cr now
    using log_ok_interrupt [OF d'(2) that] d'(3) work_overruns [of "snd (shortp_interrupt now d')" cr] by simp
  with d'(1) show ?thesis by blast
qed

lemma shortp_log_overruns_witness:
  "\<exists>d'. works (replicate 215 (0, (5, 0))) fresh_shortp = Some d' \<and> works [(0, (6, 0))] d' = None"
proof -
  have "log_ok fresh_shortp" "in_head fresh_shortp = 0"
    using fresh_ok by (simp_all add: log_ok_def) (simp_all add: fresh_shortp_def valid_time_def)
  from shortp_log_overruns [OF this, of "replicate 215 (0, (5, 0))"] show ?thesis by (auto simp: valid_time_def)
qed

text \<open>
  A write that finds room for all its bytes takes them without sleeping, in as many rounds as
  the end of the ring asks for, reports their number, moves the file position and leaves the
  output active.
\<close>

theorem shortp_write_room:
  assumes "shortp_inv d" "length buf + length (shortp_queue d) \<le> PAGE_SIZE - 1" "buf \<noteq> []"
  shows "\<exists>d'. shortp_write False [] (\<lambda>_. 0) buf f_pos d = Some (Inr (int (length buf)), f_pos + length buf, d') \<and>
    shortp_inv d' \<and> shortp_queue d' = shortp_queue d @ buf \<and> output_active d'"
proof -
  from write_loop_room [OF assms(1,2), of "[]" 0] obtain d' where
    "shortp_write_loop [] (\<lambda>_. 0) buf 0 d = Some (Inr (int (length buf)), length buf, d')" "shortp_inv d'"
      "shortp_queue d' = shortp_queue d @ buf" by auto
  with assms(3) show ?thesis by (simp add: shortp_write_def shortp_inv_def)
qed

lemma shortp_write_room_witness:
  "\<exists>d'. shortp_write False [] (\<lambda>_. 0) (replicate 4095 9) 3 fresh_shortp = Some (Inr 4095, 4098, d') \<and>
    shortp_queue d' = replicate 4095 9 \<and> output_active d'"
  using shortp_write_room [OF fresh_ok(4), of "replicate 4095 9" 3] fresh_ok(2) by auto

text \<open>
  C24: A writer and the printer that take turns transfer everything: whatever is in the ring and
  however long the data are, rounds of a write followed by the output of a byte put out what was
  queued and then the data, in order, and end with an empty ring.
\<close>

theorem shortp_prints_all:
  assumes "shortp_inv d" "2 * length bs + length (shortp_queue d) < fuel"
  shows "\<exists>d'. fifo_pump shortp_put (shortp_get cr) 1 fuel bs d = Some (shortp_queue d @ bs, d') \<and> shortp_queue d' = []"
  using shortprint.pump_all [OF assms(1) _ _ assms(2), of 1 cr] by auto

lemma shortp_prints_all_witness:
  "\<exists>d'. fifo_pump shortp_put (shortp_get 12) 1 10001 (replicate 5000 9) fresh_shortp = Some (replicate 5000 9, d') \<and> shortp_queue d' = []"
  using shortp_prints_all [OF fresh_ok(4), of "replicate 5000 9" 10001 12] fresh_ok(2) by auto

text \<open>
  Initialisation is all or nothing: when the kernel refuses interrupts on negative lines, a
  failure leaves nothing held, and a success holds everything, of which cleanup leaves nothing.
\<close>

theorem shortp_init_all_or_nothing:
  assumes "shortp_init port line got_region registered request_irq = (r, line', res)" "\<forall>i < 0. \<exists>e. request_irq i = Inl e"
  shows "(\<forall>e. r = Inl e \<longrightarrow> res = no_res) \<and>
    (\<forall>v. r = Inr v \<longrightarrow> res_irq res = Some line' \<and> res_enabled res \<and> res_pages res = 2 \<and> shortp_cleanup line' res = no_res)"
proof -
  have "0 \<le> i" if "request_irq i = Inr u" for i u using assms(2) that by (metis not_less sum.distinct(1))
  with assms(1) show ?thesis
    by (auto simp: shortp_init_def shortp_cleanup_def no_res_def Let_def split: if_splits sum.splits)
qed

lemma shortp_init_all_or_nothing_witness:
  "shortp_init 888 (- 1) True (Inr 250) (\<lambda>i. if i < 0 then Inl EINVAL else Inr ()) =
      (Inr 0, 7, \<lparr>res_region = True, res_chrdev = True, res_pages = 2, res_workqueue = True, res_irq = Some 7, res_enabled = True\<rparr>) \<and>
    shortp_cleanup 7 \<lparr>res_region = True, res_chrdev = True, res_pages = 2, res_workqueue = True, res_irq = Some 7, res_enabled = True\<rparr> = no_res"
proof -
  have i: "shortp_init 888 (- 1) True (Inr 250) (\<lambda>i. if i < 0 then Inl EINVAL else Inr ()) =
      (Inr 0, 7, \<lparr>res_region = True, res_chrdev = True, res_pages = 2, res_workqueue = True, res_irq = Some 7, res_enabled = True\<rparr>)"
    by (simp add: shortp_init_def no_res_def default_irq_def)
  from shortp_init_all_or_nothing [OF i] i show ?thesis by simp
qed

end
