(* ===== verification/Snull.thy ===== *)
theory Snull
  imports Prelude
begin

text \<open>
  The network driver \<open>snull/snull.c\<close>: two interfaces, each of which delivers what the other one
  transmits.  Packets in flight use buffers of the sender's pool and wait in the receiver's queue;
  they are received either by an interrupt each or by polling; the kernel's transmit queue is
  stopped and woken with the pool.
\<close>

unbundle bit_operations_syntax

section \<open>State\<close>

abbreviation (input) ETH_ALEN :: nat where "ETH_ALEN \<equiv> 6"
abbreviation (input) ETH_HLEN :: nat where "ETH_HLEN \<equiv> 14"
abbreviation (input) ETH_ZLEN :: nat where "ETH_ZLEN \<equiv> 60"
abbreviation (input) ETH_DATA_LEN :: nat where "ETH_DATA_LEN \<equiv> 1500"
abbreviation (input) SNULL_RX_INTR :: "32 word" where "SNULL_RX_INTR \<equiv> 1"
abbreviation (input) SNULL_TX_INTR :: "32 word" where "SNULL_TX_INTR \<equiv> 2"

record snull_packet =
  pkt_dev :: nat
  datalen :: nat
  pkt_data :: "byte list"

text \<open>
  An interface: the driver's private part and what it uses of the kernel's.  The chains of packets
  that start at \<open>ppool\<close> and \<open>rx_queue\<close> are lists; \<open>skb\<close> is the number of a socket buffer.
\<close>

record snull_dev =
  rx_packets :: "64 word"
  rx_bytes :: "64 word"
  tx_packets :: "64 word"
  tx_bytes :: "64 word"
  rx_dropped :: "64 word"
  tx_errors :: "64 word"
  status :: "32 word"
  ppool :: "snull_packet list"
  rx_queue :: "snull_packet list"
  rx_int_enabled :: bool
  tx_packetlen :: nat
  skb :: "nat option"
  locked :: bool
  napi_scheduled :: bool
  napi_enabled :: bool
  queue_stopped :: bool
  dev_addr :: "byte list"
  mtu :: int
  dev_irq :: int
  base_addr :: nat
  is_up :: bool

text \<open>
  The two interfaces, the socket buffers of transmissions that are not freed, and what the upper
  layers were given, as pairs of the interface and the frame.
\<close>

record snull =
  devs :: "nat \<Rightarrow> snull_dev"
  live_skbs :: "nat list"
  delivered :: "(nat \<times> byte list) list"

definition upd :: "nat \<Rightarrow> (snull_dev \<Rightarrow> snull_dev) \<Rightarrow> snull \<Rightarrow> snull" where
  "upd n f s = s\<lparr>devs := (devs s)(n := f (devs s n))\<rparr>"

definition peer :: "nat \<Rightarrow> nat" where
  "peer n = (if n = 0 then 1 else 0)"

text \<open>The spin lock of an interface; to take it twice never ends.\<close>

definition spin_lock :: "nat \<Rightarrow> snull \<Rightarrow> snull option" where
  "spin_lock n s = (if locked (devs s n) then None else Some (upd n (\<lambda>d. d\<lparr>locked := True\<rparr>) s))"

definition spin_unlock :: "nat \<Rightarrow> snull \<Rightarrow> snull" where
  "spin_unlock n s = upd n (\<lambda>d. d\<lparr>locked := False\<rparr>) s"

text \<open>Freeing a socket buffer: NULL is allowed, a buffer that is free is not.\<close>

definition dev_kfree_skb :: "nat option \<Rightarrow> snull \<Rightarrow> snull option" where
  "dev_kfree_skb p s =
     (case p of
        None \<Rightarrow> Some s
      | Some i \<Rightarrow> if i \<in> set (live_skbs s) then Some (s\<lparr>live_skbs := remove1 i (live_skbs s)\<rparr>) else None)"

section \<open>The pool of packets\<close>

text \<open>\<open>mem i\<close> is the data array of the \<open>i\<close>-th packet, if there is memory for it.\<close>

fun setup_packets :: "nat \<Rightarrow> (nat \<Rightarrow> byte list option) \<Rightarrow> nat \<Rightarrow> nat \<Rightarrow> snull_packet list \<Rightarrow> snull_packet list" where
  "setup_packets n mem i 0 pool = pool"
| "setup_packets n mem i (Suc k) pool =
     (case mem i of
        None \<Rightarrow> pool
      | Some b \<Rightarrow> setup_packets n mem (i + 1) k (\<lparr>pkt_dev = n, datalen = 0, pkt_data = b\<rparr> # pool))"

definition snull_setup_pool :: "nat \<Rightarrow> (nat \<Rightarrow> byte list option) \<Rightarrow> nat \<Rightarrow> snull \<Rightarrow> snull" where
  "snull_setup_pool pool_size mem n s = upd n (\<lambda>d. d\<lparr>ppool := setup_packets n mem 0 pool_size []\<rparr>) s"

definition snull_teardown_pool :: "nat \<Rightarrow> snull \<Rightarrow> snull" where
  "snull_teardown_pool n s = upd n (\<lambda>d. d\<lparr>ppool := []\<rparr>) s"

definition snull_get_tx_buffer :: "nat \<Rightarrow> snull \<Rightarrow> (snull_packet option \<times> snull) option" where
  "snull_get_tx_buffer n s = do {
     s \<leftarrow> spin_lock n s;
     case ppool (devs s n) of
       [] \<Rightarrow> Some (None, s)
     | pkt # ps \<Rightarrow>
         let s = upd n (\<lambda>d. d\<lparr>ppool := ps\<rparr>) s;
             s = (if ps = [] then upd n (\<lambda>d. d\<lparr>queue_stopped := True\<rparr>) s else s)
         in Some (Some pkt, spin_unlock n s)
   }"

definition snull_release_buffer :: "snull_packet \<Rightarrow> snull \<Rightarrow> snull option" where
  "snull_release_buffer pkt s = do {
     let n = pkt_dev pkt;
     s \<leftarrow> spin_lock n s;
     let last = (ppool (devs s n) = []);
     let s = spin_unlock n (upd n (\<lambda>d. d\<lparr>ppool := pkt # ppool d\<rparr>) s);
     Some (if queue_stopped (devs s n) \<and> last then upd n (\<lambda>d. d\<lparr>queue_stopped := False\<rparr>) s else s)
   }"

definition snull_enqueue_buf :: "nat \<Rightarrow> snull_packet \<Rightarrow> snull \<Rightarrow> snull option" where
  "snull_enqueue_buf n pkt s = do {
     s \<leftarrow> spin_lock n s;
     Some (spin_unlock n (upd n (\<lambda>d. d\<lparr>rx_queue := pkt # rx_queue d\<rparr>) s))
   }"

definition snull_dequeue_buf :: "nat \<Rightarrow> snull \<Rightarrow> (snull_packet option \<times> snull) option" where
  "snull_dequeue_buf n s = do {
     s \<leftarrow> spin_lock n s;
     case rx_queue (devs s n) of
       [] \<Rightarrow> Some (None, spin_unlock n s)
     | pkt # ps \<Rightarrow> Some (Some pkt, spin_unlock n (upd n (\<lambda>d. d\<lparr>rx_queue := ps\<rparr>) s))
   }"

definition snull_rx_ints :: "nat \<Rightarrow> bool \<Rightarrow> snull \<Rightarrow> snull" where
  "snull_rx_ints n enable s = upd n (\<lambda>d. d\<lparr>rx_int_enabled := enable\<rparr>) s"

section \<open>Receiving\<close>

text \<open>\<open>mem\<close>: whether a socket buffer can be allocated for the packet.\<close>

definition snull_rx :: "bool \<Rightarrow> nat \<Rightarrow> snull_packet \<Rightarrow> snull \<Rightarrow> snull option" where
  "snull_rx mem n pkt s =
     (if \<not> mem then Some (upd n (\<lambda>d. d\<lparr>rx_dropped := rx_dropped d + 1\<rparr>) s)
      else do {
        data \<leftarrow> mem_read (pkt_data pkt) 0 (datalen pkt);
        Some ((upd n (\<lambda>d. d\<lparr>rx_packets := rx_packets d + 1, rx_bytes := rx_bytes d + of_nat (datalen pkt)\<rparr>) s)
          \<lparr>delivered := delivered s @ [(n, data)]\<rparr>)
      })"

text \<open>The loop of the poll function: \<open>mem k\<close> tells of the allocation for the \<open>k\<close>-th packet.\<close>

fun poll_loop :: "nat \<Rightarrow> (nat \<Rightarrow> bool) \<Rightarrow> nat \<Rightarrow> nat \<Rightarrow> snull \<Rightarrow> (nat \<times> snull) option" where
  "poll_loop n mem npackets 0 s = Some (npackets, s)"
| "poll_loop n mem npackets (Suc budget) s =
     (if rx_queue (devs s n) = [] then Some (npackets, s)
      else do {
        (pkt, s) \<leftarrow> snull_dequeue_buf n s;
        pkt \<leftarrow> pkt;
        s \<leftarrow> snull_rx (mem npackets) n pkt s;
        s \<leftarrow> snull_release_buffer pkt s;
        poll_loop n mem (npackets + 1) budget s
      })"

text \<open>\<open>complete\<close>: what \<open>napi_complete_done\<close> answers; with true the poll is no longer scheduled.\<close>

definition snull_poll :: "nat \<Rightarrow> (nat \<Rightarrow> bool) \<Rightarrow> bool \<Rightarrow> nat \<Rightarrow> snull \<Rightarrow> (nat \<times> snull) option" where
  "snull_poll n mem complete budget s = do {
     (npackets, s) \<leftarrow> poll_loop n mem 0 budget s;
     if npackets < budget then do {
       s \<leftarrow> spin_lock n s;
       let s = (if complete then snull_rx_ints n True (upd n (\<lambda>d. d\<lparr>napi_scheduled := False\<rparr>) s) else s);
       Some (npackets, spin_unlock n s)
     }
     else Some (npackets, s)
   }"

definition snull_regular_interrupt :: "bool \<Rightarrow> nat \<Rightarrow> snull \<Rightarrow> snull option" where
  "snull_regular_interrupt mem n s = do {
     s \<leftarrow> spin_lock n s;
     let statusword = status (devs s n);
     let s = upd n (\<lambda>d. d\<lparr>status := 0\<rparr>) s;
     (pkt, s) \<leftarrow> (if statusword AND SNULL_RX_INTR \<noteq> 0 then
                   case rx_queue (devs s n) of
                     [] \<Rightarrow> Some (None, s)
                   | p # ps \<Rightarrow> do {
                       s \<leftarrow> snull_rx mem n p (upd n (\<lambda>d. d\<lparr>rx_queue := ps\<rparr>) s);
                       Some (Some p, s)
                     }
                 else Some (None, s));
     s \<leftarrow> (if statusword AND SNULL_TX_INTR \<noteq> 0 then
             dev_kfree_skb (skb (devs s n))
               (upd n (\<lambda>d. d\<lparr>tx_packets := tx_packets d + 1, tx_bytes := tx_bytes d + of_nat (tx_packetlen d)\<rparr>) s)
           else Some s);
     let s = spin_unlock n s;
     case pkt of None \<Rightarrow> Some s | Some p \<Rightarrow> snull_release_buffer p s
   }"

definition snull_napi_interrupt :: "nat \<Rightarrow> snull \<Rightarrow> snull option" where
  "snull_napi_interrupt n s = do {
     s \<leftarrow> spin_lock n s;
     let statusword = status (devs s n);
     let s = upd n (\<lambda>d. d\<lparr>status := 0\<rparr>) s;
     let s = (if statusword AND SNULL_RX_INTR \<noteq> 0
              then upd n (\<lambda>d. d\<lparr>napi_scheduled := True\<rparr>) (snull_rx_ints n False s) else s);
     s \<leftarrow> (if statusword AND SNULL_TX_INTR \<noteq> 0 then do {
             let s = upd n (\<lambda>d. d\<lparr>tx_packets := tx_packets d + 1, tx_bytes := tx_bytes d + of_nat (tx_packetlen d)\<rparr>) s;
             s \<leftarrow> dev_kfree_skb (skb (devs s n)) s;
             Some (upd n (\<lambda>d. d\<lparr>skb := None\<rparr>) s)
           }
           else Some s);
     Some (spin_unlock n s)
   }"

definition snull_interrupt :: "bool \<Rightarrow> bool \<Rightarrow> nat \<Rightarrow> snull \<Rightarrow> snull option" where
  "snull_interrupt use_napi mem n s = (if use_napi then snull_napi_interrupt n s else snull_regular_interrupt mem n s)"

section \<open>Transmitting\<close>

text \<open>
  The rewriting of the frame: the third octets of both addresses of the IP header, and its
  checksum.  The kernel's checksum is a parameter; it is given the header and yields the two
  bytes in the order in which they are stored.
\<close>

type_synonym checksum = "byte list \<Rightarrow> byte \<times> byte"

definition rewrite_frame :: "checksum \<Rightarrow> byte list \<Rightarrow> byte list option" where
  "rewrite_frame csum buf = do {
     a \<leftarrow> mem_at buf 28;
     let buf = buf[28 := a XOR 1];
     b \<leftarrow> mem_at buf 32;
     let buf = buf[32 := b XOR 1, 24 := 0, 25 := 0];
     v \<leftarrow> mem_at buf 14;
     ih \<leftarrow> mem_read buf 14 (4 * unat (v AND 15));
     Some (buf[24 := fst (csum ih), 25 := snd (csum ih)])
   }"

definition snull_hw_tx :: "bool \<Rightarrow> 64 word \<Rightarrow> checksum \<Rightarrow> bool \<Rightarrow> byte list \<Rightarrow> nat \<Rightarrow> snull \<Rightarrow> snull option" where
  "snull_hw_tx use_napi lockup csum mem buf n s =
     (if length buf < 34 then Some s
      else do {
        buf \<leftarrow> rewrite_frame csum buf;
        let dest = peer n;
        (tx_buffer, s) \<leftarrow> snull_get_tx_buffer n s;
        case tx_buffer of
          None \<Rightarrow> Some s
        | Some pkt \<Rightarrow> do {
            b \<leftarrow> mem_write (pkt_data pkt) 0 buf;
            s \<leftarrow> snull_enqueue_buf dest (pkt\<lparr>datalen := length buf, pkt_data := b\<rparr>) s;
            s \<leftarrow> (if rx_int_enabled (devs s dest)
                 then snull_interrupt use_napi mem dest (upd dest (\<lambda>d. d\<lparr>status := status d OR SNULL_RX_INTR\<rparr>) s)
                 else Some s);
            let s = upd n (\<lambda>d. d\<lparr>tx_packetlen := length buf, status := status d OR SNULL_TX_INTR\<rparr>) s;
            if lockup \<noteq> 0 \<and> (tx_packets (devs s n) + 1) mod lockup = 0
            then Some (upd n (\<lambda>d. d\<lparr>queue_stopped := True\<rparr>) s)
            else snull_interrupt use_napi mem n s
          }
      })"

definition snull_tx :: "bool \<Rightarrow> 64 word \<Rightarrow> checksum \<Rightarrow> bool \<Rightarrow> nat \<Rightarrow> byte list \<Rightarrow> nat \<Rightarrow> snull \<Rightarrow> snull option" where
  "snull_tx use_napi lockup csum mem i data n s =
     (let buf = (if length data < ETH_ZLEN then data @ replicate (ETH_ZLEN - length data) 0 else data)
      in snull_hw_tx use_napi lockup csum mem buf n (upd n (\<lambda>d. d\<lparr>skb := Some i\<rparr>) s))"

definition snull_tx_timeout ::
  "bool \<Rightarrow> bool \<Rightarrow> nat \<Rightarrow> (nat \<Rightarrow> byte list option) \<Rightarrow> nat \<Rightarrow> snull \<Rightarrow> snull option" where
  "snull_tx_timeout use_napi mem pool_size blocks n s = do {
     s \<leftarrow> snull_interrupt use_napi mem n (upd n (\<lambda>d. d\<lparr>status := status d OR SNULL_TX_INTR\<rparr>) s);
     let s = upd n (\<lambda>d. d\<lparr>tx_errors := tx_errors d + 1\<rparr>) s;
     s \<leftarrow> spin_lock n s;
     let s = spin_unlock n (snull_setup_pool pool_size blocks n (snull_teardown_pool n s));
     Some (upd n (\<lambda>d. d\<lparr>queue_stopped := False\<rparr>) s)
   }"

section \<open>Configuration\<close>

definition snull_open :: "bool \<Rightarrow> nat \<Rightarrow> snull \<Rightarrow> int ret \<times> snull" where
  "snull_open use_napi n s =
     (let mac = [0, 83, 78, 85, 76, 48];
          mac = (if n = 1 then mac[ETH_ALEN - 1 := mac ! (ETH_ALEN - 1) + 1] else mac);
          s = upd n (\<lambda>d. d\<lparr>dev_addr := mac\<rparr>) s;
          s = (if use_napi then upd n (\<lambda>d. d\<lparr>napi_enabled := True\<rparr>) s else s)
      in (Inr 0, upd n (\<lambda>d. d\<lparr>queue_stopped := False\<rparr>) s))"

definition snull_release :: "bool \<Rightarrow> nat \<Rightarrow> snull \<Rightarrow> int ret \<times> snull" where
  "snull_release use_napi n s =
     (let s = upd n (\<lambda>d. d\<lparr>queue_stopped := True\<rparr>) s
      in (Inr 0, if use_napi then upd n (\<lambda>d. d\<lparr>napi_enabled := False\<rparr>) s else s))"

definition snull_config :: "nat \<Rightarrow> nat \<Rightarrow> int \<Rightarrow> snull \<Rightarrow> int ret \<times> snull" where
  "snull_config n map_base map_irq s =
     (if is_up (devs s n) then (Inl EBUSY, s)
      else if map_base \<noteq> base_addr (devs s n) then (Inl EOPNOTSUPP, s)
      else (Inr 0, upd n (\<lambda>d. d\<lparr>dev_irq := map_irq\<rparr>) s))"

definition snull_change_mtu :: "nat \<Rightarrow> int \<Rightarrow> snull \<Rightarrow> (int ret \<times> snull) option" where
  "snull_change_mtu n new_mtu s =
     (if new_mtu < 68 \<or> 1500 < new_mtu then Some (Inl EINVAL, s)
      else do {
        s \<leftarrow> spin_lock n s;
        Some (Inr 0, spin_unlock n (upd n (\<lambda>d. d\<lparr>mtu := new_mtu\<rparr>) s))
      })"

text \<open>The last bit of the destination tells the two interfaces apart.\<close>

definition flip_last :: "byte list \<Rightarrow> byte list" where
  "flip_last mac = mac[ETH_ALEN - 1 := (mac ! (ETH_ALEN - 1)) XOR 1]"

definition snull_header :: "16 word \<Rightarrow> byte list option \<Rightarrow> byte list option \<Rightarrow> byte list \<Rightarrow> snull_dev \<Rightarrow> nat \<times> byte list" where
  "snull_header type daddr saddr data d =
     (let src = (case saddr of Some a \<Rightarrow> a | None \<Rightarrow> dev_addr d);
          dest = flip_last (case daddr of Some a \<Rightarrow> a | None \<Rightarrow> dev_addr d)
      in (ETH_HLEN, dest @ src @ [ucast (drop_bit 8 type), ucast type] @ data))"

definition snull_rebuild_header :: "byte list \<Rightarrow> snull_dev \<Rightarrow> byte list" where
  "snull_rebuild_header frame d = flip_last (dev_addr d) @ dev_addr d @ drop (2 * ETH_ALEN) frame"

section \<open>Initialisation\<close>

definition zero_net_dev :: snull_dev where
  "zero_net_dev = \<lparr>rx_packets = 0, rx_bytes = 0, tx_packets = 0, tx_bytes = 0, rx_dropped = 0, tx_errors = 0, status = 0,
     ppool = [], rx_queue = [], rx_int_enabled = False, tx_packetlen = 0, skb = None, locked = False,
     napi_scheduled = False, napi_enabled = False, queue_stopped = False, dev_addr = replicate ETH_ALEN 0, mtu = 1500,
     dev_irq = 0, base_addr = 0, is_up = False\<rparr>"

definition snull_init :: "nat \<Rightarrow> (nat \<Rightarrow> byte list option) \<Rightarrow> nat \<Rightarrow> snull \<Rightarrow> snull" where
  "snull_init pool_size mem n s =
     snull_setup_pool pool_size mem n (snull_rx_ints n True (upd n (\<lambda>_. zero_net_dev) s))"

text \<open>
  The module: which of the two interfaces could be allocated and registered; the results are the
  value and which of them are left.  Cleanup leaves none.
\<close>

definition snull_cleanup :: "bool list \<Rightarrow> bool list" where
  "snull_cleanup present = map (\<lambda>_. False) present"

definition snull_init_module :: "bool list \<Rightarrow> bool list \<Rightarrow> int ret \<times> bool list" where
  "snull_init_module allocated registered =
     (if False \<in> set allocated then (Inl ENOMEM, snull_cleanup allocated)
      else if True \<in> set registered then (Inr 0, allocated)
      else (Inl ENODEV, snull_cleanup allocated))"

section \<open>Reading and updating the state\<close>

lemma upd_simps [simp]:
  "devs (upd n f s) m = (if m = n then f (devs s m) else devs s m)"
  "live_skbs (upd n f s) = live_skbs s" "delivered (upd n f s) = delivered s"
  "upd n f (s\<lparr>live_skbs := l\<rparr>) = (upd n f s)\<lparr>live_skbs := l\<rparr>"
  by (simp_all add: upd_def)

lemma peer_simps [simp]: "peer n \<noteq> n" "n \<noteq> peer n" "n < 2 \<Longrightarrow> peer (peer n) = n" "peer n < 2"
  by (auto simp: peer_def)

named_theorems net_simps \<open>unfolding of the operations of the network driver\<close>

declare spin_lock_def [net_simps] spin_unlock_def [net_simps] snull_get_tx_buffer_def [net_simps]
  snull_enqueue_buf_def [net_simps] snull_dequeue_buf_def [net_simps] snull_release_buffer_def [net_simps]
  snull_rx_ints_def [net_simps] snull_interrupt_def [net_simps] snull_napi_interrupt_def [net_simps]
  dev_kfree_skb_def [net_simps] Let_def [net_simps]

section \<open>Frames\<close>

definition pad :: "byte list \<Rightarrow> byte list" where
  "pad data = (if length data < ETH_ZLEN then data @ replicate (ETH_ZLEN - length data) 0 else data)"

definition frame_ok :: "byte list \<Rightarrow> bool" where
  "frame_ok data \<longleftrightarrow> length data \<le> ETH_DATA_LEN \<and> 14 + 4 * unat (pad data ! 14 AND 15) \<le> length (pad data)"

lemma length_pad: "length (pad data) = max ETH_ZLEN (length data)"
  by (simp add: pad_def)

lemma rewrite_frame_some:
  assumes "34 \<le> length buf" "14 + 4 * unat (buf ! 14 AND 15) \<le> length buf"
  shows "\<exists>lo hi. rewrite_frame csum buf = Some (buf[28 := buf ! 28 XOR 1, 32 := buf ! 32 XOR 1, 24 := lo, 25 := hi]) \<and>
    (lo, hi) = csum (take (4 * unat (buf ! 14 AND 15)) (drop 14 (buf[28 := buf ! 28 XOR 1, 32 := buf ! 32 XOR 1, 24 := 0, 25 := 0])))"
proof -
  let ?b = "buf[28 := buf ! 28 XOR 1, 32 := buf ! 32 XOR 1, 24 := 0, 25 := 0]"
  let ?c = "csum (take (4 * unat (buf ! 14 AND 15)) (drop 14 ?b))"
  have "mem_at buf 28 = Some (buf ! 28)" "mem_at (buf[28 := buf ! 28 XOR 1]) 32 = Some (buf ! 32)" "mem_at ?b 14 = Some (buf ! 14)"
    "mem_read ?b 14 (4 * unat (buf ! 14 AND 15)) = Some (take (4 * unat (buf ! 14 AND 15)) (drop 14 ?b))"
    using assms by (simp_all add: mem_at_def mem_read_def)
  moreover have "?b[24 := fst ?c, 25 := snd ?c] = buf[28 := buf ! 28 XOR 1, 32 := buf ! 32 XOR 1, 24 := fst ?c, 25 := snd ?c]"
    by (simp add: list_update_swap [of 25 24])
  ultimately show ?thesis
    by (intro exI [of _ "fst ?c"] exI [of _ "snd ?c"]) (simp add: rewrite_frame_def Let_def)
qed

lemma rewrite_length: "rewrite_frame csum buf = Some b \<Longrightarrow> length b = length buf"
  by (auto simp: rewrite_frame_def Let_def bind_eq_Some_conv)

definition sent_frame :: "checksum \<Rightarrow> byte list \<Rightarrow> byte list" where
  "sent_frame csum data = (case rewrite_frame csum (pad data) of Some b \<Rightarrow> b | None \<Rightarrow> [])"

lemma frame_ok_rewrite:
  assumes "frame_ok data"
  shows "rewrite_frame csum (pad data) = Some (sent_frame csum data)" "length (sent_frame csum data) = length (pad data)"
    "34 \<le> length (pad data)" "length (pad data) \<le> ETH_DATA_LEN"
proof -
  show l: "34 \<le> length (pad data)" "length (pad data) \<le> ETH_DATA_LEN"
    using assms by (auto simp: length_pad frame_ok_def)
  from rewrite_frame_some [OF l(1), of csum] assms show r: "rewrite_frame csum (pad data) = Some (sent_frame csum data)"
    by (auto simp: frame_ok_def sent_frame_def)
  show "length (sent_frame csum data) = length (pad data)" using rewrite_length [OF r] .
qed

section \<open>Flow control\<close>

text \<open>
  The invariant of an interface that is polled: its lock is free; the packets of its pool and those
  in the peer's queue are its own, and as many as there were at first; the transmit queue is
  stopped exactly while the pool is empty; and whatever waits in its own queue will be polled.
\<close>

definition packet_ok :: "nat \<Rightarrow> snull_packet \<Rightarrow> bool" where
  "packet_ok n p \<longleftrightarrow> pkt_dev p = n \<and> length (pkt_data p) = ETH_DATA_LEN \<and> datalen p \<le> ETH_DATA_LEN"

definition dev_ok :: "nat \<Rightarrow> snull \<Rightarrow> nat \<Rightarrow> bool" where
  "dev_ok psize s n \<longleftrightarrow>
     (let d = devs s n; e = devs s (peer n) in
      \<not> locked d \<and> status d = 0 \<and> length (ppool d) + length (rx_queue e) = psize \<and>
      (\<forall>p \<in> set (ppool d) \<union> set (rx_queue e). packet_ok n p) \<and>
      (queue_stopped d \<longleftrightarrow> ppool d = []) \<and> (rx_queue d \<noteq> [] \<longrightarrow> napi_scheduled d) \<and>
      (rx_int_enabled d \<longleftrightarrow> \<not> napi_scheduled d))"

definition net_ok :: "nat \<Rightarrow> snull \<Rightarrow> bool" where
  "net_ok psize s \<longleftrightarrow> 0 < psize \<and> (\<forall>n < 2. dev_ok psize s n)"

lemma net_okD:
  assumes "net_ok psize s" "n < 2"
  shows "dev_ok psize s n" "dev_ok psize s (peer n)" "0 < psize"
  using assms by (simp_all add: net_ok_def)

lemma net_okI:
  assumes "n < 2" "dev_ok psize s n" "dev_ok psize s (peer n)" "0 < psize"
  shows "net_ok psize s"
proof -
  have "m = n \<or> m = peer n" if "m < 2" for m using that assms(1) by (auto simp: peer_def)
  with assms show ?thesis by (auto simp: net_ok_def)
qed

text \<open>A transmission.\<close>

lemma tx_ok:
  assumes ok: "net_ok psize s" and n: "n < 2" and run: "\<not> queue_stopped (devs s n)" and f: "frame_ok data" and i: "i \<notin> set (live_skbs s)"
  shows "\<exists>s'. snull_tx True 0 csum mem i data n (s\<lparr>live_skbs := i # live_skbs s\<rparr>) = Some s' \<and> net_ok psize s' \<and>
    live_skbs s' = live_skbs s \<and> delivered s' = delivered s \<and> rx_queue (devs s' n) = rx_queue (devs s n) \<and>
    (\<exists>p. rx_queue (devs s' (peer n)) = p # rx_queue (devs s (peer n)) \<and>
      take (datalen p) (pkt_data p) = sent_frame csum data \<and> datalen p = length (pad data)) \<and>
    rx_packets (devs s' (peer n)) = rx_packets (devs s (peer n)) \<and> length (ppool (devs s' n)) + 1 = length (ppool (devs s n)) \<and>
    ppool (devs s' (peer n)) = ppool (devs s (peer n))"
proof -
  let ?d = "devs s n" and ?e = "devs s (peer n)"
  note o = net_okD [OF ok n]
  have d: "\<not> locked ?d" "status ?d = 0" "length (ppool ?d) + length (rx_queue ?e) = psize"
    "\<forall>p \<in> set (ppool ?d) \<union> set (rx_queue ?e). packet_ok n p"
    "queue_stopped ?d \<longleftrightarrow> ppool ?d = []" "rx_queue ?d \<noteq> [] \<longrightarrow> napi_scheduled ?d" "rx_int_enabled ?d \<longleftrightarrow> \<not> napi_scheduled ?d"
    using o(1) by (simp_all add: dev_ok_def Let_def)
  have e: "\<not> locked ?e" "status ?e = 0" "length (ppool ?e) + length (rx_queue ?d) = psize"
    "\<forall>p \<in> set (ppool ?e) \<union> set (rx_queue ?d). packet_ok (peer n) p"
    "queue_stopped ?e \<longleftrightarrow> ppool ?e = []" "rx_queue ?e \<noteq> [] \<longrightarrow> napi_scheduled ?e" "rx_int_enabled ?e \<longleftrightarrow> \<not> napi_scheduled ?e"
    using o(2) n by (simp_all add: dev_ok_def Let_def)
  from d(5) run obtain pkt ps where p: "ppool ?d = pkt # ps" by (cases "ppool ?d") auto
  have pk: "packet_ok n pkt" "\<forall>p \<in> set ps. packet_ok n p" using d(4) p by simp_all
  note r = frame_ok_rewrite(1,2) [OF f, of csum] frame_ok_rewrite(3,4) [OF f]
  let ?b = "sent_frame csum data @ drop (length (pad data)) (pkt_data pkt)"
  have w: "mem_write (pkt_data pkt) 0 (sent_frame csum data) = Some ?b"
    using pk(1) r(2,4) by (simp add: mem_write_def packet_ok_def)
  let ?p = "pkt\<lparr>datalen := length (pad data), pkt_data := ?b\<rparr>"
  have np: "packet_ok n ?p" using pk(1) r(2,4) by (simp add: packet_ok_def)
  have rm: "remove1 i (i # live_skbs s) = live_skbs s" by simp
  have "\<exists>s'. snull_tx True 0 csum mem i data n (s\<lparr>live_skbs := i # live_skbs s\<rparr>) = Some s' \<and>
    live_skbs s' = live_skbs s \<and> delivered s' = delivered s \<and>
    (\<exists>d'. devs s' n = d' \<and> \<not> locked d' \<and> status d' = 0 \<and> ppool d' = ps \<and> rx_queue d' = rx_queue ?d \<and>
      queue_stopped d' = (ps = []) \<and> napi_scheduled d' = napi_scheduled ?d \<and> rx_int_enabled d' = rx_int_enabled ?d) \<and>
    (\<exists>e'. devs s' (peer n) = e' \<and> \<not> locked e' \<and> status e' = 0 \<and> ppool e' = ppool ?e \<and> rx_queue e' = ?p # rx_queue ?e \<and>
      queue_stopped e' = queue_stopped ?e \<and> napi_scheduled e' \<and> \<not> rx_int_enabled e' \<and> rx_packets e' = rx_packets ?e)"
    using d(1,2,5) e(1,2,7) p r(1-3) w run
    unfolding snull_tx_def snull_hw_tx_def pad_def [symmetric] Let_def
    by (cases "rx_int_enabled ?e") (auto simp: net_simps)
  then obtain s' where s': "snull_tx True 0 csum mem i data n (s\<lparr>live_skbs := i # live_skbs s\<rparr>) = Some s'"
    "live_skbs s' = live_skbs s" "delivered s' = delivered s"
    "\<not> locked (devs s' n)" "status (devs s' n) = 0" "ppool (devs s' n) = ps" "rx_queue (devs s' n) = rx_queue ?d"
    "queue_stopped (devs s' n) = (ps = [])" "napi_scheduled (devs s' n) = napi_scheduled ?d" "rx_int_enabled (devs s' n) = rx_int_enabled ?d"
    "\<not> locked (devs s' (peer n))" "status (devs s' (peer n)) = 0" "ppool (devs s' (peer n)) = ppool ?e"
    "rx_queue (devs s' (peer n)) = ?p # rx_queue ?e" "queue_stopped (devs s' (peer n)) = queue_stopped ?e"
    "napi_scheduled (devs s' (peer n))" "\<not> rx_int_enabled (devs s' (peer n))" "rx_packets (devs s' (peer n)) = rx_packets ?e" by blast
  have "dev_ok psize s' n"
    using s'(4-10,14) d(3,4,6,7) p np pk(2) by (simp add: dev_ok_def Let_def)
  moreover have "dev_ok psize s' (peer n)"
    using s'(7,11-17) e(3-5) n by (simp add: dev_ok_def Let_def)
  ultimately have "net_ok psize s'" using n o(3) by (intro net_okI)
  moreover have "take (datalen ?p) (pkt_data ?p) = sent_frame csum data" using r(2) by simp
  ultimately show ?thesis using s' p by auto
qed

text \<open>The reception of one packet by polling.\<close>

lemma poll_one:
  assumes ok: "net_ok psize s" and n: "n < 2" and q: "rx_queue (devs s n) = p # ps"
  shows "\<exists>s1 s2 s3. snull_dequeue_buf n s = Some (Some p, s1) \<and> snull_rx mem n p s1 = Some s2 \<and> snull_release_buffer p s2 = Some s3 \<and>
    net_ok psize s3 \<and> live_skbs s3 = live_skbs s \<and>
    delivered s3 = delivered s @ (if mem then [(n, take (datalen p) (pkt_data p))] else []) \<and>
    rx_queue (devs s3 n) = ps \<and> rx_queue (devs s3 (peer n)) = rx_queue (devs s (peer n)) \<and>
    \<not> queue_stopped (devs s3 (peer n)) \<and> length (ppool (devs s3 (peer n))) = length (ppool (devs s (peer n))) + 1 \<and>
    ppool (devs s3 n) = ppool (devs s n) \<and>
    napi_scheduled (devs s3 n) = napi_scheduled (devs s n) \<and> rx_packets (devs s3 n) = rx_packets (devs s n) + (if mem then 1 else 0)"
proof -
  let ?d = "devs s n" and ?e = "devs s (peer n)"
  note o = net_okD [OF ok n]
  have d: "\<not> locked ?d" "status ?d = 0" "length (ppool ?d) + length (rx_queue ?e) = psize"
    "\<forall>p \<in> set (ppool ?d) \<union> set (rx_queue ?e). packet_ok n p"
    "queue_stopped ?d \<longleftrightarrow> ppool ?d = []" "napi_scheduled ?d" "\<not> rx_int_enabled ?d"
    using o(1) q by (simp_all add: dev_ok_def Let_def)
  have e: "\<not> locked ?e" "status ?e = 0" "length (ppool ?e) + length (rx_queue ?d) = psize"
    "\<forall>p \<in> set (ppool ?e) \<union> set (rx_queue ?d). packet_ok (peer n) p"
    "queue_stopped ?e \<longleftrightarrow> ppool ?e = []" "rx_queue ?e \<noteq> [] \<longrightarrow> napi_scheduled ?e" "rx_int_enabled ?e \<longleftrightarrow> \<not> napi_scheduled ?e"
    using o(2) n by (simp_all add: dev_ok_def Let_def)
  have p: "pkt_dev p = peer n" "length (pkt_data p) = ETH_DATA_LEN" "datalen p \<le> ETH_DATA_LEN"
    using e(4) q by (simp_all add: packet_ok_def)
  have r: "mem_read (pkt_data p) 0 (datalen p) = Some (take (datalen p) (pkt_data p))" using p(2,3) by (simp add: mem_read_def)
  have "\<exists>s1 s2 s3. snull_dequeue_buf n s = Some (Some p, s1) \<and> snull_rx mem n p s1 = Some s2 \<and> snull_release_buffer p s2 = Some s3 \<and>
    live_skbs s3 = live_skbs s \<and> delivered s3 = delivered s @ (if mem then [(n, take (datalen p) (pkt_data p))] else []) \<and>
    (\<exists>d'. devs s3 n = d' \<and> \<not> locked d' \<and> status d' = 0 \<and> ppool d' = ppool ?d \<and> rx_queue d' = ps \<and>
      queue_stopped d' = queue_stopped ?d \<and> napi_scheduled d' \<and> \<not> rx_int_enabled d' \<and> rx_packets d' = rx_packets ?d + (if mem then 1 else 0)) \<and>
    (\<exists>e'. devs s3 (peer n) = e' \<and> \<not> locked e' \<and> status e' = 0 \<and> ppool e' = p # ppool ?e \<and> rx_queue e' = rx_queue ?e \<and>
      \<not> queue_stopped e' \<and> napi_scheduled e' = napi_scheduled ?e \<and> rx_int_enabled e' = rx_int_enabled ?e)"
    using d(1,2,6,7) e(1,2,5) p(1) q r by (cases mem) (auto simp: net_simps snull_rx_def)
  then obtain s1 s2 s3 where s: "snull_dequeue_buf n s = Some (Some p, s1)" "snull_rx mem n p s1 = Some s2" "snull_release_buffer p s2 = Some s3"
    "live_skbs s3 = live_skbs s" "delivered s3 = delivered s @ (if mem then [(n, take (datalen p) (pkt_data p))] else [])"
    "\<not> locked (devs s3 n)" "status (devs s3 n) = 0" "ppool (devs s3 n) = ppool ?d" "rx_queue (devs s3 n) = ps"
    "queue_stopped (devs s3 n) = queue_stopped ?d" "napi_scheduled (devs s3 n)" "\<not> rx_int_enabled (devs s3 n)"
    "rx_packets (devs s3 n) = rx_packets ?d + (if mem then 1 else 0)"
    "\<not> locked (devs s3 (peer n))" "status (devs s3 (peer n)) = 0" "ppool (devs s3 (peer n)) = p # ppool ?e"
    "rx_queue (devs s3 (peer n)) = rx_queue ?e" "\<not> queue_stopped (devs s3 (peer n))"
    "napi_scheduled (devs s3 (peer n)) = napi_scheduled ?e" "rx_int_enabled (devs s3 (peer n)) = rx_int_enabled ?e" by blast
  have "dev_ok psize s3 n" using s(6-12,17) d(3-5) by (simp add: dev_ok_def Let_def)
  moreover have "dev_ok psize s3 (peer n)"
    using s(9,14-20) e(3,4,6,7) q n by (simp add: dev_ok_def Let_def)
  ultimately have "net_ok psize s3" using n o(3) by (intro net_okI)
  with s d(6) show ?thesis by auto
qed

text \<open>What a poll delivers of the packets it takes, the first of them with number \<open>k\<close>.\<close>

fun received :: "nat \<Rightarrow> (nat \<Rightarrow> bool) \<Rightarrow> nat \<Rightarrow> snull_packet list \<Rightarrow> (nat \<times> byte list) list" where
  "received n mem k [] = []"
| "received n mem k (p # ps) = (if mem k then [(n, take (datalen p) (pkt_data p))] else []) @ received n mem (k + 1) ps"

lemma poll_loop_ok:
  assumes "net_ok psize s" "n < 2"
  shows "\<exists>s'. poll_loop n mem k budget s = Some (k + min budget (length (rx_queue (devs s n))), s') \<and>
    net_ok psize s' \<and> live_skbs s' = live_skbs s \<and>
    delivered s' = delivered s @ received n mem k (take budget (rx_queue (devs s n))) \<and>
    rx_queue (devs s' n) = drop budget (rx_queue (devs s n)) \<and> rx_queue (devs s' (peer n)) = rx_queue (devs s (peer n)) \<and>
    (0 < budget \<longrightarrow> rx_queue (devs s n) \<noteq> [] \<longrightarrow> \<not> queue_stopped (devs s' (peer n))) \<and>
    ppool (devs s' n) = ppool (devs s n) \<and>
    (\<not> queue_stopped (devs s (peer n)) \<longrightarrow> \<not> queue_stopped (devs s' (peer n)))"
  using assms(1)
proof (induction budget arbitrary: k s)
  case 0
  then show ?case by simp
next
  case (Suc budget)
  show ?case
  proof (cases "rx_queue (devs s n)")
    case Nil
    with Suc.prems show ?thesis by simp
  next
    case (Cons p ps)
    from poll_one [OF Suc.prems assms(2) Cons, of "mem k"] obtain s1 s2 s3 where
      s: "snull_dequeue_buf n s = Some (Some p, s1)" "snull_rx (mem k) n p s1 = Some s2" "snull_release_buffer p s2 = Some s3"
        "net_ok psize s3" "live_skbs s3 = live_skbs s" "delivered s3 = delivered s @ (if mem k then [(n, take (datalen p) (pkt_data p))] else [])"
        "rx_queue (devs s3 n) = ps" "rx_queue (devs s3 (peer n)) = rx_queue (devs s (peer n))" "\<not> queue_stopped (devs s3 (peer n))"
        "ppool (devs s3 n) = ppool (devs s n)"
      by blast
    have e: "poll_loop n mem k (Suc budget) s = poll_loop n mem (k + 1) budget s3"
      using s(1-3) Cons by simp
    from Suc.IH [OF s(4), of "k + 1"] obtain s' where
      i: "poll_loop n mem (k + 1) budget s3 = Some (k + 1 + min budget (length ps), s')" "net_ok psize s'" "live_skbs s' = live_skbs s3"
        "delivered s' = delivered s3 @ received n mem (k + 1) (take budget ps)" "rx_queue (devs s' n) = drop budget ps"
        "rx_queue (devs s' (peer n)) = rx_queue (devs s3 (peer n))" "\<not> queue_stopped (devs s' (peer n))" "ppool (devs s' n) = ppool (devs s3 n)"
      using s(7,9) by auto
    show ?thesis unfolding e using i s(5,6,8,10) Cons by (intro exI [of _ s']) simp
  qed
qed

lemma poll_ok:
  assumes ok: "net_ok psize s" and n: "n < 2"
  shows "\<exists>s'. snull_poll n mem complete budget s = Some (min budget (length (rx_queue (devs s n))), s') \<and>
    net_ok psize s' \<and> live_skbs s' = live_skbs s \<and>
    delivered s' = delivered s @ received n mem 0 (take budget (rx_queue (devs s n))) \<and>
    rx_queue (devs s' n) = drop budget (rx_queue (devs s n)) \<and> rx_queue (devs s' (peer n)) = rx_queue (devs s (peer n)) \<and>
    (0 < budget \<longrightarrow> rx_queue (devs s n) \<noteq> [] \<longrightarrow> \<not> queue_stopped (devs s' (peer n)))"
proof -
  let ?q = "rx_queue (devs s n)" and ?k = "min budget (length (rx_queue (devs s n)))"
  from poll_loop_ok [OF assms, of mem 0 budget] obtain s1 where
    l: "poll_loop n mem 0 budget s = Some (?k, s1)" "net_ok psize s1" "live_skbs s1 = live_skbs s"
      "delivered s1 = delivered s @ received n mem 0 (take budget ?q)" "rx_queue (devs s1 n) = drop budget ?q"
      "rx_queue (devs s1 (peer n)) = rx_queue (devs s (peer n))" "0 < budget \<longrightarrow> ?q \<noteq> [] \<longrightarrow> \<not> queue_stopped (devs s1 (peer n))"
    by auto
  show ?thesis
  proof (cases "?k < budget")
    case False
    then have "snull_poll n mem complete budget s = Some (?k, s1)" using l(1) by (simp add: snull_poll_def)
    with l show ?thesis by blast
  next
    case True
    then have e: "rx_queue (devs s1 n) = []" using l(5) by simp
    note o = net_okD [OF l(2) n]
    define s2 where "s2 = (if complete then upd n (\<lambda>d. d\<lparr>napi_scheduled := False, rx_int_enabled := True, locked := False\<rparr>) s1
      else upd n (\<lambda>d. d\<lparr>locked := False\<rparr>) s1)"
    have "snull_poll n mem complete budget s = Some (?k, s2)"
      using l(1) True o(1) by (cases complete) (auto simp: snull_poll_def net_simps s2_def dev_ok_def upd_def)
    moreover have "dev_ok psize s2 n" "dev_ok psize s2 (peer n)" using o(1,2) e n
      by (auto simp: s2_def dev_ok_def Let_def split: if_splits)
    then have "net_ok psize s2" using n o(3) by (intro net_okI)
    moreover have "live_skbs s2 = live_skbs s1" "delivered s2 = delivered s1" "rx_queue (devs s2 n) = rx_queue (devs s1 n)"
      "rx_queue (devs s2 (peer n)) = rx_queue (devs s1 (peer n))" "queue_stopped (devs s2 (peer n)) = queue_stopped (devs s1 (peer n))"
      by (simp_all add: s2_def)
    ultimately show ?thesis using l(3-7) by (intro exI [of _ s2]) simp
  qed
qed

section \<open>The interfaces at work\<close>

inductive snull_step :: "checksum \<Rightarrow> snull \<Rightarrow> snull \<Rightarrow> bool" for csum where
  transmit: "n < 2 \<Longrightarrow> \<not> queue_stopped (devs s n) \<Longrightarrow> frame_ok data \<Longrightarrow> i \<notin> set (live_skbs s) \<Longrightarrow>
    snull_tx True 0 csum mem i data n (s\<lparr>live_skbs := i # live_skbs s\<rparr>) = Some s' \<Longrightarrow> snull_step csum s s'"
| poll: "n < 2 \<Longrightarrow> napi_scheduled (devs s n) \<Longrightarrow> snull_poll n mem complete budget s = Some (k, s') \<Longrightarrow> snull_step csum s s'"

lemma step_ok: "snull_step csum s s' \<Longrightarrow> net_ok psize s \<Longrightarrow> net_ok psize s' \<and> live_skbs s' = live_skbs s"
proof (induction rule: snull_step.induct)
  case (transmit n s data i mem s')
  from tx_ok [OF transmit.prems transmit.hyps(1-4), of csum mem] transmit.hyps(5) show ?case by auto
next
  case (poll n s mem complete budget k s')
  from poll_ok [OF poll.prems poll.hyps(1), of mem complete budget] poll.hyps(3) show ?case by auto
qed

lemma reach_ok: "(snull_step csum)\<^sup>*\<^sup>* s s' \<Longrightarrow> net_ok psize s \<Longrightarrow> net_ok psize s' \<and> live_skbs s' = live_skbs s"
  by (induction rule: rtranclp_induct) (auto dest: step_ok)

text \<open>The two interfaces after initialisation and opening, with memory for all packets.\<close>

definition blank_net :: snull where
  "blank_net = \<lparr>devs = (\<lambda>_. zero_net_dev), live_skbs = [], delivered = []\<rparr>"

definition started_net :: "nat \<Rightarrow> snull" where
  "started_net pool_size =
     snd (snull_open True 1 (snd (snull_open True 0
       (snull_init pool_size (\<lambda>_. Some (replicate ETH_DATA_LEN 0)) 1
         (snull_init pool_size (\<lambda>_. Some (replicate ETH_DATA_LEN 0)) 0 blank_net)))))"

lemma setup_packets_all:
  "setup_packets n (\<lambda>_. Some b) i k pool = replicate k \<lparr>pkt_dev = n, datalen = 0, pkt_data = b\<rparr> @ pool"
  by (induction k arbitrary: i pool) (simp_all add: replicate_append_same)

lemma started_ok:
  assumes "0 < psize"
  shows "net_ok psize (started_net psize)" "live_skbs (started_net psize) = []" "delivered (started_net psize) = []"
    "\<not> queue_stopped (devs (started_net psize) n)" "rx_queue (devs (started_net psize) n) = []"
proof -
  have two: "m = 0 \<or> m = 1" if "m < 2" for m :: nat using that by auto
  show "net_ok psize (started_net psize)"
    using assms by (auto dest!: two simp: net_ok_def dev_ok_def started_net_def snull_open_def snull_init_def snull_setup_pool_def
      net_simps setup_packets_all zero_net_dev_def peer_def packet_ok_def)
qed (simp_all add: started_net_def snull_open_def snull_init_def snull_setup_pool_def net_simps zero_net_dev_def blank_net_def)

text \<open>Transmissions of an interface one after the other, without a reception in between.\<close>

fun transmit_all :: "bool \<Rightarrow> checksum \<Rightarrow> nat \<Rightarrow> byte list list \<Rightarrow> snull \<Rightarrow> snull option" where
  "transmit_all use_napi csum n [] s = Some s"
| "transmit_all use_napi csum n (d # ds) s = do {
     s \<leftarrow> snull_tx use_napi 0 csum True 0 d n (s\<lparr>live_skbs := 0 # live_skbs s\<rparr>);
     transmit_all use_napi csum n ds s
   }"

lemma transmit_all_polled:
  assumes "net_ok psize s" "n < 2" "live_skbs s = []" "\<forall>d \<in> set ds. frame_ok d" "length ds \<le> length (ppool (devs s n))"
  shows "\<exists>s' ps. transmit_all True csum n ds s = Some s' \<and> net_ok psize s' \<and> live_skbs s' = [] \<and> delivered s' = delivered s \<and>
    rx_queue (devs s' (peer n)) = ps @ rx_queue (devs s (peer n)) \<and>
    map (\<lambda>p. take (datalen p) (pkt_data p)) ps = map (sent_frame csum) (rev ds)"
  using assms
proof (induction ds arbitrary: s)
  case Nil
  then show ?case by simp
next
  case (Cons d ds)
  have "\<not> queue_stopped (devs s n)" "0 \<notin> set (live_skbs s)"
    using Cons.prems net_okD(1) [OF Cons.prems(1,2)] by (auto simp: dev_ok_def Let_def)
  from tx_ok [OF Cons.prems(1,2) this(1) _ this(2), of d csum True] Cons.prems(4) obtain s1 p where
    t: "snull_tx True 0 csum True 0 d n (s\<lparr>live_skbs := 0 # live_skbs s\<rparr>) = Some s1" "net_ok psize s1"
      "live_skbs s1 = live_skbs s" "delivered s1 = delivered s" "rx_queue (devs s1 (peer n)) = p # rx_queue (devs s (peer n))"
      "take (datalen p) (pkt_data p) = sent_frame csum d" "length (ppool (devs s1 n)) + 1 = length (ppool (devs s n))" by auto
  from Cons.IH [OF t(2)] Cons.prems t(3,7) obtain s' ps where
    i: "transmit_all True csum n ds s1 = Some s'" "net_ok psize s'" "live_skbs s' = []" "delivered s' = delivered s1"
      "rx_queue (devs s' (peer n)) = ps @ rx_queue (devs s1 (peer n))"
      "map (\<lambda>p. take (datalen p) (pkt_data p)) ps = map (sent_frame csum) (rev ds)" by auto
  with t show ?case by (intro exI [of _ s'] exI [of _ "ps @ [p]"]) simp
qed

lemma received_all: "received n (\<lambda>_. True) k ps = map (\<lambda>p. (n, take (datalen p) (pkt_data p))) ps"
  by (induction ps arbitrary: k) simp_all

text \<open>Interfaces that receive by interrupts, between transmissions.\<close>

definition idle :: "snull \<Rightarrow> nat \<Rightarrow> bool" where
  "idle s n \<longleftrightarrow>
     (let d = devs s n in
      \<not> locked d \<and> status d = 0 \<and> rx_queue d = [] \<and> rx_int_enabled d \<and> \<not> queue_stopped d \<and> ppool d \<noteq> [] \<and>
      (\<forall>p \<in> set (ppool d). packet_ok n p))"

lemma regular_tx:
  assumes "idle s n" "idle s (peer n)" "frame_ok data" "i \<notin> set (live_skbs s)" "n < 2"
  shows "\<exists>s'. snull_tx False 0 csum True i data n (s\<lparr>live_skbs := i # live_skbs s\<rparr>) = Some s' \<and> idle s' n \<and> idle s' (peer n) \<and>
    live_skbs s' = live_skbs s \<and> delivered s' = delivered s @ [(peer n, sent_frame csum data)] \<and>
    length (ppool (devs s' n)) = length (ppool (devs s n))"
proof -
  let ?d = "devs s n" and ?e = "devs s (peer n)"
  have d: "\<not> locked ?d" "status ?d = 0" "rx_queue ?d = []" "rx_int_enabled ?d" "\<not> queue_stopped ?d"
    using assms(1) by (simp_all add: idle_def Let_def)
  have e: "\<not> locked ?e" "status ?e = 0" "rx_queue ?e = []" "rx_int_enabled ?e" "\<not> queue_stopped ?e" "ppool ?e \<noteq> []"
    "\<forall>p \<in> set (ppool ?e). packet_ok (peer n) p"
    using assms(2) by (simp_all add: idle_def Let_def)
  from assms(1) obtain pkt ps where p: "ppool ?d = pkt # ps" "packet_ok n pkt" "\<forall>p \<in> set ps. packet_ok n p"
    by (cases "ppool ?d") (auto simp: idle_def Let_def)
  note r = frame_ok_rewrite(1,2) [OF assms(3), of csum] frame_ok_rewrite(3,4) [OF assms(3)]
  let ?b = "sent_frame csum data @ drop (length (pad data)) (pkt_data pkt)"
  have w: "mem_write (pkt_data pkt) 0 (sent_frame csum data) = Some ?b"
    using p(2) r(2,4) by (simp add: mem_write_def packet_ok_def)
  have m: "mem_read ?b 0 (length (pad data)) = Some (sent_frame csum data)"
    using r(2) by (simp add: mem_read_def)
  have k: "pkt_dev pkt = n" using p(2) by (simp add: packet_ok_def)
  let ?p = "pkt\<lparr>datalen := length (pad data), pkt_data := ?b\<rparr>"
  have np: "packet_ok n ?p" using p(2) r(2,4) by (simp add: packet_ok_def)
  have "\<exists>s'. snull_tx False 0 csum True i data n (s\<lparr>live_skbs := i # live_skbs s\<rparr>) = Some s' \<and> live_skbs s' = live_skbs s \<and>
    delivered s' = delivered s @ [(peer n, sent_frame csum data)] \<and>
    (\<exists>d'. devs s' n = d' \<and> \<not> locked d' \<and> status d' = 0 \<and> rx_queue d' = [] \<and> rx_int_enabled d' \<and> \<not> queue_stopped d' \<and> ppool d' = ?p # ps) \<and>
    (\<exists>e'. devs s' (peer n) = e' \<and> \<not> locked e' \<and> status e' = 0 \<and> rx_queue e' = [] \<and> rx_int_enabled e' \<and> \<not> queue_stopped e' \<and> ppool e' = ppool ?e)"
    using d e(1-5) p(1) k r(1-3) w m assms(4)
    unfolding snull_tx_def snull_hw_tx_def pad_def [symmetric] Let_def
    by (cases "ps = []") (auto simp: net_simps snull_regular_interrupt_def snull_rx_def)
  then obtain s' where s': "snull_tx False 0 csum True i data n (s\<lparr>live_skbs := i # live_skbs s\<rparr>) = Some s'" "live_skbs s' = live_skbs s"
    "delivered s' = delivered s @ [(peer n, sent_frame csum data)]"
    "\<not> locked (devs s' n)" "status (devs s' n) = 0" "rx_queue (devs s' n) = []" "rx_int_enabled (devs s' n)"
    "\<not> queue_stopped (devs s' n)" "ppool (devs s' n) = ?p # ps"
    "\<not> locked (devs s' (peer n))" "status (devs s' (peer n)) = 0" "rx_queue (devs s' (peer n)) = []" "rx_int_enabled (devs s' (peer n))"
    "\<not> queue_stopped (devs s' (peer n))" "ppool (devs s' (peer n)) = ppool ?e" by blast
  have "idle s' n" using s'(4-9) np p(3) by (simp add: idle_def Let_def)
  moreover have "idle s' (peer n)" using s'(10-15) e(6,7) by (simp add: idle_def Let_def)
  ultimately show ?thesis using s' p(1) by auto
qed

lemma started_idle: "0 < psize \<Longrightarrow> idle (started_net psize) 0" "0 < psize \<Longrightarrow> idle (started_net psize) 1"
  by (simp_all add: idle_def started_net_def snull_open_def snull_init_def snull_setup_pool_def
      net_simps setup_packets_all zero_net_dev_def packet_ok_def)

lemma transmit_all_regular:
  assumes "idle s n" "idle s (peer n)" "n < 2" "live_skbs s = []" "\<forall>d \<in> set ds. frame_ok d"
  shows "\<exists>s'. transmit_all False csum n ds s = Some s' \<and> idle s' n \<and> idle s' (peer n) \<and> live_skbs s' = [] \<and>
    delivered s' = delivered s @ map (\<lambda>d. (peer n, sent_frame csum d)) ds"
  using assms
proof (induction ds arbitrary: s)
  case Nil
  then show ?case by simp
next
  case (Cons d ds)
  have "frame_ok d" "0 \<notin> set (live_skbs s)" using Cons.prems(4,5) by simp_all
  from regular_tx [OF Cons.prems(1,2) this Cons.prems(3), of csum] obtain s1 where
    t: "snull_tx False 0 csum True 0 d n (s\<lparr>live_skbs := 0 # live_skbs s\<rparr>) = Some s1" "idle s1 n" "idle s1 (peer n)"
      "live_skbs s1 = live_skbs s" "delivered s1 = delivered s @ [(peer n, sent_frame csum d)]" by blast
  from Cons.IH [OF t(2,3) Cons.prems(3)] Cons.prems(4,5) t(4) obtain s' where
    "transmit_all False csum n ds s1 = Some s'" "idle s' n" "idle s' (peer n)" "live_skbs s' = []"
      "delivered s' = delivered s1 @ map (\<lambda>d. (peer n, sent_frame csum d)) ds" by auto
  with t show ?case by simp
qed

section \<open>Properties\<close>

text \<open>A minimal frame: zeros, with an IP header of five words.\<close>

definition plain_frame :: "byte \<Rightarrow> byte list" where
  "plain_frame b = (replicate 60 b)[14 := 69]"

lemma plain_frame_ok: "frame_ok (plain_frame b)"
  by (simp add: frame_ok_def plain_frame_def pad_def)

text \<open>
  C25: Flow control, with polling and without simulated lockups, for frames of at most 1500 bytes with
  their Ethernet header, whose IP header lies inside the frame (longer frames, which the default MTU
  allows up to 1514 bytes, overrun the packet: \<open>snull_full_frame_overruns\<close>).  After any sequence of
  transmissions of such frames, which the kernel makes only while the queue is not stopped, and
  polls, the buffers are conserved and no socket buffer is left; an interface that is not stopped
  can transmit any such frame, without a dead lock or an error; and for one that is stopped its
  peer is scheduled to be polled, and any poll of a packet wakes it.
\<close>

theorem snull_flow_control:
  assumes "(snull_step csum)\<^sup>*\<^sup>* (started_net psize) s" "0 < psize" "n < 2"
  shows "length (ppool (devs s n)) + length (rx_queue (devs s (peer n))) = psize \<and> live_skbs s = [] \<and>
    (\<not> queue_stopped (devs s n) \<longrightarrow> (\<forall>data mem i. frame_ok data \<longrightarrow>
       snull_tx True 0 csum mem i data n (s\<lparr>live_skbs := i # live_skbs s\<rparr>) \<noteq> None)) \<and>
    (queue_stopped (devs s n) \<longrightarrow> napi_scheduled (devs s (peer n)) \<and>
       (\<forall>mem complete budget. 0 < budget \<longrightarrow>
          (\<exists>k s'. snull_poll (peer n) mem complete budget s = Some (k, s') \<and> \<not> queue_stopped (devs s' n))))"
proof -
  from reach_ok [OF assms(1) started_ok(1) [OF assms(2)]] started_ok(2) [OF assms(2)]
  have ok: "net_ok psize s" "live_skbs s = []" by simp_all
  note o = net_okD [OF ok(1) assms(3)]
  have c: "length (ppool (devs s n)) + length (rx_queue (devs s (peer n))) = psize"
    using o(1) by (simp add: dev_ok_def Let_def)
  have "snull_tx True 0 csum mem i data n (s\<lparr>live_skbs := i # live_skbs s\<rparr>) \<noteq> None"
    if "\<not> queue_stopped (devs s n)" "frame_ok data" for data mem i
    using tx_ok [OF ok(1) assms(3) that, of i csum mem] ok(2) by auto
  moreover have "napi_scheduled (devs s (peer n)) \<and> (\<exists>k s'. snull_poll (peer n) mem complete budget s = Some (k, s') \<and> \<not> queue_stopped (devs s' n))"
    if st: "queue_stopped (devs s n)" "0 < budget" for mem complete budget
  proof -
    have q: "rx_queue (devs s (peer n)) \<noteq> []" using o(1,3) st(1) by (auto simp: dev_ok_def Let_def)
    then have "napi_scheduled (devs s (peer n))" using o(2) by (simp add: dev_ok_def Let_def)
    with poll_ok [OF ok(1), of "peer n" mem complete budget] q st(2) assms(3) show ?thesis by auto
  qed
  ultimately show ?thesis using c ok(2) by blast
qed

lemma snull_flow_control_witness:
  "snull_tx True 0 (\<lambda>_. (0, 0)) True 5 (plain_frame 9) 0 ((started_net 8)\<lparr>live_skbs := [5]\<rparr>) \<noteq> None"
proof -
  have "(snull_step (\<lambda>_. (0, 0)))\<^sup>*\<^sup>* (started_net 8) (started_net 8)" "(0 :: nat) < 8" "(0 :: nat) < 2" by simp_all
  from snull_flow_control [OF this] started_ok(2,4) [of 8] plain_frame_ok [of 9] show ?thesis by auto
qed

text \<open>
  With polling, packets arrive in reverse: frames transmitted one after the other, as many as the
  pool has buffers, are delivered by the next poll, each once, rewritten, the last one first.
\<close>

theorem snull_batch_reversed:
  assumes "0 < psize" "n < 2" "length ds \<le> psize" "\<forall>d \<in> set ds. frame_ok d" "length ds < budget"
  shows "\<exists>s s'. transmit_all True csum n ds (started_net psize) = Some s \<and>
    snull_poll (peer n) (\<lambda>_. True) True budget s = Some (length ds, s') \<and>
    delivered s' = map (\<lambda>d. (peer n, sent_frame csum d)) (rev ds)"
proof -
  note st = started_ok [OF assms(1)]
  have "length (ppool (devs (started_net psize) n)) = psize"
    using net_okD(1) [OF st(1) assms(2)] st(5) by (simp add: dev_ok_def Let_def)
  with transmit_all_polled [OF st(1) assms(2) st(2) assms(4), of csum] assms(3) st(3,5) obtain s ps where
    t: "transmit_all True csum n ds (started_net psize) = Some s" "net_ok psize s" "delivered s = []" "rx_queue (devs s (peer n)) = ps"
      "map (\<lambda>p. take (datalen p) (pkt_data p)) ps = map (sent_frame csum) (rev ds)" by auto
  have l: "length ps = length ds" using arg_cong [OF t(5), of length] by simp
  from poll_ok [OF t(2), of "peer n" "\<lambda>_. True" True budget] t(3,4) l assms(5) obtain s' where
    p: "snull_poll (peer n) (\<lambda>_. True) True budget s = Some (length ds, s')"
      "delivered s' = map (\<lambda>p. (peer n, take (datalen p) (pkt_data p))) ps" by (auto simp: received_all)
  have "map (\<lambda>p. (peer n, take (datalen p) (pkt_data p))) ps = map (Pair (peer n)) (map (\<lambda>p. take (datalen p) (pkt_data p)) ps)"
    by simp
  also have "\<dots> = map (\<lambda>d. (peer n, sent_frame csum d)) (rev ds)" unfolding t(5) by simp
  finally show ?thesis using t(1) p by auto
qed

lemma snull_batch_reversed_witness:
  "\<exists>s s'. transmit_all True (\<lambda>_. (0, 0)) 0 [plain_frame 1, plain_frame 2] (started_net 8) = Some s \<and>
    snull_poll (peer 0) (\<lambda>_. True) True 64 s = Some (2, s') \<and>
    delivered s' = [(peer 0, sent_frame (\<lambda>_. (0, 0)) (plain_frame 2)), (peer 0, sent_frame (\<lambda>_. (0, 0)) (plain_frame 1))]"
  using snull_batch_reversed [of 8 0 "[plain_frame 1, plain_frame 2]" 64 "\<lambda>_. (0, 0)"] plain_frame_ok by (simp add: numeral_2_eq_2)

text \<open>
  C26: With an interrupt for each packet, packets arrive in order: any number of frames of at most 1500
  bytes with their Ethernet header, whose IP header lies inside the frame, transmitted one after the
  other while there is memory for the receiver's socket buffers and without simulated lockups, are
  delivered at once, each once, rewritten, and neither buffers nor socket buffers stay in use.
\<close>

theorem snull_regular_in_order:
  assumes "0 < psize" "n < 2" "\<forall>d \<in> set ds. frame_ok d"
  shows "\<exists>s. transmit_all False csum n ds (started_net psize) = Some s \<and>
    delivered s = map (\<lambda>d. (peer n, sent_frame csum d)) ds \<and> live_skbs s = [] \<and> rx_queue (devs s (peer n)) = [] \<and> \<not> queue_stopped (devs s n)"
proof -
  have "n = 0 \<or> n = 1" using assms(2) by auto
  then have "idle (started_net psize) n" "idle (started_net psize) (peer n)"
    using started_idle [OF assms(1)] by (auto simp: peer_def)
  from transmit_all_regular [OF this assms(2) _ assms(3), of csum] started_ok(2,3) [OF assms(1)] obtain s where
    "transmit_all False csum n ds (started_net psize) = Some s" "idle s n" "idle s (peer n)" "live_skbs s = []"
      "delivered s = map (\<lambda>d. (peer n, sent_frame csum d)) ds" by auto
  then show ?thesis by (simp add: idle_def Let_def)
qed

lemma snull_regular_in_order_witness:
  "\<exists>s. transmit_all False (\<lambda>_. (0, 0)) 1 (replicate 20 (plain_frame 7)) (started_net 1) = Some s \<and>
    delivered s = replicate 20 (peer 1, sent_frame (\<lambda>_. (0, 0)) (plain_frame 7))"
  using snull_regular_in_order [of 1 1 "replicate 20 (plain_frame 7)" "\<lambda>_. (0, 0)"] plain_frame_ok by auto

text \<open>
  A frame that comes back is the original: the rewriting, applied twice to a frame of full
  length whose checksum is that of its header, gives the frame.
\<close>

theorem snull_rewrite_twice:
  assumes "34 \<le> length buf" "14 + 4 * unat (buf ! 14 AND 15) \<le> length buf"
    and "(buf ! 24, buf ! 25) = csum (take (4 * unat (buf ! 14 AND 15)) (drop 14 (buf[24 := 0, 25 := 0])))"
  shows "rewrite_frame csum buf \<bind> rewrite_frame csum = Some buf"
proof -
  from rewrite_frame_some [OF assms(1,2), of csum] obtain lo hi where
    r: "rewrite_frame csum buf = Some (buf[28 := buf ! 28 XOR 1, 32 := buf ! 32 XOR 1, 24 := lo, 25 := hi])" by blast
  let ?b = "buf[28 := buf ! 28 XOR 1, 32 := buf ! 32 XOR 1, 24 := lo, 25 := hi]"
  have x: "(a XOR 1) XOR 1 = a" for a :: byte by (simp add: xor.assoc)
  have pos: "?b ! 14 = buf ! 14" "?b ! 28 = buf ! 28 XOR 1" "?b ! 32 = buf ! 32 XOR 1" "length ?b = length buf"
    using assms(1) by simp_all
  have restored: "?b[28 := (buf ! 28 XOR 1) XOR 1, 32 := (buf ! 32 XOR 1) XOR 1, 24 := u, 25 := v] = buf[24 := u, 25 := v]" for u v
    unfolding x using assms(1) by (intro nth_equalityI) (auto simp: nth_list_update)
  have "34 \<le> length ?b" "14 + 4 * unat (?b ! 14 AND 15) \<le> length ?b" using assms(1,2) unfolding pos by simp_all
  from rewrite_frame_some [OF this, of csum] obtain u v where
    r2: "rewrite_frame csum ?b = Some (buf[24 := u, 25 := v])" "(u, v) = csum (take (4 * unat (buf ! 14 AND 15)) (drop 14 (buf[24 := 0, 25 := 0])))"
    unfolding pos restored by blast
  have "(u, v) = (buf ! 24, buf ! 25)" using r2(2) assms(3) [symmetric] by (rule trans)
  then have "u = buf ! 24" "v = buf ! 25" by simp_all
  then have "buf[24 := u, 25 := v] = buf" by simp
  then show ?thesis using r r2(1) by simp
qed

lemma snull_rewrite_twice_witness:
  "rewrite_frame (\<lambda>h. (fold (+) h 0, 7)) ((plain_frame 0)[24 := 69, 25 := 7, 28 := 3, 32 := 253]) \<bind> rewrite_frame (\<lambda>h. (fold (+) h 0, 7)) =
    Some ((plain_frame 0)[24 := 69, 25 := 7, 28 := 3, 32 := 253])"
proof -
  let ?b = "(plain_frame 0)[24 := 69, 25 := 7, 28 := 3, 32 := 253]"
  have "34 \<le> length ?b" by (simp add: plain_frame_def)
  moreover have "14 + 4 * unat (?b ! 14 AND 15) \<le> length ?b" by code_simp
  moreover have "(?b ! 24, ?b ! 25) = (\<lambda>h. (fold (+) h 0, 7)) (take (4 * unat (?b ! 14 AND 15)) (drop 14 (?b[24 := 0, 25 := 0])))"
    by code_simp
  ultimately show ?thesis by (rule snull_rewrite_twice)
qed

text \<open>
  C37: A frame of full size does not fit: the packet has room for 1500 bytes, and a frame with its
  header, at the default MTU of 1500, has up to 1514; the copy runs past the packet.
\<close>

theorem snull_full_frame_overruns:
  assumes "\<not> locked (devs s n)" "ppool (devs s n) = pkt # ps" "length (pkt_data pkt) = ETH_DATA_LEN"
    and "ETH_DATA_LEN < length data" "length data \<le> ETH_DATA_LEN + ETH_HLEN"
  shows "snull_tx use_napi lockup csum mem i data n s = None"
proof -
  have h: "34 \<le> length data" "14 + 4 * unat (data ! 14 AND 15) \<le> length data"
  proof -
    have "unat (data ! 14 AND 15) < 2 ^ LENGTH(8)" by (rule unsigned_less)
    then show "34 \<le> length data" "14 + 4 * unat (data ! 14 AND 15) \<le> length data" using assms(4) by simp_all
  qed
  from rewrite_frame_some [OF h, of csum] obtain b where
    b: "rewrite_frame csum data = Some b" "length b = length data" by auto
  have "mem_write (pkt_data pkt) 0 b = None" using b(2) assms(3,4) by (simp add: mem_write_def)
  then show ?thesis using assms(1,2,4) b(1) unfolding snull_tx_def snull_hw_tx_def Let_def
    by (cases "ps = []") (simp_all add: net_simps)
qed

lemma snull_full_frame_overruns_witness:
  "snull_tx True 0 (\<lambda>_. (0, 0)) True 5 (replicate 1514 9) 0 (started_net 8) = None"
proof -
  have n: "net_ok 8 (started_net 8)" "(0 :: nat) < 2" "rx_queue (devs (started_net 8) (peer 0)) = []" by (simp_all add: started_ok)
  then have "\<not> locked (devs (started_net 8) 0)" "length (ppool (devs (started_net 8) 0)) = 8"
    "\<forall>p \<in> set (ppool (devs (started_net 8) 0)). packet_ok 0 p"
    using net_okD(1) [OF n(1,2)] by (simp_all add: dev_ok_def Let_def)
  moreover from this obtain pkt ps where "ppool (devs (started_net 8) 0) = pkt # ps"
    by (cases "ppool (devs (started_net 8) 0)") auto
  ultimately show ?thesis
    by (intro snull_full_frame_overruns [where pkt = pkt and ps = ps]) (simp_all add: packet_ok_def)
qed

text \<open>
  With an empty pool that did not stop the queue, as after an allocation failure at the start, a
  transmission keeps the lock: it reports success, its socket buffer is never freed, and the next
  transmission never returns.
\<close>

theorem snull_empty_pool_deadlocks:
  assumes "ppool (devs s n) = []" "\<not> locked (devs s n)" "frame_ok data" "frame_ok data'"
  shows "\<exists>s'. snull_tx use_napi lockup csum mem i data n s = Some s' \<and> live_skbs s' = live_skbs s \<and>
    snull_tx use_napi lockup csum mem i' data' n s' = None"
proof -
  note r = frame_ok_rewrite(1) [OF assms(3), of csum] frame_ok_rewrite(3) [OF assms(3)]
    frame_ok_rewrite(1) [OF assms(4), of csum] frame_ok_rewrite(3) [OF assms(4)]
  let ?s = "upd n (\<lambda>d. d\<lparr>locked := True\<rparr>) (upd n (\<lambda>d. d\<lparr>skb := Some i\<rparr>) s)"
  have "snull_tx use_napi lockup csum mem i data n s = Some ?s"
    using assms(1,2) r unfolding snull_tx_def snull_hw_tx_def pad_def [symmetric] Let_def by (simp add: net_simps)
  moreover have "snull_tx use_napi lockup csum mem i' data' n ?s = None"
    using r unfolding snull_tx_def snull_hw_tx_def pad_def [symmetric] Let_def by (simp add: net_simps)
  ultimately show ?thesis by simp
qed

lemma snull_empty_pool_deadlocks_witness:
  "\<not> queue_stopped (devs (started_net 0) 0) \<and>
    (\<exists>s'. snull_tx True 0 (\<lambda>_. (0, 0)) True 5 (plain_frame 9) 0 ((started_net 0)\<lparr>live_skbs := [5]\<rparr>) = Some s' \<and> live_skbs s' = [5] \<and>
      snull_tx True 0 (\<lambda>_. (0, 0)) True 6 (plain_frame 9) 0 s' = None)"
proof -
  let ?s = "(started_net 0)\<lparr>live_skbs := [5]\<rparr>"
  have "ppool (devs ?s 0) = []" "\<not> locked (devs ?s 0)" "\<not> queue_stopped (devs ?s 0)"
    by (simp_all add: started_net_def snull_open_def snull_init_def snull_setup_pool_def net_simps zero_net_dev_def)
  with snull_empty_pool_deadlocks [OF this(1,2) plain_frame_ok [of 9] plain_frame_ok [of 9], of True 0 "\<lambda>_. (0, 0)" True 5 6]
  show ?thesis by simp
qed

text \<open>
  A transmit timeout makes buffers: it replaces the pool while buffers are in flight, so that
  afterwards the pool and the buffers in flight together exceed the pool size by as many as were in
  flight.
\<close>

theorem snull_timeout_grows_pool:
  assumes "net_ok psize s" "n < 2" "skb (devs s n) = None" "\<forall>k < psize. mem_of k \<noteq> None"
  shows "\<exists>s'. snull_tx_timeout True mem psize mem_of n s = Some s' \<and>
    length (ppool (devs s' n)) + length (rx_queue (devs s' (peer n))) = psize + length (rx_queue (devs s (peer n))) \<and>
    \<not> queue_stopped (devs s' n)"
proof -
  have "\<forall>j < k. mem_of (i + j) \<noteq> None \<Longrightarrow> length (setup_packets n mem_of i k pool) = k + length pool" for i k pool
  proof (induction k arbitrary: i pool)
    case 0
    then show ?case by simp
  next
    case (Suc k)
    have "\<forall>j < k. mem_of (i + 1 + j) \<noteq> None" using Suc.prems by (metis Suc_less_eq add.assoc plus_1_eq_Suc)
    moreover have "mem_of i \<noteq> None" using Suc.prems by (metis add_0_right zero_less_Suc)
    ultimately show ?case using Suc.IH [of "i + 1"] by auto
  qed
  from this [of psize 0 "[]"] assms(4) have l: "length (setup_packets n mem_of 0 psize []) = psize" by simp
  show ?thesis
    using net_okD(1) [OF assms(1,2)] l assms(3)
    by (simp add: snull_tx_timeout_def snull_setup_pool_def snull_teardown_pool_def net_simps dev_ok_def)
qed

lemma snull_timeout_grows_pool_witness:
  "\<exists>s'. snull_tx_timeout True True 8 (\<lambda>_. Some (replicate 1500 0)) 0 (started_net 8) = Some s' \<and>
    length (ppool (devs s' 0)) + length (rx_queue (devs s' (peer 0))) = 8"
proof -
  have "skb (devs (started_net 8) 0) = None"
    by (simp add: started_net_def snull_open_def snull_init_def snull_setup_pool_def net_simps zero_net_dev_def)
  from snull_timeout_grows_pool [OF started_ok(1) _ this, of "\<lambda>_. Some (replicate 1500 0)" True] started_ok(5) [of 8]
  show ?thesis by auto
qed

end
