(* ===== verification/Tiny_Tty.thy ===== *)
theory Tiny_Tty
  imports Byte_Ring
begin

text \<open>
  The terminal driver \<open>tty/tiny_tty.c\<close>: four ports with their counts of opens and a timer each that
  delivers a character while the port is open, writing, the control lines, the terminal settings,
  the control commands, and the module's initialisation and exit.
\<close>

unbundle bit_operations_syntax

section \<open>State\<close>

abbreviation (input) TINY_TTY_MINORS :: nat where "TINY_TTY_MINORS \<equiv> 4"

record async_icount =
  cts :: int
  dsr :: int
  rng :: int
  dcd :: int
  other_counts :: "int list"

record serial_info =
  serial_type :: int
  serial_line :: int
  serial_port :: int
  serial_irq :: int
  serial_flags :: int
  xmit_fifo_size :: int
  baud_base :: int
  close_delay :: int
  closing_wait :: int
  custom_divisor :: int
  hub6 :: int
  io_type :: int

text \<open>
  A port: \<open>wait_ready\<close> says whether the head of its wait queue is initialised, \<open>tpending\<close> whether its
  timer is.
\<close>

record tiny_serial =
  open_count :: int
  tmutex :: bool
  tpending :: bool
  msr :: "32 word"
  mcr :: "32 word"
  serial :: serial_info
  wait_ready :: bool
  icount :: async_icount

text \<open>
  The table of the ports, the terminals whose \<open>driver_data\<close> is set, the ports whose timer function
  is running, and the characters delivered.
\<close>

record tiny_world =
  tiny_table :: "tiny_serial option list"
  attached :: "bool list"
  timer_runs :: "bool list"
  delivered_chars :: "nat list"

definition tiny_lock :: "tiny_serial \<Rightarrow> tiny_serial option" where
  "tiny_lock t = (if tmutex t then None else Some (t\<lparr>tmutex := True\<rparr>))"

definition tiny_unlock :: "tiny_serial \<Rightarrow> tiny_serial" where
  "tiny_unlock t = t\<lparr>tmutex := False\<rparr>"

definition tiny_add_timer :: "tiny_serial \<Rightarrow> tiny_serial option" where
  "tiny_add_timer t = (if tpending t then None else Some (t\<lparr>tpending := True\<rparr>))"

section \<open>The timer\<close>

text \<open>The timer expires, and its function runs; the function delivers a character and adds the timer again.\<close>

definition tiny_timer_fires :: "nat \<Rightarrow> tiny_world \<Rightarrow> tiny_world option" where
  "tiny_timer_fires i w = do {
     t \<leftarrow> tiny_table w ! i;
     if tpending t
     then Some (w\<lparr>tiny_table := (tiny_table w)[i := Some (t\<lparr>tpending := False\<rparr>)], timer_runs := (timer_runs w)[i := True]\<rparr>)
     else None
   }"

definition tiny_timer :: "nat \<Rightarrow> tiny_world \<Rightarrow> tiny_world option" where
  "tiny_timer i w = do {
     t \<leftarrow> tiny_table w ! i;
     t \<leftarrow> tiny_add_timer t;
     Some (w\<lparr>tiny_table := (tiny_table w)[i := Some t], timer_runs := (timer_runs w)[i := False],
       delivered_chars := delivered_chars w @ [i]\<rparr>)
   }"

section \<open>Open and close\<close>

text \<open>\<open>mem\<close> is the memory for a new port, with whatever it holds.\<close>

definition tiny_open :: "tiny_serial option \<Rightarrow> nat \<Rightarrow> tiny_world \<Rightarrow> (int ret \<times> tiny_world) option" where
  "tiny_open mem i w =
     (let w = w\<lparr>attached := (attached w)[i := False]\<rparr>;
          found = (case tiny_table w ! i of
                     Some t \<Rightarrow> Some t
                   | None \<Rightarrow> map_option (\<lambda>t. t\<lparr>tmutex := False, open_count := 0\<rparr>) mem)
      in case found of
           None \<Rightarrow> Some (Inl ENOMEM, w)
         | Some t \<Rightarrow> do {
             t \<leftarrow> tiny_lock t;
             let t = t\<lparr>open_count := s32 (open_count t + 1)\<rparr>;
             t \<leftarrow> (if open_count t = 1 then tiny_add_timer (t\<lparr>tpending := False\<rparr>) else Some t);
             Some (Inr 0, w\<lparr>tiny_table := (tiny_table w)[i := Some (tiny_unlock t)], attached := (attached w)[i := True]\<rparr>)
           })"

definition do_close :: "tiny_serial \<Rightarrow> tiny_serial option" where
  "do_close t = do {
     t \<leftarrow> tiny_lock t;
     if open_count t = 0 then Some (tiny_unlock t)
     else
       let t = t\<lparr>open_count := s32 (open_count t - 1)\<rparr>;
           t = (if open_count t \<le> 0 then t\<lparr>tpending := False\<rparr> else t)
       in Some (tiny_unlock t)
   }"

definition tiny_close :: "nat \<Rightarrow> tiny_world \<Rightarrow> tiny_world option" where
  "tiny_close i w =
     (if \<not> attached w ! i then Some w
      else do {
        t \<leftarrow> tiny_table w ! i;
        t \<leftarrow> do_close t;
        Some (w\<lparr>tiny_table := (tiny_table w)[i := Some t]\<rparr>)
      })"

section \<open>Writing\<close>

text \<open>The value, the bytes that go to the log, which stands for the hardware, and the port.\<close>

definition tiny_write :: "bool \<Rightarrow> byte list \<Rightarrow> tiny_serial \<Rightarrow> (int ret \<times> byte list \<times> tiny_serial) option" where
  "tiny_write set_data buffer t =
     (if \<not> set_data then Some (Inl ENODEV, [], t)
      else do {
        t \<leftarrow> tiny_lock t;
        if open_count t = 0 then Some (Inl EINVAL, [], tiny_unlock t)
        else Some (Inl EINVAL, buffer, tiny_unlock t)
      })"

definition tiny_write_room :: "bool \<Rightarrow> tiny_serial \<Rightarrow> (int ret \<times> tiny_serial) option" where
  "tiny_write_room set_data t =
     (if \<not> set_data then Some (Inl ENODEV, t)
      else do {
        t \<leftarrow> tiny_lock t;
        if open_count t = 0 then Some (Inl EINVAL, tiny_unlock t) else Some (Inr 255, tiny_unlock t)
      })"

section \<open>Terminal settings\<close>

record termios =
  c_iflag :: "32 word"
  c_cflag :: "32 word"

datatype parity = Parity_none | Parity_odd | Parity_even

definition RELEVANT_IFLAG :: "32 word \<Rightarrow> 32 word" where
  "RELEVANT_IFLAG iflag = iflag AND (0x1 OR 0x2 OR 0x4 OR 0x8 OR 0x10)"

text \<open>
  What the driver reports as the new settings: the data bits, the parity, whether there are two stop
  bits, hardware flow control, and inbound and outbound software flow control.  \<open>None\<close>: nothing to
  change.
\<close>

definition tiny_set_termios :: "termios option \<Rightarrow> termios \<Rightarrow> (nat \<times> parity \<times> bool \<times> bool \<times> bool \<times> bool) option" where
  "tiny_set_termios old tio =
     (let cflag = c_cflag tio in
      if (case old of None \<Rightarrow> False
          | Some t \<Rightarrow> cflag = c_cflag t \<and> RELEVANT_IFLAG (c_iflag tio) = RELEVANT_IFLAG (c_iflag t))
      then None
      else Some
        (if cflag AND 0x30 = 0 then 5 else if cflag AND 0x30 = 0x10 then 6 else if cflag AND 0x30 = 0x20 then 7 else 8,
         if cflag AND 0x100 \<noteq> 0 then (if cflag AND 0x200 \<noteq> 0 then Parity_odd else Parity_even) else Parity_none,
         cflag AND 0x40 \<noteq> 0, cflag AND 0x80000000 \<noteq> 0, c_iflag tio AND 0x1000 \<noteq> 0, c_iflag tio AND 0x400 \<noteq> 0))"

section \<open>Control lines\<close>

abbreviation (input) MCR_DTR :: "32 word" where "MCR_DTR \<equiv> 0x01"
abbreviation (input) MCR_RTS :: "32 word" where "MCR_RTS \<equiv> 0x02"
abbreviation (input) MCR_LOOP :: "32 word" where "MCR_LOOP \<equiv> 0x04"
abbreviation (input) MSR_CTS :: "32 word" where "MSR_CTS \<equiv> 0x08"
abbreviation (input) MSR_CD :: "32 word" where "MSR_CD \<equiv> 0x10"
abbreviation (input) MSR_RI :: "32 word" where "MSR_RI \<equiv> 0x20"
abbreviation (input) MSR_DSR :: "32 word" where "MSR_DSR \<equiv> 0x40"
abbreviation (input) TIOCM_DTR :: "32 word" where "TIOCM_DTR \<equiv> 0x002"
abbreviation (input) TIOCM_RTS :: "32 word" where "TIOCM_RTS \<equiv> 0x004"
abbreviation (input) TIOCM_CTS :: "32 word" where "TIOCM_CTS \<equiv> 0x020"
abbreviation (input) TIOCM_CAR :: "32 word" where "TIOCM_CAR \<equiv> 0x040"
abbreviation (input) TIOCM_RNG :: "32 word" where "TIOCM_RNG \<equiv> 0x080"
abbreviation (input) TIOCM_DSR :: "32 word" where "TIOCM_DSR \<equiv> 0x100"
abbreviation (input) TIOCM_LOOP :: "32 word" where "TIOCM_LOOP \<equiv> 0x8000"

definition tiny_tiocmget :: "tiny_serial \<Rightarrow> 32 word" where
  "tiny_tiocmget t =
     (if mcr t AND MCR_DTR \<noteq> 0 then TIOCM_DTR else 0) OR (if mcr t AND MCR_RTS \<noteq> 0 then TIOCM_RTS else 0) OR
     (if mcr t AND MCR_LOOP \<noteq> 0 then TIOCM_LOOP else 0) OR (if msr t AND MSR_CTS \<noteq> 0 then TIOCM_CTS else 0) OR
     (if msr t AND MSR_CD \<noteq> 0 then TIOCM_CAR else 0) OR (if msr t AND MSR_RI \<noteq> 0 then TIOCM_RNG else 0) OR
     (if msr t AND MSR_DSR \<noteq> 0 then TIOCM_DSR else 0)"

definition tiny_tiocmset :: "32 word \<Rightarrow> 32 word \<Rightarrow> tiny_serial \<Rightarrow> int ret \<times> tiny_serial" where
  "tiny_tiocmset sets clears t =
     (let m = mcr t;
          m = (if sets AND TIOCM_RTS \<noteq> 0 then m OR MCR_RTS else m);
          m = (if sets AND TIOCM_DTR \<noteq> 0 then m OR MCR_RTS else m);
          m = (if clears AND TIOCM_RTS \<noteq> 0 then m AND NOT MCR_RTS else m);
          m = (if clears AND TIOCM_DTR \<noteq> 0 then m AND NOT MCR_RTS else m)
      in (Inr 0, t\<lparr>mcr := m\<rparr>))"

section \<open>Control commands\<close>

definition tiny_proc_show :: "tiny_world \<Rightarrow> nat list" where
  "tiny_proc_show w = filter (\<lambda>i. tiny_table w ! i \<noteq> None) [0..<TINY_TTY_MINORS]"

text \<open>\<open>HZ\<close> is a parameter of the kernel; \<open>ASYNC_SKIP_TEST | ASYNC_AUTO_IRQ\<close> are bits 6 and 7.\<close>

definition tiny_ioctl_tiocgserial :: "int \<Rightarrow> bool \<Rightarrow> bool \<Rightarrow> tiny_serial \<Rightarrow> serial_info ret" where
  "tiny_ioctl_tiocgserial HZ arg copied t =
     (if \<not> arg then Inl EFAULT
      else
        let tmp = (serial t)\<lparr>serial_flags := 64 + 128, close_delay := 5 * HZ, closing_wait := 30 * HZ\<rparr>
        in if copied then Inr tmp else Inl EFAULT)"

text \<open>The loop over the wakings, each with the counts that it finds; \<open>None\<close> while it sleeps.\<close>

fun miwait_loop :: "32 word \<Rightarrow> async_icount \<Rightarrow> async_icount wake list \<Rightarrow> int ret option" where
  "miwait_loop arg cprev [] = None"
| "miwait_loop arg cprev (Signal # ws) = Some (Inl ERESTARTSYS)"
| "miwait_loop arg cprev (Woken cnow # ws) =
     (if rng cnow = rng cprev \<and> dsr cnow = dsr cprev \<and> dcd cnow = dcd cprev \<and> cts cnow = cts cprev then Some (Inl EIO)
      else if arg AND TIOCM_RNG \<noteq> 0 \<and> rng cnow \<noteq> rng cprev \<or> arg AND TIOCM_DSR \<noteq> 0 \<and> dsr cnow \<noteq> dsr cprev \<or>
        arg AND TIOCM_CAR \<noteq> 0 \<and> dcd cnow \<noteq> dcd cprev \<or> arg AND TIOCM_CTS \<noteq> 0 \<and> cts cnow \<noteq> cts cprev
      then Some (Inr 0)
      else miwait_loop arg cnow ws)"

definition tiny_ioctl_tiocmiwait :: "32 word \<Rightarrow> async_icount wake list \<Rightarrow> tiny_serial \<Rightarrow> int ret option" where
  "tiny_ioctl_tiocmiwait arg ws t = (if wait_ready t then miwait_loop arg (icount t) ws else None)"

definition tiny_ioctl_tiocgicount :: "bool \<Rightarrow> tiny_serial \<Rightarrow> async_icount ret" where
  "tiny_ioctl_tiocgicount copied t = (if copied then Inr (icount t) else Inl EFAULT)"

datatype tiny_cmd = TIOCGSERIAL | TIOCMIWAIT | TIOCGICOUNT | TIOC_OTHER

datatype tiny_answer = Serial serial_info | Waited int | Icount async_icount

definition tiny_ioctl ::
  "int \<Rightarrow> tiny_cmd \<Rightarrow> 32 word \<Rightarrow> bool \<Rightarrow> async_icount wake list \<Rightarrow> tiny_serial \<Rightarrow> tiny_answer ret option" where
  "tiny_ioctl HZ cmd arg copied ws t =
     (case cmd of
        TIOCGSERIAL \<Rightarrow> Some (map_sum id Serial (tiny_ioctl_tiocgserial HZ (arg \<noteq> 0) copied t))
      | TIOCMIWAIT \<Rightarrow> map_option (map_sum id Waited) (tiny_ioctl_tiocmiwait arg ws t)
      | TIOCGICOUNT \<Rightarrow> Some (map_sum id Icount (tiny_ioctl_tiocgicount copied t))
      | TIOC_OTHER \<Rightarrow> Some (Inl ENOIOCTLCMD))"

section \<open>Initialisation and exit\<close>

definition fresh_tiny :: tiny_world where
  "fresh_tiny = \<lparr>tiny_table = replicate TINY_TTY_MINORS None, attached = replicate TINY_TTY_MINORS False,
     timer_runs = replicate TINY_TTY_MINORS False, delivered_chars = []\<rparr>"

definition tiny_init :: "bool \<Rightarrow> int ret \<Rightarrow> int ret \<times> tiny_world" where
  "tiny_init mem registered = (if \<not> mem then (Inl ENOMEM, fresh_tiny) else (registered, fresh_tiny))"

text \<open>The closes of the exit: as many as the port has opens, so that the loop needs no bound but that.\<close>

fun close_all :: "nat \<Rightarrow> tiny_serial \<Rightarrow> tiny_serial option" where
  "close_all 0 t = (if open_count t = 0 then Some t else None)"
| "close_all (Suc fuel) t = (if open_count t = 0 then Some t else do { t \<leftarrow> do_close t; close_all fuel t })"

definition tiny_exit_port :: "tiny_serial option \<Rightarrow> tiny_serial option option" where
  "tiny_exit_port p =
     (case p of
        None \<Rightarrow> Some None
      | Some t \<Rightarrow> do { t \<leftarrow> close_all (nat (open_count t)) t; Some None })"

fun tiny_exit_ports :: "tiny_serial option list \<Rightarrow> tiny_serial option list option" where
  "tiny_exit_ports [] = Some []"
| "tiny_exit_ports (p # ps) = do { p \<leftarrow> tiny_exit_port p; ps \<leftarrow> tiny_exit_ports ps; Some (p # ps) }"

definition tiny_exit :: "tiny_world \<Rightarrow> tiny_world option" where
  "tiny_exit w = do { ps \<leftarrow> tiny_exit_ports (tiny_table w); Some (w\<lparr>tiny_table := ps\<rparr>) }"

section \<open>Opens, closes and ticks\<close>

text \<open>Opens with the memory for a new port, closes, and timers that expire and run undisturbed.\<close>

datatype tiny_op = Tty_open nat tiny_serial | Tty_close nat | Tty_tick nat

definition tiny_tick :: "nat \<Rightarrow> tiny_world \<Rightarrow> tiny_world option" where
  "tiny_tick i w =
     (case tiny_table w ! i of
        None \<Rightarrow> Some w
      | Some t \<Rightarrow> if tpending t then tiny_timer_fires i w \<bind> tiny_timer i else Some w)"

fun tiny_run :: "tiny_op list \<Rightarrow> tiny_world \<Rightarrow> tiny_world option" where
  "tiny_run [] w = Some w"
| "tiny_run (Tty_open i m # ops) w = do { (r, w) \<leftarrow> tiny_open (Some m) i w; tiny_run ops w }"
| "tiny_run (Tty_close i # ops) w = do { w \<leftarrow> tiny_close i w; tiny_run ops w }"
| "tiny_run (Tty_tick i # ops) w = do { w \<leftarrow> tiny_tick i w; tiny_run ops w }"

fun op_port :: "tiny_op \<Rightarrow> nat" where
  "op_port (Tty_open i m) = i"
| "op_port (Tty_close i) = i"
| "op_port (Tty_tick i) = i"

definition port_ok :: "nat \<Rightarrow> tiny_serial \<Rightarrow> bool" where
  "port_ok k t \<longleftrightarrow> \<not> tmutex t \<and> 0 \<le> open_count t \<and> open_count t \<le> int k \<and> (tpending t \<longleftrightarrow> 0 < open_count t)"

definition tty_ok :: "nat \<Rightarrow> tiny_world \<Rightarrow> bool" where
  "tty_ok k w \<longleftrightarrow> length (tiny_table w) = TINY_TTY_MINORS \<and> length (attached w) = TINY_TTY_MINORS \<and>
     (\<forall>i < TINY_TTY_MINORS. (attached w ! i \<longrightarrow> tiny_table w ! i \<noteq> None) \<and> (\<forall>t. tiny_table w ! i = Some t \<longrightarrow> port_ok k t))"

lemma tty_ok_mono: "tty_ok k w \<Longrightarrow> k \<le> k' \<Longrightarrow> tty_ok k' w"
  unfolding tty_ok_def port_ok_def by force

lemma tty_okD: "tty_ok k w \<Longrightarrow> i < TINY_TTY_MINORS \<Longrightarrow> tiny_table w ! i = Some t \<Longrightarrow> port_ok k t"
  by (simp add: tty_ok_def)

lemma tty_ok_port:
  assumes "tty_ok k w" "port_ok k t" "i < TINY_TTY_MINORS" "tiny_table w' = (tiny_table w)[i := Some t]"
    "length (attached w') = TINY_TTY_MINORS" "\<forall>j < TINY_TTY_MINORS. j \<noteq> i \<longrightarrow> attached w' ! j \<longrightarrow> attached w ! j"
  shows "tty_ok k w'"
  using assms by (auto simp: tty_ok_def nth_list_update)

lemma open_port:
  assumes "\<not> tmutex t" "0 \<le> open_count t" "open_count t \<le> int k" "tpending t \<longleftrightarrow> 0 < open_count t" "Suc k < 2 ^ 31"
  shows "\<exists>t'. (do {
      t \<leftarrow> tiny_lock t;
      let t = t\<lparr>open_count := s32 (open_count t + 1)\<rparr>;
      t \<leftarrow> (if open_count t = 1 then tiny_add_timer (t\<lparr>tpending := False\<rparr>) else Some t);
      Some (tiny_unlock t)
    }) = Some t' \<and> port_ok (Suc k) t'"
  using assms by (auto simp: tiny_lock_def tiny_unlock_def tiny_add_timer_def port_ok_def Let_def)

lemma open_ok:
  assumes "tty_ok k w" "i < TINY_TTY_MINORS" "Suc k < 2 ^ 31"
  shows "\<exists>w'. tiny_open (Some m) i w = Some (Inr 0, w') \<and> tty_ok (Suc k) w'"
proof -
  define t where "t = (case tiny_table w ! i of Some t \<Rightarrow> t | None \<Rightarrow> m\<lparr>tmutex := False, open_count := 0, tpending := False\<rparr>)"
  have p: "port_ok k t"
    using tty_okD [OF assms(1,2)] by (cases "tiny_table w ! i") (simp_all add: t_def port_ok_def)
  from open_port [of t k] p assms(3) obtain t' where
    o: "(do {
      t \<leftarrow> tiny_lock t;
      let t = t\<lparr>open_count := s32 (open_count t + 1)\<rparr>;
      t \<leftarrow> (if open_count t = 1 then tiny_add_timer (t\<lparr>tpending := False\<rparr>) else Some t);
      Some (tiny_unlock t)
    }) = Some t'" "port_ok (Suc k) t'" by (auto simp: port_ok_def)
  let ?w = "w\<lparr>tiny_table := (tiny_table w)[i := Some t'], attached := (attached w)[i := True]\<rparr>"
  have "tiny_open (Some m) i w = Some (Inr 0, ?w)"
    using o(1) by (cases "tiny_table w ! i") (simp_all add: tiny_open_def t_def Let_def tiny_lock_def tiny_add_timer_def tiny_unlock_def split: if_splits)
  moreover have "tty_ok (Suc k) w" using tty_ok_mono [OF assms(1)] by simp
  then have "tty_ok (Suc k) ?w"
    by (rule tty_ok_port [OF _ o(2) assms(2)]) (use assms(1) in \<open>simp_all add: tty_ok_def\<close>)
  ultimately show ?thesis by blast
qed

lemma do_close_ok:
  assumes "port_ok k t" "k < 2 ^ 31"
  shows "\<exists>t'. do_close t = Some t' \<and> port_ok k t' \<and> open_count t' = (if open_count t = 0 then 0 else open_count t - 1)"
  using assms by (auto simp: do_close_def port_ok_def tiny_lock_def tiny_unlock_def Let_def)

lemma close_ok:
  assumes "tty_ok k w" "i < TINY_TTY_MINORS" "k < 2 ^ 31"
  shows "\<exists>w'. tiny_close i w = Some w' \<and> tty_ok k w'"
proof (cases "attached w ! i")
  case False
  with assms(1) show ?thesis by (simp add: tiny_close_def)
next
  case True
  with assms(1,2) obtain t where t: "tiny_table w ! i = Some t" "port_ok k t"
    by (auto simp: tty_ok_def)
  from do_close_ok [OF t(2) assms(3)] obtain t' where c: "do_close t = Some t'" "port_ok k t'" by blast
  have "tty_ok k (w\<lparr>tiny_table := (tiny_table w)[i := Some t']\<rparr>)"
    using assms(1) by (intro tty_ok_port [OF assms(1) c(2) assms(2)]) (simp_all add: tty_ok_def)
  with True t c show ?thesis by (simp add: tiny_close_def)
qed

lemma tick_ok:
  assumes "tty_ok k w" "i < TINY_TTY_MINORS"
  shows "\<exists>w'. tiny_tick i w = Some w' \<and> tty_ok k w'"
proof (cases "tiny_table w ! i")
  case None
  with assms(1) show ?thesis by (simp add: tiny_tick_def)
next
  case (Some t)
  have p: "port_ok k t" by (rule tty_okD [OF assms Some])
  have l: "i < length (tiny_table w)" using assms by (simp add: tty_ok_def)
  show ?thesis
  proof (cases "tpending t")
    case False
    with Some assms(1) show ?thesis by (simp add: tiny_tick_def)
  next
    case True
    let ?w = "w\<lparr>tiny_table := (tiny_table w)[i := Some (t\<lparr>tpending := True\<rparr>)], timer_runs := (timer_runs w)[i := False],
      delivered_chars := delivered_chars w @ [i]\<rparr>"
    have "tiny_tick i w = Some ?w"
      using Some l True by (simp add: tiny_tick_def tiny_timer_fires_def tiny_timer_def tiny_add_timer_def)
    moreover have "port_ok k (t\<lparr>tpending := True\<rparr>)" using p True by (simp add: port_ok_def)
    then have "tty_ok k ?w"
      by (rule tty_ok_port [OF assms(1) _ assms(2)]) (use assms(1) in \<open>simp_all add: tty_ok_def\<close>)
    ultimately show ?thesis by blast
  qed
qed

lemma run_ok:
  assumes "tty_ok k w" "\<forall>x \<in> set ops. op_port x < TINY_TTY_MINORS" "k + length ops < 2 ^ 31"
  shows "\<exists>w'. tiny_run ops w = Some w' \<and> tty_ok (k + length ops) w'"
  using assms
proof (induction ops arbitrary: k w)
  case Nil
  then show ?case by simp
next
  case (Cons x ops)
  have i: "op_port x < TINY_TTY_MINORS" "k < 2 ^ 31" "Suc k < 2 ^ 31" using Cons.prems(2,3) by simp_all
  have "\<exists>w1. tiny_run (x # ops) w = tiny_run ops w1 \<and> tty_ok (Suc k) w1"
  proof (cases x)
    case (Tty_open i m)
    from open_ok [OF Cons.prems(1) _ i(3), of i m] i(1) Tty_open show ?thesis by auto
  next
    case (Tty_close i)
    from close_ok [OF Cons.prems(1) _ i(2), of i] i(1) Tty_close obtain w1 where
      "tiny_close i w = Some w1" "tty_ok k w1" by auto
    with tty_ok_mono [of k w1 "Suc k"] Tty_close show ?thesis by auto
  next
    case (Tty_tick i)
    from tick_ok [OF Cons.prems(1), of i] i(1) Tty_tick obtain w1 where
      "tiny_tick i w = Some w1" "tty_ok k w1" by auto
    with tty_ok_mono [of k w1 "Suc k"] Tty_tick show ?thesis by auto
  qed
  then obtain w1 where w1: "tiny_run (x # ops) w = tiny_run ops w1" "tty_ok (Suc k) w1" by blast
  from Cons.IH [OF w1(2)] Cons.prems(2,3) w1(1) show ?case by simp
qed

lemma close_all_ok:
  assumes "port_ok k t" "k < 2 ^ 31" "nat (open_count t) \<le> fuel"
  shows "\<exists>t'. close_all fuel t = Some t'"
  using assms
proof (induction fuel arbitrary: t)
  case 0
  then show ?case by (simp add: port_ok_def)
next
  case (Suc fuel)
  from do_close_ok [OF Suc.prems(1,2)] obtain t' where
    c: "do_close t = Some t'" "port_ok k t'" "open_count t' = (if open_count t = 0 then 0 else open_count t - 1)" by blast
  then have "nat (open_count t') \<le> fuel" using Suc.prems(1,3) by (auto simp: port_ok_def)
  from Suc.IH [OF c(2) Suc.prems(2) this] c(1) show ?case by auto
qed

lemma exit_ports_ok:
  assumes "\<forall>t. Some t \<in> set ps \<longrightarrow> port_ok k t" "k < 2 ^ 31"
  shows "tiny_exit_ports ps = Some (replicate (length ps) None)"
  using assms(1)
proof (induction ps)
  case Nil
  then show ?case by simp
next
  case (Cons p ps)
  have "tiny_exit_port p = Some None"
  proof (cases p)
    case None
    then show ?thesis by (simp add: tiny_exit_port_def)
  next
    case (Some t)
    with Cons.prems have "port_ok k t" by simp
    from close_all_ok [OF this assms(2) order_refl] Some show ?thesis by (auto simp: tiny_exit_port_def)
  qed
  with Cons show ?case by simp
qed

section \<open>Control lines\<close>

lemma and_bit: "x AND 2 ^ n \<noteq> 0 \<longleftrightarrow> bit x n" if "n < LENGTH('a)" for x :: "'a::len word"
proof
  assume "bit x n"
  then have "bit (x AND 2 ^ n) n" using that by (simp add: bit_simps)
  then show "x AND 2 ^ n \<noteq> 0" by auto
next
  assume "x AND 2 ^ n \<noteq> 0"
  then obtain m where "bit (x AND 2 ^ n) m" by (auto simp: bit_eq_iff)
  then show "bit x n" by (auto simp: bit_simps)
qed

lemma line_bits:
  fixes x :: "32 word"
  shows "x AND 1 \<noteq> 0 \<longleftrightarrow> bit x 0" "x AND 2 \<noteq> 0 \<longleftrightarrow> bit x 1" "x AND 4 \<noteq> 0 \<longleftrightarrow> bit x 2"
  using and_bit [of 0 x] and_bit [of 1 x] and_bit [of 2 x] by simp_all

lemma get_lines:
  "bit (tiny_tiocmget t) 1 \<longleftrightarrow> bit (mcr t) 0" "bit (tiny_tiocmget t) 2 \<longleftrightarrow> bit (mcr t) 1"
  by (auto simp: tiny_tiocmget_def line_bits bit_simps split: if_splits)

lemma set_mcr:
  "bit (mcr (snd (tiny_tiocmset sets clears t))) 0 \<longleftrightarrow> bit (mcr t) 0"
  "bit (mcr (snd (tiny_tiocmset sets clears t))) 1 \<longleftrightarrow>
    \<not> bit clears 1 \<and> \<not> bit clears 2 \<and> (bit sets 1 \<or> bit sets 2 \<or> bit (mcr t) 1)"
  by (auto simp: tiny_tiocmset_def Let_def line_bits bit_simps split: if_splits)

section \<open>Properties\<close>

text \<open>
  C27: The timer runs exactly while the port is open: after any sequence of opens, closes and ticks of
  the timers, on all ports, each port has its timer pending if and only if it is open, and the
  module's exit closes all ports and frees them.
\<close>

theorem tiny_timer_iff_open:
  assumes "\<forall>x \<in> set ops. op_port x < TINY_TTY_MINORS" "length ops < 2 ^ 31"
  shows "\<exists>w w'. tiny_run ops fresh_tiny = Some w \<and>
    (\<forall>i < TINY_TTY_MINORS. \<forall>t. tiny_table w ! i = Some t \<longrightarrow> (tpending t \<longleftrightarrow> 0 < open_count t)) \<and>
    tiny_exit w = Some w' \<and> tiny_table w' = replicate TINY_TTY_MINORS None"
proof -
  have "tty_ok 0 fresh_tiny" by (simp add: tty_ok_def fresh_tiny_def)
  from run_ok [OF this assms(1)] assms(2) obtain w where
    w: "tiny_run ops fresh_tiny = Some w" "tty_ok (length ops) w" by auto
  then have "\<forall>i < TINY_TTY_MINORS. \<forall>t. tiny_table w ! i = Some t \<longrightarrow> (tpending t \<longleftrightarrow> 0 < open_count t)"
    by (simp add: tty_ok_def port_ok_def)
  moreover have "\<forall>t. Some t \<in> set (tiny_table w) \<longrightarrow> port_ok (length ops) t"
    using w(2) by (auto simp: tty_ok_def in_set_conv_nth)
  from exit_ports_ok [OF this assms(2)] w(2) have "tiny_exit w = Some (w\<lparr>tiny_table := replicate TINY_TTY_MINORS None\<rparr>)"
    by (simp add: tiny_exit_def tty_ok_def)
  ultimately show ?thesis using w(1) by (intro exI [of _ w] exI [of _ "w\<lparr>tiny_table := replicate TINY_TTY_MINORS None\<rparr>"]) simp
qed

text \<open>A port as the allocator may leave it, all zeros.\<close>

definition zero_tiny :: tiny_serial where
  "zero_tiny = \<lparr>open_count = 0, tmutex = False, tpending = False, msr = 0, mcr = 0,
     serial = \<lparr>serial_type = 0, serial_line = 0, serial_port = 0, serial_irq = 0, serial_flags = 0, xmit_fifo_size = 0,
       baud_base = 0, close_delay = 0, closing_wait = 0, custom_divisor = 0, hub6 = 0, io_type = 0\<rparr>,
     wait_ready = False, icount = \<lparr>cts = 0, dsr = 0, rng = 0, dcd = 0, other_counts = replicate 7 0\<rparr>\<rparr>"

lemma tiny_timer_iff_open_witness:
  "\<exists>w w'. tiny_run [Tty_open 1 zero_tiny, Tty_open 1 zero_tiny, Tty_tick 1, Tty_close 1, Tty_tick 1, Tty_open 3 zero_tiny] fresh_tiny = Some w \<and>
    tiny_exit w = Some w' \<and> tiny_table w' = replicate TINY_TTY_MINORS None"
proof -
  let ?ops = "[Tty_open 1 zero_tiny, Tty_open 1 zero_tiny, Tty_tick 1, Tty_close 1, Tty_tick 1, Tty_open 3 zero_tiny]"
  have "\<forall>x \<in> set ?ops. op_port x < TINY_TTY_MINORS" "length ?ops < 2 ^ 31" by simp_all
  from tiny_timer_iff_open [OF this] show ?thesis by blast
qed

text \<open>
  A timer whose function runs while the port is closed survives it: the close finds no pending
  timer to remove, and the function adds it again to a closed port; and if the module is removed
  in the meantime, the function uses a port that has been freed.
\<close>

theorem tiny_timer_survives_close:
  "\<exists>w1 w2 w3. tiny_open (Some m) 0 fresh_tiny = Some (Inr 0, w1) \<and> tiny_timer_fires 0 w1 = Some w2 \<and> tiny_close 0 w2 = Some w3 \<and>
    (\<exists>w4 t. tiny_timer 0 w3 = Some w4 \<and> tiny_table w4 ! 0 = Some t \<and> open_count t = 0 \<and> tpending t) \<and>
    (\<exists>w5. tiny_exit w3 = Some w5 \<and> tiny_timer 0 w5 = None)"
  by (simp add: tiny_open_def fresh_tiny_def tiny_lock_def tiny_unlock_def tiny_add_timer_def tiny_timer_fires_def
    tiny_close_def do_close_def tiny_timer_def tiny_exit_def tiny_exit_port_def numeral_eq_Suc Let_def)

text \<open>
  The control lines: setting and clearing the line DTR acts on the line RTS: whatever is set and
  cleared, DTR keeps its value, and RTS is on afterwards exactly when neither of the two is cleared
  and one of them is set or RTS was on.
\<close>

theorem tiny_dtr_is_rts:
  "(bit (tiny_tiocmget (snd (tiny_tiocmset sets clears t))) 1 \<longleftrightarrow> bit (tiny_tiocmget t) 1) \<and>
   (bit (tiny_tiocmget (snd (tiny_tiocmset sets clears t))) 2 \<longleftrightarrow>
     \<not> bit clears 1 \<and> \<not> bit clears 2 \<and> (bit sets 1 \<or> bit sets 2 \<or> bit (tiny_tiocmget t) 2))"
  unfolding get_lines set_mcr by simp_all

text \<open>The write path reports an error although the bytes have gone out.\<close>

lemma tiny_write_fails: "tiny_write set_data buffer t = Some (r, out, t') \<Longrightarrow> \<exists>e. r = Inl e"
  by (auto simp: tiny_write_def bind_eq_Some_conv split: if_splits)

lemma tiny_write_outputs:
  "\<not> tmutex t \<Longrightarrow> open_count t \<noteq> 0 \<Longrightarrow> \<exists>t'. tiny_write True buffer t = Some (Inl EINVAL, buffer, t')"
  by (simp add: tiny_write_def tiny_lock_def)

text \<open>The wait for a change of the lines uses a wait queue that nothing initialises.\<close>

lemma tiny_wait_undefined: "\<not> wait_ready t \<Longrightarrow> tiny_ioctl HZ TIOCMIWAIT arg copied ws t = None"
  by (simp add: tiny_ioctl_def tiny_ioctl_tiocmiwait_def)

text \<open>With a proper queue it reports success at the first wake with a change of a selected line.\<close>

lemma miwait_selected:
  assumes "\<forall>c \<in> set cs. rng c = rng c0 \<and> dcd c = dcd c0 \<and> cts c = cts c0" "arg AND TIOCM_DSR = 0"
    "distinct (map dsr (c0 # cs))" "arg AND TIOCM_RNG \<noteq> 0" "rng c \<noteq> rng c0"
  shows "miwait_loop arg c0 (map Woken (cs @ [c])) = Some (Inr 0)"
  using assms
proof (induction cs arbitrary: c0)
  case Nil
  then show ?case by simp
next
  case (Cons x cs)
  have "rng x = rng c0" "dcd x = dcd c0" "cts x = cts c0" "dsr x \<noteq> dsr c0" using Cons.prems(1,3) by auto
  moreover have "miwait_loop arg x (map Woken (cs @ [c])) = Some (Inr 0)"
    using Cons.prems calculation by (intro Cons.IH) auto
  ultimately show ?case using Cons.prems(2) by simp
qed

end
