(* ===== verification/Usb_Skel.thy ===== *)
theory Usb_Skel
  imports Prelude
begin

text \<open>
  The USB driver \<open>usb/usb-skeleton.c\<close>: binding to an interface, its two bulk endpoints, the
  reference count that keeps the device structure alive while a file is open, reading, and
  writing through a request that completes later.

  The bus layer is represented by what the driver relies on: each device of the bus has a
  reference count, an interface carries one pointer of the driver's, and a minor number
  leads to the interface that was registered with it.  What an allocation, a transfer or a
  registration answers is an argument.
\<close>

unbundle bit_operations_syntax

section \<open>Data\<close>

record endpoint_descriptor =
  bEndpointAddress :: byte
  bmAttributes :: byte
  wMaxPacketSize :: "16 word"

record usb_skel =
  udev :: nat
  interface :: nat
  bulk_in_buffer :: ptr
  bulk_in_size :: nat
  bulk_in_endpointAddr :: byte
  bulk_out_endpointAddr :: byte
  kref :: nat

text \<open>A request: the fields \<open>usb_fill_bulk_urb\<close> sets and the callback reads.\<close>

record urb =
  urb_context :: ptr
  urb_dev :: nat
  urb_endpoint :: byte
  transfer_buffer :: ptr
  transfer_buffer_length :: nat

text \<open>
  The memory and the bus: device structures, blocks of \<open>kmalloc\<close>, blocks for direct memory
  access, requests in flight, the reference counts of the bus's devices, the pointer of each
  interface (\<open>usb_set_intfdata\<close>), and the interface registered for each minor number.
\<close>

record usb =
  skels :: "ptr \<rightharpoonup> usb_skel"
  bufs :: heap
  coherent :: heap
  urbs :: "ptr \<rightharpoonup> urb"
  udev_refs :: "nat \<Rightarrow> nat"
  intfdata :: "nat \<Rightarrow> ptr"
  minors :: "nat \<rightharpoonup> nat"

section \<open>Reference counts\<close>

definition usb_get_dev :: "usb \<Rightarrow> nat \<Rightarrow> usb" where
  "usb_get_dev s u = s\<lparr>udev_refs := (udev_refs s)(u := Suc (udev_refs s u))\<rparr>"

definition usb_put_dev :: "usb \<Rightarrow> nat \<Rightarrow> usb option" where
  "usb_put_dev s u =
     (if udev_refs s u = 0 then None
      else Some (s\<lparr>udev_refs := (udev_refs s)(u := udev_refs s u - 1)\<rparr>))"

definition skel_delete :: "usb \<Rightarrow> ptr \<Rightarrow> usb option" where
  "skel_delete s p =
     do { d \<leftarrow> skels s p;
          s1 \<leftarrow> usb_put_dev s (udev d);
          b \<leftarrow> kfree (bufs s1) (bulk_in_buffer d);
          Some (s1\<lparr>bufs := b, skels := (skels s1)(p := None)\<rparr>) }"

definition kref_get :: "usb \<Rightarrow> ptr \<Rightarrow> usb option" where
  "kref_get s p =
     do { d \<leftarrow> skels s p;
          Some (s\<lparr>skels := (skels s)(p \<mapsto> d\<lparr>kref := Suc (kref d)\<rparr>)\<rparr>) }"

definition kref_put :: "usb \<Rightarrow> ptr \<Rightarrow> usb option" where
  "kref_put s p =
     do { d \<leftarrow> skels s p;
          if kref d = 0 then None
          else if kref d = 1 then skel_delete s p
          else Some (s\<lparr>skels := (skels s)(p \<mapsto> d\<lparr>kref := kref d - 1\<rparr>)\<rparr>) }"

section \<open>Open and release\<close>

text \<open>A successful open returns the pointer it stores in the file's private data.\<close>

definition skel_open :: "usb \<Rightarrow> nat \<Rightarrow> (ptr ret \<times> usb) option" where
  "skel_open s subminor =
     (case minors s subminor of
        None \<Rightarrow> Some (Inl ENODEV, s)
      | Some i \<Rightarrow>
          if intfdata s i = NULL then Some (Inl ENODEV, s)
          else do { s' \<leftarrow> kref_get s (intfdata s i); Some (Inr (intfdata s i), s') })"

definition skel_release :: "usb \<Rightarrow> ptr \<Rightarrow> (unit ret \<times> usb) option" where
  "skel_release s p =
     (if p = NULL then Some (Inl ENODEV, s)
      else do { s' \<leftarrow> kref_put s p; Some (Inr (), s') })"

section \<open>Reading\<close>

text \<open>
  \<open>usb_bulk_msg\<close> answers an error, or the bytes that came from the endpoint, at most as many
  as asked for; it has put them at the start of the buffer.  Their number is stored through
  a pointer to \<open>int\<close> into the low half of \<open>count\<close> (the little-endian targets this code is
  built for).  \<open>nc\<close> is what \<open>copy_to_user\<close> could not copy.
\<close>

definition store_low_half :: "nat \<Rightarrow> nat \<Rightarrow> nat" where
  "store_low_half count n = count div 2 ^ 32 * 2 ^ 32 + n mod 2 ^ 32"

definition skel_read ::
  "usb \<Rightarrow> ptr \<Rightarrow> nat \<Rightarrow> (nat \<Rightarrow> byte list ret) \<Rightarrow> nat \<Rightarrow> (byte list ret \<times> usb) option" where
  "skel_read s p count bulk_msg nc =
     do { d \<leftarrow> skels s p;
          buf \<leftarrow> bufs s (bulk_in_buffer d);
          case bulk_msg (min (bulk_in_size d) count) of
            Inl e \<Rightarrow> Some (Inl e, s)
          | Inr data \<Rightarrow>
              do { buf' \<leftarrow> mem_write buf 0 data;
                   let s' = s\<lparr>bufs := (bufs s)(bulk_in_buffer d \<mapsto> buf')\<rparr>;
                   let count' = store_low_half count (length data);
                   out \<leftarrow> mem_read buf' 0 count';
                   Some (if nc > 0 then Inl EFAULT else Inr out, s') } }"

section \<open>Writing\<close>

definition usb_free_coherent :: "usb \<Rightarrow> nat \<Rightarrow> ptr \<Rightarrow> usb option" where
  "usb_free_coherent s n p =
     (if p = NULL then Some s
      else do { b \<leftarrow> coherent s p;
                if length b = n then Some (s\<lparr>coherent := (coherent s)(p := None)\<rparr>) else None })"

text \<open>
  The callback of a request that has completed with \<open>status\<close>: an unexpected status is
  reported, which reads the device structure, and the buffer is freed; the bus layer then
  lets the request go.
\<close>

definition skel_write_bulk_callback :: "usb \<Rightarrow> ptr \<Rightarrow> int \<Rightarrow> usb option" where
  "skel_write_bulk_callback s q status =
     do { r \<leftarrow> urbs s q;
          _ \<leftarrow> (if status \<noteq> 0 \<and> status \<notin> {- 2, - 104, - 108}
               then map_option (\<lambda>d. ()) (skels s (urb_context r)) else Some ());
          s' \<leftarrow> usb_free_coherent s (transfer_buffer_length r) (transfer_buffer r);
          Some (s'\<lparr>urbs := (urbs s')(q := None)\<rparr>) }"

text \<open>
  The error exit.  It reads \<open>urb->transfer_dma\<close>, so it is undefined when there is no
  request, and it passes the buffer to \<open>kfree\<close> after \<open>usb_free_coherent\<close>.
\<close>

definition skel_write_error :: "usb \<Rightarrow> ptr \<Rightarrow> ptr \<Rightarrow> nat \<Rightarrow> usb option" where
  "skel_write_error s q buf count =
     (if q = NULL then None
      else do { s1 \<leftarrow> usb_free_coherent s count buf;
                b \<leftarrow> kfree (bufs s1) buf;
                Some (s1\<lparr>bufs := b\<rparr>) })"

text \<open>
  \<open>q\<close> and \<open>buf\<close> are the addresses of the request and of its buffer, NULL for a failed
  allocation; \<open>nc\<close> is what \<open>copy_from_user\<close> could not copy and \<open>submit\<close> the error of
  \<open>usb_submit_urb\<close>, if any.
\<close>

definition skel_write ::
  "usb \<Rightarrow> ptr \<Rightarrow> byte list \<Rightarrow> ptr \<Rightarrow> ptr \<Rightarrow> nat \<Rightarrow> errno option \<Rightarrow> (nat ret \<times> usb) option" where
  "skel_write s p ub q buf nc submit =
     (let count = length ub;
          fail = (\<lambda>s1 e. do { s2 \<leftarrow> skel_write_error s1 q buf count; Some (Inl e, s2) })
      in if count = 0 then Some (Inr 0, s)
         else if q = NULL then fail s ENOMEM
         else do { d \<leftarrow> skels s p;
           if buf = NULL then fail s ENOMEM
           else let s1 = s\<lparr>coherent := (coherent s)(buf \<mapsto> user_bytes ub nc)\<rparr> in
           if nc > 0 then fail s1 EFAULT
           else let r = \<lparr>urb_context = p, urb_dev = udev d,
                         urb_endpoint = bulk_out_endpointAddr d, transfer_buffer = buf,
                         transfer_buffer_length = count mod 2 ^ 32\<rparr> in
           case submit of
             Some e \<Rightarrow> fail s1 e
           | None \<Rightarrow> Some (Inr count, s1\<lparr>urbs := (urbs s1)(q \<mapsto> r)\<rparr>) })"

section \<open>Binding and unbinding\<close>

definition endpoint_in :: "endpoint_descriptor \<Rightarrow> bool" where
  "endpoint_in e \<longleftrightarrow> bEndpointAddress e AND 0x80 \<noteq> 0"

definition endpoint_bulk :: "endpoint_descriptor \<Rightarrow> bool" where
  "endpoint_bulk e \<longleftrightarrow> bmAttributes e AND 0x03 = 2"

text \<open>The body of the loop over the endpoints, first the bulk-in and then the bulk-out case.\<close>

definition take_in :: "alloc \<Rightarrow> endpoint_descriptor \<Rightarrow> usb_skel \<Rightarrow> heap \<Rightarrow> bool \<times> usb_skel \<times> heap" where
  "take_in a e d b =
     (if bulk_in_endpointAddr d = 0 \<and> endpoint_in e \<and> endpoint_bulk e
      then (let buffer_size = unat (wMaxPacketSize e);
                (q, b') = kmalloc b a buffer_size
            in (q \<noteq> NULL, d\<lparr>bulk_in_size := buffer_size,
                bulk_in_endpointAddr := bEndpointAddress e, bulk_in_buffer := q\<rparr>, b'))
      else (True, d, b))"

definition take_out :: "endpoint_descriptor \<Rightarrow> usb_skel \<Rightarrow> usb_skel" where
  "take_out e d =
     (if bulk_out_endpointAddr d = 0 \<and> \<not> endpoint_in e \<and> endpoint_bulk e
      then d\<lparr>bulk_out_endpointAddr := bEndpointAddress e\<rparr> else d)"

fun scan_endpoints ::
  "alloc \<Rightarrow> endpoint_descriptor list \<Rightarrow> usb_skel \<Rightarrow> heap \<Rightarrow> bool \<times> usb_skel \<times> heap" where
  "scan_endpoints a [] d b = (True, d, b)"
| "scan_endpoints a (e # es) d b =
     (let (ok, d1, b1) = take_in a e d b
      in if ok then scan_endpoints a es (take_out e d1) b1 else (False, d1, b1))"

definition new_skel :: "nat \<Rightarrow> nat \<Rightarrow> usb_skel" where
  "new_skel u i = \<lparr>udev = u, interface = i, bulk_in_buffer = NULL, bulk_in_size = 0,
     bulk_in_endpointAddr = 0, bulk_out_endpointAddr = 0, kref = 1\<rparr>"

text \<open>
  \<open>p\<close> is the address of the new structure (NULL for a failure), \<open>a\<close> the outcome of the
  buffer's allocation (the loop makes at most one), \<open>u\<close> the bus's device of interface
  \<open>i\<close>, and \<open>reg\<close> the answer of \<open>usb_register_dev\<close> with the minor number it gives.
\<close>

definition skel_probe ::
  "usb \<Rightarrow> nat \<Rightarrow> nat \<Rightarrow> ptr \<Rightarrow> alloc \<Rightarrow> endpoint_descriptor list \<Rightarrow> nat ret \<Rightarrow>
     (unit ret \<times> usb) option" where
  "skel_probe s i u p a eps reg =
     (if p = NULL then Some (Inl ENOMEM, s)
      else let s1 = usb_get_dev s u;
               (ok, d, b) = scan_endpoints a eps (new_skel u i) (bufs s1);
               s2 = s1\<lparr>skels := (skels s1)(p \<mapsto> d), bufs := b\<rparr>
      in if \<not> (ok \<and> bulk_in_endpointAddr d \<noteq> 0 \<and> bulk_out_endpointAddr d \<noteq> 0)
         then do { s3 \<leftarrow> kref_put s2 p; Some (Inl ENOMEM, s3) }
         else case reg of
             Inl e \<Rightarrow> do { s3 \<leftarrow> kref_put (s2\<lparr>intfdata := (intfdata s2)(i := NULL)\<rparr>) p;
                          Some (Inl e, s3) }
           | Inr m \<Rightarrow> Some (Inr (), s2\<lparr>intfdata := (intfdata s2)(i := p),
                                       minors := (minors s2)(m \<mapsto> i)\<rparr>))"

definition usb_deregister_dev :: "usb \<Rightarrow> nat \<Rightarrow> usb" where
  "usb_deregister_dev s i =
     s\<lparr>minors := (\<lambda>m. if minors s m = Some i then None else minors s m)\<rparr>"

text \<open>
  Unbinding in two steps: between clearing the interface's pointer and
  \<open>usb_deregister_dev\<close>, which waits for an \<open>open\<close> that is running, other calls may run.
\<close>

definition disconnect_begin :: "usb \<Rightarrow> nat \<Rightarrow> ptr \<times> usb" where
  "disconnect_begin s i = (intfdata s i, s\<lparr>intfdata := (intfdata s)(i := NULL)\<rparr>)"

definition disconnect_end :: "usb \<Rightarrow> nat \<Rightarrow> ptr \<Rightarrow> usb option" where
  "disconnect_end s i p = kref_put (usb_deregister_dev s i) p"

definition skel_disconnect :: "usb \<Rightarrow> nat \<Rightarrow> usb option" where
  "skel_disconnect s i = (let (p, s') = disconnect_begin s i in disconnect_end s' i p)"

section \<open>What the reference count counts\<close>

text \<open>
  Whoever may still reach a device structure: an interface it is bound to, an open file, or
  an interface whose \<open>disconnect\<close> has taken the pointer but not yet given up the reference.
\<close>

datatype holder = Intf nat | File nat | Leaving nat

record usb_conf =
  bus :: usb
  files :: "nat \<rightharpoonup> ptr"
  leaving :: "nat \<rightharpoonup> ptr"

definition holders :: "usb_conf \<Rightarrow> ptr \<Rightarrow> holder set" where
  "holders c p = {Intf i | i. intfdata (bus c) i = p} \<union> {File f | f. files c f = Some p}
     \<union> {Leaving i | i. leaving c i = Some p}"

lemma holders_simps [simp]:
  "Intf i \<in> holders c p \<longleftrightarrow> intfdata (bus c) i = p"
  "File f \<in> holders c p \<longleftrightarrow> files c f = Some p"
  "Leaving i \<in> holders c p \<longleftrightarrow> leaving c i = Some p"
  by (auto simp: holders_def)

lemma holders_eqI:
  "(\<And>i. Intf i \<in> A \<longleftrightarrow> Intf i \<in> B) \<Longrightarrow> (\<And>f. File f \<in> A \<longleftrightarrow> File f \<in> B) \<Longrightarrow>
     (\<And>i. Leaving i \<in> A \<longleftrightarrow> Leaving i \<in> B) \<Longrightarrow> A = B"
  by (intro set_eqI) (metis holder.exhaust)

fun count_ok :: "usb_skel option \<Rightarrow> holder set \<Rightarrow> bool" where
  "count_ok None A \<longleftrightarrow> A = {}"
| "count_ok (Some d) A \<longleftrightarrow> finite A \<and> A \<noteq> {} \<and> kref d = card A"

definition refs_ok :: "(ptr \<rightharpoonup> usb_skel) \<Rightarrow> (ptr \<Rightarrow> holder set) \<Rightarrow> bool" where
  "refs_ok sk H \<longleftrightarrow> sk NULL = None \<and> (\<forall>p. p \<noteq> NULL \<longrightarrow> count_ok (sk p) (H p))"

lemma refs_okI:
  "sk NULL = None \<Longrightarrow> (\<And>p. p \<noteq> NULL \<Longrightarrow> count_ok (sk p) (H p)) \<Longrightarrow> refs_ok sk H"
  by (simp add: refs_ok_def)

lemma refs_ok_count: "refs_ok sk H \<Longrightarrow> p \<noteq> NULL \<Longrightarrow> count_ok (sk p) (H p)"
  by (simp add: refs_ok_def)

lemma refs_ok_NULL: "refs_ok sk H \<Longrightarrow> sk NULL = None"
  by (simp add: refs_ok_def)

lemma refs_okD:
  assumes "refs_ok sk H" "h \<in> H p" "p \<noteq> NULL"
  shows "\<exists>d. sk p = Some d \<and> finite (H p) \<and> kref d = card (H p) \<and> kref d > 0"
  using refs_ok_count[OF assms(1,3)] assms(2) by (cases "sk p") (auto simp: card_gt_0_iff)

lemma refs_ok_cong:
  assumes "refs_ok sk H" "\<And>q. q \<noteq> NULL \<Longrightarrow> H' q = H q"
  shows "refs_ok sk H'"
  using assms(1) by (auto simp: refs_ok_def assms(2))

lemma refs_ok_get:
  assumes ok: "refs_ok sk H" and p: "sk p = Some d" and h: "h \<notin> H p"
    and H': "\<And>q. q \<noteq> NULL \<Longrightarrow> H' q = (if q = p then insert h (H p) else H q)"
  shows "refs_ok (sk(p \<mapsto> d\<lparr>kref := Suc (kref d)\<rparr>)) H'"
proof (rule refs_okI)
  show "(sk(p \<mapsto> d\<lparr>kref := Suc (kref d)\<rparr>)) NULL = None"
    using refs_ok_NULL[OF ok] p by (cases p) auto
  fix q :: ptr assume q: "q \<noteq> NULL"
  show "count_ok ((sk(p \<mapsto> d\<lparr>kref := Suc (kref d)\<rparr>)) q) (H' q)"
    using refs_ok_count[OF ok q] p h by (auto simp: H'[OF q])
qed

lemma refs_ok_put:
  assumes ok: "refs_ok sk H" and h: "h \<in> H p" and p: "p \<noteq> NULL" "sk p = Some d"
    and H': "\<And>q. q \<noteq> NULL \<Longrightarrow> H' q = (if q = p then H p - {h} else H q)"
  shows "refs_ok (if kref d = 1 then sk(p := None) else sk(p \<mapsto> d\<lparr>kref := kref d - 1\<rparr>)) H'"
    (is "refs_ok ?sk _")
proof (rule refs_okI)
  show "?sk NULL = None" using ok p by (simp add: refs_ok_def)
  fix q :: ptr assume q: "q \<noteq> NULL"
  from refs_okD[OF ok h p(1)] p(2) have fin: "finite (H p)" and k: "kref d = card (H p)" by auto
  have "kref d = 1 \<longleftrightarrow> H p - {h} = {}"
    using k h fin by (auto simp: card_1_singleton_iff)
  then show "count_ok (?sk q) (H' q)"
    using refs_ok_count[OF ok q] fin k h by (simp add: H'[OF q])
qed

lemma refs_ok_new:
  assumes "refs_ok sk H" "sk p = None" "p \<noteq> NULL" "kref d = 1"
    and H': "\<And>q. q \<noteq> NULL \<Longrightarrow> H' q = (if q = p then {h} else H q)"
  shows "refs_ok (sk(p \<mapsto> d)) H'"
  using assms(1-4) by (auto simp: refs_ok_def H')

lemma refs_ok_swap:
  assumes ok: "refs_ok sk H" and h: "h \<in> H p" "h' \<notin> H p"
    and H': "\<And>q. q \<noteq> NULL \<Longrightarrow> H' q = (if q = p then insert h' (H p - {h}) else H q)"
  shows "refs_ok sk H'"
proof (rule refs_okI)
  show "sk NULL = None" using ok by (rule refs_ok_NULL)
next
  fix q :: ptr assume q: "q \<noteq> NULL"
  have "finite (H p) \<Longrightarrow> card (insert h' (H p - {h})) = card (H p)"
    using h by (metis Diff_iff card.remove card_insert_disjoint finite_Diff)
  then show "count_ok (sk q) (H' q)"
    using refs_ok_count[OF ok q] h(1) by (cases "sk q") (auto simp: H'[OF q])
qed

section \<open>The effect of the operations\<close>

lemma kref_put_cases:
  assumes "kref_put s p = Some s'"
  obtains d where "skels s p = Some d"
    "skels s' = (if kref d = 1 then (skels s)(p := None)
                 else (skels s)(p \<mapsto> d\<lparr>kref := kref d - 1\<rparr>))"
    "bufs s' = (if kref d = 1 \<and> bulk_in_buffer d \<noteq> NULL
                then (bufs s)(bulk_in_buffer d := None) else bufs s)"
    "udev_refs s' = (if kref d = 1 then (udev_refs s)(udev d := udev_refs s (udev d) - 1)
                     else udev_refs s)"
    "kref d = 1 \<Longrightarrow> udev_refs s (udev d) > 0"
    "coherent s' = coherent s" "urbs s' = urbs s" "intfdata s' = intfdata s" "minors s' = minors s"
  using assms
  by (auto simp: kref_put_def skel_delete_def usb_put_dev_def kfree_def
      split: bind_splits if_splits)

lemma kref_get_cases:
  assumes "kref_get s p = Some s'"
  obtains d where "skels s p = Some d" "s' = s\<lparr>skels := (skels s)(p \<mapsto> d\<lparr>kref := Suc (kref d)\<rparr>)\<rparr>"
  using assms by (auto simp: kref_get_def split: bind_splits)

text \<open>
  The scan of the endpoints: it only fills the fields of the endpoints, and allocates at
  most the one buffer.
\<close>

definition first_in :: "endpoint_descriptor list \<Rightarrow> endpoint_descriptor option" where
  "first_in eps = find (\<lambda>e. endpoint_in e \<and> endpoint_bulk e) eps"

definition first_out :: "endpoint_descriptor list \<Rightarrow> endpoint_descriptor option" where
  "first_out eps = find (\<lambda>e. \<not> endpoint_in e \<and> endpoint_bulk e \<and> bEndpointAddress e \<noteq> 0) eps"

lemma endpoint_in_nonzero: "endpoint_in e \<Longrightarrow> bEndpointAddress e \<noteq> 0"
  by (auto simp: endpoint_in_def)

lemma take_out_fields [simp]:
  "udev (take_out e d) = udev d" "interface (take_out e d) = interface d"
  "bulk_in_buffer (take_out e d) = bulk_in_buffer d" "bulk_in_size (take_out e d) = bulk_in_size d"
  "bulk_in_endpointAddr (take_out e d) = bulk_in_endpointAddr d" "kref (take_out e d) = kref d"
  by (simp_all add: take_out_def)

definition out_addr :: "byte \<Rightarrow> endpoint_descriptor list \<Rightarrow> byte" where
  "out_addr o1 eps =
     (if o1 \<noteq> 0 then o1 else case first_out eps of None \<Rightarrow> 0 | Some e \<Rightarrow> bEndpointAddress e)"

lemma out_addr_Nil [simp]: "out_addr o1 [] = o1"
  by (simp add: out_addr_def first_out_def)

lemma out_addr_step:
  "out_addr (bulk_out_endpointAddr (take_out e d)) eps = out_addr (bulk_out_endpointAddr d) (e # eps)"
  by (auto simp: take_out_def out_addr_def first_out_def)

lemma take_in_done [simp]: "bulk_in_endpointAddr d \<noteq> 0 \<Longrightarrow> take_in a e d b = (True, d, b)"
  by (simp add: take_in_def)

lemma take_in_skip: "\<not> (endpoint_in e \<and> endpoint_bulk e) \<Longrightarrow> take_in a e d b = (True, d, b)"
  by (auto simp: take_in_def)

lemma scan_in_done:
  assumes "bulk_in_endpointAddr d \<noteq> 0" "scan_endpoints a eps d b = (ok, d', b')"
  shows "ok \<and> b' = b \<and> udev d' = udev d \<and> interface d' = interface d \<and> kref d' = kref d \<and>
    bulk_in_buffer d' = bulk_in_buffer d \<and> bulk_in_size d' = bulk_in_size d \<and>
    bulk_in_endpointAddr d' = bulk_in_endpointAddr d \<and>
    bulk_out_endpointAddr d' = out_addr (bulk_out_endpointAddr d) eps"
  using assms
proof (induction eps arbitrary: d)
  case (Cons e eps)
  then show ?case
    using Cons.IH[of "take_out e d"] by (simp add: out_addr_step)
qed simp

lemma scan_endpoints_spec:
  assumes "bulk_in_endpointAddr d = 0" "scan_endpoints a eps d b = (ok, d', b')"
  shows "udev d' = udev d \<and> interface d' = interface d \<and> kref d' = kref d \<and>
    (ok \<longrightarrow> bulk_out_endpointAddr d' = out_addr (bulk_out_endpointAddr d) eps) \<and>
    (case first_in eps of
       None \<Rightarrow> ok \<and> b' = b \<and> bulk_in_buffer d' = bulk_in_buffer d \<and> bulk_in_endpointAddr d' = 0
     | Some e \<Rightarrow> (ok \<longleftrightarrow> addr a \<noteq> NULL) \<and> b' = snd (kmalloc b a (unat (wMaxPacketSize e))) \<and>
         bulk_in_buffer d' = addr a \<and> bulk_in_size d' = unat (wMaxPacketSize e) \<and>
         bulk_in_endpointAddr d' = bEndpointAddress e)"
  using assms
proof (induction eps arbitrary: d)
  case Nil
  then show ?case by (auto simp: first_in_def)
next
  case (Cons e eps)
  show ?case
  proof (cases "endpoint_in e \<and> endpoint_bulk e")
    case True
    define d1 where "d1 = d\<lparr>bulk_in_size := unat (wMaxPacketSize e),
      bulk_in_endpointAddr := bEndpointAddress e, bulk_in_buffer := addr a\<rparr>"
    have d1: "bulk_in_endpointAddr d1 \<noteq> 0" "bulk_in_endpointAddr (take_out e d1) \<noteq> 0"
      using True by (simp_all add: d1_def endpoint_in_nonzero)
    have f: "first_in (e # eps) = Some e" using True by (simp add: first_in_def)
    have step: "take_in a e d b = (addr a \<noteq> NULL, d1, snd (kmalloc b a (unat (wMaxPacketSize e))))"
      using True Cons.prems by (simp add: take_in_def d1_def kmalloc_def Let_def)
    have fields: "bulk_out_endpointAddr d1 = bulk_out_endpointAddr d"
      "bulk_in_buffer d1 = addr a" "bulk_in_size d1 = unat (wMaxPacketSize e)"
      "bulk_in_endpointAddr d1 = bEndpointAddress e" "udev d1 = udev d"
      "interface d1 = interface d" "kref d1 = kref d"
      by (simp_all add: d1_def)
    show ?thesis
    proof (cases "addr a = NULL")
      case True
      then have "d' = d1" "\<not> ok" "b' = snd (kmalloc b a (unat (wMaxPacketSize e)))"
        using Cons.prems step by auto
      with True show ?thesis by (simp add: f fields)
    next
      case False
      then have "scan_endpoints a eps (take_out e d1) (snd (kmalloc b a (unat (wMaxPacketSize e)))) = (ok, d', b')"
        using Cons.prems step by simp
      from scan_in_done[OF d1(2) this] False show ?thesis
        by (simp add: f fields out_addr_step)
    qed
  next
    case False
    then have "scan_endpoints a eps (take_out e d) b = (ok, d', b')"
      using Cons.prems by (simp add: take_in_skip)
    moreover have "first_in (e # eps) = first_in eps" using False by (auto simp: first_in_def)
    ultimately show ?thesis
      using Cons.IH[of "take_out e d"] Cons.prems(1) by (simp add: out_addr_step cong: option.case_cong)
  qed
qed

section \<open>Ownership of memory\<close>

text \<open>
  \<open>owns own h\<close>: each owner has one block of the given length to itself, and no block is
  without an owner.  It is used for the receive buffers of the devices and for the transfer
  buffers of the requests in flight.
\<close>

definition owns :: "(ptr \<rightharpoonup> ptr \<times> nat) \<Rightarrow> heap \<Rightarrow> bool" where
  "owns own h \<longleftrightarrow>
     (\<forall>x q n. own x = Some (q, n) \<longrightarrow> q \<noteq> NULL \<and> (\<exists>b. h q = Some b \<and> length b = n) \<and>
        (\<forall>y m. own y = Some (q, m) \<longrightarrow> y = x)) \<and>
     (\<forall>q b. h q = Some b \<longrightarrow> (\<exists>x n. own x = Some (q, n)))"

lemma ownsD:
  "owns own h \<Longrightarrow> own x = Some (q, n) \<Longrightarrow> q \<noteq> NULL \<and> (\<exists>b. h q = Some b \<and> length b = n)"
  by (auto simp: owns_def)

lemma owns_inj: "owns own h \<Longrightarrow> own x = Some (q, n) \<Longrightarrow> own y = Some (q, m) \<Longrightarrow> y = x"
  by (simp add: owns_def)

lemma owns_only: "owns own h \<Longrightarrow> h q = Some b \<Longrightarrow> \<exists>x n. own x = Some (q, n)"
  by (simp add: owns_def)

lemma owns_cong: "owns own h \<Longrightarrow> (\<And>x. own' x = own x) \<Longrightarrow> owns own' h"
  by (simp add: owns_def)

lemma ownsI:
  "(\<And>x q n. own x = Some (q, n) \<Longrightarrow> q \<noteq> NULL \<and> (\<exists>b. h q = Some b \<and> length b = n)) \<Longrightarrow>
     (\<And>x q n y m. own x = Some (q, n) \<Longrightarrow> own y = Some (q, m) \<Longrightarrow> y = x) \<Longrightarrow>
     (\<And>q b. h q = Some b \<Longrightarrow> \<exists>x n. own x = Some (q, n)) \<Longrightarrow> owns own h"
  unfolding owns_def by blast

lemma owns_new:
  assumes ok: "owns own h" and new: "own x = None" "h q = None" "q \<noteq> NULL" "length b = n"
    and own': "\<And>y. own' y = (if y = x then Some (q, n) else own y)"
  shows "owns own' (h(q \<mapsto> b))"
proof (rule ownsI)
  have notq: "own y \<noteq> Some (q, m)" for y m
    using ownsD[OF ok, of y q m] new(2) by auto
  show "p \<noteq> NULL \<and> (\<exists>b'. (h(q \<mapsto> b)) p = Some b' \<and> length b' = m)" if "own' y = Some (p, m)" for y p m
    using that new notq ownsD[OF ok, of y p m] by (auto simp: own' split: if_splits)
  show "z = y" if "own' y = Some (p, m)" "own' z = Some (p, k)" for y p m z k
    using that new notq owns_inj[OF ok, of y p m z k] by (auto simp: own' split: if_splits)
  show "\<exists>y m. own' y = Some (p, m)" if "(h(q \<mapsto> b)) p = Some b'" for p b'
  proof (cases "p = q")
    case False
    with that obtain y m where "own y = Some (p, m)" using owns_only[OF ok] by fastforce
    with new(1) show ?thesis by (intro exI[of _ y] exI[of _ m]) (auto simp: own')
  qed (auto simp: own')
qed

lemma owns_delete:
  assumes ok: "owns own h" and x: "own x = Some (q, n)"
    and own': "\<And>y. own' y = (if y = x then None else own y)"
  shows "owns own' (h(q := None))"
proof (rule ownsI)
  have notq: "y = x" if "own y = Some (q, m)" for y m
    using owns_inj[OF ok x that] .
  show "p \<noteq> NULL \<and> (\<exists>b. (h(q := None)) p = Some b \<and> length b = m)" if "own' y = Some (p, m)" for y p m
    using that notq[of y m] ownsD[OF ok, of y p m] by (auto simp: own' split: if_splits)
  show "z = y" if "own' y = Some (p, m)" "own' z = Some (p, k)" for y p m z k
    using that owns_inj[OF ok, of y p m z k] by (auto simp: own' split: if_splits)
  show "\<exists>y m. own' y = Some (p, m)" if "(h(q := None)) p = Some b" for p b
  proof -
    have p: "p \<noteq> q" "h p = Some b" using that by (auto split: if_splits)
    then obtain y m where "own y = Some (p, m)" using owns_only[OF ok] by blast
    with p x show ?thesis by (intro exI[of _ y] exI[of _ m]) (auto simp: own')
  qed
qed

lemma owns_write:
  assumes ok: "owns own h" and q: "h q = Some b" "length b' = length b"
  shows "owns own (h(q \<mapsto> b'))"
proof (rule ownsI)
  show "p \<noteq> NULL \<and> (\<exists>b''. (h(q \<mapsto> b')) p = Some b'' \<and> length b'' = m)" if "own y = Some (p, m)" for y p m
    using ownsD[OF ok that] q by auto
  show "z = y" if "own y = Some (p, m)" "own z = Some (p, k)" for y p m z k
    using that owns_inj[OF ok] by blast
  show "\<exists>y m. own y = Some (p, m)" if "(h(q \<mapsto> b')) p = Some b''" for p b''
    using that q owns_only[OF ok] by (cases "p = q") auto
qed

definition buf_owner :: "usb \<Rightarrow> ptr \<rightharpoonup> ptr \<times> nat" where
  "buf_owner s p = map_option (\<lambda>d. (bulk_in_buffer d, bulk_in_size d)) (skels s p)"

definition dma_owner :: "usb \<Rightarrow> ptr \<rightharpoonup> ptr \<times> nat" where
  "dma_owner s q = map_option (\<lambda>r. (transfer_buffer r, transfer_buffer_length r)) (urbs s q)"

text \<open>The bus's devices are referenced once for each device structure, beyond \<open>r0\<close>.\<close>

definition of_udev :: "(ptr \<rightharpoonup> usb_skel) \<Rightarrow> nat \<Rightarrow> ptr set" where
  "of_udev sk u = {p. \<exists>d. sk p = Some d \<and> udev d = u}"

definition udev_ok :: "(nat \<Rightarrow> nat) \<Rightarrow> usb \<Rightarrow> bool" where
  "udev_ok r0 s \<longleftrightarrow> finite (dom (skels s)) \<and>
     (\<forall>u. udev_refs s u = r0 u + card (of_udev (skels s) u))"

lemma of_udev_finite: "finite (dom sk) \<Longrightarrow> finite (of_udev sk u)"
  by (rule finite_subset[of _ "dom sk"]) (auto simp: of_udev_def)

lemma of_udev_upd:
  "of_udev (sk(p \<mapsto> d)) u = (if udev d = u then insert p (of_udev sk u) else of_udev sk u - {p})"
  by (auto simp: of_udev_def)

lemma of_udev_del: "of_udev (sk(p := None)) u = of_udev sk u - {p}"
  by (auto simp: of_udev_def)

lemma of_udev_mem: "p \<in> of_udev sk u \<longleftrightarrow> (\<exists>d. sk p = Some d \<and> udev d = u)"
  by (simp add: of_udev_def)

lemma of_udev_same: "sk p = Some d \<Longrightarrow> udev d' = udev d \<Longrightarrow> of_udev (sk(p \<mapsto> d')) u = of_udev sk u"
  by (auto simp: of_udev_def)

section \<open>The driver as a transition system\<close>

text \<open>
  One rule for each call the kernel can make, with its contract: a file is released once, an
  interface is bound while it is free and unbound while it is bound, an allocation returns an
  address that is not in use.  Reads and writes are made on open files; a write that fails
  after it has its request is left to \<open>skel_write_error_undefined\<close> below.
\<close>

definition in_use :: "usb \<Rightarrow> ptr \<Rightarrow> bool" where
  "in_use s p \<longleftrightarrow> skels s p \<noteq> None \<or> bufs s p \<noteq> None \<or> coherent s p \<noteq> None \<or> urbs s p \<noteq> None"

inductive usb_step :: "usb_conf \<Rightarrow> usb_conf \<Rightarrow> bool" where
  step_probe: "\<lbrakk>intfdata (bus c) i = NULL; leaving c i = None; p = NULL \<or> \<not> in_use (bus c) p;
      addr a = NULL \<or> \<not> in_use (bus c) (addr a) \<and> addr a \<noteq> p;
      skel_probe (bus c) i u p a eps reg = Some (r, s)\<rbrakk> \<Longrightarrow> usb_step c (c\<lparr>bus := s\<rparr>)"
| step_open: "\<lbrakk>files c f = None; skel_open (bus c) m = Some (Inr p, s)\<rbrakk> \<Longrightarrow>
      usb_step c (c\<lparr>bus := s, files := (files c)(f \<mapsto> p)\<rparr>)"
| step_open_fail: "skel_open (bus c) m = Some (Inl e, s) \<Longrightarrow> usb_step c (c\<lparr>bus := s\<rparr>)"
| step_release: "\<lbrakk>files c f = Some p; skel_release (bus c) p = Some (r, s)\<rbrakk> \<Longrightarrow>
      usb_step c (c\<lparr>bus := s, files := (files c)(f := None)\<rparr>)"
| step_read: "\<lbrakk>files c f = Some p; skel_read (bus c) p count bulk_msg nc = Some (r, s)\<rbrakk> \<Longrightarrow>
      usb_step c (c\<lparr>bus := s\<rparr>)"
| step_write: "\<lbrakk>files c f = Some p; length ub < 2 ^ 31; \<not> in_use (bus c) q; \<not> in_use (bus c) b;
      skel_write (bus c) p ub q b nc submit = Some (r, s)\<rbrakk> \<Longrightarrow> usb_step c (c\<lparr>bus := s\<rparr>)"
| step_complete: "skel_write_bulk_callback (bus c) q status = Some s \<Longrightarrow> usb_step c (c\<lparr>bus := s\<rparr>)"
| step_disconnect: "\<lbrakk>intfdata (bus c) i \<noteq> NULL; leaving c i = None;
      disconnect_begin (bus c) i = (p, s)\<rbrakk> \<Longrightarrow>
      usb_step c (c\<lparr>bus := s, leaving := (leaving c)(i \<mapsto> p)\<rparr>)"
| step_disconnected: "\<lbrakk>leaving c i = Some p; disconnect_end (bus c) i p = Some s\<rbrakk> \<Longrightarrow>
      usb_step c (c\<lparr>bus := s, leaving := (leaving c)(i := None)\<rparr>)"

text \<open>Before the first device is found: nothing allocated, \<open>r0\<close> the counts of the bus.\<close>

definition usb_start :: "(nat \<Rightarrow> nat) \<Rightarrow> usb_conf" where
  "usb_start r0 = \<lparr>bus = \<lparr>skels = Map.empty, bufs = Map.empty, coherent = Map.empty,
     urbs = Map.empty, udev_refs = r0, intfdata = (\<lambda>_. NULL), minors = Map.empty\<rparr>,
     files = Map.empty, leaving = Map.empty\<rparr>"

inductive usb_reach :: "(nat \<Rightarrow> nat) \<Rightarrow> usb_conf \<Rightarrow> bool" for r0 where
  reach_start: "usb_reach r0 (usb_start r0)"
| reach_step: "usb_reach r0 c \<Longrightarrow> usb_step c c' \<Longrightarrow> usb_reach r0 c'"

definition usb_inv :: "(nat \<Rightarrow> nat) \<Rightarrow> usb_conf \<Rightarrow> bool" where
  "usb_inv r0 c \<longleftrightarrow> refs_ok (skels (bus c)) (holders c) \<and>
     (\<forall>f. files c f \<noteq> Some NULL) \<and> (\<forall>i. leaving c i \<noteq> Some NULL) \<and>
     owns (buf_owner (bus c)) (bufs (bus c)) \<and> owns (dma_owner (bus c)) (coherent (bus c)) \<and>
     udev_ok r0 (bus c)"

lemma usb_invI:
  "refs_ok (skels (bus c)) (holders c) \<Longrightarrow> (\<And>f. files c f \<noteq> Some NULL) \<Longrightarrow>
     (\<And>i. leaving c i \<noteq> Some NULL) \<Longrightarrow> owns (buf_owner (bus c)) (bufs (bus c)) \<Longrightarrow>
     owns (dma_owner (bus c)) (coherent (bus c)) \<Longrightarrow> udev_ok r0 (bus c) \<Longrightarrow> usb_inv r0 c"
  by (simp add: usb_inv_def)

lemma usb_invD:
  assumes "usb_inv r0 c"
  shows "refs_ok (skels (bus c)) (holders c)" "files c f \<noteq> Some NULL" "leaving c i \<noteq> Some NULL"
    "owns (buf_owner (bus c)) (bufs (bus c))" "owns (dma_owner (bus c)) (coherent (bus c))"
    "udev_ok r0 (bus c)"
  using assms by (simp_all add: usb_inv_def)

lemma usb_inv_start: "usb_inv r0 (usb_start r0)"
proof (rule usb_invI)
  show "refs_ok (skels (bus (usb_start r0))) (holders (usb_start r0))"
    by (auto simp: refs_ok_def holders_def usb_start_def)
qed (simp_all add: usb_start_def owns_def buf_owner_def dma_owner_def udev_ok_def of_udev_def)

subsection \<open>Counting up and down\<close>

lemma kref_put_udev:
  assumes ok: "udev_ok r0 s" and put: "kref_put s p = Some s'"
  shows "udev_ok r0 s'"
  using put
proof (rule kref_put_cases)
  fix d
  assume d: "skels s p = Some d"
    and sk: "skels s' = (if kref d = 1 then (skels s)(p := None)
                 else (skels s)(p \<mapsto> d\<lparr>kref := kref d - 1\<rparr>))"
    and u: "udev_refs s' = (if kref d = 1 then (udev_refs s)(udev d := udev_refs s (udev d) - 1)
                     else udev_refs s)"
  show ?thesis
  proof (cases "kref d = 1")
    case True
    have fin: "finite (of_udev (skels s) (udev d))" and mem: "p \<in> of_udev (skels s) (udev d)"
      using ok d by (auto simp: udev_ok_def of_udev_mem intro: of_udev_finite)
    have "v \<noteq> udev d \<Longrightarrow> of_udev (skels s) v - {p} = of_udev (skels s) v" for v
      using d by (auto simp: of_udev_def)
    moreover have "card (of_udev (skels s) (udev d)) > 0" using fin mem by (auto simp: card_gt_0_iff)
    ultimately show ?thesis
      using ok True sk u fin mem by (auto simp: udev_ok_def of_udev_del card_Diff_singleton)
  next
    case False
    with ok d sk u show ?thesis by (simp add: udev_ok_def of_udev_same)
  qed
qed

lemma kref_put_buf:
  assumes ok: "owns (buf_owner s) (bufs s)" and put: "kref_put s p = Some s'"
  shows "owns (buf_owner s') (bufs s')"
  using put
proof (rule kref_put_cases)
  fix d
  assume d: "skels s p = Some d"
    and sk: "skels s' = (if kref d = 1 then (skels s)(p := None)
                 else (skels s)(p \<mapsto> d\<lparr>kref := kref d - 1\<rparr>))"
    and b: "bufs s' = (if kref d = 1 \<and> bulk_in_buffer d \<noteq> NULL
                then (bufs s)(bulk_in_buffer d := None) else bufs s)"
  have own: "buf_owner s p = Some (bulk_in_buffer d, bulk_in_size d)"
    using d by (simp add: buf_owner_def)
  then have "bulk_in_buffer d \<noteq> NULL" using ownsD[OF ok] by blast
  show ?thesis
  proof (cases "kref d = 1")
    case True
    then have "bufs s' = (bufs s)(bulk_in_buffer d := None)"
      using b \<open>bulk_in_buffer d \<noteq> NULL\<close> by simp
    moreover have "owns (buf_owner s') ((bufs s)(bulk_in_buffer d := None))"
      using True sk by (intro owns_delete[OF ok own]) (simp add: buf_owner_def)
    ultimately show ?thesis by simp
  next
    case False
    then have "bufs s' = bufs s" "\<And>x. buf_owner s' x = buf_owner s x"
      using b sk d by (simp_all add: buf_owner_def)
    with owns_cong[OF ok] show ?thesis by metis
  qed
qed

text \<open>Giving up one reference of \<open>p\<close> while its holder \<open>h\<close> goes away.\<close>

lemma kref_put_inv:
  assumes inv: "usb_inv r0 c" and h: "h \<in> holders c p" and p: "p \<noteq> NULL"
    and put: "kref_put s p = Some s'"
    and s: "skels s = skels (bus c)" "bufs s = bufs (bus c)" "coherent s = coherent (bus c)"
      "urbs s = urbs (bus c)" "udev_refs s = udev_refs (bus c)"
    and c': "bus c' = s'"
      "\<And>q. q \<noteq> NULL \<Longrightarrow> holders c' q = (if q = p then holders c p - {h} else holders c q)"
      "\<And>f. files c' f \<noteq> Some NULL" "\<And>i. leaving c' i \<noteq> Some NULL"
  shows "usb_inv r0 c'"
proof -
  note I = usb_invD[OF inv]
  have "buf_owner s = buf_owner (bus c)" "dma_owner s = dma_owner (bus c)"
    by (simp_all add: fun_eq_iff buf_owner_def dma_owner_def s)
  then have own: "owns (buf_owner s) (bufs s)" "owns (dma_owner s) (coherent s)" "udev_ok r0 s"
    using I by (simp_all add: s udev_ok_def)
  obtain d where d: "skels s p = Some d"
    and sk: "skels s' = (if kref d = 1 then (skels s)(p := None)
                 else (skels s)(p \<mapsto> d\<lparr>kref := kref d - 1\<rparr>))"
    and dma: "coherent s' = coherent s" "urbs s' = urbs s"
    using put by (rule kref_put_cases)
  have "refs_ok (skels (bus c')) (holders c')"
    unfolding c'(1) sk s(1) using d by (intro refs_ok_put[OF I(1) h p _ c'(2)]) (simp add: s)
  moreover have "dma_owner s' = dma_owner s" by (simp add: fun_eq_iff dma_owner_def dma)
  ultimately show ?thesis
    using c' own kref_put_buf[OF own(1) put] kref_put_udev[OF own(3) put]
    by (intro usb_invI) (simp_all add: dma)
qed

subsection \<open>Binding\<close>

lemma kref_put_undo:
  assumes "skels s p = None" "kref d = 1" "udev d = u"
    and "bulk_in_buffer d = NULL \<and> b = bufs s \<or>
      bulk_in_buffer d \<noteq> NULL \<and> bufs s (bulk_in_buffer d) = None \<and> b = (bufs s)(bulk_in_buffer d \<mapsto> x)"
  shows "kref_put ((usb_get_dev s u)\<lparr>skels := (skels s)(p \<mapsto> d), bufs := b\<rparr>) p = Some s"
proof -
  have "(skels s)(p := None) = skels s" using assms(1) by (simp add: fun_upd_idem)
  moreover have "bufs s (bulk_in_buffer d) = None \<Longrightarrow> (bufs s)(bulk_in_buffer d := None) = bufs s"
    by (simp add: fun_upd_idem)
  ultimately show ?thesis
    using assms by (auto simp: kref_put_def skel_delete_def usb_put_dev_def usb_get_dev_def kfree_def)
qed

lemma first_out_nonzero: "first_out eps = Some e \<Longrightarrow> bEndpointAddress e \<noteq> 0"
  by (auto simp: first_out_def find_Some_iff)

lemma out_addr_0: "out_addr 0 eps = 0 \<longleftrightarrow> first_out eps = None"
  "first_out eps = Some e \<Longrightarrow> out_addr 0 eps = bEndpointAddress e"
  by (auto simp: out_addr_def dest: first_out_nonzero split: option.splits)

text \<open>The state after a successful probe, with the two endpoints and the minor number.\<close>

definition attached ::
  "usb \<Rightarrow> nat \<Rightarrow> nat \<Rightarrow> ptr \<Rightarrow> alloc \<Rightarrow> endpoint_descriptor \<Rightarrow> endpoint_descriptor \<Rightarrow> nat \<Rightarrow> usb" where
  "attached s i u p a e eo m = s
     \<lparr>skels := (skels s)(p \<mapsto> \<lparr>udev = u, interface = i, bulk_in_buffer = addr a,
        bulk_in_size = unat (wMaxPacketSize e), bulk_in_endpointAddr = bEndpointAddress e,
        bulk_out_endpointAddr = bEndpointAddress eo, kref = 1\<rparr>),
      bufs := (bufs s)(addr a \<mapsto> map (junk a) [0..<unat (wMaxPacketSize e)]),
      udev_refs := (udev_refs s)(u := Suc (udev_refs s u)),
      intfdata := (intfdata s)(i := p), minors := (minors s)(m \<mapsto> i)\<rparr>"

lemma skel_probe_eq:
  assumes p: "p = NULL \<or> \<not> in_use s p" and a: "addr a = NULL \<or> \<not> in_use s (addr a)"
    and i: "intfdata s i = NULL"
  shows "skel_probe s i u p a eps reg =
    (if p = NULL then Some (Inl ENOMEM, s)
     else case first_in eps of
       None \<Rightarrow> Some (Inl ENOMEM, s)
     | Some e \<Rightarrow>
         case first_out eps of
           None \<Rightarrow> Some (Inl ENOMEM, s)
         | Some eo \<Rightarrow>
             if addr a = NULL then Some (Inl ENOMEM, s)
             else case reg of
               Inl err \<Rightarrow> Some (Inl err, s)
             | Inr m \<Rightarrow> Some (Inr (), attached s i u p a e eo m))"
proof (cases "p = NULL")
  case True
  then show ?thesis by (simp add: skel_probe_def)
next
  case False
  with p have new: "skels s p = None" by (simp add: in_use_def)
  obtain ok d b where scan: "scan_endpoints a eps (new_skel u i) (bufs s) = (ok, d, b)"
    by (metis prod_cases3)
  note S = scan_endpoints_spec[OF _ this, unfolded new_skel_def, simplified]
  have get: "bufs (usb_get_dev s u) = bufs s" "skels (usb_get_dev s u) = skels s"
    "intfdata (usb_get_dev s u) = intfdata s" "minors (usb_get_dev s u) = minors s"
    by (simp_all add: usb_get_dev_def)
  let ?s2 = "(usb_get_dev s u)\<lparr>skels := (skels s)(p \<mapsto> d), bufs := b\<rparr>"
  have keep: "?s2\<lparr>intfdata := (intfdata s)(i := NULL)\<rparr> = ?s2"
    using i by (simp add: fun_upd_idem usb_get_dev_def)
  have undo: "kref_put ?s2 p = Some s"
  proof (rule kref_put_undo[OF new, where x = "map (junk a) [0..<unat (wMaxPacketSize (the (first_in eps)))]"])
    show "bulk_in_buffer d = NULL \<and> b = bufs s \<or>
      bulk_in_buffer d \<noteq> NULL \<and> bufs s (bulk_in_buffer d) = None \<and>
        b = (bufs s)(bulk_in_buffer d \<mapsto> map (junk a) [0..<unat (wMaxPacketSize (the (first_in eps)))])"
      using S a by (cases "first_in eps") (auto simp: kmalloc_def in_use_def)
  qed (use S in simp_all)
  have out: "ok \<Longrightarrow> bulk_out_endpointAddr d = 0 \<longleftrightarrow> first_out eps = None"
    and out': "ok \<Longrightarrow> first_out eps = Some e \<Longrightarrow> bulk_out_endpointAddr d = bEndpointAddress e" for e
    using S by (simp_all add: out_addr_0)
  show ?thesis
  proof (cases "first_in eps")
    case None
    then show ?thesis
      using False scan S undo by (simp add: skel_probe_def get)
  next
    case (Some e)
    then have nz: "bEndpointAddress e \<noteq> 0"
      by (auto simp: first_in_def find_Some_iff endpoint_in_nonzero)
    show ?thesis
    proof (cases "addr a = NULL \<or> first_out eps = None")
      case True
      then show ?thesis
        using False Some scan S undo out by (auto simp: skel_probe_def get split: option.splits)
    next
      case out_ok: False
      then obtain eo where eo: "first_out eps = Some eo" by auto
      have "d = \<lparr>udev = u, interface = i, bulk_in_buffer = addr a,
                bulk_in_size = unat (wMaxPacketSize e), bulk_in_endpointAddr = bEndpointAddress e,
                bulk_out_endpointAddr = bEndpointAddress eo, kref = 1\<rparr>"
        using S Some out_ok out'[OF _ eo] by (intro usb_skel.equality) simp_all
      then show ?thesis
        using False Some scan S undo out out_ok nz keep eo
        by (auto simp: skel_probe_def get usb_get_dev_def kmalloc_def attached_def split: sum.splits)
    qed
  qed
qed

subsection \<open>Every step keeps the invariant\<close>

lemma step_probe_inv:
  assumes inv: "usb_inv r0 c" and i: "intfdata (bus c) i = NULL" "leaving c i = None"
    and p: "p = NULL \<or> \<not> in_use (bus c) p"
    and a: "addr a = NULL \<or> \<not> in_use (bus c) (addr a)"
    and probe: "skel_probe (bus c) i u p a eps reg = Some (r, s)"
  shows "usb_inv r0 (c\<lparr>bus := s\<rparr>)"
proof (cases "r = Inr ()")
  case False
  then have "s = bus c"
    using probe unfolding skel_probe_eq[OF p a i(1)]
    by (auto split: option.splits if_splits sum.splits)
  then show ?thesis using inv by simp
next
  case True
  note I = usb_invD[OF inv]
  from True probe obtain e eo m where pa: "p \<noteq> NULL" "addr a \<noteq> NULL"
    and s: "s = attached (bus c) i u p a e eo m"
    unfolding skel_probe_eq[OF p a i(1)]
    by (auto split: option.splits if_splits sum.splits)
  define d where "d = \<lparr>udev = u, interface = i, bulk_in_buffer = addr a,
                bulk_in_size = unat (wMaxPacketSize e), bulk_in_endpointAddr = bEndpointAddress e,
                bulk_out_endpointAddr = bEndpointAddress eo, kref = 1\<rparr>"
  have sk: "skels s = (skels (bus c))(p \<mapsto> d)" by (simp add: s attached_def d_def)
  have d: "kref d = 1" "udev d = u" "bulk_in_buffer d = addr a"
    "bulk_in_size d = unat (wMaxPacketSize e)" by (simp_all add: d_def)
  have b: "bufs s = (bufs (bus c))(addr a \<mapsto> map (junk a) [0..<unat (wMaxPacketSize e)])"
    and u: "udev_refs s = (udev_refs (bus c))(u := Suc (udev_refs (bus c) u))"
    and f: "intfdata s = (intfdata (bus c))(i := p)"
    and dma: "coherent s = coherent (bus c)" "urbs s = urbs (bus c)"
    by (simp_all add: s attached_def)
  have new: "skels (bus c) p = None" "bufs (bus c) (addr a) = None"
    using p a pa by (auto simp: in_use_def)
  have "holders c p = {}"
    using refs_ok_count[OF I(1) pa(1)] new(1) by simp
  have hold: "holders (c\<lparr>bus := s\<rparr>) q = (if q = p then {Intf i} else holders c q)" if "q \<noteq> NULL" for q
    using that i \<open>holders c p = {}\<close> pa(1)
    by (intro holders_eqI) (auto simp: f holders_def)
  have refs: "refs_ok (skels s) (holders (c\<lparr>bus := s\<rparr>))"
    unfolding sk by (rule refs_ok_new[OF I(1) new(1) pa(1) d(1)]) (rule hold)
  have bo: "owns (buf_owner s) (bufs s)"
    unfolding b by (rule owns_new[OF I(4), of p]) (auto simp: buf_owner_def new pa sk d)
  have do: "dma_owner s = dma_owner (bus c)" by (simp add: fun_eq_iff dma_owner_def dma)
  have "p \<notin> of_udev (skels (bus c)) v" for v using new(1) by (simp add: of_udev_def)
  then have ud: "udev_ok r0 s"
    using I(6) by (auto simp: udev_ok_def sk u of_udev_upd d of_udev_finite)
  from refs bo ud show ?thesis
    using I(2,3,5) by (intro usb_invI) (simp_all add: do dma)
qed

lemma skel_open_cases:
  assumes "skel_open s m = Some (Inr p, s')"
  obtains i where "minors s m = Some i" "p = intfdata s i" "p \<noteq> NULL" "kref_get s p = Some s'"
  using assms by (auto simp: skel_open_def split: option.splits if_splits bind_splits)

lemma step_open_inv:
  assumes inv: "usb_inv r0 c" and f: "files c f = None"
    and open1: "skel_open (bus c) m = Some (Inr p, s)"
  shows "usb_inv r0 (c\<lparr>bus := s, files := (files c)(f \<mapsto> p)\<rparr>)"
proof -
  note I = usb_invD[OF inv]
  from open1 obtain i where p: "p = intfdata (bus c) i" "p \<noteq> NULL" and get: "kref_get (bus c) p = Some s"
    by (rule skel_open_cases)
  from get obtain d where d: "skels (bus c) p = Some d"
    and s: "s = (bus c)\<lparr>skels := (skels (bus c))(p \<mapsto> d\<lparr>kref := Suc (kref d)\<rparr>)\<rparr>"
    by (rule kref_get_cases)
  let ?c = "c\<lparr>bus := s, files := (files c)(f \<mapsto> p)\<rparr>"
  have hold: "holders ?c q = (if q = p then insert (File f) (holders c p) else holders c q)" for q
    using f by (intro holders_eqI) (auto simp: s holders_def)
  have "refs_ok (skels s) (holders ?c)"
    using refs_ok_get[OF I(1) d, of "File f" "holders ?c"] f hold by (simp add: s)
  moreover have "buf_owner s = buf_owner (bus c)" "dma_owner s = dma_owner (bus c)"
    by (auto simp: fun_eq_iff buf_owner_def dma_owner_def s d)
  moreover have "udev_ok r0 s"
    using I(6) d by (auto simp: udev_ok_def s of_udev_same insert_absorb domI)
  ultimately show ?thesis
    using I(2-5) p(2) by (intro usb_invI) (auto simp: s)
qed

lemma step_open_fail: "skel_open s m = Some (Inl e, s') \<Longrightarrow> s' = s"
  by (auto simp: skel_open_def split: option.splits if_splits bind_splits)

lemma step_release_inv:
  assumes inv: "usb_inv r0 c" and f: "files c f = Some p"
    and rel: "skel_release (bus c) p = Some (r, s)"
  shows "usb_inv r0 (c\<lparr>bus := s, files := (files c)(f := None)\<rparr>)"
proof -
  note I = usb_invD[OF inv]
  have p: "p \<noteq> NULL" using I(2)[of f] f by auto
  with rel have put: "kref_put (bus c) p = Some s"
    by (auto simp: skel_release_def split: bind_splits if_splits)
  have keep: "intfdata s = intfdata (bus c)" using put by (rule kref_put_cases)
  show ?thesis
  proof (rule kref_put_inv[OF inv _ p put, of "File f"])
    show "holders (c\<lparr>bus := s, files := (files c)(f := None)\<rparr>) q =
        (if q = p then holders c p - {File f} else holders c q)" for q
      using f by (intro holders_eqI) (auto simp: keep holders_def)
  qed (use f I(2,3) in auto)
qed

lemma step_disconnect_inv:
  assumes inv: "usb_inv r0 c" and i: "intfdata (bus c) i \<noteq> NULL" "leaving c i = None"
    and dis: "disconnect_begin (bus c) i = (p, s)"
  shows "usb_inv r0 (c\<lparr>bus := s, leaving := (leaving c)(i \<mapsto> p)\<rparr>)"
proof -
  note I = usb_invD[OF inv]
  have p: "p = intfdata (bus c) i" and s: "s = (bus c)\<lparr>intfdata := (intfdata (bus c))(i := NULL)\<rparr>"
    using dis by (simp_all add: disconnect_begin_def)
  let ?c = "c\<lparr>bus := s, leaving := (leaving c)(i \<mapsto> p)\<rparr>"
  have hold: "holders ?c q = (if q = p then insert (Leaving i) (holders c p - {Intf i}) else holders c q)"
    if "q \<noteq> NULL" for q
    using that i by (intro holders_eqI) (auto simp: s p holders_def)
  have "refs_ok (skels (bus c)) (holders ?c)"
    using refs_ok_swap[OF I(1), of "Intf i" p "Leaving i" "holders ?c"] i hold by (simp add: p)
  moreover have "buf_owner s = buf_owner (bus c)" "dma_owner s = dma_owner (bus c)"
    by (simp_all add: fun_eq_iff buf_owner_def dma_owner_def s)
  ultimately show ?thesis
    using I(2-6) i by (intro usb_invI) (auto simp: s p udev_ok_def)
qed

lemma step_disconnected_inv:
  assumes inv: "usb_inv r0 c" and l: "leaving c i = Some p"
    and dis: "disconnect_end (bus c) i p = Some s"
  shows "usb_inv r0 (c\<lparr>bus := s, leaving := (leaving c)(i := None)\<rparr>)"
proof -
  note I = usb_invD[OF inv]
  have p: "p \<noteq> NULL" using I(3)[of i] l by auto
  have put: "kref_put (usb_deregister_dev (bus c) i) p = Some s"
    using dis by (simp add: disconnect_end_def)
  have keep: "intfdata s = intfdata (bus c)"
    using put by (rule kref_put_cases) (simp add: usb_deregister_dev_def)
  show ?thesis
  proof (rule kref_put_inv[OF inv _ p put, of "Leaving i"])
    show "holders (c\<lparr>bus := s, leaving := (leaving c)(i := None)\<rparr>) q =
        (if q = p then holders c p - {Leaving i} else holders c q)" for q
      using l by (intro holders_eqI) (auto simp: keep holders_def)
  qed (use l I(2,3) in \<open>auto simp: usb_deregister_dev_def\<close>)
qed

text \<open>Steps that leave the structures and their holders alone.\<close>

lemma usb_inv_keep:
  assumes inv: "usb_inv r0 c" and s: "skels s = skels (bus c)" "intfdata s = intfdata (bus c)"
      "udev_refs s = udev_refs (bus c)"
    and own: "owns (buf_owner (bus c)) (bufs s)" "owns (dma_owner s) (coherent s)"
  shows "usb_inv r0 (c\<lparr>bus := s\<rparr>)"
proof -
  note I = usb_invD[OF inv]
  have "holders (c\<lparr>bus := s\<rparr>) = holders c" by (simp add: fun_eq_iff holders_def s)
  moreover have "buf_owner s = buf_owner (bus c)" by (simp add: fun_eq_iff buf_owner_def s)
  ultimately show ?thesis
    using I own by (intro usb_invI) (simp_all add: s udev_ok_def)
qed

lemma skel_read_state:
  assumes "skel_read s p count bulk_msg nc = Some (r, s')"
  shows "s' = s \<or> (\<exists>q buf buf'. bufs s q = Some buf \<and> length buf' = length buf \<and>
    s' = s\<lparr>bufs := (bufs s)(q \<mapsto> buf')\<rparr>)"
proof -
  from assms obtain d buf where d: "skels s p = Some d" and buf: "bufs s (bulk_in_buffer d) = Some buf"
    by (auto simp: skel_read_def split: bind_splits)
  show ?thesis
  proof (cases "bulk_msg (min (bulk_in_size d) count)")
    case (Inl e)
    then show ?thesis using assms d buf by (simp add: skel_read_def)
  next
    case (Inr data)
    with assms d buf obtain buf' where "mem_write buf 0 data = Some buf'"
      "s' = s\<lparr>bufs := (bufs s)(bulk_in_buffer d \<mapsto> buf')\<rparr>"
      by (auto simp: skel_read_def Let_def split: bind_splits)
    then show ?thesis using buf mem_write_length by blast
  qed
qed

lemma step_read_inv:
  assumes inv: "usb_inv r0 c" and rd: "skel_read (bus c) p count bulk_msg nc = Some (r, s)"
  shows "usb_inv r0 (c\<lparr>bus := s\<rparr>)"
  using skel_read_state[OF rd]
proof (elim disjE exE conjE)
  assume "s = bus c"
  then show ?thesis using inv by simp
next
  note I = usb_invD[OF inv]
  fix q buf buf'
  assume q: "bufs (bus c) q = Some buf" "length buf' = length buf"
    and s: "s = (bus c)\<lparr>bufs := (bufs (bus c))(q \<mapsto> buf')\<rparr>"
  have "dma_owner s = dma_owner (bus c)" by (simp add: fun_eq_iff dma_owner_def s)
  then show ?thesis using owns_write[OF I(4) q] I(5) by (intro usb_inv_keep[OF inv]) (simp_all add: s)
qed

lemma skel_write_error_spec:
  assumes "skel_write_error s q buf count = Some s'" "buf = NULL \<or> bufs s buf = None"
  shows "buf = NULL \<and> s' = s"
  using assms
  by (auto simp: skel_write_error_def usb_free_coherent_def kfree_def split: if_splits bind_splits)

text \<open>A write that is defined either queued its data or left everything as it was.\<close>

definition queued :: "usb \<Rightarrow> usb_skel \<Rightarrow> ptr \<Rightarrow> byte list \<Rightarrow> ptr \<Rightarrow> ptr \<Rightarrow> usb" where
  "queued s d p ub q b = s\<lparr>coherent := (coherent s)(b \<mapsto> ub), urbs := (urbs s)(q \<mapsto>
      \<lparr>urb_context = p, urb_dev = udev d, urb_endpoint = bulk_out_endpointAddr d,
       transfer_buffer = b, transfer_buffer_length = length ub\<rparr>)\<rparr>"

lemma skel_write_cases:
  assumes wr: "skel_write s p ub q b nc submit = Some (r, s')" and b: "\<not> in_use s b"
    and len: "length ub < 2 ^ 31"
  shows "s' = s \<or> (\<exists>d. skels s p = Some d \<and> b \<noteq> NULL \<and> r = Inr (length ub) \<and> s' = queued s d p ub q b)"
proof -
  have nb: "bufs s b = None" "bufs (s\<lparr>coherent := x\<rparr>) b = None" for x
    using b by (simp_all add: in_use_def)
  show ?thesis
    using wr len unfolding skel_write_def Let_def
    by (auto simp: nb queued_def split: if_splits bind_splits option.splits dest!: skel_write_error_spec)
qed

lemma step_write_inv:
  assumes inv: "usb_inv r0 c" and len: "length ub < 2 ^ 31" and q: "\<not> in_use (bus c) q"
    and b: "\<not> in_use (bus c) b" and wr: "skel_write (bus c) p ub q b nc submit = Some (r, s)"
  shows "usb_inv r0 (c\<lparr>bus := s\<rparr>)"
  using skel_write_cases[OF wr b len]
proof (elim disjE exE conjE)
  assume "s = bus c"
  then show ?thesis using inv by simp
next
  note I = usb_invD[OF inv]
  fix d
  assume b0: "b \<noteq> NULL" and s: "s = queued (bus c) d p ub q b"
  have "owns (dma_owner s) ((coherent (bus c))(b \<mapsto> ub))"
    using q b b0 by (intro owns_new[OF I(5), of q]) (auto simp: dma_owner_def in_use_def s queued_def)
  then show ?thesis using I(4) by (intro usb_inv_keep[OF inv]) (simp_all add: s queued_def)
qed

lemma step_complete_inv:
  assumes inv: "usb_inv r0 c" and cb: "skel_write_bulk_callback (bus c) q status = Some s"
  shows "usb_inv r0 (c\<lparr>bus := s\<rparr>)"
proof -
  note I = usb_invD[OF inv]
  from cb obtain r s1 where r: "urbs (bus c) q = Some r"
    and s1: "usb_free_coherent (bus c) (transfer_buffer_length r) (transfer_buffer r) = Some s1"
    and s: "s = s1\<lparr>urbs := (urbs s1)(q := None)\<rparr>"
    by (auto simp: skel_write_bulk_callback_def split: bind_splits)
  have own: "dma_owner (bus c) q = Some (transfer_buffer r, transfer_buffer_length r)"
    using r by (simp add: dma_owner_def)
  have s1': "s1 = (bus c)\<lparr>coherent := (coherent (bus c))(transfer_buffer r := None)\<rparr>"
    using s1 ownsD[OF I(5) own] by (auto simp: usb_free_coherent_def split: bind_splits if_splits)
  have "owns (dma_owner s) ((coherent (bus c))(transfer_buffer r := None))"
    by (rule owns_delete[OF I(5) own]) (simp add: dma_owner_def s s1')
  then show ?thesis using I(4) by (intro usb_inv_keep[OF inv]) (simp_all add: s s1')
qed

inductive_cases usb_stepE: "usb_step c c'"

lemma usb_step_inv [inv_intros]:
  assumes "usb_step c c'" "usb_inv r0 c"
  shows "usb_inv r0 c'"
  using assms
proof (cases rule: usb_step.cases)
  case (step_open_fail m e s)
  then show ?thesis using assms(2) Usb_Skel.step_open_fail by fastforce
next
  case step_probe
  then show ?thesis using assms(2) step_probe_inv by blast
next
  case step_open
  then show ?thesis using assms(2) step_open_inv by blast
next
  case step_release
  then show ?thesis using assms(2) step_release_inv by blast
next
  case step_read
  then show ?thesis using assms(2) step_read_inv by blast
next
  case step_write
  then show ?thesis using assms(2) step_write_inv by blast
next
  case step_complete
  then show ?thesis using assms(2) step_complete_inv by blast
next
  case step_disconnect
  then show ?thesis using assms(2) step_disconnect_inv by blast
next
  case step_disconnected
  then show ?thesis using assms(2) step_disconnected_inv by blast
qed

lemma usb_reach_inv: "usb_reach r0 c \<Longrightarrow> usb_inv r0 c"
  by (induction rule: usb_reach.induct) (auto intro: usb_inv_start usb_step_inv)

subsection \<open>The operations are defined wherever they can be called\<close>

lemma kref_put_defined:
  assumes inv: "usb_inv r0 c" and h: "h \<in> holders c p" and p: "p \<noteq> NULL"
    and s: "skels s = skels (bus c)" "bufs s = bufs (bus c)" "udev_refs s = udev_refs (bus c)"
  shows "kref_put s p \<noteq> None"
proof -
  note I = usb_invD[OF inv]
  obtain d where d: "skels (bus c) p = Some d" and k: "kref d > 0"
    using refs_okD[OF I(1) h p] by auto
  have "buf_owner (bus c) p = Some (bulk_in_buffer d, bulk_in_size d)"
    using d by (simp add: buf_owner_def)
  then obtain b where "bulk_in_buffer d \<noteq> NULL" "bufs (bus c) (bulk_in_buffer d) = Some b"
    using ownsD[OF I(4)] by blast
  moreover have "udev_refs (bus c) (udev d) > 0"
  proof -
    have "p \<in> of_udev (skels (bus c)) (udev d)" using d by (simp add: of_udev_mem)
    then have "card (of_udev (skels (bus c)) (udev d)) > 0"
      using I(6) by (auto simp: card_gt_0_iff udev_ok_def intro: of_udev_finite)
    then show ?thesis using I(6) by (simp add: udev_ok_def)
  qed
  ultimately show ?thesis
    using d k s by (simp add: kref_put_def skel_delete_def usb_put_dev_def kfree_def)
qed

lemma skel_read_spec:
  assumes d: "skels s p = Some d" and buf: "bufs s (bulk_in_buffer d) = Some buf"
    and size1: "length buf = bulk_in_size d" and count: "count < 2 ^ 32"
    and msg: "\<And>n data. bulk_msg n = Inr data \<Longrightarrow> length data \<le> n"
  shows "\<exists>s'. skel_read s p count bulk_msg nc = Some
     (case bulk_msg (min (bulk_in_size d) count) of
        Inl e \<Rightarrow> Inl e | Inr data \<Rightarrow> if nc > 0 then Inl EFAULT else Inr data, s')"
proof (cases "bulk_msg (min (bulk_in_size d) count)")
  case (Inl e)
  then show ?thesis using d buf by (simp add: skel_read_def)
next
  case (Inr data)
  have len: "length data \<le> bulk_in_size d" "length data \<le> count" using msg[OF Inr] by simp_all
  then have low: "store_low_half count (length data) = length data"
    using count by (simp add: store_low_half_def)
  have wr: "mem_write buf 0 data = Some (data @ drop (length data) buf)"
    using len size1 by (simp add: mem_write_def)
  have rd: "mem_read (data @ drop (length data) buf) 0 (length data) = Some data"
    by (simp add: mem_read_def)
  show ?thesis using d buf Inr by (simp add: skel_read_def low wr rd)
qed

section \<open>Correctness of the driver\<close>

text \<open>A concrete device with one bulk endpoint each way, bound and opened once.\<close>

definition demo_eps :: "endpoint_descriptor list" where
  "demo_eps = [\<lparr>bEndpointAddress = 0x83, bmAttributes = 3, wMaxPacketSize = 8\<rparr>,
     \<lparr>bEndpointAddress = 0x81, bmAttributes = 2, wMaxPacketSize = 4\<rparr>,
     \<lparr>bEndpointAddress = 0x02, bmAttributes = 2, wMaxPacketSize = 4\<rparr>]"

definition demo_bound :: usb_conf where
  "demo_bound = (usb_start (\<lambda>_. 1))\<lparr>bus := attached (bus (usb_start (\<lambda>_. 1))) 0 0 1
     \<lparr>addr = 2, junk = (\<lambda>_. 0)\<rparr> (demo_eps ! 1) (demo_eps ! 2) 192\<rparr>"

definition demo_open :: usb_conf where
  "demo_open = demo_bound
     \<lparr>bus := the (kref_get (bus demo_bound) 1), files := [0 \<mapsto> 1]\<rparr>"

lemma demo_endpoints: "first_in demo_eps = Some (demo_eps ! 1)" "first_out demo_eps = Some (demo_eps ! 2)"
  by (simp_all add: first_in_def first_out_def demo_eps_def endpoint_in_def endpoint_bulk_def)

lemma demo_bound_reach: "usb_reach (\<lambda>_. 1) demo_bound"
proof (rule usb_reach.reach_step[OF usb_reach.reach_start])
  show "usb_step (usb_start (\<lambda>_. 1)) demo_bound"
    unfolding demo_bound_def
  proof (rule usb_step.step_probe)
    show "skel_probe (bus (usb_start (\<lambda>_. 1))) 0 0 1 \<lparr>addr = 2, junk = (\<lambda>_. 0)\<rparr> demo_eps (Inr 192)
        = Some (Inr (), attached (bus (usb_start (\<lambda>_. 1))) 0 0 1
            \<lparr>addr = 2, junk = (\<lambda>_. 0)\<rparr> (demo_eps ! 1) (demo_eps ! 2) 192)"
      by (subst skel_probe_eq) (simp_all add: demo_endpoints usb_start_def in_use_def)
  qed (simp_all add: usb_start_def in_use_def)
qed

lemma demo_open_reach: "usb_reach (\<lambda>_. 1) demo_open"
proof (rule usb_reach.reach_step[OF demo_bound_reach])
  have "usb_step demo_bound (demo_bound\<lparr>bus := the (kref_get (bus demo_bound) 1),
      files := (files demo_bound)(0 \<mapsto> 1)\<rparr>)"
    by (rule usb_step.step_open[where m = 192])
       (simp_all add: demo_bound_def attached_def usb_start_def skel_open_def kref_get_def)
  then show "usb_step demo_bound demo_open"
    by (simp add: demo_open_def demo_bound_def usb_start_def)
qed

text \<open>
  C28: At every moment of every run of the driver, with probing, opening, closing, reading,
  writing, completing and unbinding in any order, the reference count of a device structure
  is the number of interfaces, unbinding calls and open files that hold it, which is
  positive; and a pointer that is held leads to a structure that is still allocated.
\<close>

theorem skel_count_exact:
  assumes "usb_reach r0 c"
  shows "(\<forall>p d. skels (bus c) p = Some d \<longrightarrow> kref d = card (holders c p) \<and> kref d > 0) \<and>
    (\<forall>h p. h \<in> holders c p \<longrightarrow> p \<noteq> NULL \<longrightarrow> skels (bus c) p \<noteq> None)"
proof (intro conjI allI impI)
  have ok: "refs_ok (skels (bus c)) (holders c)" using usb_reach_inv[OF assms] by (rule usb_invD)
  fix p d assume d: "skels (bus c) p = Some d"
  then have "p \<noteq> NULL" using refs_ok_NULL[OF ok] by (cases p) auto
  then have "count_ok (Some d) (holders c p)" using refs_ok_count[OF ok] d by metis
  then show "kref d = card (holders c p)" "kref d > 0" by (auto simp: card_gt_0_iff)
next
  have ok: "refs_ok (skels (bus c)) (holders c)" using usb_reach_inv[OF assms] by (rule usb_invD)
  fix h p assume "h \<in> holders c p" "p \<noteq> NULL"
  then show "skels (bus c) p \<noteq> None" using refs_okD[OF ok] by fastforce
qed

theorem skel_count_exact_witness:
  "card (holders demo_open 1) = 2"
proof -
  have "\<exists>d. skels (bus demo_open) 1 = Some d \<and> kref d = 2"
    by (simp add: demo_open_def demo_bound_def attached_def usb_start_def kref_get_def)
  with skel_count_exact[OF demo_open_reach] show ?thesis by metis
qed

text \<open>
  C29: Which calls of the kernel on the driver are defined, in every state a run reaches: opening, for
  every minor number; reading and closing, for every open file (with a count the system call
  layer passes and a transfer that respects its length); writing to an open file, with such a
  count, when there is a request and either no buffer or neither the copy nor the submission
  fails; binding an interface that is free, with allocations that succeed or not; the end of an
  unbinding that has begun; and the completion of a request, exactly when its status is not
  reported or the device structure is still there.  The other failures of a write are undefined
  (\<open>skel_write_error_undefined\<close>).
\<close>

theorem skel_calls_defined:
  assumes "usb_reach r0 c"
  shows "skel_open (bus c) m \<noteq> None \<and>
    (\<forall>f p. files c f = Some p \<longrightarrow> skel_release (bus c) p \<noteq> None \<and>
       (count < 2 ^ 31 \<longrightarrow> (\<forall>n data. msg n = Inr data \<longrightarrow> length data \<le> n) \<longrightarrow>
          skel_read (bus c) p count msg nc \<noteq> None) \<and>
       (\<forall>ub q b submit. length ub < 2 ^ 31 \<longrightarrow> q \<noteq> NULL \<longrightarrow> b = NULL \<or> nc = 0 \<and> submit = None \<longrightarrow>
          skel_write (bus c) p ub q b nc submit \<noteq> None)) \<and>
    (\<forall>i u p a eps reg. intfdata (bus c) i = NULL \<longrightarrow> p = NULL \<or> \<not> in_use (bus c) p \<longrightarrow>
       addr a = NULL \<or> \<not> in_use (bus c) (addr a) \<longrightarrow> skel_probe (bus c) i u p a eps reg \<noteq> None) \<and>
    (\<forall>i p. leaving c i = Some p \<longrightarrow> disconnect_end (bus c) i p \<noteq> None) \<and>
    (\<forall>q r. urbs (bus c) q = Some r \<longrightarrow>
       (skel_write_bulk_callback (bus c) q status \<noteq> None \<longleftrightarrow>
        status \<in> {0, - 2, - 104, - 108} \<or> skels (bus c) (urb_context r) \<noteq> None))"
proof (intro conjI allI impI)
  have inv: "usb_inv r0 c" using assms by (rule usb_reach_inv)
  note I = usb_invD[OF inv]
  show "skel_open (bus c) m \<noteq> None"
  proof (cases "minors (bus c) m")
    case (Some i)
    have "\<exists>d. skels (bus c) (intfdata (bus c) i) = Some d" if "intfdata (bus c) i \<noteq> NULL"
      using refs_okD[OF I(1), of "Intf i"] that by auto
    with Some show ?thesis by (auto simp: skel_open_def kref_get_def)
  qed (simp add: skel_open_def)
  {
    fix f p assume f: "files c f = Some p"
    then have h: "File f \<in> holders c p" and p: "p \<noteq> NULL" using I(2)[of f] by auto
    show "skel_release (bus c) p \<noteq> None"
      using kref_put_defined[OF inv h p, of "bus c"] p by (auto simp: skel_release_def)
    assume "count < 2 ^ 31" "\<forall>n data. msg n = Inr data \<longrightarrow> length data \<le> n"
    moreover obtain d where d: "skels (bus c) p = Some d" using refs_okD[OF I(1) h p] by auto
    moreover obtain b where "bufs (bus c) (bulk_in_buffer d) = Some b" "length b = bulk_in_size d"
      using ownsD[OF I(4), of p "bulk_in_buffer d" "bulk_in_size d"] d by (auto simp: buf_owner_def)
    ultimately show "skel_read (bus c) p count msg nc \<noteq> None"
      using skel_read_spec[of "bus c" p d b count msg nc] by auto
  next
    fix f p ub q b and submit :: "errno option"
    assume f: "files c f = Some p" and q: "q \<noteq> NULL" "b = NULL \<or> nc = 0 \<and> submit = None"
    then have "File f \<in> holders c p" "p \<noteq> NULL" using I(2)[of f] by auto
    then obtain d where "skels (bus c) p = Some d" using refs_okD[OF I(1)] by blast
    then show "skel_write (bus c) p ub q b nc submit \<noteq> None"
      using q by (auto simp: skel_write_def skel_write_error_def usb_free_coherent_def kfree_def Let_def)
  }
  {
    fix i u p eps reg and a :: alloc
    assume "intfdata (bus c) i = NULL" "p = NULL \<or> \<not> in_use (bus c) p" "addr a = NULL \<or> \<not> in_use (bus c) (addr a)"
    then show "skel_probe (bus c) i u p a eps reg \<noteq> None"
      by (subst skel_probe_eq) (auto split: option.splits sum.splits)
  }
  {
    fix i p assume l: "leaving c i = Some p"
    then have h: "Leaving i \<in> holders c p" and p: "p \<noteq> NULL" using I(3)[of i] by auto
    show "disconnect_end (bus c) i p \<noteq> None"
      unfolding disconnect_end_def
      by (rule kref_put_defined[OF inv h p]) (simp_all add: usb_deregister_dev_def)
  }
  fix q r assume r: "urbs (bus c) q = Some r"
  then have "dma_owner (bus c) q = Some (transfer_buffer r, transfer_buffer_length r)"
    by (simp add: dma_owner_def)
  from ownsD[OF I(5) this] r show "skel_write_bulk_callback (bus c) q status \<noteq> None \<longleftrightarrow>
      status \<in> {0, - 2, - 104, - 108} \<or> skels (bus c) (urb_context r) \<noteq> None"
    by (cases "skels (bus c) (urb_context r)") (auto simp: skel_write_bulk_callback_def usb_free_coherent_def)
qed

theorem skel_calls_defined_witness:
  "skel_release (bus demo_open) 1 \<noteq> None \<and>
   skel_read (bus demo_open) 1 4 (\<lambda>n. Inr (replicate (min n 3) 7)) 0 \<noteq> None"
  using skel_calls_defined[OF demo_open_reach, of 0 4 "\<lambda>n. Inr (replicate (min n 3) 7)" 0 0]
  by (simp add: demo_open_def)

text \<open>
  Nothing is lost and nothing is freed early: once no interface is bound, no unbinding is
  under way and no file is open, every device structure and every receive buffer has been
  freed and the reference counts of the bus's devices are what they were at the start; and
  once no request is in flight no transfer buffer is left either.
\<close>

theorem skel_all_released:
  assumes "usb_reach r0 c" "\<forall>p. p \<noteq> NULL \<longrightarrow> holders c p = {}"
  shows "skels (bus c) = Map.empty \<and> bufs (bus c) = Map.empty \<and> udev_refs (bus c) = r0 \<and>
    (urbs (bus c) = Map.empty \<longrightarrow> coherent (bus c) = Map.empty)"
proof -
  have inv: "usb_inv r0 c" using assms(1) by (rule usb_reach_inv)
  note I = usb_invD[OF inv]
  have sk: "skels (bus c) p = None" for p
    using refs_ok_count[OF I(1), of p] refs_ok_NULL[OF I(1)] assms(2)
    by (cases "p = NULL"; cases "skels (bus c) p") auto
  have "bufs (bus c) q = None" for q
    using owns_only[OF I(4), of q] sk by (cases "bufs (bus c) q") (auto simp: buf_owner_def)
  moreover have "coherent (bus c) q = None" if "urbs (bus c) = Map.empty" for q
    using owns_only[OF I(5), of q] that by (cases "coherent (bus c) q") (auto simp: dma_owner_def)
  ultimately show ?thesis
    using I(6) sk by (auto simp: fun_eq_iff udev_ok_def of_udev_def)
qed

theorem skel_all_released_witness:
  "bufs (bus (usb_start (\<lambda>_. 3))) = Map.empty \<and> udev_refs (bus (usb_start (\<lambda>_. 3))) = (\<lambda>_. 3)"
  using skel_all_released[OF usb_reach.reach_start, of "\<lambda>_. 3"]
  by (auto simp: holders_def usb_start_def)

text \<open>
  Binding takes the first bulk-in and the first bulk-out endpoint of the interface and
  gives the new structure one reference; when an endpoint is missing, an allocation fails or
  no minor number can be had, it fails and leaves memory, reference counts and the interface
  as they were.
\<close>

theorem skel_probe_spec:
  assumes "p \<noteq> NULL" "\<not> in_use s p" "\<not> in_use s (addr a)" "intfdata s i = NULL"
  shows "skel_probe s i u p a eps reg =
    (case (first_in eps, first_out eps, reg) of
       (Some e, Some eo, Inr m) \<Rightarrow>
         if addr a = NULL then Some (Inl ENOMEM, s) else Some (Inr (), attached s i u p a e eo m)
     | (Some e, Some eo, Inl err) \<Rightarrow> Some (Inl (if addr a = NULL then ENOMEM else err), s)
     | _ \<Rightarrow> Some (Inl ENOMEM, s))"
  using assms by (subst skel_probe_eq) (auto split: option.splits sum.splits)

theorem skel_probe_spec_witness:
  "skel_probe (bus (usb_start (\<lambda>_. 1))) 0 0 1 \<lparr>addr = 2, junk = (\<lambda>_. 0)\<rparr> demo_eps (Inr 192)
     = Some (Inr (), bus demo_bound) \<and>
   skel_probe (bus (usb_start (\<lambda>_. 1))) 0 0 1 \<lparr>addr = 2, junk = (\<lambda>_. 0)\<rparr> (take 2 demo_eps) (Inr 192)
     = Some (Inl ENOMEM, bus (usb_start (\<lambda>_. 1)))"
proof -
  let ?s = "bus (usb_start (\<lambda>_. 1))" and ?a = "\<lparr>addr = 2, junk = (\<lambda>_. 0 :: byte)\<rparr>"
  have "first_out (take 2 demo_eps) = None"
    by (simp add: first_out_def demo_eps_def endpoint_in_def endpoint_bulk_def)
  then show ?thesis
    using skel_probe_spec[of 1 ?s ?a 0 0 demo_eps "Inr 192"]
      skel_probe_spec[of 1 ?s ?a 0 0 "take 2 demo_eps" "Inr 192"]
    by (simp add: demo_endpoints demo_bound_def in_use_def usb_start_def split: option.splits)
qed

text \<open>
  A write queues exactly the user's bytes for the bulk-out endpoint and returns their
  number, and the completion of the request, whatever quiet status it reports, gives the
  buffer back and leaves the driver as it was before the write.
\<close>

theorem skel_write_round_trip:
  assumes d: "skels s p = Some d" and q: "q \<noteq> NULL" "\<not> in_use s q" and b: "b \<noteq> NULL" "\<not> in_use s b"
    and len: "0 < length ub" "length ub < 2 ^ 31" and st: "status \<in> {0, - 2, - 104, - 108}"
  shows "\<exists>s' r. skel_write s p ub q b 0 None = Some (Inr (length ub), s') \<and>
    urbs s' q = Some r \<and> urb_endpoint r = bulk_out_endpointAddr d \<and>
    coherent s' (transfer_buffer r) = Some ub \<and> transfer_buffer_length r = length ub \<and>
    skel_write_bulk_callback s' q status = Some s"
proof -
  have none: "coherent s b = None" "urbs s q = None" using q b by (simp_all add: in_use_def)
  have wr: "skel_write s p ub q b 0 None = Some (Inr (length ub), queued s d p ub q b)"
    using assms by (simp add: skel_write_def queued_def Let_def)
  have "(coherent s)(b := None) = coherent s" "(urbs s)(q := None) = urbs s"
    using none by (simp_all add: fun_upd_idem)
  then have "skel_write_bulk_callback (queued s d p ub q b) q status = Some s"
    using b st by (auto simp: skel_write_bulk_callback_def queued_def usb_free_coherent_def)
  with wr show ?thesis by (auto simp: queued_def)
qed

theorem skel_write_round_trip_witness:
  "\<exists>s'. skel_write (bus demo_open) 1 [5, 6] 3 4 0 None = Some (Inr 2, s') \<and>
     skel_write_bulk_callback s' 3 0 = Some (bus demo_open)"
proof -
  have "\<exists>d. skels (bus demo_open) 1 = Some d" "\<not> in_use (bus demo_open) 3" "\<not> in_use (bus demo_open) 4"
    by (simp_all add: demo_open_def demo_bound_def attached_def usb_start_def kref_get_def in_use_def)
  then show ?thesis
    using skel_write_round_trip[of "bus demo_open" 1 _ 3 4 "[5, 6]" 0] by fastforce
qed

text \<open>
  C30: Every failure of a write after its first check is undefined, but for one: without a
  request the error exit reads through NULL, and when the copy or the submission fails it
  frees the transfer buffer a second time, with the wrong function.  Only a failed
  allocation of the buffer is reported.
\<close>

theorem skel_write_error_undefined:
  assumes "skels s p \<noteq> None" "ub \<noteq> []" "\<not> in_use s b"
  shows "skel_write s p ub NULL b nc submit = None \<and>
    (q \<noteq> NULL \<longrightarrow> b \<noteq> NULL \<longrightarrow> nc > 0 \<or> submit \<noteq> None \<longrightarrow> skel_write s p ub q b nc submit = None) \<and>
    (q \<noteq> NULL \<longrightarrow> skel_write s p ub q NULL nc submit = Some (Inl ENOMEM, s))"
  using assms
  by (auto simp: skel_write_def skel_write_error_def usb_free_coherent_def kfree_def in_use_def Let_def)

theorem skel_write_error_undefined_witness:
  "skel_write (bus demo_open) 1 [5] 0 0 0 None = None \<and> skel_write (bus demo_open) 1 [5] 3 4 1 None = None \<and>
   skel_write (bus demo_open) 1 [5] 3 4 0 (Some EIO) = None"
  using skel_write_error_undefined[of "bus demo_open" 1 "[5]" 4 0 "Some EIO" 3]
    skel_write_error_undefined[of "bus demo_open" 1 "[5]" 4 1 None 3]
    skel_write_error_undefined[of "bus demo_open" 1 "[5]" 0 0 None 3]
  by (simp add: demo_open_def demo_bound_def attached_def usb_start_def kref_get_def in_use_def)

text \<open>
  Reading through the low half of \<open>count\<close>: beyond 32 bits, which the system call layer does
  not pass, the high half stays and the copy leaves the receive buffer.
\<close>

lemma skel_read_high_half_undefined:
  assumes "skels s p = Some d" "bufs s (bulk_in_buffer d) = Some buf" "length buf = bulk_in_size d"
    and "bulk_in_size d < 2 ^ 16" "2 ^ 32 \<le> count" "bulk_msg (min (bulk_in_size d) count) = Inr data"
  shows "skel_read s p count bulk_msg nc = None"
proof -
  have "count div 2 ^ 32 \<ge> 1" using assms(5) by (simp add: div_greater_zero_iff Suc_le_eq)
  then have "store_low_half count (length data) \<ge> 2 ^ 32" by (simp add: store_low_half_def)
  moreover have "mem_write buf 0 data = Some buf' \<Longrightarrow> length buf' < 2 ^ 16" for buf'
    using assms(3,4) by (simp add: mem_write_length)
  ultimately show ?thesis
    using assms by (fastforce simp: skel_read_def mem_read_def Let_def split: bind_splits)
qed

end
