(* ===== verification/Silly.thy ===== *)
theory Silly
  imports Prelude
begin

text \<open>
  The module \<open>misc-modules/silly.c\<close>: reading and writing the ISA memory between 640k and 1M
  with accesses of 8, 16 or 32 bits or by block copies, according to the minor number.

  The window is a function from offsets to bytes with explicit bounds: an access outside it is
  undefined.  It is treated as memory, for which a wide access is the bytes it covers in
  little-endian order.  The buffer of a call lives on the kernel heap.
\<close>

unbundle bit_operations_syntax

section \<open>The window\<close>

abbreviation (input) ISA_BASE :: int where "ISA_BASE \<equiv> 0xA0000"
abbreviation (input) ISA_MAX :: int where "ISA_MAX \<equiv> 0x100000"

type_synonym window = "int \<Rightarrow> byte"

definition io_read :: "window \<Rightarrow> int \<Rightarrow> nat \<Rightarrow> byte list option" where
  "io_read io add n =
     (if 0 \<le> add \<and> add + int n \<le> ISA_MAX - ISA_BASE
      then Some (map (\<lambda>i. io (add + int i)) [0..<n]) else None)"

definition io_write8 :: "window \<Rightarrow> int \<Rightarrow> byte \<Rightarrow> window option" where
  "io_write8 io add x = (if 0 \<le> add \<and> add < ISA_MAX - ISA_BASE then Some (io(add := x)) else None)"

section \<open>Choosing the access\<close>

text \<open>The minor numbers: \<open>M_8\<close>, \<open>M_16\<close>, \<open>M_32\<close> and \<open>M_memcpy\<close>.\<close>

datatype silly_mode = M_8 | M_16 | M_32 | M_memcpy | M_none

definition silly_minor :: "nat \<Rightarrow> silly_mode" where
  "silly_minor m = (if m = 0 then M_8 else if m = 1 then M_16 else if m = 2 then M_32
     else if m = 3 then M_memcpy else M_none)"

definition silly_downgrade :: "silly_mode \<Rightarrow> int \<Rightarrow> int \<Rightarrow> silly_mode" where
  "silly_downgrade mode isa_addr count =
     (let mode1 = (if mode = M_32 \<and> (isa_addr OR count) AND 3 \<noteq> 0 then M_16 else mode)
      in if mode1 = M_16 \<and> (isa_addr OR count) AND 1 \<noteq> 0 then M_8 else mode1)"

text \<open>The address and the count of a call, in the arithmetic of \<open>unsigned long\<close>.\<close>

definition silly_addr :: "int \<Rightarrow> int" where
  "silly_addr pos = u64 (ISA_BASE + pos)"

definition silly_count :: "int \<Rightarrow> int \<Rightarrow> int" where
  "silly_count pos count =
     (if ISA_MAX < u64 (silly_addr pos + count) then u64 (ISA_MAX - silly_addr pos) else count)"

section \<open>Reading\<close>

text \<open>The loops of the three access widths \<open>w\<close>, and the block copy.\<close>

fun silly_in :: "nat \<Rightarrow> window \<Rightarrow> int \<Rightarrow> nat \<Rightarrow> nat \<Rightarrow> byte list \<Rightarrow> byte list option" where
  "silly_in w io add p count kbuf =
     (if 0 < w \<and> w \<le> count
      then do { x \<leftarrow> io_read io add w;
                k \<leftarrow> mem_write kbuf p x;
                silly_in w io (add + int w) (p + w) (count - w) k }
      else Some kbuf)"

declare silly_in.simps [simp del]

definition silly_transfer_in :: "silly_mode \<Rightarrow> window \<Rightarrow> int \<Rightarrow> nat \<Rightarrow> byte list \<Rightarrow> byte list option option" where
  "silly_transfer_in mode io add count kbuf =
     (case mode of
        M_32 \<Rightarrow> map_option Some (silly_in 4 io add 0 count kbuf)
      | M_16 \<Rightarrow> map_option Some (silly_in 2 io add 0 count kbuf)
      | M_8 \<Rightarrow> map_option Some (silly_in 1 io add 0 count kbuf)
      | M_memcpy \<Rightarrow> do { x \<leftarrow> io_read io add count; k \<leftarrow> mem_write kbuf 0 x; Some (Some k) }
      | M_none \<Rightarrow> Some None)"

text \<open>
  The value, the bytes the user receives, the file position and the heap.  The check for a
  negative count is the source's; \<open>count\<close> is unsigned there.
\<close>

definition silly_read ::
  "heap \<Rightarrow> alloc \<Rightarrow> window \<Rightarrow> nat \<Rightarrow> int \<Rightarrow> int \<Rightarrow> bool \<Rightarrow> (int ret \<times> byte list \<times> int \<times> heap) option" where
  "silly_read h a io minor pos count0 copied =
     (let isa_addr = silly_addr pos; count = silly_count pos count0
      in if count < 0 then Some (Inr 0, [], pos, h)
         else let (p, h1) = kmalloc h a (nat count)
         in if p = NULL then Some (Inl ENOMEM, [], pos, h1)
            else do {
              let retval = s32 count;
              kbuf \<leftarrow> h1 p;
              t \<leftarrow> silly_transfer_in (silly_downgrade (silly_minor minor) isa_addr count) io
                     (isa_addr - ISA_BASE) (nat count) kbuf;
              case t of
                None \<Rightarrow> Some (Inl EINVAL, [], pos, h1)
              | Some k \<Rightarrow> do {
                  out \<leftarrow> (if 0 < retval then mem_read k 0 (nat retval) else Some []);
                  h2 \<leftarrow> kfree (h1(p \<mapsto> k)) p;
                  if 0 < retval \<and> \<not> copied then Some (Inl EFAULT, [], pos - 14, h2)
                  else Some (Inr retval, out, pos + retval, h2) } })"

section \<open>Writing\<close>

text \<open>The loops of all three widths use \<open>iowrite8\<close>: of each word only the low byte is put out.\<close>

fun silly_out :: "nat \<Rightarrow> window \<Rightarrow> int \<Rightarrow> nat \<Rightarrow> nat \<Rightarrow> byte list \<Rightarrow> window option" where
  "silly_out w io add p count kbuf =
     (if 0 < w \<and> w \<le> count
      then do { x \<leftarrow> mem_read kbuf p w;
                io' \<leftarrow> io_write8 io add (hd x);
                silly_out w io' (add + int w) (p + w) (count - w) kbuf }
      else Some io)"

declare silly_out.simps [simp del]

text \<open>\<open>memcpy_toio\<close> stores every byte.\<close>

definition memcpy_toio :: "window \<Rightarrow> int \<Rightarrow> byte list \<Rightarrow> window option" where
  "memcpy_toio io add xs =
     (if 0 \<le> add \<and> add + int (length xs) \<le> ISA_MAX - ISA_BASE
      then Some (\<lambda>i. if add \<le> i \<and> i < add + int (length xs) then xs ! nat (i - add) else io i)
      else None)"

definition silly_transfer_out :: "silly_mode \<Rightarrow> window \<Rightarrow> int \<Rightarrow> nat \<Rightarrow> byte list \<Rightarrow> window option option" where
  "silly_transfer_out mode io add count kbuf =
     (case mode of
        M_32 \<Rightarrow> map_option Some (silly_out 4 io add 0 count kbuf)
      | M_16 \<Rightarrow> map_option Some (silly_out 2 io add 0 count kbuf)
      | M_8 \<Rightarrow> map_option Some (silly_out 1 io add 0 count kbuf)
      | M_memcpy \<Rightarrow> do { x \<leftarrow> mem_read kbuf 0 count; io' \<leftarrow> memcpy_toio io add x; Some (Some io') }
      | M_none \<Rightarrow> Some None)"

text \<open>\<open>rawio\<close> is the caller's capability; \<open>ub\<close> the user's buffer, of which \<open>nc\<close> bytes fail.\<close>

definition silly_write ::
  "heap \<Rightarrow> alloc \<Rightarrow> window \<Rightarrow> bool \<Rightarrow> nat \<Rightarrow> int \<Rightarrow> byte list \<Rightarrow> nat \<Rightarrow>
     (int ret \<times> window \<times> int \<times> heap) option" where
  "silly_write h a io rawio minor pos ub nc =
     (if \<not> rawio then Some (Inl EPERM, io, pos, h)
      else let isa_addr = silly_addr pos; count = silly_count pos (int (length ub))
      in if count < 0 then Some (Inr 0, io, pos, h)
         else let (p, h1) = kmalloc h a (nat count)
         in if p = NULL then Some (Inl ENOMEM, io, pos, h1)
            else do {
              let retval = s32 count;
              let mode = silly_downgrade (silly_minor minor) isa_addr count;
              if 0 < nc then do { h2 \<leftarrow> kfree h1 p; Some (Inl EFAULT, io, pos, h2) }
              else do {
                x \<leftarrow> mem_read ub 0 (nat count);
                t \<leftarrow> silly_transfer_out mode io (isa_addr - ISA_BASE) (nat count) x;
                case t of
                  None \<Rightarrow> Some (Inl EINVAL, io, pos, h1(p \<mapsto> x))
                | Some io' \<Rightarrow> do {
                    h2 \<leftarrow> kfree (h1(p \<mapsto> x)) p;
                    Some (Inr retval, io', pos + retval, h2) } } })"

section \<open>Start and end\<close>

text \<open>
  Registration answers an error or the major number it gives; the result is the value, the
  major number kept and whether the window is mapped.  The answer of \<open>ioremap\<close> is not looked
  at.
\<close>

definition silly_init :: "int \<Rightarrow> int ret \<Rightarrow> unit ret \<times> int \<times> bool" where
  "silly_init silly_major reg =
     (case reg of
        Inl e \<Rightarrow> (Inl e, silly_major, False)
      | Inr m \<Rightarrow> (Inr (), if silly_major = 0 then m else silly_major, True))"

section \<open>Facts\<close>

lemma or_and_3: "(a OR b) AND 3 = 0 \<longleftrightarrow> a mod 4 = 0 \<and> b mod 4 = (0::int)"
proof -
  have "x AND 3 = x mod 4" for x :: int
    using take_bit_eq_mask[of 2 x] by (simp add: take_bit_eq_mod mask_eq_exp_minus_1)
  moreover have "(a OR b) AND 3 = (a AND 3) OR (b AND 3)" by (simp add: bit.conj_disj_distrib2)
  ultimately show ?thesis by (simp add: or_eq_0_iff)
qed

lemma or_and_1: "(a OR b) AND 1 = 0 \<longleftrightarrow> a mod 2 = 0 \<and> b mod 2 = (0::int)"
proof -
  have "x AND 1 = x mod 2" for x :: int by (simp add: and_one_eq)
  moreover have "(a OR b) AND 1 = (a AND 1) OR (b AND 1)" by (simp add: bit.conj_disj_distrib2)
  ultimately show ?thesis by (simp add: or_eq_0_iff)
qed

lemma downgrade_aligned:
  "silly_downgrade mode isa count = M_32 \<Longrightarrow> 4 dvd isa \<and> 4 dvd count"
  "silly_downgrade mode isa count = M_16 \<Longrightarrow> 2 dvd isa \<and> 2 dvd count"
  by (auto simp: silly_downgrade_def Let_def or_and_3 or_and_1 mod_eq_0_iff_dvd split: if_splits)

lemma downgrade_some: "silly_downgrade mode isa count = M_none \<longleftrightarrow> mode = M_none"
  "silly_downgrade mode isa count = M_memcpy \<longleftrightarrow> mode = M_memcpy"
  by (auto simp: silly_downgrade_def Let_def)

text \<open>Inside the window the count is cut at its end.\<close>

lemma silly_count_inside:
  assumes "0 \<le> pos" "pos \<le> 0x60000" "0 \<le> count" "count < 2 ^ 31"
  shows "silly_addr pos = ISA_BASE + pos" "silly_count pos count = min count (0x60000 - pos)"
  using assms by (auto simp: silly_addr_def silly_count_def min_def)

lemma silly_in_spec:
  assumes "0 < w" "w dvd count" "0 \<le> add" "add + int count \<le> 0x60000" "p + count \<le> length kbuf"
  shows "silly_in w io add p count kbuf =
    Some (take p kbuf @ map (\<lambda>i. io (add + int i)) [0..<count] @ drop (p + count) kbuf)"
  using assms
proof (induction w io add p count kbuf rule: silly_in.induct)
  case (1 w io add p count kbuf)
  show ?case
  proof (cases "count = 0")
    case True
    with 1(2) show ?thesis by (subst silly_in.simps) simp
  next
    case False
    with 1(2,3) have le: "w \<le> count" by (meson dvd_imp_le not_gr_zero)
    define x where "x = map (\<lambda>i. io (add + int i)) [0..<w]"
    define y where "y = map (\<lambda>i. io (add + int w + int i)) [0..<count - w]"
    define k where "k = take p kbuf @ x @ drop (p + w) kbuf"
    have len: "length x = w" by (simp add: x_def)
    have rd: "io_read io add w = Some x" using 1(4,5) le by (simp add: io_read_def x_def)
    have wr: "mem_write kbuf p x = Some k" using 1(6) le by (simp add: mem_write_def k_def len)
    have "w dvd count - w" using 1(3) by (simp add: dvd_diff_nat)
    then have IH: "silly_in w io (add + int w) (p + w) (count - w) k =
      Some (take (p + w) k @ y @ drop (p + w + (count - w)) k)"
      using 1(2,4-6) le unfolding y_def by (intro 1(1)[OF _ rd wr]) (auto simp: k_def len)
    have tk: "take (p + w) k = take p kbuf @ x" using 1(6) le by (simp add: k_def len)
    have dr: "drop (p + w + (count - w)) k = drop (p + count) kbuf"
      using 1(6) le by (simp add: k_def len min_def add.commute)
    have xy: "map (\<lambda>i. io (add + int i)) [0..<count] = x @ y"
      using le by (intro nth_equalityI) (auto simp: x_def y_def nth_append add.assoc of_nat_diff)
    have "silly_in w io add p count kbuf = silly_in w io (add + int w) (p + w) (count - w) k"
      using 1(2) le rd wr by (simp add: silly_in.simps[of w io add p count])
    then show ?thesis by (simp only: IH tk dr xy append_assoc)
  qed
qed

lemma silly_out_spec:
  assumes "0 < w" "w dvd count" "0 \<le> add" "add + int count \<le> 0x60000" "p + count \<le> length kbuf"
  shows "silly_out w io add p count kbuf =
    Some (\<lambda>i. if add \<le> i \<and> i < add + int count \<and> int w dvd (i - add)
              then kbuf ! (p + nat (i - add)) else io i)"
  using assms
proof (induction w io add p count kbuf rule: silly_out.induct)
  case (1 w io add p count kbuf)
  show ?case
  proof (cases "count = 0")
    case True
    with 1(2) show ?thesis by (subst silly_out.simps) (auto simp: fun_eq_iff)
  next
    case False
    with 1(2,3) have le: "w \<le> count" by (meson dvd_imp_le not_gr_zero)
    let ?x = "take w (drop p kbuf)"
    have rd: "mem_read kbuf p w = Some ?x" using 1(6) le by (simp add: mem_read_def)
    have hd: "hd ?x = kbuf ! p" using 1(2,6) le by (simp add: hd_drop_conv_nth hd_take)
    have wr: "io_write8 io add (hd ?x) = Some (io(add := kbuf ! p))"
      using 1(2,4,5) le hd by (simp add: io_write8_def)
    have "w dvd count - w" using 1(3) by (simp add: dvd_diff_nat)
    then have IH: "silly_out w (io(add := kbuf ! p)) (add + int w) (p + w) (count - w) kbuf =
      Some (\<lambda>i. if add + int w \<le> i \<and> i < add + int w + int (count - w) \<and> int w dvd (i - (add + int w))
              then kbuf ! (p + w + nat (i - (add + int w))) else (io(add := kbuf ! p)) i)"
      using 1(2,4-6) le by (intro 1(1)[OF _ rd wr]) auto
    have "(\<lambda>i. if add + int w \<le> i \<and> i < add + int w + int (count - w) \<and> int w dvd (i - (add + int w))
              then kbuf ! (p + w + nat (i - (add + int w))) else (io(add := kbuf ! p)) i) =
          (\<lambda>i. if add \<le> i \<and> i < add + int count \<and> int w dvd (i - add)
              then kbuf ! (p + nat (i - add)) else io i)" (is "?l = ?r")
    proof
      fix i
      have dvd: "int w dvd (i - (add + int w)) \<longleftrightarrow> int w dvd (i - add)"
        using dvd_add_left_iff[of "int w" "int w" "i - (add + int w)"] by (simp add: algebra_simps)
      have small: "i = add" if "add \<le> i" "i < add + int w" "int w dvd (i - add)"
        using that zdvd_not_zless[of "i - add" "int w"] by (cases "i = add") auto
      show "?l i = ?r i"
      proof (cases "add + int w \<le> i")
        case True
        then have "p + w + nat (i - (add + int w)) = p + nat (i - add)" by simp
        moreover have "i < add + int w + int (count - w) \<longleftrightarrow> i < add + int count" using le by simp
        ultimately show ?thesis using True 1(2) by (simp only: dvd) simp
      next
        case False
        then show ?thesis using small 1(2) le by auto
      qed
    qed
    then show ?thesis
      using 1(2) le rd wr IH by (simp add: silly_out.simps[of w io add p count])
  qed
qed


lemma silly_transfer_in_spec:
  assumes "mode \<noteq> M_none" "0 \<le> add" "add + int count \<le> 0x60000" "length kbuf = count"
    and "mode = M_32 \<Longrightarrow> 4 dvd count" "mode = M_16 \<Longrightarrow> 2 dvd count"
  shows "silly_transfer_in mode io add count kbuf = Some (Some (map (\<lambda>i. io (add + int i)) [0..<count]))"
  using assms
  by (cases mode) (simp_all add: silly_transfer_in_def silly_in_spec io_read_def mem_write_def)

definition access_width :: "silly_mode \<Rightarrow> nat" where
  "access_width mode = (case mode of M_32 \<Rightarrow> 4 | M_16 \<Rightarrow> 2 | _ \<Rightarrow> 1)"

lemma silly_transfer_out_spec:
  assumes "mode \<noteq> M_none" "0 \<le> add" "add + int count \<le> 0x60000" "length kbuf = count"
    and "mode = M_32 \<Longrightarrow> 4 dvd count" "mode = M_16 \<Longrightarrow> 2 dvd count"
  shows "silly_transfer_out mode io add count kbuf = Some (Some (\<lambda>i.
    if add \<le> i \<and> i < add + int count \<and> int (access_width mode) dvd (i - add)
    then kbuf ! nat (i - add) else io i))"
  using assms
  by (cases mode) (auto simp: silly_transfer_out_def silly_out_spec memcpy_toio_def
      mem_read_def access_width_def fun_eq_iff)

text \<open>The alignment that the chosen mode guarantees for a count inside the window.\<close>

lemma downgrade_dvd:
  assumes "silly_downgrade m isa n = mode" "0 \<le> n"
  shows "mode = M_32 \<Longrightarrow> 4 dvd nat n" "mode = M_16 \<Longrightarrow> 2 dvd nat n"
  using downgrade_aligned[of m isa n] assms
  by (metis int_dvd_int_iff int_nat_eq of_nat_numeral)+

section \<open>Correctness\<close>

text \<open>
  A read inside the window gives the same result whichever of the four access modes the
  minor number selects, for every alignment of position and count: the bytes of the window
  from the position on, cut at the window's end, the position moved past them, and the kernel
  buffer freed.
\<close>

theorem silly_read_spec:
  assumes "0 \<le> pos" "pos \<le> 0x60000" "0 \<le> count" "count < 2 ^ 31" "fresh_alloc h a" "minor < 4"
  shows "silly_read h a io minor pos count True =
    (let n = min count (0x60000 - pos)
     in Some (Inr n, map (\<lambda>i. io (pos + int i)) [0..<nat n], pos + n, h))"
proof -
  define n where "n = min count (0x60000 - pos)"
  have n: "0 \<le> n" "pos + n \<le> 0x60000" "s32 n = n" using assms by (auto simp: n_def min_def)
  have cnt: "silly_addr pos = ISA_BASE + pos" "silly_count pos count = n"
    using silly_count_inside assms(1-4) by (simp_all add: n_def)
  have al: "kmalloc h a (nat n) = (addr a, h(addr a \<mapsto> map (junk a) [0..<nat n]))" "addr a \<noteq> NULL" "h (addr a) = None"
    using assms(5) by (simp_all add: fresh_alloc_def kmalloc_def)
  define mode where "mode = silly_downgrade (silly_minor minor) (silly_addr pos) n"
  have "mode \<noteq> M_none" using assms(6) by (auto simp: mode_def downgrade_some silly_minor_def)
  then have t: "silly_transfer_in mode io pos (nat n) (map (junk a) [0..<nat n]) =
      Some (Some (map (\<lambda>i. io (pos + int i)) [0..<nat n]))"
    using assms(1) n downgrade_dvd[OF mode_def[symmetric] n(1)]
    by (intro silly_transfer_in_spec) auto
  have free: "(h(addr a := None)) = h" using al(3) by (simp add: fun_upd_idem)
  have "mem_read (map (\<lambda>i. io (pos + int i)) [0..<nat n]) 0 (nat n) =
      Some (map (\<lambda>i. io (pos + int i)) [0..<nat n])" by (simp add: mem_read_def)
  then show ?thesis
    unfolding silly_read_def cnt(2) mode_def[symmetric] Let_def n_def[symmetric]
    using n al t free by (auto simp: cnt(1) kfree_def)
qed

theorem silly_read_spec_witness:
  "silly_read Map.empty \<lparr>addr = 1, junk = (\<lambda>_. 0)\<rparr> (\<lambda>i. word_of_int i) 2 4 4 True =
     Some (Inr 4, [4, 5, 6, 7], 8, Map.empty) \<and>
   silly_read Map.empty \<lparr>addr = 1, junk = (\<lambda>_. 0)\<rparr> (\<lambda>i. word_of_int i) 2 0x5FFFF 4 True =
     Some (Inr 1, [0xFF], 0x60000, Map.empty)"
  using silly_read_spec[where pos = 4 and count = 4 and h = Map.empty and minor = 2
      and a = "\<lparr>addr = 1, junk = (\<lambda>_. 0)\<rparr>" and io = "\<lambda>i. word_of_int i"]
    silly_read_spec[where pos = "0x5FFFF" and count = 4 and h = Map.empty and minor = 2
      and a = "\<lparr>addr = 1, junk = (\<lambda>_. 0)\<rparr>" and io = "\<lambda>i. word_of_int i"]
  by (simp add: fresh_alloc_def upt_rec)

text \<open>
  What a write leaves in the window: with the block copy and with single bytes all the
  user's bytes, but with 16 and 32 bit accesses only every second and every fourth of them,
  although the call reports them all as written; the rest of the window keeps its bytes.
\<close>

theorem silly_write_effect:
  assumes "0 \<le> pos" "pos \<le> 0x60000" "length ub < 2 ^ 31" "fresh_alloc h a" "minor < 4"
  shows "silly_write h a io True minor pos ub 0 =
    (let n = min (int (length ub)) (0x60000 - pos);
         w = access_width (silly_downgrade (silly_minor minor) (ISA_BASE + pos) n)
     in Some (Inr n, (\<lambda>i. if pos \<le> i \<and> i < pos + n \<and> int w dvd (i - pos)
                          then ub ! nat (i - pos) else io i), pos + n, h))"
proof -
  define n where "n = min (int (length ub)) (0x60000 - pos)"
  have n: "0 \<le> n" "pos + n \<le> 0x60000" "s32 n = n" "nat n \<le> length ub"
    using assms by (auto simp: n_def min_def)
  have cnt: "silly_addr pos = ISA_BASE + pos" "silly_count pos (int (length ub)) = n"
    using silly_count_inside[of pos "int (length ub)"] assms(1-3) by (simp_all add: n_def)
  have al: "kmalloc h a (nat n) = (addr a, h(addr a \<mapsto> map (junk a) [0..<nat n]))" "addr a \<noteq> NULL" "h (addr a) = None"
    using assms(4) by (simp_all add: fresh_alloc_def kmalloc_def)
  define mode where "mode = silly_downgrade (silly_minor minor) (ISA_BASE + pos) n"
  have "mode \<noteq> M_none" using assms(5) by (auto simp: mode_def downgrade_some silly_minor_def)
  then have t: "silly_transfer_out mode io pos (nat n) (take (nat n) ub) = Some (Some (\<lambda>i.
      if pos \<le> i \<and> i < pos + int (nat n) \<and> int (access_width mode) dvd (i - pos)
      then take (nat n) ub ! nat (i - pos) else io i))"
    using assms(1) n downgrade_dvd[OF mode_def[symmetric] n(1)]
    by (intro silly_transfer_out_spec) auto
  have img: "(\<lambda>i. if pos \<le> i \<and> i < pos + n \<and> int (access_width mode) dvd (i - pos)
      then take (nat n) ub ! nat (i - pos) else io i) =
     (\<lambda>i. if pos \<le> i \<and> i < pos + n \<and> int (access_width mode) dvd (i - pos)
      then ub ! nat (i - pos) else io i)"
    by (auto simp: fun_eq_iff)
  have free: "(h(addr a := None)) = h" using al(3) by (simp add: fun_upd_idem)
  have rd: "mem_read ub 0 (nat n) = Some (take (nat n) ub)" using n(4) by (simp add: mem_read_def)
  show ?thesis
    unfolding silly_write_def cnt mode_def[symmetric] Let_def n_def[symmetric]
    using n al t[unfolded int_nat_eq] free rd img by (simp add: kfree_def)
qed

theorem silly_write_effect_witness:
  "\<exists>io. silly_write Map.empty \<lparr>addr = 1, junk = (\<lambda>_. 0)\<rparr> (\<lambda>_. 0) True 2 0 [1, 2, 3, 4] 0 =
       Some (Inr 4, io, 4, Map.empty) \<and> map io [0, 1, 2, 3] = [1, 0, 0, 0]"
  using silly_write_effect[of 0 "[1, 2, 3, 4]" Map.empty "\<lparr>addr = 1, junk = (\<lambda>_. 0)\<rparr>" 2 "\<lambda>_. 0"]
  by (simp add: fresh_alloc_def silly_downgrade_def silly_minor_def access_width_def or_and_3 or_and_1 Let_def)

text \<open>
  Beyond the window the count wraps around instead of becoming negative, so the check for a
  negative count is never true and the call asks for more than half of the address space.
\<close>

lemma silly_beyond_window:
  assumes "0x60000 < pos" "pos < 2 ^ 62" "0 \<le> count" "count < 2 ^ 31"
  shows "silly_count pos count = 2 ^ 64 - (pos - 0x60000)" "2 ^ 63 \<le> silly_count pos count"
proof -
  have "silly_addr pos = ISA_BASE + pos" "u64 (silly_addr pos + count) = ISA_BASE + pos + count"
    using assms by (simp_all add: silly_addr_def)
  moreover have "u64 (0x60000 - pos) = 2 ^ 64 - (pos - 0x60000)"
    using assms mod_pos_pos_trivial[of "2 ^ 64 - (pos - 0x60000)" "2 ^ 64"]
      mod_add_self2[of "0x60000 - pos" "2 ^ 64"] by (simp add: u64_def algebra_simps)
  ultimately show "silly_count pos count = 2 ^ 64 - (pos - 0x60000)"
    using assms by (simp add: silly_count_def)
  then show "2 ^ 63 \<le> silly_count pos count" using assms by simp
qed

lemma silly_read_beyond_window:
  assumes "0x60000 < pos" "pos < 2 ^ 62" "0 \<le> count" "count < 2 ^ 31" "addr a = NULL"
  shows "silly_read h a io minor pos count copied = Some (Inl ENOMEM, [], pos, h)"
  using silly_beyond_window[OF assms(1-4)] assms(5)
  by (simp add: silly_read_def kmalloc_def Let_def)

text \<open>A copy that fails moves the position back by the error number.\<close>

lemma silly_read_fault_position:
  assumes "0 \<le> pos" "pos < 0x60000" "0 < count" "count < 2 ^ 31" "fresh_alloc h a"
  shows "silly_read h a io 3 pos count False = Some (Inl EFAULT, [], pos - 14, h)"
proof -
  define n where "n = min count (0x60000 - pos)"
  have n: "0 < n" "pos + n \<le> 0x60000" "s32 n = n" using assms by (auto simp: n_def min_def)
  have cnt: "silly_addr pos = ISA_BASE + pos" "silly_count pos count = n"
    using silly_count_inside[of pos count] assms by (simp_all add: n_def)
  have "silly_downgrade (silly_minor 3) (ISA_BASE + pos) n = M_memcpy"
    by (simp add: downgrade_some silly_minor_def)
  moreover have "(h(addr a := None)) = h" using assms(5) by (simp add: fun_upd_idem fresh_alloc_def)
  moreover have "silly_transfer_in M_memcpy io pos (nat n) (map (junk a) [0..<nat n]) =
      Some (Some (map (\<lambda>i. io (pos + int i)) [0..<nat n]))"
    using assms(1) n by (intro silly_transfer_in_spec) auto
  moreover have "mem_read (map (\<lambda>i. io (pos + int i)) [0..<nat n]) 0 (nat n) =
      Some (map (\<lambda>i. io (pos + int i)) [0..<nat n])" by (simp add: mem_read_def)
  ultimately show ?thesis
    using assms(5) n unfolding silly_read_def cnt Let_def
    by (auto simp: fresh_alloc_def kmalloc_def kfree_def)
qed

text \<open>A minor number beyond the four modes: the buffer is not freed.\<close>

lemma silly_read_leaks:
  assumes "0 \<le> pos" "pos \<le> 0x60000" "0 \<le> count" "count < 2 ^ 31" "fresh_alloc h a" "4 \<le> minor"
  shows "\<exists>b. silly_read h a io minor pos count copied = Some (Inl EINVAL, [], pos, h(addr a \<mapsto> b))"
proof -
  have "silly_downgrade (silly_minor minor) isa n = M_none" for isa n
    using assms(6) by (simp add: downgrade_some silly_minor_def)
  moreover have "0 \<le> silly_count pos count" using silly_count_inside(2)[OF assms(1-4)] assms by simp
  ultimately show ?thesis
    using assms(5) by (auto simp: silly_read_def Let_def fresh_alloc_def kmalloc_def silly_transfer_in_def)
qed

end
