(* ===== verification/Jit.thy ===== *)
theory Jit
  imports Prelude
begin

text \<open>
  The module \<open>misc-modules/jit.c\<close>: delays that compare wrapping clock values, and printing
  from a timer or a tasklet that schedules itself again while a reader waits for it.

  The kernel's clock, its scheduling and what is printed beside the times are arguments.  The
  reader and the function it waits for run at the same time, so they are the steps of a
  transition system.
\<close>

section \<open>Delays\<close>

type_synonym jiffies = "64 word"

text \<open>\<open>time_before\<close> compares by the sign of the difference.\<close>

definition time_before :: "jiffies \<Rightarrow> jiffies \<Rightarrow> bool" where
  "time_before a b \<longleftrightarrow> sint (a - b) < 0"

text \<open>
  The loop \<open>while (time_before(jiffies, j1))\<close>; \<open>clock i\<close> is the clock at the \<open>i\<close>-th look.  The
  result is the number of the look that ends the loop, \<open>None\<close> when none does.
\<close>

partial_function (option) jit_wait :: "(nat \<Rightarrow> jiffies) \<Rightarrow> jiffies \<Rightarrow> nat \<Rightarrow> nat option" where
  "jit_wait clock j1 i = (if time_before (clock i) j1 then jit_wait clock j1 (Suc i) else Some i)"

datatype jit_files = JIT_BUSY | JIT_SCHED | JIT_QUEUE | JIT_SCHEDTO

text \<open>
  One line of the four files: the clock before and after the delay.  The first look is
  \<open>clock 0\<close>; for the files that sleep, \<open>slept\<close> is the clock after the sleep.
\<close>

definition jit_fn_show :: "jit_files \<Rightarrow> int \<Rightarrow> (nat \<Rightarrow> jiffies) \<Rightarrow> jiffies \<Rightarrow> (jiffies \<times> jiffies) option" where
  "jit_fn_show data delay clock slept =
     (let j0 = clock 0; j1 = j0 + word_of_int delay
      in case data of
        JIT_BUSY \<Rightarrow> do { i \<leftarrow> jit_wait clock j1 1; Some (j0, clock (Suc i)) }
      | JIT_SCHED \<Rightarrow> do { i \<leftarrow> jit_wait clock j1 1; Some (j0, clock (Suc i)) }
      | JIT_QUEUE \<Rightarrow> Some (j0, slept)
      | JIT_SCHEDTO \<Rightarrow> Some (j0, slept))"

section \<open>Timer and tasklet\<close>

text \<open>
  A line that is printed: the time, the time since the last one, and what else the kernel says
  about the moment.
\<close>

type_synonym 'e line = "jiffies \<times> jiffies \<times> 'e"

record jit_data =
  prevjiffies :: jiffies
  expires :: jiffies
  loops :: int

abbreviation (input) JIT_ASYNC_LOOPS :: int where "JIT_ASYNC_LOOPS \<equiv> 5"

text \<open>
  Where the reader is: it waits, has seen that no loops are left, or has returned, with an
  error number or zero.
\<close>

datatype jit_reader = Waiting | Woke | Returned "unit ret"

text \<open>
  The block of data while it is allocated, whether the timer or tasklet is scheduled, whether
  its function has counted down to zero and not yet woken the reader, the lines printed, whether
  the file they go to is still open, and where the reader is.
\<close>

record 'e jit =
  jit_block :: "jit_data option"
  pending :: bool
  waking :: bool
  lines :: "'e line list"
  seq_open :: bool
  reader :: jit_reader

text \<open>
  \<open>jit_timer_show\<close> and \<open>jit_tasklet_show\<close> up to their wait; \<open>due\<close> is what the timer adds to the
  time it expires, zero for the tasklet.
\<close>

definition jit_show_begin :: "jiffies \<Rightarrow> bool \<Rightarrow> jiffies \<Rightarrow> 'e \<Rightarrow> 'e jit" where
  "jit_show_begin due mem j e =
     (if \<not> mem then \<lparr>jit_block = None, pending = False, waking = False, lines = [],
                     seq_open = True, reader = Returned (Inl ENOMEM)\<rparr>
      else \<lparr>jit_block = Some \<lparr>prevjiffies = j, expires = j + due, loops = JIT_ASYNC_LOOPS\<rparr>,
            pending = True, waking = False, lines = [(j, 0, e)], seq_open = True,
            reader = Waiting\<rparr>)"

text \<open>
  \<open>jit_timer_fn\<close> and \<open>jit_tasklet_fn\<close> up to the call that wakes the reader.  They use the
  block, which must be there, and print to the file, which must be open.
\<close>

definition jit_fire :: "jiffies \<Rightarrow> jiffies \<Rightarrow> 'e \<Rightarrow> 'e jit \<Rightarrow> 'e jit option" where
  "jit_fire due j e s =
     do { d \<leftarrow> jit_block s;
          _ \<leftarrow> (if seq_open s then Some () else None);
          let s1 = s\<lparr>lines := lines s @ [(j, j - prevjiffies d, e)]\<rparr>;
          let n = s32 (loops d - 1);
          Some (if n \<noteq> 0
                then s1\<lparr>jit_block := Some (d\<lparr>loops := n, expires := expires d + due, prevjiffies := j\<rparr>),
                        pending := True\<rparr>
                else s1\<lparr>jit_block := Some (d\<lparr>loops := n\<rparr>), pending := False, waking := True\<rparr>) }"

text \<open>The wake-up, through the wait queue inside the block.\<close>

definition jit_wake :: "'e jit \<Rightarrow> 'e jit option" where
  "jit_wake s = do { _ \<leftarrow> jit_block s; Some (s\<lparr>waking := False\<rparr>) }"

text \<open>The reader looks at its condition.\<close>

definition jit_check :: "'e jit \<Rightarrow> 'e jit option" where
  "jit_check s = do { d \<leftarrow> jit_block s; Some (if loops d = 0 then s\<lparr>reader := Woke\<rparr> else s) }"

text \<open>The reader after its wait, with or without a pending signal.\<close>

definition jit_show_end :: "bool \<Rightarrow> 'e jit \<Rightarrow> 'e jit option" where
  "jit_show_end signal s =
     (if signal then Some (s\<lparr>reader := Returned (Inl ERESTARTSYS)\<rparr>)
      else do { _ \<leftarrow> jit_block s; Some (s\<lparr>jit_block := None, reader := Returned (Inr ())\<rparr>) })"

text \<open>
  The tasklet's reader and function are those of the timer but for the time the function is due;
  the choice between the two queues of tasklets does not show.
\<close>

definition jit_tasklet_show_begin :: "bool \<Rightarrow> jiffies \<Rightarrow> 'e \<Rightarrow> 'e jit" where
  "jit_tasklet_show_begin mem j e = jit_show_begin 0 mem j e"

definition jit_tasklet_fn :: "jiffies \<Rightarrow> 'e \<Rightarrow> 'e jit \<Rightarrow> 'e jit option" where
  "jit_tasklet_fn j e s = jit_fire 0 j e s"

text \<open>
  The steps of a run, each with its result, \<open>None\<close> where memory is used that is not there.  The
  function runs when it is scheduled, and after its last round wakes the reader.  The reader may
  look at its condition at any time, also between the count-down and the wake-up; then it returns.
  A signal makes it return at any time.  After that the file may be closed.
\<close>

inductive jit_step :: "jiffies \<Rightarrow> 'e jit \<Rightarrow> 'e jit option \<Rightarrow> bool" for due where
  fire: "pending s \<Longrightarrow> jit_step due s (jit_fire due j e s)"
| wake: "waking s \<Longrightarrow> jit_step due s (jit_wake s)"
| check: "reader s = Waiting \<Longrightarrow> jit_step due s (jit_check s)"
| finish: "reader s = Woke \<Longrightarrow> jit_step due s (jit_show_end False s)"
| signal: "reader s = Waiting \<or> reader s = Woke \<Longrightarrow> jit_step due s (jit_show_end True s)"
| close: "reader s = Returned r \<Longrightarrow> jit_step due s (Some (s\<lparr>seq_open := False\<rparr>))"

inductive_simps jit_step_iff: "jit_step due s r"

inductive jit_steps :: "jiffies \<Rightarrow> 'e jit \<Rightarrow> 'e jit \<Rightarrow> bool" for due where
  jit_refl: "jit_steps due s s"
| jit_more: "jit_steps due s t \<Longrightarrow> jit_step due t (Some u) \<Longrightarrow> jit_steps due s u"

section \<open>The files of the module\<close>

text \<open>The entries under \<open>/proc\<close> with the data pointers they are created with.\<close>

definition jit_init :: "(string \<times> nat) list" where
  "jit_init = [(''currentime'', 0), (''jitbusy'', 0), (''jitsched'', 1), (''jitqueue'', 2),
     (''jitschedto'', 3), (''jitimer'', 0), (''jitasklet'', 0), (''jitasklethi'', 1)]"

definition jit_cleanup :: "string list" where
  "jit_cleanup = [''currentime'', ''jitbusy'', ''jitsched'', ''jitqueue'', ''jitschedto'',
     ''jitimer'', ''jitasklet'', ''jitasklethi'']"

lemma jit_cleanup_removes_all: "jit_cleanup = map fst jit_init \<and> distinct jit_cleanup"
  by (simp add: jit_cleanup_def jit_init_def)

section \<open>Delays end, and not early\<close>

text \<open>
  \<open>t\<close> counts clock ticks without wrapping; \<open>clock_of j0 t\<close> is what the loop sees of it.
\<close>

definition clock_of :: "jiffies \<Rightarrow> (nat \<Rightarrow> nat) \<Rightarrow> nat \<Rightarrow> jiffies" where
  "clock_of j0 t i = j0 + of_nat (t i)"

lemma sint_small: "- (2 ^ 63) \<le> k \<Longrightarrow> k < 2 ^ 63 \<Longrightarrow> sint (word_of_int k :: jiffies) = k"
  by transfer (simp add: signed_take_bit_int_eq_self)

lemma time_before_clock:
  assumes "0 \<le> delay" "delay < 2 ^ 63" "int x - delay < 2 ^ 63"
  shows "time_before (j0 + of_nat x) (j0 + word_of_int delay) \<longleftrightarrow> int x < delay"
proof -
  have "(j0 + of_nat x) - (j0 + word_of_int delay) = word_of_int (int x - delay)"
    by simp
  moreover have "sint (word_of_int (int x - delay) :: jiffies) = int x - delay"
    by (rule sint_small) (use assms in simp_all)
  ultimately show ?thesis by (simp only: time_before_def diff_less_0_iff_less)
qed

lemma jit_wait_ends:
  assumes ends: "int (t (i + n)) \<ge> delay" and early: "\<And>k. k < n \<Longrightarrow> int (t (i + k)) < delay"
    and range: "0 \<le> delay" "delay < 2 ^ 31" "int (t (i + n)) < 2 ^ 62"
  shows "jit_wait (clock_of j0 t) (j0 + word_of_int delay) i = Some (i + n)"
  using ends early range(3)
proof (induction n arbitrary: i)
  case 0
  then have "\<not> time_before (clock_of j0 t i) (j0 + word_of_int delay)"
    using range time_before_clock[of delay "t i" j0] by (simp add: clock_of_def)
  then show ?case by (subst jit_wait.simps) simp
next
  case (Suc n)
  have "int (t i) < delay" using Suc.prems(2)[of 0] by simp
  then have "time_before (clock_of j0 t i) (j0 + word_of_int delay)"
    using range time_before_clock[of delay "t i" j0] by (simp add: clock_of_def)
  moreover have "jit_wait (clock_of j0 t) (j0 + word_of_int delay) (Suc i) = Some (Suc i + n)"
    using Suc.prems Suc.prems(2)[of "Suc _"] by (intro Suc.IH) auto
  ultimately show ?case by (subst jit_wait.simps) simp
qed

text \<open>
  C31: However close to its wrap-around the clock is, a busy wait ends, at the first look that
  finds the delay over, and never before: for every clock that starts at \<open>j0\<close>, does not run
  backwards, passes the delay at some look and moves by less than a quarter of its range
  in all.
\<close>

theorem jit_fn_show_delays:
  assumes "0 \<le> delay" "delay < 2 ^ 31" "mono t" "t 0 = 0" "int (t n) \<ge> delay" "\<forall>i. int (t i) < 2 ^ 62"
  shows "\<exists>i. jit_fn_show JIT_BUSY delay (clock_of j0 t) slept = Some (j0, j0 + of_nat (t i)) \<and>
    jit_fn_show JIT_SCHED delay (clock_of j0 t) slept = Some (j0, j0 + of_nat (t i)) \<and>
    int (t i) \<ge> delay \<and> (\<forall>k. 1 \<le> k \<longrightarrow> Suc k < i \<longrightarrow> int (t k) < delay)"
proof -
  define k where "k = (LEAST k. int (t (1 + k)) \<ge> delay)"
  have ex: "int (t (1 + n)) \<ge> delay"
    using assms(5) monoD[OF assms(3), of n "1 + n"] by linarith
  then have "int (t (1 + k)) \<ge> delay" unfolding k_def by (rule LeastI)
  moreover have early: "int (t (1 + m)) < delay" if "m < k" for m
    using not_less_Least[OF that[unfolded k_def]] by simp
  ultimately have w: "jit_wait (clock_of j0 t) (j0 + word_of_int delay) 1 = Some (1 + k)"
    using assms by (intro jit_wait_ends) auto
  have "clock_of j0 t 0 = j0" using assms(4) by (simp add: clock_of_def)
  then have show1: "jit_fn_show d delay (clock_of j0 t) slept = Some (j0, j0 + of_nat (t (2 + k)))"
    if "d = JIT_BUSY \<or> d = JIT_SCHED" for d
    using w that by (auto simp: jit_fn_show_def Let_def clock_of_def numeral_2_eq_2)
  have "int (t (2 + k)) \<ge> delay"
    using \<open>int (t (1 + k)) \<ge> delay\<close> monoD[OF assms(3), of "1 + k" "2 + k"] by simp
  moreover have "\<forall>m. 1 \<le> m \<longrightarrow> Suc m < 2 + k \<longrightarrow> int (t m) < delay"
  proof (intro allI impI)
    fix m :: nat assume "1 \<le> m" "Suc m < 2 + k"
    then show "int (t m) < delay" using early[of "m - 1"] by simp
  qed
  ultimately show ?thesis using show1 by (intro exI[of _ "2 + k"]) simp
qed

theorem jit_fn_show_delays_witness:
  "\<exists>x. jit_fn_show JIT_BUSY 3 (clock_of (- 2) (\<lambda>i. min i 100)) 0 = Some (- 2, x)"
proof -
  have "mono (\<lambda>i :: nat. min i 100)" by (auto simp: mono_def)
  then show ?thesis using jit_fn_show_delays[of 3 "\<lambda>i. min i 100" 3 "- 2" 0] by fastforce
qed

section \<open>The timer prints its lines, and the reader returns\<close>

text \<open>Each line's second column is the time since the line before.\<close>

fun chained :: "'e line list \<Rightarrow> bool" where
  "chained (a # b # r) \<longleftrightarrow> fst (snd b) = fst b - fst a \<and> chained (b # r)"
| "chained _ \<longleftrightarrow> True"

lemma chained_snoc:
  "chained (xs @ [y]) \<longleftrightarrow> chained xs \<and> (xs \<noteq> [] \<longrightarrow> fst (snd y) = fst y - fst (last xs))"
  by (induction xs rule: chained.induct) auto

text \<open>
  The block is there until the reader has returned without a signal, and counts the lines that are
  still to come; the timer is scheduled exactly while there are any.
\<close>

definition jit_inv :: "'e jit \<Rightarrow> bool" where
  "jit_inv s \<longleftrightarrow> lines s \<noteq> [] \<and> chained (lines s) \<and>
     (if reader s = Returned (Inr ()) then jit_block s = None \<and> \<not> pending s \<and> length (lines s) = 6
      else (\<exists>d. jit_block s = Some d \<and> 0 \<le> loops d \<and> loops d \<le> 5 \<and>
          int (length (lines s)) = 6 - loops d \<and> (pending s \<longleftrightarrow> 0 < loops d) \<and>
          (0 < loops d \<longrightarrow> prevjiffies d = fst (last (lines s))) \<and> (waking s \<longrightarrow> loops d = 0) \<and>
          (reader s = Woke \<longrightarrow> loops d = 0)) \<and>
        (reader s = Returned (Inl ERESTARTSYS) \<or> (reader s = Waiting \<or> reader s = Woke) \<and> seq_open s))"

lemma jit_inv_begin: "jit_inv (jit_show_begin due True j e)"
  by (simp add: jit_inv_def jit_show_begin_def)

lemma jit_step_inv:
  assumes "jit_step due s r" "r = Some s'" "jit_inv s"
  shows "jit_inv s'"
  using assms(1)
proof cases
  case (fire j e)
  then show ?thesis using assms(2,3)
    by (auto simp: jit_inv_def jit_fire_def Let_def chained_snoc s32_def split: bind_splits if_splits)
next
  case wake
  then show ?thesis using assms(2,3)
    by (auto simp: jit_inv_def jit_wake_def split: bind_splits if_splits)
next
  case check
  then show ?thesis using assms(2,3)
    by (auto simp: jit_inv_def jit_check_def split: bind_splits if_splits)
next
  case finish
  then show ?thesis using assms(2,3)
    by (auto simp: jit_inv_def jit_show_end_def split: bind_splits)
next
  case signal
  then show ?thesis using assms(2,3)
    by (auto simp: jit_inv_def jit_show_end_def split: bind_splits)
next
  case close
  then show ?thesis using assms(2,3)
    by (auto simp: jit_inv_def split: if_splits)
qed

lemma jit_steps_inv: "jit_steps due s s' \<Longrightarrow> jit_inv s \<Longrightarrow> jit_inv s'"
  by (induction rule: jit_steps.induct) (auto intro: jit_step_inv)

text \<open>Which accesses to memory that is gone a state of a run allows.\<close>

lemma jit_undefined_iff:
  assumes "jit_inv s"
  shows "jit_step due s None \<longleftrightarrow> waking s \<and> reader s = Returned (Inr ()) \<or>
    pending s \<and> reader s = Returned (Inl ERESTARTSYS) \<and> \<not> seq_open s"
proof (cases "reader s = Returned (Inr ())")
  case True
  then show ?thesis using assms by (auto simp: jit_step_iff jit_inv_def jit_wake_def)
next
  case False
  then obtain d where "jit_block s = Some d" using assms by (auto simp: jit_inv_def)
  with False assms show ?thesis
    by (auto simp: jit_step_iff jit_inv_def jit_fire_def jit_wake_def jit_check_def jit_show_end_def Let_def)
qed

lemma jit_steps_trans: "jit_steps due s t \<Longrightarrow> jit_steps due r s \<Longrightarrow> jit_steps due r t"
  by (induction rule: jit_steps.induct) (auto intro: jit_steps.intros)

lemma jit_steps_step: "jit_step due s (Some t) \<Longrightarrow> jit_steps due t u \<Longrightarrow> jit_steps due s u"
  using jit_steps_trans jit_steps.intros by metis

lemma jit_fire_spec:
  assumes "jit_block s = Some d" "0 < loops d" "loops d \<le> 5" "seq_open s"
  shows "\<exists>s' d'. jit_fire due j e s = Some s' \<and> jit_block s' = Some d' \<and> loops d' = loops d - 1 \<and>
    length (lines s') = Suc (length (lines s)) \<and> reader s' = reader s"
proof -
  have "s32 (loops d - 1) = loops d - 1" using assms by (intro s32_id) simp_all
  then show ?thesis using assms(1,4) by (auto simp: jit_fire_def Let_def)
qed

lemma jit_finishes_loops_0:
  assumes "reader s = Waiting \<or> reader s = Woke" "jit_block s = Some d" "loops d = 0"
  shows "\<exists>s'. jit_steps due s s' \<and> reader s' = Returned (Inr ())"
proof -
  have fin: "\<exists>t'. jit_steps due t t' \<and> reader t' = Returned (Inr ())"
    if "jit_block t = Some d" "reader t = Woke" for t :: "'a jit"
  proof -
    have "jit_step due t (Some (t\<lparr>jit_block := None, reader := Returned (Inr ())\<rparr>))"
      using jit_step.finish[of t due] that by (simp add: jit_show_end_def)
    then show ?thesis using jit_steps_step[OF _ jit_steps.jit_refl] by fastforce
  qed
  show ?thesis
  proof (cases "reader s = Woke")
    case True
    then show ?thesis using fin assms(2) by simp
  next
    case False
    then have "jit_step due s (Some (s\<lparr>reader := Woke\<rparr>))"
      using jit_step.check[of s due] assms by (simp add: jit_check_def)
    moreover obtain t' where "jit_steps due (s\<lparr>reader := Woke\<rparr>) t'" "reader t' = Returned (Inr ())"
      using fin[of "s\<lparr>reader := Woke\<rparr>"] assms(2) by auto
    ultimately show ?thesis using jit_steps_step by metis
  qed
qed

lemma jit_finishes:
  assumes "jit_inv s" "reader s = Waiting \<or> reader s = Woke" "jit_block s = Some d"
  shows "\<exists>s'. jit_steps due s s' \<and> reader s' = Returned (Inr ())"
  using assms
proof (induction "nat (loops d)" arbitrary: s d)
  case 0
  then have "loops d = 0" by (auto simp: jit_inv_def)
  then show ?case using jit_finishes_loops_0[OF 0(3,4)] by blast
next
  case (Suc n)
  have p: "pending s" "0 < loops d" "loops d \<le> 5" "seq_open s"
    using Suc.prems Suc.hyps(2) by (auto simp: jit_inv_def)
  obtain s' d' where s': "jit_fire due 0 undefined s = Some s'" "jit_block s' = Some d'"
    "loops d' = loops d - 1" "reader s' = reader s"
    using jit_fire_spec[OF Suc.prems(3) p(2-4)] by metis
  then have st: "jit_step due s (Some s')" using jit_step.fire[OF p(1), of due 0 undefined] by simp
  have "jit_inv s'" by (rule jit_step_inv[OF st refl Suc.prems(1)])
  moreover have "n = nat (loops d')" using Suc.hyps(2) s'(3) by simp
  ultimately obtain u where "jit_steps due s' u" "reader u = Returned (Inr ())"
    using Suc.hyps(1)[OF _ _ _ s'(2)] s'(4) Suc.prems(2) by auto
  with st show ?case using jit_steps_step by metis
qed

text \<open>
  C32: For every interleaving of the rounds of the timer (or tasklet), its wake-up, the reader's looks
  at its condition, a signal and the closing of the file.  A reader that returns without a signal
  has its header line and five more lines, each with the time since the one before, and has
  freed the block, and nothing is scheduled any more.  A reader that still waits can return like
  that.  What is used after it is gone is exactly this: the block, when the reader has looked
  at its condition between the count-down and the wake-up and has freed the block under the
  function; and the file, when a signal has ended the wait, the file is closed and the timer is
  still scheduled.
\<close>

theorem jit_timer_show_completes:
  assumes "jit_steps due (jit_show_begin due True j e) s"
  shows "(reader s = Returned (Inr ()) \<longrightarrow> length (lines s) = 6 \<and> chained (lines s) \<and>
      jit_block s = None \<and> \<not> pending s) \<and>
    (reader s = Waiting \<or> reader s = Woke \<longrightarrow> (\<exists>s'. jit_steps due s s' \<and> reader s' = Returned (Inr ()))) \<and>
    (jit_step due s None \<longleftrightarrow> waking s \<and> reader s = Returned (Inr ()) \<or>
      pending s \<and> reader s = Returned (Inl ERESTARTSYS) \<and> \<not> seq_open s)"
proof -
  have inv: "jit_inv s" using jit_steps_inv[OF assms jit_inv_begin] .
  have "\<exists>s'. jit_steps due s s' \<and> reader s' = Returned (Inr ())" if w: "reader s = Waiting \<or> reader s = Woke"
  proof -
    obtain d where "jit_block s = Some d" using inv w by (auto simp: jit_inv_def)
    then show ?thesis by (rule jit_finishes[OF inv w])
  qed
  moreover have "reader s = Returned (Inr ()) \<longrightarrow> length (lines s) = 6 \<and> chained (lines s) \<and>
      jit_block s = None \<and> \<not> pending s"
    using inv by (simp add: jit_inv_def)
  ultimately show ?thesis using jit_undefined_iff[OF inv, of due] by blast
qed

theorem jit_timer_show_completes_witness:
  "\<exists>s'. jit_steps 10 (jit_show_begin 10 True 7 ()) s' \<and> reader s' = Returned (Inr ())"
  using jit_timer_show_completes[OF jit_steps.jit_refl, of 10 7 "()"] by (simp add: jit_show_begin_def)

text \<open>Both happen.\<close>

lemma jit_uses_freed_memory:
  assumes "jit_steps due (jit_show_begin due True j e) s" "waking s" "reader s = Waiting"
  shows "\<exists>s'. jit_steps due s s' \<and> jit_step due s' None"
proof -
  have "jit_inv s" using jit_steps_inv[OF assms(1) jit_inv_begin] .
  then obtain d where d: "jit_block s = Some d" "loops d = 0" using assms(2,3) by (auto simp: jit_inv_def)
  let ?s1 = "s\<lparr>reader := Woke\<rparr>" and ?s2 = "s\<lparr>jit_block := None, reader := Returned (Inr ())\<rparr>"
  have "jit_step due s (Some ?s1)" using jit_step.check[OF assms(3), of due] d by (simp add: jit_check_def)
  moreover have "jit_step due ?s1 (Some ?s2)" using jit_step.finish[of ?s1 due] d by (simp add: jit_show_end_def)
  ultimately have "jit_steps due s ?s2" by (meson jit_steps.intros)
  moreover have "jit_step due ?s2 None" using jit_step.wake[of ?s2 due] assms(2) by (simp add: jit_wake_def)
  ultimately show ?thesis by blast
qed

lemma jit_tasklet_steps:
  "jit_tasklet_fn j e s = Some s' \<Longrightarrow> pending s \<Longrightarrow> jit_step 0 s (Some s')"
  "jit_tasklet_show_begin True j e = jit_show_begin 0 True j e"
  using jit_step.fire[of s 0 j e] by (simp_all add: jit_tasklet_fn_def jit_tasklet_show_begin_def)

text \<open>
  A signal ends the reader's wait without freeing its block and without stopping the
  timer: whatever happens afterwards the block stays allocated; a timer that was still
  scheduled prints further lines into the file after the call has returned, and once the file is
  closed it writes to memory that is gone.
\<close>

theorem jit_signal_leaks:
  assumes run: "jit_steps due (jit_show_begin due True j e) s" and w: "reader s = Waiting"
    and sig: "jit_show_end True s = Some s1"
  shows "(\<forall>s2. jit_steps due s1 s2 \<longrightarrow> jit_block s2 \<noteq> None) \<and>
    (pending s \<longrightarrow> (\<exists>s2. jit_steps due s1 s2 \<and> reader s2 = Returned (Inl ERESTARTSYS) \<and>
       length (lines s2) = Suc (length (lines s))) \<and> jit_step due (s1\<lparr>seq_open := False\<rparr>) None)"
proof (intro conjI allI impI)
  have inv: "jit_inv s" using jit_steps_inv[OF run jit_inv_begin] .
  then obtain d where d: "jit_block s = Some d" using w by (auto simp: jit_inv_def)
  have s1: "s1 = s\<lparr>reader := Returned (Inl ERESTARTSYS)\<rparr>" using sig by (simp add: jit_show_end_def)
  have keep: "jit_block v \<noteq> None \<and> reader v = Returned (Inl ERESTARTSYS)"
    if "jit_steps due u v" "jit_block u \<noteq> None \<and> reader u = Returned (Inl ERESTARTSYS)" for u v :: "'a jit"
    using that
    by (induction rule: jit_steps.induct)
       (auto simp: jit_step_iff jit_fire_def jit_wake_def Let_def split: bind_splits if_splits)
  have u: "jit_block s1 \<noteq> None \<and> reader s1 = Returned (Inl ERESTARTSYS)" using d s1 by simp
  show "jit_block s2 \<noteq> None" if "jit_steps due s1 s2" for s2
    using keep[OF that u] by simp
  assume p: "pending s"
  then have l: "0 < loops d" "loops d \<le> 5" "seq_open s" using inv w d by (auto simp: jit_inv_def)
  then obtain s2 where s2: "jit_fire due 0 undefined s1 = Some s2"
    "length (lines s2) = Suc (length (lines s1))"
    using jit_fire_spec[of s1 d due 0 undefined] d s1 by auto
  have "jit_step due s1 (Some s2)" using jit_step.fire[of s1 due 0 undefined] p s2(1) by (simp add: s1)
  then have "jit_steps due s1 s2" by (intro jit_steps_step[OF _ jit_steps.jit_refl])
  then show "\<exists>s2. jit_steps due s1 s2 \<and> reader s2 = Returned (Inl ERESTARTSYS) \<and>
       length (lines s2) = Suc (length (lines s))"
    using keep[OF _ u] s2(2) by (intro exI[of _ s2]) (simp add: s1)
  show "jit_step due (s1\<lparr>seq_open := False\<rparr>) None"
    using jit_step.fire[of "s1\<lparr>seq_open := False\<rparr>" due 0 undefined] p d by (simp add: s1 jit_fire_def)
qed

theorem jit_signal_leaks_witness:
  "\<forall>s2. jit_steps 10 (the (jit_show_end True (jit_show_begin 10 True 7 ()))) s2 \<longrightarrow> jit_block s2 \<noteq> None"
  using jit_signal_leaks[OF jit_steps.jit_refl, of 10 7 "()"]
  by (simp add: jit_show_begin_def jit_show_end_def)

text \<open>
  The look at the condition is not kept from falling between the count-down and the wake-up:
  a reader that looks there frees the block under the function, whose wake-up then uses it.
\<close>

lemma jit_wake_after_free:
  assumes "jit_block s = Some d" "loops d = 0" "reader s = Waiting"
  shows "\<exists>s1 s2. jit_check s = Some s1 \<and> reader s1 = Woke \<and> jit_show_end False s1 = Some s2 \<and>
    jit_wake s2 = None"
  using assms by (simp add: jit_check_def jit_show_end_def jit_wake_def)

section \<open>The current time\<close>

text \<open>
  What \<open>currentime\<close> prints, from the 64-bit counter of ticks and two times in seconds and
  nanoseconds: the counter as an \<open>unsigned long\<close> and as it is, and the times converted to \<open>int\<close>.
\<close>

definition jit_currentime_show :: "int \<Rightarrow> int \<times> int \<Rightarrow> int \<times> int \<Rightarrow> int \<times> int \<times> (int \<times> int) \<times> (int \<times> int)" where
  "jit_currentime_show jiffies_64 tv1 tv2 =
     (let j1 = u64 jiffies_64; j2 = jiffies_64
      in (j1, j2, (s32 (fst tv1), s32 (snd tv1)), (s32 (fst tv2), s32 (snd tv2))))"

lemma jit_currentime_exact:
  assumes "0 \<le> jiffies_64" "jiffies_64 < 2 ^ 64" "0 \<le> sec" "sec < 2 ^ 31" "0 \<le> nsec" "nsec < 1000000000"
  shows "jit_currentime_show jiffies_64 (sec, nsec) (sec, nsec) = (jiffies_64, jiffies_64, (sec, nsec), (sec, nsec))"
  using assms by (simp add: jit_currentime_show_def s32_def u64_def Let_def)

text \<open>From 2038 on the seconds are printed as a negative number.\<close>

lemma jit_currentime_2038:
  assumes "2 ^ 31 \<le> sec" "sec < 2 ^ 32"
  shows "\<exists>j1 j2 n t2. jit_currentime_show jiffies_64 (sec, nsec) tv2 = (j1, j2, (sec - 2 ^ 32, n), t2)"
proof -
  have "(sec + 2147483648) mod 4294967296 = (sec + 2147483648 - 4294967296) mod 4294967296"
    by (rule minus_mod_self2[symmetric])
  then have "s32 sec = sec - 2 ^ 32" using assms by (simp add: s32_def)
  then show ?thesis by (simp add: jit_currentime_show_def Let_def)
qed

end
