(* ===== verification/Tiny_Serial.thy ===== *)
theory Tiny_Serial
  imports Tiny_Tty
begin

text \<open>
  The serial port driver \<open>tty/tiny_serial.c\<close>: the transmit loop over the circular buffer of the
  kernel's serial core, the timer that receives a character and transmits, starting and
  stopping the port, the terminal settings and the module's initialisation.

  The serial core is represented by its data the driver reads and writes: the buffer with its
  two positions, the high-priority character, the count of transmitted characters.
\<close>

section \<open>The port\<close>

abbreviation (input) UART_XMIT_SIZE :: nat where "UART_XMIT_SIZE \<equiv> 4096"
abbreviation (input) WAKEUP_CHARS :: nat where "WAKEUP_CHARS \<equiv> 256"

text \<open>
  \<open>tx_stopped\<close> is what \<open>uart_tx_stopped\<close> answers; \<open>wrote\<close> collects the characters the driver
  reports as written; \<open>writers_woken\<close> counts the calls of \<open>uart_write_wakeup\<close>.
\<close>

record uart_port =
  x_char :: byte
  xmit_buf :: "byte list"
  xmit_head :: nat
  xmit_tail :: nat
  tx_icount :: "32 word"
  fifosize :: nat
  tx_stopped :: bool
  wrote :: "byte list"
  writers_woken :: nat

definition uart_circ_chars_pending :: "uart_port \<Rightarrow> nat" where
  "uart_circ_chars_pending p = (xmit_head p + UART_XMIT_SIZE - xmit_tail p) mod UART_XMIT_SIZE"

definition uart_circ_empty :: "uart_port \<Rightarrow> bool" where
  "uart_circ_empty p \<longleftrightarrow> xmit_head p = xmit_tail p"

section \<open>Transmission\<close>

text \<open>The body of the loop: one character, which must be inside the buffer.\<close>

definition tx_char :: "uart_port \<Rightarrow> uart_port option" where
  "tx_char p = do {
     c \<leftarrow> mem_at (xmit_buf p) (xmit_tail p);
     Some (p\<lparr>wrote := wrote p @ [c], xmit_tail := (xmit_tail p + 1) mod UART_XMIT_SIZE,
             tx_icount := tx_icount p + 1\<rparr>)
   }"

text \<open>\<open>do { \<dots> if empty, leave } while (--count > 0)\<close>.\<close>

function tx_loop :: "int \<Rightarrow> uart_port \<Rightarrow> uart_port option" where
  "tx_loop count p = do {
     p' \<leftarrow> tx_char p;
     if uart_circ_empty p' then Some p'
     else if 0 < count - 1 then tx_loop (count - 1) p' else Some p'
   }"
  by pat_completeness auto
termination by (relation "measure (\<lambda>(count, p). nat count)") auto

declare tx_loop.simps [simp del]

definition tiny_tx_chars :: "uart_port \<Rightarrow> uart_port option" where
  "tiny_tx_chars p =
     (if x_char p \<noteq> 0
      then Some (p\<lparr>wrote := wrote p @ [x_char p], tx_icount := tx_icount p + 1, x_char := 0\<rparr>)
      else if uart_circ_empty p \<or> tx_stopped p then Some p
      else do {
        p' \<leftarrow> tx_loop (int (fifosize p div 2)) p;
        Some (if uart_circ_chars_pending p' < WAKEUP_CHARS
              then p'\<lparr>writers_woken := Suc (writers_woken p')\<rparr> else p')
      })"

section \<open>Timer, start and stop\<close>

text \<open>
  The driver's one timer is made by the first start and kept for ever.  \<open>timer_arg\<close> is what
  its function receives: the port, or, with the timers of kernels from 4.15 on, the timer.
  \<open>timer_ready\<close> says whether the timer was ever initialised: \<open>kmalloc\<close> does not do that, \<open>timer_setup\<close>
  does, and the branch for older kernels, which sets the function and its argument only, does not.
\<close>

datatype timer_arg = Arg_port | Arg_timer

record serial_driver =
  the_port :: uart_port
  the_timer :: "timer_arg option"
  timer_ready :: bool
  timer_pending :: bool
  timer_running :: bool
  port_tty :: bool
  received :: nat

text \<open>\<open>add_timer\<close> and \<open>del_timer\<close> want an initialised timer, and \<open>add_timer\<close> one that is not pending.\<close>

definition serial_add_timer :: "serial_driver \<Rightarrow> serial_driver option" where
  "serial_add_timer s =
     (if the_timer s = None \<or> \<not> timer_ready s \<or> timer_pending s then None else Some (s\<lparr>timer_pending := True\<rparr>))"

definition tiny_startup :: "bool \<Rightarrow> bool \<Rightarrow> serial_driver \<Rightarrow> (unit ret \<times> serial_driver) option" where
  "tiny_startup new_timers mem s =
     (if the_timer s = None \<and> \<not> mem then Some (Inl ENOMEM, s)
      else do {
        let s = (if the_timer s = None then s\<lparr>timer_ready := False\<rparr> else s);
        let s = (if \<not> new_timers then s\<lparr>the_timer := Some Arg_port\<rparr>
                 else s\<lparr>the_timer := Some Arg_timer, timer_ready := True\<rparr>);
        s \<leftarrow> serial_add_timer s;
        Some (Inr (), s)
      })"

definition tiny_shutdown :: "serial_driver \<Rightarrow> serial_driver option" where
  "tiny_shutdown s = (if the_timer s = None \<or> \<not> timer_ready s then None else Some (s\<lparr>timer_pending := False\<rparr>))"

text \<open>The timer expires and its function starts; the function itself.\<close>

definition serial_timer_fires :: "serial_driver \<Rightarrow> serial_driver option" where
  "serial_timer_fires s =
     (if timer_pending s then Some (s\<lparr>timer_pending := False, timer_running := True\<rparr>) else None)"

text \<open>
  The function takes its argument for the port: with the timer as argument it follows fields
  that are not there.  Without a terminal it does nothing and does not come again.
\<close>

definition serial_timer_fn :: "serial_driver \<Rightarrow> serial_driver option" where
  "serial_timer_fn s =
     (if the_timer s \<noteq> Some Arg_port then None
      else if \<not> port_tty s then Some (s\<lparr>timer_running := False\<rparr>)
      else do {
        s' \<leftarrow> serial_add_timer (s\<lparr>received := Suc (received s)\<rparr>);
        p \<leftarrow> tiny_tx_chars (the_port s');
        Some (s'\<lparr>the_port := p, timer_running := False\<rparr>)
      })"

section \<open>Settings\<close>

text \<open>
  Data bits, parity, two stop bits, hardware flow control; the baud rate and the divisor are
  computed and not used.
\<close>

definition serial_set_termios :: "termios \<Rightarrow> nat \<times> parity \<times> bool \<times> bool" where
  "serial_set_termios new =
     (let cflag = c_cflag new in
      (if cflag AND 0x30 = 0 then 5 else if cflag AND 0x30 = 0x10 then 6 else if cflag AND 0x30 = 0x20 then 7 else 8,
       if cflag AND 0x100 \<noteq> 0 then (if cflag AND 0x200 \<noteq> 0 then Parity_odd else Parity_even) else Parity_none,
       cflag AND 0x40 \<noteq> 0, cflag AND 0x80000000 \<noteq> 0))"

section \<open>Initialisation\<close>

text \<open>The value, and whether the driver and its port stay registered.\<close>

definition serial_init :: "errno option \<Rightarrow> errno option \<Rightarrow> unit ret \<times> bool \<times> bool" where
  "serial_init reg add_port =
     (case reg of
        Some e \<Rightarrow> (Inl e, False, False)
      | None \<Rightarrow> (case add_port of Some e \<Rightarrow> (Inl e, False, False) | None \<Rightarrow> (Inr (), True, True)))"

section \<open>The buffer as a queue\<close>

definition port_wf :: "uart_port \<Rightarrow> bool" where
  "port_wf p \<longleftrightarrow> length (xmit_buf p) = UART_XMIT_SIZE \<and> xmit_head p < UART_XMIT_SIZE \<and>
     xmit_tail p < UART_XMIT_SIZE"

definition queued_chars :: "uart_port \<Rightarrow> byte list" where
  "queued_chars p =
     map (\<lambda>i. xmit_buf p ! ((xmit_tail p + i) mod UART_XMIT_SIZE)) [0..<uart_circ_chars_pending p]"

lemma length_queued [simp]: "length (queued_chars p) = uart_circ_chars_pending p"
  by (simp add: queued_chars_def)

lemma pending_empty:
  assumes "port_wf p"
  shows "uart_circ_chars_pending p = 0 \<longleftrightarrow> uart_circ_empty p"
proof -
  have "xmit_head p < UART_XMIT_SIZE" "xmit_tail p < UART_XMIT_SIZE" using assms by (auto simp: port_wf_def)
  then show ?thesis unfolding uart_circ_chars_pending_def uart_circ_empty_def
    by (cases "xmit_tail p \<le> xmit_head p") (auto simp: mod_if)
qed

lemma pending_step:
  assumes "h < n" "t < n" "h \<noteq> (t::nat)"
  shows "Suc ((h + n - (t + 1) mod n) mod n) = (h + n - t) mod n"
  using assms by (cases "t + 1 = n"; cases "t < h") (auto simp: mod_if)

text \<open>One character taken: the head of the queue goes out and the rest stays.\<close>

lemma tx_char_spec:
  assumes wf: "port_wf p" and ne: "\<not> uart_circ_empty p"
  shows "\<exists>p'. tx_char p = Some p' \<and> port_wf p' \<and> queued_chars p = hd (queued_chars p) # queued_chars p' \<and>
    wrote p' = wrote p @ [hd (queued_chars p)] \<and> tx_icount p' = tx_icount p + 1 \<and>
    fifosize p' = fifosize p \<and> writers_woken p' = writers_woken p \<and> x_char p' = x_char p"
proof -
  let ?t = "xmit_tail p" and ?n = "UART_XMIT_SIZE"
  define p' where "p' = p\<lparr>wrote := wrote p @ [xmit_buf p ! ?t], xmit_tail := (?t + 1) mod ?n,
             tx_icount := tx_icount p + 1\<rparr>"
  have b: "?t < ?n" "xmit_head p < ?n" "length (xmit_buf p) = ?n" using wf by (auto simp: port_wf_def)
  have pend: "uart_circ_chars_pending p = Suc (uart_circ_chars_pending p')"
    using pending_step[OF b(2,1)] ne by (simp add: uart_circ_chars_pending_def uart_circ_empty_def p'_def)
  have "queued_chars p = (xmit_buf p ! ?t) # queued_chars p'"
  proof -
    have "queued_chars p = (xmit_buf p ! (?t mod ?n)) #
        map (\<lambda>i. xmit_buf p ! ((?t + Suc i) mod ?n)) [0..<uart_circ_chars_pending p']"
      unfolding queued_chars_def pend upt_conv_Cons[OF zero_less_Suc] map_Suc_upt[symmetric] by simp
    moreover have "(?t + Suc i) mod ?n = ((?t + 1) mod ?n + i) mod ?n" for i
      by (simp add: mod_add_left_eq)
    ultimately show ?thesis using b by (simp add: queued_chars_def p'_def)
  qed
  moreover have "tx_char p = Some p'" using b by (simp add: tx_char_def mem_at_def p'_def)
  moreover have "port_wf p'" using wf by (simp add: port_wf_def p'_def)
  ultimately show ?thesis by (intro exI[of _ p']) (simp add: p'_def)
qed

lemma tx_loop_spec:
  assumes "port_wf p" "\<not> uart_circ_empty p"
  shows "\<exists>p'. tx_loop count p = Some p' \<and> port_wf p' \<and>
    (let n = min (max 1 (nat count)) (uart_circ_chars_pending p) in
       queued_chars p' = drop n (queued_chars p) \<and> wrote p' = wrote p @ take n (queued_chars p) \<and>
       tx_icount p' = tx_icount p + of_nat n) \<and> writers_woken p' = writers_woken p"
  using assms
proof (induction count p rule: tx_loop.induct)
  case (1 count p)
  obtain p1 where c: "tx_char p = Some p1" "port_wf p1" "queued_chars p = hd (queued_chars p) # queued_chars p1"
    "wrote p1 = wrote p @ [hd (queued_chars p)]" "tx_icount p1 = tx_icount p + 1"
    "writers_woken p1 = writers_woken p"
    using tx_char_spec[OF 1(2,3)] by blast
  obtain x where q: "queued_chars p = x # queued_chars p1" "wrote p1 = wrote p @ [x]" using c by metis
  have pend: "uart_circ_chars_pending p = Suc (uart_circ_chars_pending p1)"
    using arg_cong[OF q(1), of length] by simp
  consider (empty) "uart_circ_empty p1" | (last) "\<not> uart_circ_empty p1" "\<not> 0 < count - 1"
    | (more) "\<not> uart_circ_empty p1" "0 < count - 1" by blast
  then show ?case
  proof cases
    case empty
    then have "uart_circ_chars_pending p1 = 0" "queued_chars p1 = []"
      using pending_empty[OF c(2)] by (simp_all add: queued_chars_def)
    then show ?thesis using c q pend empty by (simp add: tx_loop.simps[of count p])
  next
    case last
    then show ?thesis using c q pend by (simp add: tx_loop.simps[of count p])
  next
    case more
    from 1(1)[OF c(1) more c(2) more(1)] obtain p2 where r: "tx_loop (count - 1) p1 = Some p2" "port_wf p2"
      "queued_chars p2 = drop (min (max 1 (nat (count - 1))) (uart_circ_chars_pending p1)) (queued_chars p1)"
      "wrote p2 = wrote p1 @ take (min (max 1 (nat (count - 1))) (uart_circ_chars_pending p1)) (queued_chars p1)"
      "tx_icount p2 = tx_icount p1 + of_nat (min (max 1 (nat (count - 1))) (uart_circ_chars_pending p1))"
      "writers_woken p2 = writers_woken p1"
      by (auto simp: Let_def)
    have n: "min (max 1 (nat count)) (uart_circ_chars_pending p) =
        Suc (min (max 1 (nat (count - 1))) (uart_circ_chars_pending p1))"
    proof -
      have "nat count = Suc (nat (count - 1))" "1 \<le> nat (count - 1)" using more by simp_all
      then show ?thesis using pend by (simp add: max_def)
    qed
    then show ?thesis
      using c q r more by (simp add: tx_loop.simps[of count p] Let_def)
  qed
qed


section \<open>Correctness\<close>

text \<open>
  C33: One call of the transmit routine with characters waiting sends, in order, the first half
  fifo of them (one at least, all when fewer wait), leaves the others in order, counts what it
  sent, and wakes the writers exactly when fewer than 256 are left; a high-priority character
  goes alone and before them, and with the output stopped, or nothing waiting, nothing happens.
\<close>

theorem tiny_tx_chars_spec:
  assumes "port_wf p"
  shows "\<exists>p'. tiny_tx_chars p = Some p' \<and> port_wf p' \<and>
    (x_char p \<noteq> 0 \<longrightarrow> wrote p' = wrote p @ [x_char p] \<and> queued_chars p' = queued_chars p \<and> x_char p' = 0) \<and>
    (x_char p = 0 \<and> (tx_stopped p \<or> queued_chars p = []) \<longrightarrow> p' = p) \<and>
    (x_char p = 0 \<and> \<not> tx_stopped p \<and> queued_chars p \<noteq> [] \<longrightarrow>
       (let n = min (max 1 (fifosize p div 2)) (length (queued_chars p)) in
          wrote p' = wrote p @ take n (queued_chars p) \<and> queued_chars p' = drop n (queued_chars p) \<and>
          tx_icount p' = tx_icount p + of_nat n \<and>
          writers_woken p' = writers_woken p + (if length (queued_chars p') < 256 then 1 else 0)))"
proof -
  have empty: "queued_chars p = [] \<longleftrightarrow> uart_circ_empty p"
    using pending_empty[OF assms] by (simp add: queued_chars_def)
  consider (x) "x_char p \<noteq> 0" | (idle) "x_char p = 0" "tx_stopped p \<or> uart_circ_empty p"
    | (send) "x_char p = 0" "\<not> tx_stopped p" "\<not> uart_circ_empty p" by blast
  then show ?thesis
  proof cases
    case x
    have "queued_chars (p\<lparr>wrote := w, tx_icount := n, x_char := 0\<rparr>) = queued_chars p" for w n
      by (simp add: queued_chars_def uart_circ_chars_pending_def)
    with x assms show ?thesis by (auto simp: tiny_tx_chars_def port_wf_def)
  next
    case idle
    with assms show ?thesis by (intro exI[of _ p]) (auto simp: tiny_tx_chars_def empty)
  next
    case send
    obtain p1 where r: "tx_loop (int (fifosize p div 2)) p = Some p1" "port_wf p1"
      "queued_chars p1 = drop (min (max 1 (fifosize p div 2)) (uart_circ_chars_pending p)) (queued_chars p)"
      "wrote p1 = wrote p @ take (min (max 1 (fifosize p div 2)) (uart_circ_chars_pending p)) (queued_chars p)"
      "tx_icount p1 = tx_icount p + of_nat (min (max 1 (fifosize p div 2)) (uart_circ_chars_pending p))"
      "writers_woken p1 = writers_woken p"
      using tx_loop_spec[OF assms send(3), of "int (fifosize p div 2)"] by (auto simp: Let_def)
    define p' where "p' = (if uart_circ_chars_pending p1 < WAKEUP_CHARS
        then p1\<lparr>writers_woken := Suc (writers_woken p1)\<rparr> else p1)"
    have "queued_chars p' = queued_chars p1" "port_wf p'"
      using r(2) by (simp_all add: p'_def queued_chars_def uart_circ_chars_pending_def port_wf_def)
    moreover have "tiny_tx_chars p = Some p'" using send r(1) by (simp add: tiny_tx_chars_def p'_def)
    moreover have "wrote p' = wrote p1" "tx_icount p' = tx_icount p1"
      "writers_woken p' = writers_woken p1 + (if uart_circ_chars_pending p1 < 256 then 1 else 0)"
      by (simp_all add: p'_def)
    moreover have "uart_circ_chars_pending p1 = uart_circ_chars_pending p -
        min (max 1 (fifosize p div 2)) (uart_circ_chars_pending p)"
      using arg_cong[OF r(3), of length] by simp
    ultimately show ?thesis
      using send r by (intro exI[of _ p']) (simp add: Let_def empty)
  qed
qed

definition demo_port :: uart_port where
  "demo_port = \<lparr>x_char = 0, xmit_buf = replicate 4094 0 @ [104, 105], xmit_head = 1, xmit_tail = 4094,
     tx_icount = 0, fifosize = 4, tx_stopped = False, wrote = [], writers_woken = 0\<rparr>"

lemma tiny_tx_chars_spec_witness:
  "\<exists>p'. tiny_tx_chars demo_port = Some p' \<and> wrote p' = [104, 105] \<and> length (queued_chars p') = 1"
proof -
  have "uart_circ_chars_pending demo_port = 3" by (simp add: uart_circ_chars_pending_def demo_port_def)
  then have q: "queued_chars demo_port = [104, 105, 0]"
    by (simp add: queued_chars_def demo_port_def nth_append upt_rec)
  have "port_wf demo_port" "x_char demo_port = 0" "\<not> tx_stopped demo_port" "fifosize demo_port = 4" "wrote demo_port = []"
    by (simp_all add: port_wf_def demo_port_def)
  with tiny_tx_chars_spec[of demo_port] q show ?thesis by (auto simp del: length_queued)
qed

lemma tiny_tx_chars_wf:
  assumes "port_wf p"
  shows "\<exists>p'. tiny_tx_chars p = Some p' \<and> port_wf p'"
proof (cases "x_char p = 0 \<and> \<not> uart_circ_empty p \<and> \<not> tx_stopped p")
  case True
  then obtain p1 where "tx_loop (int (fifosize p div 2)) p = Some p1" "port_wf p1"
    using tx_loop_spec[OF assms, of "int (fifosize p div 2)"] by blast
  with True show ?thesis by (auto simp: tiny_tx_chars_def port_wf_def)
qed (use assms in \<open>auto simp: tiny_tx_chars_def port_wf_def\<close>)

text \<open>The driver between calls, were its timer initialised and its argument the port.\<close>

definition serial_wf :: "serial_driver \<Rightarrow> bool" where
  "serial_wf s \<longleftrightarrow> port_wf (the_port s) \<and> the_timer s = Some Arg_port \<and> timer_ready s \<and> \<not> timer_running s"

lemma serial_tick:
  assumes "serial_wf s" "timer_pending s"
  shows "\<exists>s1 s2. serial_timer_fires s = Some s1 \<and> serial_timer_fn s1 = Some s2 \<and> serial_wf s2 \<and>
    timer_pending s2 = port_tty s \<and> received s2 = received s + (if port_tty s then 1 else 0) \<and>
    (port_tty s \<longrightarrow> tiny_tx_chars (the_port s) = Some (the_port s2))"
proof -
  obtain p where "tiny_tx_chars (the_port s) = Some p" "port_wf p"
    using tiny_tx_chars_wf[of "the_port s"] assms(1) by (auto simp: serial_wf_def)
  with assms show ?thesis
    by (auto simp: serial_wf_def serial_timer_fires_def serial_timer_fn_def serial_add_timer_def)
qed

text \<open>
  Stopping does not wait for a timer function that is running.  When the port is started again
  before that function is done, the function adds a timer that is pending.
\<close>

lemma serial_restart_race:
  assumes "serial_wf s" "timer_pending s" "port_tty s"
  shows "\<exists>s1 s2 s3. serial_timer_fires s = Some s1 \<and> tiny_shutdown s1 = Some s2 \<and>
    tiny_startup False True s2 = Some (Inr (), s3) \<and> serial_timer_fn s3 = None"
  using assms
  by (auto simp: serial_wf_def serial_timer_fires_def tiny_shutdown_def tiny_startup_def
      serial_timer_fn_def serial_add_timer_def)



end
