(* ===== verification/Lddbus.thy ===== *)
theory Lddbus
  imports Short "HOL-Library.Sublist"
begin

text \<open>
  The virtual bus \<open>lddbus/lddbus.c\<close> with its registration of drivers and devices, its rule for
  matching them, and its version attributes; and the part of \<open>sculld/main.c\<close> that puts the
  driver and its devices on the bus.

  The driver core of the kernel is represented by what is registered with it; what it
  answers to a registration is an argument.
\<close>

section \<open>The bus\<close>

type_synonym name = "string"

text \<open>
  The bus with its version file and its device \<open>ldd0\<close>; drivers with their version strings, the
  drivers whose version file exists, and devices, in the order of registration.
\<close>

record ldd =
  bus_up :: bool
  bus_version_file :: bool
  root_up :: bool
  ldd_drivers :: "(name \<times> string) list"
  driver_files :: "name list"
  ldd_devices :: "name list"

text \<open>The comparison of at most \<open>n\<close> characters of two strings, up to their ends.\<close>

fun strncmp_eq :: "nat \<Rightarrow> string \<Rightarrow> string \<Rightarrow> bool" where
  "strncmp_eq 0 _ _ \<longleftrightarrow> True"
| "strncmp_eq (Suc n) [] [] \<longleftrightarrow> True"
| "strncmp_eq (Suc n) (x # xs) (y # ys) \<longleftrightarrow> x = y \<and> strncmp_eq n xs ys"
| "strncmp_eq (Suc n) _ _ \<longleftrightarrow> False"

definition ldd_match :: "name \<Rightarrow> name \<Rightarrow> bool" where
  "ldd_match dev driver \<longleftrightarrow> strncmp_eq (length driver) dev driver"

text \<open>The driver that a device gets: the first that matches.\<close>

definition ldd_bind :: "ldd \<Rightarrow> name \<Rightarrow> name option" where
  "ldd_bind s dev = find (ldd_match dev) (map fst (ldd_drivers s))"

definition ldd_uevent :: "bool \<Rightarrow> string \<Rightarrow> string list \<Rightarrow> (unit ret \<times> string list)" where
  "ldd_uevent room version env =
     (if room then (Inr (), env @ [''LDDBUS_VERSION='' @ version]) else (Inl ENOMEM, env))"

text \<open>\<open>snprintf\<close> into a page: what it returns is the length of the whole text.\<close>

definition version_show :: "string \<Rightarrow> nat \<times> string" where
  "version_show version =
     (let txt = version @ ''\<newline>'' in (length txt, take (PAGE_SIZE - 1) txt))"

text \<open>\<open>sprintf\<close> into a page: the text and its end must fit.\<close>

definition show_version :: "string \<Rightarrow> (nat \<times> string) option" where
  "show_version version =
     (let txt = version @ ''\<newline>'' in if length txt < PAGE_SIZE then Some (length txt, txt) else None)"

section \<open>Devices and drivers\<close>

definition register_ldd_device :: "errno option \<Rightarrow> name \<Rightarrow> ldd \<Rightarrow> unit ret \<times> ldd" where
  "register_ldd_device err dev s =
     (case err of Some e \<Rightarrow> (Inl e, s) | None \<Rightarrow> (Inr (), s\<lparr>ldd_devices := ldd_devices s @ [dev]\<rparr>))"

text \<open>Unregistering what is not registered is undefined.\<close>

definition unregister_ldd_device :: "name \<Rightarrow> ldd \<Rightarrow> ldd option" where
  "unregister_ldd_device dev s =
     (if dev \<in> set (ldd_devices s) then Some (s\<lparr>ldd_devices := remove1 dev (ldd_devices s)\<rparr>) else None)"

definition register_ldd_driver ::
  "errno option \<Rightarrow> errno option \<Rightarrow> name \<Rightarrow> string \<Rightarrow> ldd \<Rightarrow> unit ret \<times> ldd" where
  "register_ldd_driver err file_err driver version s =
     (case err of
        Some e \<Rightarrow> (Inl e, s)
      | None \<Rightarrow>
          let s1 = s\<lparr>ldd_drivers := ldd_drivers s @ [(driver, version)]\<rparr>
          in case file_err of
               Some e \<Rightarrow> (Inl e, s1)
             | None \<Rightarrow> (Inr (), s1\<lparr>driver_files := driver_files s1 @ [driver]\<rparr>))"

definition unregister_ldd_driver :: "name \<Rightarrow> ldd \<Rightarrow> ldd option" where
  "unregister_ldd_driver driver s =
     (if driver \<in> fst ` set (ldd_drivers s)
      then Some (s\<lparr>ldd_drivers := filter (\<lambda>d. fst d \<noteq> driver) (ldd_drivers s),
                   driver_files := filter (\<lambda>d. d \<noteq> driver) (driver_files s)\<rparr>)
      else None)"

section \<open>Start and end of the bus\<close>

definition ldd_bus_init :: "errno option \<Rightarrow> bool \<Rightarrow> errno option \<Rightarrow> ldd \<Rightarrow> unit ret \<times> ldd" where
  "ldd_bus_init err file_ok root_err s =
     (case err of
        Some e \<Rightarrow> (Inl e, s)
      | None \<Rightarrow>
          (case root_err of
             Some e \<Rightarrow> (Inl e, s\<lparr>bus_up := False, bus_version_file := False\<rparr>)
           | None \<Rightarrow> (Inr (), s\<lparr>bus_up := True, bus_version_file := file_ok, root_up := True\<rparr>)))"

definition ldd_bus_exit :: "ldd \<Rightarrow> ldd" where
  "ldd_bus_exit s = s\<lparr>root_up := False, bus_up := False, bus_version_file := False\<rparr>"

section \<open>The devices of sculld\<close>

definition sculld_devname :: "nat \<Rightarrow> name" where
  "sculld_devname index = ''sculld'' @ map (\<lambda>d. char_of (48 + d)) (digits index)"

text \<open>The answers to the registration and to the creation of the file are not looked at.\<close>

definition sculld_register_dev :: "errno option \<Rightarrow> nat \<Rightarrow> ldd \<Rightarrow> ldd" where
  "sculld_register_dev err index s = snd (register_ldd_device err (sculld_devname index) s)"

text \<open>
  What \<open>sculld_init\<close> does to the bus: the driver first, then, if the memory for the devices is
  there, one device after the other.
\<close>

fun sculld_register_all :: "errno option list \<Rightarrow> nat \<Rightarrow> ldd \<Rightarrow> ldd" where
  "sculld_register_all [] i s = s"
| "sculld_register_all (e # es) i s = sculld_register_all es (Suc i) (sculld_register_dev e i s)"

definition sculld_init_bus ::
  "errno option \<Rightarrow> errno option \<Rightarrow> string \<Rightarrow> bool \<Rightarrow> errno option list \<Rightarrow> ldd \<Rightarrow> unit ret \<times> ldd" where
  "sculld_init_bus err file_err version mem dev_errs s =
     (let s1 = snd (register_ldd_driver err file_err ''sculld'' version s)
      in if mem then (Inr (), sculld_register_all dev_errs 0 s1) else (Inl ENOMEM, s1))"

fun sculld_unregister_all :: "nat \<Rightarrow> nat \<Rightarrow> ldd \<Rightarrow> ldd option" where
  "sculld_unregister_all i 0 s = Some s"
| "sculld_unregister_all i (Suc n) s =
     do { s1 \<leftarrow> unregister_ldd_device (sculld_devname i) s; sculld_unregister_all (Suc i) n s1 }"

definition sculld_cleanup_bus :: "nat \<Rightarrow> ldd \<Rightarrow> ldd option" where
  "sculld_cleanup_bus sculld_devs s =
     do { s1 \<leftarrow> sculld_unregister_all 0 sculld_devs s; unregister_ldd_driver ''sculld'' s1 }"

section \<open>Facts\<close>

lemma strncmp_eq_prefix: "strncmp_eq (length d) s d \<longleftrightarrow> prefix d s"
proof (induction d arbitrary: s)
  case (Cons y ys)
  then show ?case by (cases s) auto
qed simp

lemma ldd_match_prefix: "ldd_match dev driver \<longleftrightarrow> prefix driver dev"
  by (simp add: ldd_match_def strncmp_eq_prefix)

lemma find_append_case: "find P (xs @ ys) = (case find P xs of None \<Rightarrow> find P ys | Some x \<Rightarrow> Some x)"
  by (induction xs) simp_all

fun undigits :: "nat list \<Rightarrow> nat" where
  "undigits ds = fold (\<lambda>d n. 10 * n + d) ds 0"

lemma undigits_digits: "undigits (digits n) = n"
proof (induction n rule: digits.induct)
  case (1 n)
  then show ?case by (simp add: digits.simps[of n])
qed

lemma digits_bound: "d \<in> set (digits n) \<Longrightarrow> d < 10"
proof (induction n rule: digits.induct)
  case (1 n)
  then show ?case by (auto simp: digits.simps[of n] split: if_splits)
qed

lemma sculld_devname_inj: "sculld_devname i = sculld_devname j \<longleftrightarrow> i = j"
proof
  assume "sculld_devname i = sculld_devname j"
  then have m: "map (\<lambda>d. char_of (48 + d) :: char) (digits i) = map (\<lambda>d. char_of (48 + d)) (digits j)"
    by (simp add: sculld_devname_def)
  have inj: "inj_on (\<lambda>d :: nat. char_of (48 + d) :: char) {..<10}"
  proof (rule inj_onI)
    fix x y :: nat assume b: "x \<in> {..<10}" "y \<in> {..<10}" "(char_of (48 + x) :: char) = char_of (48 + y)"
    then have "of_char (char_of (48 + x) :: char) = (of_char (char_of (48 + y) :: char) :: nat)" by simp
    with b show "x = y" by simp
  qed
  have "digits i = digits j"
    by (rule map_inj_on[OF m inj_on_subset[OF inj]]) (auto dest: digits_bound)
  then show "i = j" using undigits_digits by metis
qed simp

text \<open>Devices registered and unregistered in the same order.\<close>

lemma register_all_ok:
  "sculld_register_all (replicate n None) i s =
     s\<lparr>ldd_devices := ldd_devices s @ map sculld_devname [i..<i + n]\<rparr>"
proof (induction n arbitrary: i s)
  case (Suc n)
  have "map sculld_devname [i..<i + Suc n] = sculld_devname i # map sculld_devname [Suc i..<Suc i + n]"
    by (simp add: upt_conv_Cons del: upt_Suc)
  then show ?case
    by (simp add: Suc sculld_register_dev_def register_ldd_device_def del: upt_Suc)
qed simp

lemma unregister_all_ok:
  assumes "\<And>j. i \<le> j \<Longrightarrow> j < i + n \<Longrightarrow> sculld_devname j \<notin> set xs"
  shows "sculld_unregister_all i n (s\<lparr>ldd_devices := xs @ map sculld_devname [i..<i + n]\<rparr>) =
    Some (s\<lparr>ldd_devices := xs\<rparr>)"
  using assms
proof (induction n arbitrary: i)
  case (Suc n)
  have m: "map sculld_devname [i..<Suc (i + n)] = sculld_devname i # map sculld_devname [Suc i..<Suc (i + n)]"
    by (simp add: upt_conv_Cons del: upt_Suc)
  have "sculld_devname i \<notin> set xs" using Suc.prems by simp
  then show ?case
    using Suc.IH[of "Suc i"] Suc.prems
    by (simp add: m unregister_ldd_device_def remove1_append del: upt_Suc)
qed simp

section \<open>Correctness\<close>

text \<open>
  The devices of sculld go to its driver and leave the bus as they found it: if the driver
  and all its devices are accepted and no driver or device of these names is there yet, every
  device is bound to the driver unless an earlier driver's name is a prefix of the device's,
  and the cleanup takes away exactly what the initialisation put there.
\<close>

theorem sculld_bus_round_trip:
  assumes "\<forall>i. sculld_devname i \<notin> set (ldd_devices s)" "''sculld'' \<notin> fst ` set (ldd_drivers s)"
    and "''sculld'' \<notin> set (driver_files s)"
    and init: "sculld_init_bus None None version True (replicate n None) s = (r, s')"
  shows "r = Inr () \<and> ldd_devices s' = ldd_devices s @ map sculld_devname [0..<n] \<and>
    (\<forall>i < n. (\<exists>d. ldd_bind s' (sculld_devname i) = Some d) \<and>
       ((\<forall>d \<in> fst ` set (ldd_drivers s). \<not> prefix d (sculld_devname i)) \<longrightarrow>
          ldd_bind s' (sculld_devname i) = Some ''sculld'')) \<and>
    sculld_cleanup_bus n s' = Some s"
proof -
  let ?s1 = "s\<lparr>ldd_drivers := ldd_drivers s @ [(''sculld'', version)],
     driver_files := driver_files s @ [''sculld'']\<rparr>"
  have s': "s' = ?s1\<lparr>ldd_devices := ldd_devices s @ map sculld_devname [0..<n]\<rparr>" and r: "r = Inr ()"
    using init by (simp_all add: sculld_init_bus_def register_ldd_driver_def register_all_ok Let_def)
  have m: "ldd_match (sculld_devname i) ''sculld''" for i
    by (simp add: ldd_match_prefix sculld_devname_def)
  have bind: "ldd_bind s' (sculld_devname i) =
      (case ldd_bind s (sculld_devname i) of None \<Rightarrow> Some ''sculld'' | Some d \<Rightarrow> Some d)" for i
    using m[of i] by (simp add: ldd_bind_def s' find_append_case split: option.splits)
  have none: "ldd_bind s (sculld_devname i) = None"
    if "\<forall>d \<in> fst ` set (ldd_drivers s). \<not> prefix d (sculld_devname i)" for i
    using that by (auto simp: ldd_bind_def find_None_iff ldd_match_prefix)
  have "sculld_unregister_all 0 n (?s1\<lparr>ldd_devices := ldd_devices s @ map sculld_devname [0..<0 + n]\<rparr>) =
      Some (?s1\<lparr>ldd_devices := ldd_devices s\<rparr>)"
    using assms(1) by (intro unregister_all_ok) auto
  then have un: "sculld_unregister_all 0 n s' = Some ?s1" by (simp add: s')
  have "filter (\<lambda>d. fst d \<noteq> ''sculld'') (ldd_drivers s) = ldd_drivers s"
    "filter (\<lambda>d. d \<noteq> ''sculld'') (driver_files s) = driver_files s"
    using assms(2,3) by (auto simp: filter_id_conv image_iff)
  then have "sculld_cleanup_bus n s' = Some s"
    by (simp add: sculld_cleanup_bus_def un unregister_ldd_driver_def)
  then show ?thesis using r bind none by (simp add: s' split: option.splits)
qed

definition empty_bus :: ldd where
  "empty_bus = \<lparr>bus_up = True, bus_version_file = True, root_up = True, ldd_drivers = [],
     driver_files = [], ldd_devices = []\<rparr>"

theorem sculld_bus_round_trip_witness:
  "\<exists>s'. sculld_init_bus None None ''1.21'' True [None, None] empty_bus = (Inr (), s') \<and>
     ldd_bind s' (sculld_devname 1) = Some ''sculld'' \<and> sculld_cleanup_bus 2 s' = Some empty_bus"
proof -
  obtain r s' where i: "sculld_init_bus None None ''1.21'' True (replicate 2 None) empty_bus = (r, s')"
    by (cases "sculld_init_bus None None ''1.21'' True (replicate 2 None) empty_bus")
  from sculld_bus_round_trip[OF _ _ _ this] i show ?thesis
    by (auto simp: empty_bus_def numeral_2_eq_2)
qed

text \<open>
  When a device was not accepted, which the initialisation does not notice, the cleanup
  unregisters a device that is not there; and when the memory for the devices cannot be had,
  the initialisation fails and leaves its driver on the bus.
\<close>

lemma sculld_failed_device_undefined:
  assumes "sculld_devname 0 \<notin> set (ldd_devices s)"
    and "sculld_init_bus None None version True [Some e] s = (r, s')"
  shows "r = Inr () \<and> sculld_cleanup_bus 1 s' = None"
  using assms
  by (auto simp: sculld_init_bus_def register_ldd_driver_def sculld_register_dev_def
      register_ldd_device_def sculld_cleanup_bus_def unregister_ldd_device_def Let_def)

lemma sculld_failed_memory_keeps_driver:
  "fst (sculld_init_bus None None version False es s) = Inl ENOMEM \<and>
   (''sculld'', version) \<in> set (ldd_drivers (snd (sculld_init_bus None None version False es s)))"
  by (simp add: sculld_init_bus_def register_ldd_driver_def Let_def)

text \<open>A driver whose version file cannot be made is reported as failed and stays registered.\<close>

lemma register_driver_file_error:
  "register_ldd_driver None (Some e) driver version s =
     (Inl e, s\<lparr>ldd_drivers := ldd_drivers s @ [(driver, version)]\<rparr>)"
  by (simp add: register_ldd_driver_def Let_def)

lemma ldd_bus_init_exit:
  assumes "\<not> bus_up s" "\<not> bus_version_file s" "\<not> root_up s" "ldd_bus_init err ok root_err s = (r, s')"
  shows "(case r of Inl e \<Rightarrow> s' = s | Inr _ \<Rightarrow> bus_up s' \<and> root_up s' \<and> ldd_bus_exit s' = s)"
  using assms by (auto simp: ldd_bus_init_def ldd_bus_exit_def split: option.splits)

end
