(* ===== verification/Skull.thy ===== *)
theory Skull
  imports Prelude
begin

text \<open>
  The module \<open>skull/skull_init.c\<close>: its survey of the ISA memory between 640k and 1M, which
  tells RAM, ROM, expansion ROMs and empty space apart by reading and writing, and its search
  for a device among the ports.

  The hardware is an argument: which blocks are allocated, and what a write of a byte does to
  what can be read afterwards.
\<close>

unbundle bit_operations_syntax

section \<open>The survey\<close>

abbreviation (input) ISA_REGION_BEGIN :: int where "ISA_REGION_BEGIN \<equiv> 0xA0000"
abbreviation (input) ISA_REGION_END :: int where "ISA_REGION_END \<equiv> 0x100000"
abbreviation (input) STEP :: int where "STEP \<equiv> 2048"

type_synonym isa = "int \<Rightarrow> byte"

record isa_hw =
  block_allocated :: "int \<Rightarrow> bool"
  poke :: "isa \<Rightarrow> int \<Rightarrow> byte \<Rightarrow> isa"

datatype region = Allocated | RAM | Empty | Expansion_ROM int | ROM

text \<open>
  The last test: five bytes are read, and one that is not 0, 0xFF or the low byte of its
  address makes it a ROM.
\<close>

definition looks_like_rom :: "isa \<Rightarrow> int \<Rightarrow> bool" where
  "looks_like_rom m add =
     list_ex (\<lambda>i. let radd = add + 57 * (int i + 1); val = m radd
                  in val \<noteq> 0 \<and> val \<noteq> 0xFF \<and> uint val \<noteq> radd mod 256) [0..<5]"

definition skull_look :: "isa_hw \<Rightarrow> isa \<Rightarrow> int \<Rightarrow> region \<times> isa" where
  "skull_look hw m add =
     (if block_allocated hw add then (Allocated, m)
      else let oldval = m add;
               m1 = poke hw m add (oldval XOR 0xFF);
               newval = m1 add;
               m2 = poke hw m1 add oldval
      in if oldval XOR newval = 0xFF then (RAM, m2)
         else if oldval XOR newval \<noteq> 0 then (Empty, m2)
         else if oldval = 0x55 \<and> m2 (add + 1) = 0xAA
              then (Expansion_ROM (512 * uint (m2 (add + 2))), m2)
         else (if looks_like_rom m2 add then ROM else Empty, m2))"

text \<open>Where the loop goes on: \<open>add += (size & ~2048) - 2048\<close> for a ROM, and then a step.\<close>

definition skull_next :: "int \<Rightarrow> region \<Rightarrow> int" where
  "skull_next add r =
     u64 ((case r of Expansion_ROM sz \<Rightarrow> u64 (add + ((sz AND NOT 2048) - 2048)) | _ \<Rightarrow> add) + STEP)"

text \<open>The lines that are printed, and the memory at the end; \<open>None\<close> when the loop does not end.\<close>

partial_function (option) skull_survey :: "isa_hw \<Rightarrow> isa \<Rightarrow> int \<Rightarrow> ((int \<times> region) list \<times> isa) option" where
  "skull_survey hw m add =
     (if add < ISA_REGION_END
      then do { rest \<leftarrow> skull_survey hw (snd (skull_look hw m add)) (skull_next add (fst (skull_look hw m add)));
                Some ((add, fst (skull_look hw m add)) # fst rest, snd rest) }
      else Some ([], m))"

section \<open>The search for the device\<close>

abbreviation (input) SKULL_PORT_FLOOR :: int where "SKULL_PORT_FLOOR \<equiv> 0x280"
abbreviation (input) SKULL_PORT_CEIL :: int where "SKULL_PORT_CEIL \<equiv> 0x300"
abbreviation (input) SKULL_PORT_RANGE :: int where "SKULL_PORT_RANGE \<equiv> 0x010"

definition skull_probe_hw :: "int \<Rightarrow> int \<Rightarrow> int" where
  "skull_probe_hw port rng = - 1"

definition skull_init_board :: "int \<Rightarrow> int" where
  "skull_init_board port = 0"

text \<open>\<open>check\<close> is what \<open>check_region\<close> answers for a port.\<close>

definition skull_detect :: "(int \<Rightarrow> errno option) \<Rightarrow> int \<Rightarrow> int \<Rightarrow> unit ret" where
  "skull_detect check port rng =
     (case check port of
        Some e \<Rightarrow> Inl e
      | None \<Rightarrow> if skull_probe_hw port rng \<noteq> 0 then Inl ENODEV else Inr ())"

text \<open>The loop: the number of devices found, and the ports tried.\<close>

function skull_find_loop :: "(int \<Rightarrow> errno option) \<Rightarrow> int \<Rightarrow> int \<Rightarrow> nat \<Rightarrow> nat \<times> int list" where
  "skull_find_loop check skull_port_base b result =
     (let result' = (if skull_detect check b SKULL_PORT_RANGE = Inr () then Suc result else result);
          b' = b + SKULL_PORT_RANGE
      in if skull_port_base = 0 \<and> b' < SKULL_PORT_CEIL
         then (let (r, ps) = skull_find_loop check skull_port_base b' result' in (r, b # ps))
         else (result', [b]))"
  by pat_completeness auto
termination by (relation "measure (\<lambda>(check, p, b, r). nat (SKULL_PORT_CEIL - b))") auto

declare skull_find_loop.simps [simp del]

definition skull_find_hw :: "(int \<Rightarrow> errno option) \<Rightarrow> int \<Rightarrow> nat \<times> int list" where
  "skull_find_hw check skull_port_base =
     skull_find_loop check skull_port_base
       (if skull_port_base \<noteq> 0 then skull_port_base else SKULL_PORT_FLOOR) 0"

text \<open>\<open>skull_init\<close> surveys the memory and looks for the device; it returns zero.\<close>

definition skull_init ::
  "isa_hw \<Rightarrow> isa \<Rightarrow> (int \<Rightarrow> errno option) \<Rightarrow> int \<Rightarrow> ((int \<times> region) list \<times> isa \<times> nat) option" where
  "skull_init hw m check skull_port_base =
     do { s \<leftarrow> skull_survey hw m ISA_REGION_BEGIN;
          Some (fst s, snd s, fst (skull_find_hw check skull_port_base)) }"

section \<open>Facts\<close>

text \<open>
  Memory-like hardware: each address either takes writes or ignores them.  Then looking at a
  block does not change what can be read.
\<close>

definition plain_hw :: "isa_hw \<Rightarrow> bool" where
  "plain_hw hw \<longleftrightarrow> (\<forall>a. (\<forall>m v. poke hw m a v = m(a := v)) \<or> (\<forall>m v. poke hw m a v = m))"

lemma look_keeps:
  assumes "plain_hw hw"
  shows "snd (skull_look hw m add) = m"
proof -
  consider "\<forall>m v. poke hw m add v = m(add := v)" | "\<forall>m v. poke hw m add v = m"
    using assms unfolding plain_hw_def by blast
  then have "poke hw (poke hw m add (m add XOR 0xFF)) add (m add) = m" by cases simp_all
  then show ?thesis
    unfolding skull_look_def Let_def by (simp only: if_distrib[of snd] snd_conv if_cancel)
qed

lemma look_size:
  assumes "fst (skull_look hw m add) = Expansion_ROM sz"
  shows "\<exists>k :: byte. sz = 512 * uint k"
  using assms by (auto simp: skull_look_def Let_def split: if_splits)

lemma and_not_4: "0 \<le> k \<Longrightarrow> k AND NOT 4 = (if bit k 2 then k - 4 else (k :: int))"
proof -
  assume "0 \<le> k"
  have "k AND NOT (push_bit 2 1) = unset_bit 2 k" by (simp add: unset_bit_eq_and_not)
  moreover have "push_bit 2 1 = (4 :: int)" by (simp add: push_bit_eq_mult)
  moreover have "unset_bit 2 k = k - of_bool (bit k 2) * 4"
    using unset_bit_eq[of 2 k] by simp
  ultimately show ?thesis by simp
qed

lemma push_bit_and_not:
  "push_bit n x AND NOT (push_bit n y) = push_bit n (x AND NOT (y :: int))"
  by (rule bit_eqI) (auto simp: bit_simps)

lemma rom_skip:
  fixes k :: byte
  shows "(512 * uint k) AND NOT 2048 = 512 * (if bit k 2 then uint k - 4 else uint k)"
proof -
  have "(512 * uint k) AND NOT 2048 = push_bit 9 (uint k) AND NOT (push_bit 9 4)"
    by (simp add: push_bit_eq_mult mult.commute)
  also have "\<dots> = push_bit 9 (uint k AND NOT 4)" by (rule push_bit_and_not)
  also have "\<dots> = 512 * (uint k AND NOT 4)" by (simp add: push_bit_eq_mult mult.commute)
  finally have "(512 * uint k) AND NOT 2048 = 512 * (uint k AND NOT 4)" .
  moreover have "bit (uint k) 2 = bit k 2" by (simp add: bit_uint_iff)
  ultimately show ?thesis by (simp only: and_not_4[OF uint_ge_0])
qed


lemma byte_bit2: "bit (k :: byte) 2 \<Longrightarrow> 4 \<le> uint k"
proof (rule ccontr)
  assume b: "bit k 2" and "\<not> 4 \<le> uint k"
  then have "take_bit 2 (uint k) = uint k" by (intro take_bit_int_eq_self) simp_all
  moreover have "\<not> bit (take_bit 2 (uint k)) 2" by (simp add: bit_take_bit_iff)
  ultimately show False using b by (simp add: bit_uint_iff)
qed

text \<open>
  Every step goes forward, by 512 bytes at least, but for an expansion ROM whose length byte
  is 0 or 4: there the loop stays where it is.
\<close>

lemma skull_next_forward:
  assumes "0 \<le> add" "add < ISA_REGION_END" "\<And>k. r = Expansion_ROM (512 * uint (k :: byte)) \<Longrightarrow> k \<noteq> 0 \<and> k \<noteq> 4"
    and "\<And>sz. r = Expansion_ROM sz \<Longrightarrow> \<exists>k :: byte. sz = 512 * uint k"
  shows "add + 512 \<le> skull_next add r"
proof (cases "\<exists>sz. r = Expansion_ROM sz")
  case False
  then have "skull_next add r = add + STEP"
    using assms(1,2) by (cases r) (auto simp: skull_next_def)
  then show ?thesis by simp
next
  case True
  then obtain k :: byte where r: "r = Expansion_ROM (512 * uint k)" using assms(4) by blast
  then have k: "k \<noteq> 0" "k \<noteq> 4" using assms(3) by blast+
  define j where "j = (if bit k 2 then uint k - 4 else uint k)"
  have "uint k \<noteq> 0" using k(1) by (simp add: unsigned_eq_0_iff)
  moreover have "uint k \<noteq> 4" using k(2) unfolding word_uint_eq_iff by simp
  moreover have "1 \<le> uint k" using \<open>uint k \<noteq> 0\<close> uint_ge_0[of k] by linarith
  moreover have "uint k < 256" using uint_lt2p[of k] by simp
  moreover have "bit k 2 \<longrightarrow> 4 \<le> uint k" using byte_bit2 by blast
  ultimately have "1 \<le> j \<and> j < 256" unfolding j_def by (cases "bit k 2") auto
  then have j: "1 \<le> j" "j < 256" by auto
  have "skull_next add r = u64 (u64 (add + (512 * j - 2048)) + STEP)"
    by (simp only: skull_next_def r region.case rom_skip j_def)
  also have "\<dots> = u64 (add + 512 * j)"
    by (simp add: u64_def mod_simps)
  also have "\<dots> = add + 512 * j" using assms(1,2) j by (intro u64_id) auto
  finally show ?thesis using j by simp
qed


section \<open>Correctness\<close>

lemma survey_ends:
  assumes hw: "plain_hw hw" and add: "0 \<le> add"
    and rom: "\<And>a k. 0 \<le> a \<Longrightarrow> fst (skull_look hw m a) = Expansion_ROM (512 * uint (k :: byte)) \<Longrightarrow> k \<noteq> 0 \<and> k \<noteq> 4"
  shows "\<exists>xs. skull_survey hw m add = Some (xs, m)"
  using add
proof (induction "nat (ISA_REGION_END - add)" arbitrary: add rule: less_induct)
  case less
  show ?case
  proof (cases "add < ISA_REGION_END")
    case False
    then show ?thesis by (subst skull_survey.simps) simp
  next
    case True
    have "add + 512 \<le> skull_next add (fst (skull_look hw m add))"
      using rom[OF less(2)] look_size by (intro skull_next_forward[OF less(2) True]) auto
    then obtain xs where "skull_survey hw m (skull_next add (fst (skull_look hw m add))) = Some (xs, m)"
      using less(1)[of "skull_next add (fst (skull_look hw m add))"] less(2) True by auto
    then show ?thesis by (subst skull_survey.simps) (simp add: True look_keeps[OF hw])
  qed
qed

text \<open>
  C35: The survey of the ISA memory ends and leaves every byte as it found it, on hardware where
  each address takes writes or ignores them and no expansion ROM has 0 or 4 as its length
  byte; and when there is such a ROM where the survey looks, the loading of the module never
  ends.
\<close>

theorem skull_survey_ends:
  assumes "plain_hw hw"
  shows "((\<forall>a k. 0 \<le> a \<longrightarrow> fst (skull_look hw m a) = Expansion_ROM (512 * uint (k :: byte)) \<longrightarrow> k \<noteq> 0 \<and> k \<noteq> 4) \<longrightarrow>
      (\<exists>xs. skull_survey hw m ISA_REGION_BEGIN = Some (xs, m))) \<and>
    (0 \<le> add \<longrightarrow> add < ISA_REGION_END \<longrightarrow>
      fst (skull_look hw m add) = Expansion_ROM 2048 \<or> fst (skull_look hw m add) = Expansion_ROM 0 \<longrightarrow>
      skull_survey hw m add = None)"
proof (intro conjI impI)
  assume "\<forall>a k. 0 \<le> a \<longrightarrow> fst (skull_look hw m a) = Expansion_ROM (512 * uint (k :: byte)) \<longrightarrow> k \<noteq> 0 \<and> k \<noteq> 4"
  then show "\<exists>xs. skull_survey hw m ISA_REGION_BEGIN = Some (xs, m)"
    using survey_ends[OF assms, of ISA_REGION_BEGIN m] by auto
next
  assume add: "0 \<le> add" "add < ISA_REGION_END"
    and rom: "fst (skull_look hw m add) = Expansion_ROM 2048 \<or> fst (skull_look hw m add) = Expansion_ROM 0"
  have stay: "skull_next add (fst (skull_look hw m add)) = add"
  proof -
    have "(512 * uint (4 :: byte)) AND NOT 2048 = 0" "(512 * uint (0 :: byte)) AND NOT 2048 = 0"
      unfolding rom_skip by (simp_all add: bit_numeral_rec)
    then have "skull_next add (fst (skull_look hw m add)) = u64 (u64 (add - 2048) + STEP)"
      using rom by (auto simp: skull_next_def)
    also have "\<dots> = u64 add" by (simp add: u64_def mod_simps)
    finally show ?thesis using add by simp
  qed
  show "skull_survey hw m add = None"
  proof (rule ccontr)
    assume "skull_survey hw m add \<noteq> None"
    then obtain xs m' where s: "skull_survey hw m add = Some (xs, m')" by auto
    then have "Some (xs, m') = Some ((add, fst (skull_look hw m add)) # xs, m')"
      by (subst (asm) skull_survey.simps) (simp add: add(2) look_keeps[OF assms] stay s)
    then show False by simp
  qed
qed

text \<open>RAM everywhere, and RAM with a small expansion ROM at the start.\<close>

definition ram_hw :: isa_hw where
  "ram_hw = \<lparr>block_allocated = (\<lambda>_. False), poke = (\<lambda>m a v. m(a := v))\<rparr>"

definition rom_hw :: isa_hw where
  "rom_hw = \<lparr>block_allocated = (\<lambda>_. False), poke = (\<lambda>m a v. m)\<rparr>"

theorem skull_survey_ends_witness:
  "(\<exists>xs. skull_survey ram_hw (\<lambda>_. 7) 0xA0000 = Some (xs, \<lambda>_. 7)) \<and>
   skull_survey rom_hw ((\<lambda>_. 0)(0xA0000 := 0x55, 0xA0001 := 0xAA, 0xA0002 := 4)) 0xA0000 = None"
proof
  have p: "plain_hw ram_hw" "plain_hw rom_hw" by (auto simp: plain_hw_def ram_hw_def rom_hw_def)
  have "fst (skull_look ram_hw (\<lambda>_. 7) a) = RAM" for a by (simp add: skull_look_def ram_hw_def)
  then show "\<exists>xs. skull_survey ram_hw (\<lambda>_. 7) 0xA0000 = Some (xs, \<lambda>_. 7)"
    using skull_survey_ends[OF p(1), of "\<lambda>_. 7"] by simp
  show "skull_survey rom_hw ((\<lambda>_. 0)(0xA0000 := 0x55, 0xA0001 := 0xAA, 0xA0002 := 4)) 0xA0000 = None"
    using skull_survey_ends[OF p(2), of "(\<lambda>_. 0)(0xA0000 := 0x55, 0xA0001 := 0xAA, 0xA0002 := 4)" "0xA0000"]
    by (simp add: skull_look_def rom_hw_def Let_def)
qed

text \<open>
  The search: the given port, or the eight ports of the range, are tried once each; since the
  probe never finds anything, neither does the search.
\<close>

lemma skull_detect_never: "skull_detect check b rng \<noteq> Inr ()"
  by (auto simp: skull_detect_def skull_probe_hw_def split: option.splits)

lemma skull_find_auto:
  "b + 16 * int n = 0x2F0 \<Longrightarrow> skull_find_loop check 0 b r = (r, map (\<lambda>i. b + 16 * int i) [0..<Suc n])"
proof (induction n arbitrary: b)
  case 0
  then show ?case by (subst skull_find_loop.simps) (simp add: skull_detect_never)
next
  case (Suc n)
  have "map (\<lambda>i. b + 16 * int i) [0..<Suc (Suc n)] = b # map (\<lambda>i. b + 16 + 16 * int i) [0..<Suc n]"
    unfolding upt_conv_Cons[OF zero_less_Suc] map_Suc_upt[symmetric] by (simp add: algebra_simps)
  moreover have "skull_find_loop check 0 (b + 16) r = (r, map (\<lambda>i. b + 16 + 16 * int i) [0..<Suc n])"
    using Suc.prems by (intro Suc.IH) simp
  ultimately show ?case
    using Suc.prems by (subst skull_find_loop.simps) (simp add: skull_detect_never Let_def del: upt_Suc)
qed

lemma skull_find_hw_spec:
  "skull_find_hw check p = (0, if p = 0 then [0x280, 0x290, 0x2A0, 0x2B0, 0x2C0, 0x2D0, 0x2E0, 0x2F0] else [p])"
proof (cases "p = 0")
  case True
  have "skull_find_loop check 0 0x280 0 = (0, map (\<lambda>i. 0x280 + 16 * int i) [0..<Suc 7])"
    by (rule skull_find_auto) simp
  then show ?thesis using True by (simp add: skull_find_hw_def upt_rec)
next
  case False
  then show ?thesis by (simp add: skull_find_hw_def skull_find_loop.simps[of check p] skull_detect_never)
qed

end
