(* ===== verification/Simple.thy ===== *)
theory Simple
  imports Prelude
begin

text \<open>
  Small drivers: \<open>simple/simple.c\<close>, which maps physical memory into a process in two ways,
  \<open>pci/pci_skel.c\<close>, and the deferred operations of \<open>scull-shared/scull-async.c\<close>.
\<close>

section \<open>Mapping physical memory\<close>

text \<open>A mapping: its addresses, and the number of the page of memory it starts with.\<close>

record vm_area =
  area_start :: int
  area_end :: int
  area_pgoff :: int

text \<open>
  \<open>remap_pfn_range\<close> maps the pages of the area to consecutive page frames from \<open>area_pgoff\<close>
  on; the result is the frame for each address.  \<open>refused\<close> is its answer.
\<close>

definition simple_remap_mmap :: "bool \<Rightarrow> vm_area \<Rightarrow> (int \<Rightarrow> int option) ret" where
  "simple_remap_mmap refused v =
     (if refused then Inl EAGAIN
      else Inr (\<lambda>address. if area_start v \<le> address \<and> address < area_end v
                          then Some (area_pgoff v + (address - area_start v) div 4096) else None))"

text \<open>The second device maps nothing at first; a fault gives the page, or a bus error.\<close>

datatype fault = Page int | VM_FAULT_SIGBUS

definition simple_vma_nopage :: "(int \<Rightarrow> bool) \<Rightarrow> vm_area \<Rightarrow> int \<Rightarrow> fault" where
  "simple_vma_nopage pfn_valid v address =
     (let offset = u64 (area_pgoff v * 4096);
          physaddr = u64 (address - area_start v + offset);
          pageframe = physaddr div 4096
      in if pfn_valid pageframe then Page pageframe else VM_FAULT_SIGBUS)"

definition simple_nopage_mmap :: "vm_area \<Rightarrow> unit ret" where
  "simple_nopage_mmap v = Inr ()"

section \<open>Start and end of the module\<close>

text \<open>
  The region of numbers that is held, with its major number, and the minor numbers of the
  devices that are live.
\<close>

record simple_module =
  simple_region :: "int option"
  simple_cdevs :: "int list"

definition simple_setup_cdev :: "errno option \<Rightarrow> int \<Rightarrow> simple_module \<Rightarrow> simple_module" where
  "simple_setup_cdev err minor s =
     (case err of Some e \<Rightarrow> s | None \<Rightarrow> s\<lparr>simple_cdevs := simple_cdevs s @ [minor]\<rparr>)"

text \<open>
  \<open>reg\<close> answers the registration: an error, or the major number of the region it gives (the
  one asked for, when \<open>simple_major\<close> is not zero).
\<close>

definition simple_init ::
  "int \<Rightarrow> int ret \<Rightarrow> errno option \<Rightarrow> errno option \<Rightarrow> simple_module \<Rightarrow> unit ret \<times> int \<times> simple_module" where
  "simple_init simple_major reg err0 err1 s =
     (case reg of
        Inl e \<Rightarrow> (Inl e, simple_major, s)
      | Inr major \<Rightarrow>
          (Inr (), (if simple_major \<noteq> 0 then simple_major else major),
           simple_setup_cdev err1 1 (simple_setup_cdev err0 0 (s\<lparr>simple_region := Some major\<rparr>))))"

definition simple_cleanup :: "simple_module \<Rightarrow> simple_module" where
  "simple_cleanup s = s\<lparr>simple_cdevs := filter (\<lambda>m. m \<noteq> 0 \<and> m \<noteq> 1) (simple_cdevs s), simple_region := None\<rparr>"

lemma simple_init_cleanup:
  assumes "simple_region s = None" "simple_cdevs s = []" "simple_init major reg e0 e1 s = (r, major', s')"
  shows "(case r of Inl e \<Rightarrow> s' = s | Inr _ \<Rightarrow> simple_region s' \<noteq> None \<and> simple_cleanup s' = s)"
  using assms by (auto simp: simple_init_def simple_cleanup_def simple_setup_cdev_def split: sum.splits option.splits)

section \<open>The PCI skeleton\<close>

text \<open>The answer of a probe, and whether the device is left enabled.\<close>

definition skel_get_revision :: "(nat \<Rightarrow> byte) \<Rightarrow> byte" where
  "skel_get_revision config = config 8"

definition pci_probe :: "bool \<Rightarrow> (nat \<Rightarrow> byte) \<Rightarrow> unit ret \<times> bool" where
  "pci_probe enable_fails config =
     (if enable_fails then (Inl ENODEV, False)
      else if skel_get_revision config = 0x42 then (Inl ENODEV, True)
      else (Inr (), True))"

text \<open>A device that is refused for its revision stays enabled.\<close>

lemma pci_probe_leaves_enabled:
  "config 8 = 0x42 \<Longrightarrow> pci_probe False config = (Inl ENODEV, True)"
  by (simp add: pci_probe_def skel_get_revision_def)

section \<open>Deferred operations of scull\<close>

text \<open>
  A control block says whether its operation is synchronous.  A deferred operation is put into
  a work item, whose field for the user's buffer is not filled: \<open>None\<close> is memory as it was.
\<close>

datatype async_op = Op_read | Op_write

record 'b async_work =
  work_iocb :: nat
  work_tofrom :: "(async_op \<times> 'b) option"

text \<open>
  Without memory the function returns a variable that was never set; otherwise the item is
  queued and the call says so.
\<close>

definition scull_defer_op ::
  "bool \<Rightarrow> nat \<Rightarrow> async_op \<times> 'b \<Rightarrow> 'b async_work list \<Rightarrow> (int ret \<times> 'b async_work list) option" where
  "scull_defer_op mem iocb tofrom queue =
     (if \<not> mem then None
      else Some (Inl EIOCBQUEUED, queue @ [\<lparr>work_iocb = iocb, work_tofrom = None\<rparr>]))"

text \<open>
  The work function: it asks the buffer for its direction and calls the generic read or write,
  here \<open>perform\<close>, whose result it drops.  Reading the unset field is undefined.
\<close>

definition scull_do_deferred_op :: "(async_op \<Rightarrow> nat \<Rightarrow> 'b \<Rightarrow> int ret) \<Rightarrow> 'b async_work \<Rightarrow> int ret option" where
  "scull_do_deferred_op perform stuff =
     do { t \<leftarrow> work_tofrom stuff; Some (perform (fst t) (work_iocb stuff) (snd t)) }"

definition scull_read_iter ::
  "bool \<Rightarrow> bool \<Rightarrow> (async_op \<Rightarrow> nat \<Rightarrow> 'b \<Rightarrow> int ret) \<Rightarrow> nat \<Rightarrow> 'b \<Rightarrow> 'b async_work list \<Rightarrow>
     (int ret \<times> 'b async_work list) option" where
  "scull_read_iter sync mem perform iocb b queue =
     (if sync then Some (perform Op_read iocb b, queue)
      else scull_defer_op mem iocb (Op_read, b) queue)"

definition scull_write_iter ::
  "bool \<Rightarrow> bool \<Rightarrow> (async_op \<Rightarrow> nat \<Rightarrow> 'b \<Rightarrow> int ret) \<Rightarrow> nat \<Rightarrow> 'b \<Rightarrow> 'b async_work list \<Rightarrow>
     (int ret \<times> 'b async_work list) option" where
  "scull_write_iter sync mem perform iocb b queue =
     (if sync then Some (perform Op_write iocb b, queue)
      else scull_defer_op mem iocb (Op_write, b) queue)"

text \<open>No operation that is deferred ever runs: every item of every queue they build is unset.\<close>

definition deferred_only :: "'b async_work list \<Rightarrow> bool" where
  "deferred_only queue \<longleftrightarrow> (\<forall>w \<in> set queue. work_tofrom w = None)"

lemma scull_async_undefined:
  assumes "deferred_only queue"
    and "scull_read_iter sync mem perform iocb b queue = Some (r, queue') \<or>
      scull_write_iter sync mem perform iocb b queue = Some (r, queue')"
  shows "deferred_only queue' \<and> (\<forall>w \<in> set queue'. scull_do_deferred_op perform w = None) \<and>
    (\<not> sync \<longrightarrow> length queue' = Suc (length queue))"
  using assms
  by (auto simp: scull_read_iter_def scull_write_iter_def scull_defer_op_def deferred_only_def
      scull_do_deferred_op_def split: if_splits)

section \<open>The two mappings agree\<close>

text \<open>
  The two devices map the same memory: for every address of an area that starts at a page
  and whose page numbers stay within the 52 bits of a physical page number, the page a fault
  gives is the one \<open>remap_pfn_range\<close> has mapped there, if it is memory of the kernel; else the
  fault is a bus error.
\<close>

theorem simple_mappings_agree:
  assumes "4096 dvd area_start v" "area_start v \<le> address" "address < area_end v" "area_end v < 2 ^ 64"
    and "0 \<le> area_pgoff v" "0 \<le> area_start v" "area_pgoff v + (area_end v - area_start v) div 4096 < 2 ^ 52 - 1"
    and "simple_remap_mmap False v = Inr frames"
  shows "\<exists>f. frames address = Some f \<and>
    simple_vma_nopage pfn_valid v address = (if pfn_valid f then Page f else VM_FAULT_SIGBUS)"
proof -
  let ?d = "address - area_start v"
  have f: "frames address = Some (area_pgoff v + ?d div 4096)"
    using assms by (auto simp: simple_remap_mmap_def)
  have d: "0 \<le> ?d" "?d div 4096 \<le> (area_end v - area_start v) div 4096"
    using assms by (auto intro: zdiv_mono1)
  have q: "?d = 4096 * (?d div 4096) + ?d mod 4096" "?d mod 4096 < 4096" by simp_all
  have "area_pgoff v + ?d div 4096 < 0xFFFFFFFFFFFFF" using d(2) assms(7) by simp
  with q have b: "?d + area_pgoff v * 4096 < 2 ^ 64" by simp
  have "u64 (area_pgoff v * 4096) = area_pgoff v * 4096" using assms(5) b d by (intro u64_id) auto
  moreover have "u64 (?d + area_pgoff v * 4096) = ?d + area_pgoff v * 4096"
    using assms(5) b d by (intro u64_id) auto
  moreover have "(?d + area_pgoff v * 4096) div 4096 = area_pgoff v + ?d div 4096" by simp
  ultimately show ?thesis using f by (simp add: simple_vma_nopage_def Let_def)
qed

theorem simple_mappings_agree_witness:
  "simple_vma_nopage (\<lambda>f. f < 100) \<lparr>area_start = 0x10000, area_end = 0x14000, area_pgoff = 7\<rparr> 0x12345 = Page 9"
proof -
  let ?v = "\<lparr>area_start = 0x10000, area_end = 0x14000, area_pgoff = 7\<rparr>"
  obtain frames where m: "simple_remap_mmap False ?v = Inr frames" "frames 0x12345 = Some 9"
    by (simp add: simple_remap_mmap_def)
  from simple_mappings_agree[of ?v "0x12345" frames "\<lambda>f. f < 100", OF _ _ _ _ _ _ _ m(1)] m(2)
  show ?thesis by simp
qed

text \<open>
  Beyond 52 bits the fault handler loses the high bits of the page number, which
  \<open>remap_pfn_range\<close> does not.
\<close>

lemma simple_nopage_wraps:
  "simple_vma_nopage (\<lambda>_. True) \<lparr>area_start = 0, area_end = 4096, area_pgoff = 2 ^ 52\<rparr> 0 = Page 0"
  by (simp add: simple_vma_nopage_def u64_def)

end
