(* ===== verification/Misc_Progs.thy ===== *)
theory Misc_Progs
  imports Prelude
begin

text \<open>
  Programs of \<open>misc-progs\<close>: \<open>inp\<close> and \<open>outp\<close>, which read and write ports given as hexadecimal
  arguments, \<open>mapcmp\<close>, which compares two mappings, \<open>netifdebug\<close>, which changes a flag of a
  network interface, \<open>nbtest\<close>, which copies without blocking, \<open>setlevel\<close> and \<open>setconsole\<close>.

  What the system calls answer is an argument, and what is asked of them a result.
\<close>

unbundle bit_operations_syntax

section \<open>Numbers in arguments\<close>

definition c_isspace :: "char \<Rightarrow> bool" where
  "c_isspace c \<longleftrightarrow> c \<in> {CHR '' '', CHR 0x09, CHR 0x0A, CHR 0x0B, CHR 0x0C, CHR 0x0D}"

definition hex_digits :: "(char \<times> nat) list" where
  "hex_digits =
     zip ''0123456789abcdefABCDEF'' [0,1,2,3,4,5,6,7,8,9,10,11,12,13,14,15,10,11,12,13,14,15]"

definition hex_val :: "char \<Rightarrow> nat option" where
  "hex_val = map_of hex_digits"

definition is_hex :: "char \<Rightarrow> bool" where
  "is_hex c \<longleftrightarrow> hex_val c \<noteq> None"

definition is_dec :: "char \<Rightarrow> bool" where
  "is_dec c \<longleftrightarrow> c \<in> set ''0123456789''"

fun number :: "nat \<Rightarrow> string \<Rightarrow> nat" where
  "number b cs = fold (\<lambda>c n. b * n + (case hex_val c of Some d \<Rightarrow> d | None \<Rightarrow> 0)) cs 0"

definition c_sign :: "string \<Rightarrow> bool \<times> string" where
  "c_sign s = (case s of
     [] \<Rightarrow> (False, [])
   | c # r \<Rightarrow> if c = CHR ''-'' then (True, r) else if c = CHR ''+'' then (False, r) else (False, s))"

text \<open>
  \<open>sscanf(s, "%x%n", \<dots>)\<close>: the value, as an \<open>unsigned int\<close>, and how many characters it took;
  \<open>None\<close> when there is no number.
\<close>

definition scan_hex :: "string \<Rightarrow> (nat \<times> nat) option" where
  "scan_hex s =
     (let (neg, s2) = c_sign (dropWhile c_isspace s);
          s3 = (if (take 2 s2 = ''0x'' \<or> take 2 s2 = ''0X'') \<and> 2 < length s2 \<and> is_hex (s2 ! 2)
                then drop 2 s2 else s2);
          ds = takeWhile is_hex s3;
          v = min (number 16 ds) (2 ^ 64 - 1)
      in if ds = [] then None
         else Some (nat ((if neg then - int v else int v) mod 2 ^ 32), length s - length s3 + length ds))"

definition c_atoi :: "string \<Rightarrow> int" where
  "c_atoi s =
     (let (neg, s2) = c_sign (dropWhile c_isspace s); v = int (number 10 (takeWhile is_dec s2))
      in s32 (if neg then - v else v))"

section \<open>inp and outp\<close>

text \<open>The size of an access, from the last letter of the program's name, which must not be empty.\<close>

definition port_size :: "string \<Rightarrow> nat option" where
  "port_size prgname =
     (if prgname = [] then None
      else Some (if last prgname = CHR ''w'' then 2 else if last prgname = CHR ''l'' then 4 else 1))"

text \<open>\<open>port & (size - 1)\<close>\<close>

definition port_aligned :: "nat \<Rightarrow> nat \<Rightarrow> bool" where
  "port_aligned port sz \<longleftrightarrow> port AND (sz - 1) = 0"

definition hex_arg :: "string \<Rightarrow> nat option" where
  "hex_arg s = (case scan_hex s of None \<Rightarrow> None | Some (v, n) \<Rightarrow> if n \<noteq> length s then None else Some v)"

text \<open>
  Outside of 32-bit machines both go through \<open>/dev/port\<close>, which is opened at the first access
  and kept; \<open>opened\<close> says whether that works.  The results are the number of errors and the
  accesses: a port and a size for each read.
\<close>

definition read_and_print_one :: "bool \<Rightarrow> nat \<Rightarrow> nat \<Rightarrow> nat \<times> (nat \<times> nat) list" where
  "read_and_print_one opened port sz = (if opened then (0, [(port, sz)]) else (1, []))"

fun inp_loop :: "bool \<Rightarrow> nat \<Rightarrow> string list \<Rightarrow> nat \<times> (nat \<times> nat) list" where
  "inp_loop opened sz [] = (0, [])"
| "inp_loop opened sz (a # as) =
     (let (e, r) = (case hex_arg a of
                      None \<Rightarrow> (1, [])
                    | Some port \<Rightarrow> if \<not> port_aligned port sz then (1, [])
                                   else read_and_print_one opened port sz);
          (e', r') = inp_loop opened sz as
      in (e + e', r @ r'))"

definition inp_main :: "bool \<Rightarrow> string list \<Rightarrow> (nat \<times> (nat \<times> nat) list) option" where
  "inp_main opened argv = (case argv of
     [] \<Rightarrow> None
   | prg # as \<Rightarrow> do { sz \<leftarrow> port_size prg;
                     Some (if fst (inp_loop opened sz as) \<noteq> 0 then 1 else 0, snd (inp_loop opened sz as)) })"

text \<open>A write: the port, the value cut to the size, and the size.\<close>

definition write_one :: "bool \<Rightarrow> nat \<Rightarrow> nat \<Rightarrow> nat \<Rightarrow> nat \<times> (nat \<times> nat \<times> nat) list" where
  "write_one opened port val sz =
     (if opened then (0, [(port, val mod 2 ^ (8 * sz), sz)]) else (1, []))"

definition outp_one :: "bool \<Rightarrow> nat \<Rightarrow> string \<Rightarrow> string \<Rightarrow> nat \<times> (nat \<times> nat \<times> nat) list" where
  "outp_one opened sz a b =
     (case hex_arg a of
        None \<Rightarrow> (1, [])
      | Some port \<Rightarrow>
          if \<not> port_aligned port sz then (1, [])
          else case hex_arg b of
            None \<Rightarrow> (1, [])
          | Some val \<Rightarrow>
              if sz < 4 \<and> (if sz = 1 then 0xFF else 0xFFFF) < val then (1, [])
              else write_one opened port val sz)"

text \<open>The loop advances by one argument, not by two.\<close>

fun outp_loop :: "bool \<Rightarrow> nat \<Rightarrow> string list \<Rightarrow> nat \<times> (nat \<times> nat \<times> nat) list" where
  "outp_loop opened sz (a # b # as) =
     (let (e, w) = outp_one opened sz a b; (e', w') = outp_loop opened sz (b # as) in (e + e', w @ w'))"
| "outp_loop opened sz _ = (0, [])"

definition outp_main :: "bool \<Rightarrow> string list \<Rightarrow> (nat \<times> (nat \<times> nat \<times> nat) list) option" where
  "outp_main opened argv = (case argv of
     [] \<Rightarrow> None
   | prg # as \<Rightarrow> do { sz \<leftarrow> port_size prg;
                     Some (if fst (outp_loop opened sz as) \<noteq> 0 then 1 else 0, snd (outp_loop opened sz as)) })"

section \<open>mapcmp\<close>

text \<open>The loop over \<open>n\<close> bytes from the \<open>i\<close>-th on: the place of the first difference.\<close>

fun mapcmp_loop :: "nat \<Rightarrow> nat \<Rightarrow> byte list \<Rightarrow> byte list \<Rightarrow> nat option option" where
  "mapcmp_loop i 0 m1 m2 = Some None"
| "mapcmp_loop i (Suc n) m1 m2 =
     do { x \<leftarrow> mem_at m1 i; y \<leftarrow> mem_at m2 i;
          if x \<noteq> y then Some (Some i) else mapcmp_loop (Suc i) n m1 m2 }"

text \<open>The size in bytes of the given number of pages, computed as \<open>int\<close>.\<close>

definition mapcmp_size :: "string \<Rightarrow> nat" where
  "mapcmp_size pages = nat (u64 (s32 (c_atoi pages * 4096)))"

datatype mapcmp_result = Usage | Cannot_map | Differ nat | Identical

definition mapcmp_main ::
  "string list \<Rightarrow> (string \<Rightarrow> nat \<Rightarrow> byte list option) \<Rightarrow> mapcmp_result option" where
  "mapcmp_main argv mapdev =
     (if length argv \<noteq> 5 then Some Usage
      else let sz = mapcmp_size (argv ! 4)
      in case (mapdev (argv ! 1) sz, mapdev (argv ! 2) sz) of
           (Some m1, Some m2) \<Rightarrow>
             map_option (\<lambda>r. case r of Some i \<Rightarrow> Differ i | None \<Rightarrow> Identical) (mapcmp_loop 0 sz m1 m2)
         | _ \<Rightarrow> Some Cannot_map)"

section \<open>netifdebug\<close>

abbreviation (input) IFF_DEBUG :: "16 word" where "IFF_DEBUG \<equiv> 4"

definition netif_action :: "string \<Rightarrow> int" where
  "netif_action actname =
     (if actname = ''off'' \<or> actname = ''-'' \<or> actname = ''0'' then 0
      else if actname = ''on'' \<or> actname = ''+'' \<or> actname = ''1'' then 4 else - 1)"

text \<open>What the program does with the flags it was told: report the flag, or set new flags.\<close>

datatype netif_result = Tell bool | Set_flags "16 word"

text \<open>The name is copied into a field of 16 characters with its end.\<close>

definition netifdebug_main :: "string list \<Rightarrow> 16 word ret \<Rightarrow> netif_result option ret option" where
  "netifdebug_main argv getflags =
     (if length argv < 2 then Some (Inr None)
      else let actname = (if length argv = 2 then ''tell'' else argv ! 2)
      in if 16 \<le> length (argv ! 1) then None
         else case getflags of
           Inl e \<Rightarrow> Some (Inl e)
         | Inr flags \<Rightarrow>
             Some (Inr (Some
               (if actname = ''tell'' \<or> (actname \<noteq> [] \<and> hd actname = CHR ''t'')
                then Tell (flags AND IFF_DEBUG \<noteq> 0)
                else Set_flags ((flags AND NOT IFF_DEBUG) OR word_of_int (netif_action actname))))))"

section \<open>nbtest\<close>

text \<open>
  One round reads and, when that worked, writes.  The results are what went out and, when the
  loop ends, which side failed.
\<close>

datatype side = Stdin | Stdout

fun nbtest_loop :: "((errno + byte list) \<times> (errno + nat)) list \<Rightarrow> byte list \<times> side option" where
  "nbtest_loop [] = ([], None)"
| "nbtest_loop ((rd, wr) # es) =
     (case rd of
        Inl e \<Rightarrow> if e \<noteq> EAGAIN then ([], Some Stdin) else nbtest_loop es
      | Inr data \<Rightarrow>
          (case wr of
             Inl e \<Rightarrow> if e \<noteq> EAGAIN then ([], Some Stdout) else nbtest_loop es
           | Inr m \<Rightarrow> (let (out, s) = nbtest_loop es in (take m data @ out, s))))"

section \<open>setlevel and setconsole\<close>

text \<open>The exit code and the argument of the system call, when one is made.\<close>

definition setlevel_main :: "string list \<Rightarrow> bool \<Rightarrow> nat \<times> int option" where
  "setlevel_main argv ok =
     (if length argv = 2 then (if ok then 0 else 1, Some (c_atoi (argv ! 1))) else (1, None))"

definition setconsole_main :: "string list \<Rightarrow> bool \<Rightarrow> nat \<times> byte list option" where
  "setconsole_main argv ok =
     (if length argv = 2 then (if ok then 0 else 1, Some [11, word_of_int (c_atoi (argv ! 1))]) else (1, None))"

lemmas scan_simps = hex_arg_def scan_hex_def c_sign_def c_isspace_def is_hex_def hex_val_def
  hex_digits_def Let_def

section \<open>Correctness\<close>

text \<open>
  \<open>inp\<close> reads, in order and once each, the ports of all arguments that are hexadecimal
  numbers and aligned to the size its name asks for, and no others, and it reports success
  exactly when every argument is one and the ports can be opened.
\<close>

theorem inp_main_spec:
  assumes "prg \<noteq> []" "port_size prg = Some sz"
  shows "inp_main opened (prg # as) = Some
    (if (\<forall>a \<in> set as. opened \<and> (\<exists>p. hex_arg a = Some p \<and> port_aligned p sz)) then 0 else 1,
     if opened then map (\<lambda>p. (p, sz)) (filter (\<lambda>p. port_aligned p sz) (List.map_filter hex_arg as)) else [])"
proof -
  have "snd (inp_loop opened sz as) =
      (if opened then map (\<lambda>p. (p, sz)) (filter (\<lambda>p. port_aligned p sz) (List.map_filter hex_arg as)) else [])"
    by (induction as) (auto simp: read_and_print_one_def map_filter_simps Let_def
        split: option.splits prod.splits)
  moreover have "fst (inp_loop opened sz as) = 0 \<longleftrightarrow>
      (\<forall>a \<in> set as. opened \<and> (\<exists>p. hex_arg a = Some p \<and> port_aligned p sz))"
    by (induction as) (auto simp: read_and_print_one_def Let_def split: option.splits prod.splits)
  ultimately show ?thesis using assms unfolding inp_main_def by (simp only: list.case bind.bind_lunit) auto
qed

theorem inp_main_spec_witness:
  "inp_main True [''inw'', ''0x3f8'', ''3f9'', ''2F0''] = Some (1, [(0x3F8, 2), (0x2F0, 2)])"
proof -
  have h: "hex_arg ''0x3f8'' = Some 0x3F8" "hex_arg ''3f9'' = Some 0x3F9" "hex_arg ''2F0'' = Some 0x2F0"
    by (simp_all add: scan_simps)
  have al: "port_aligned 0x3F8 2" "\<not> port_aligned 0x3F9 2" "port_aligned 0x2F0 2"
    by (simp_all add: port_aligned_def)
  show ?thesis
    using inp_main_spec[of "''inw''" 2 True "[''0x3f8'', ''3f9'', ''2F0'']"]
    by (simp add: port_size_def h al map_filter_simps)
qed

text \<open>
  One pair of arguments makes \<open>outp\<close> write that value to that port; but of two pairs it
  makes three, and writes to the port whose number is the first value: its loop goes on by one
  argument.
\<close>

theorem outp_overlapping_pairs:
  assumes "hex_arg a = Some p" "hex_arg b = Some v" "hex_arg c = Some q" "hex_arg d = Some w"
    and "p < 256" "v < 256" "q < 256" "w < 256"
  shows "outp_main True [''outb'', a, b] = Some (0, [(p, v, 1)]) \<and>
    outp_main True [''outb'', a, b, c, d] = Some (0, [(p, v, 1), (v, q, 1), (q, w, 1)])"
  using assms
  by (simp add: outp_main_def port_size_def outp_one_def write_one_def port_aligned_def)

theorem outp_overlapping_pairs_witness:
  "outp_main True [''outb'', ''80'', ''1'', ''81'', ''2''] = Some (0, [(0x80, 1, 1), (1, 0x81, 1), (0x81, 2, 1)])"
proof -
  have h: "hex_arg ''80'' = Some 0x80" "hex_arg ''1'' = Some 1" "hex_arg ''81'' = Some 0x81" "hex_arg ''2'' = Some 2"
    by (simp_all add: scan_simps)
  show ?thesis using outp_overlapping_pairs[OF h] by simp
qed

lemma mapcmp_loop_spec:
  "length m1 = i + n \<Longrightarrow> length m2 = i + n \<Longrightarrow> take i m1 = take i m2 \<Longrightarrow>
     mapcmp_loop i n m1 m2 = Some (if m1 = m2 then None else Some (LEAST k. m1 ! k \<noteq> m2 ! k))"
proof (induction n arbitrary: i)
  case (Suc n)
  have i: "i < length m1" "i < length m2" using Suc.prems by simp_all
  show ?case
  proof (cases "m1 ! i = m2 ! i")
    case True
    then have "take (Suc i) m1 = take (Suc i) m2"
      using Suc.prems i by (simp add: take_Suc_conv_app_nth)
    with Suc.IH[of "Suc i"] Suc.prems i True show ?thesis by (simp add: mem_at_def)
  next
    case False
    have "(LEAST k. m1 ! k \<noteq> m2 ! k) = i"
    proof (rule Least_equality)
      fix k assume k: "m1 ! k \<noteq> m2 ! k"
      show "i \<le> k"
      proof (rule ccontr)
        assume "\<not> i \<le> k"
        then have "m1 ! k = take i m1 ! k" "m2 ! k = take i m2 ! k" by simp_all
        with k Suc.prems(3) show False by simp
      qed
    qed (use False in simp)
    moreover have "m1 \<noteq> m2" using False by auto
    ultimately show ?thesis using False i by (simp add: mem_at_def)
  qed
qed simp

lemma mapcmp_main_spec:
  assumes "length argv = 5" "sz = mapcmp_size (argv ! 4)" "mapdev (argv ! 1) sz = Some m1" "mapdev (argv ! 2) sz = Some m2"
    and "length m1 = sz" "length m2 = sz"
  shows "mapcmp_main argv mapdev =
    Some (if m1 = m2 then Identical else Differ (LEAST k. m1 ! k \<noteq> m2 ! k))"
  using assms mapcmp_loop_spec[of m1 0 sz m2] by (simp add: mapcmp_main_def Let_def)

text \<open>
  The interface's flags: \<open>on\<close> and \<open>off\<close> change the one flag, but any other word, such as a
  misspelt one, turns every flag on.
\<close>

lemma netifdebug_flags:
  assumes "length name < 16"
  shows "netifdebug_main [prg, name, ''on''] (Inr flags) = Some (Inr (Some (Set_flags (flags OR IFF_DEBUG))))"
    "netifdebug_main [prg, name, ''off''] (Inr flags) = Some (Inr (Some (Set_flags (flags AND NOT IFF_DEBUG))))"
    "netifdebug_main [prg, name, ''yes''] (Inr flags) = Some (Inr (Some (Set_flags (- 1))))"
proof -
  have "(flags AND NOT 4) OR 4 = flags OR 4"
    by (rule bit_word_eqI) (auto simp: bit_simps)
  then show "netifdebug_main [prg, name, ''on''] (Inr flags) = Some (Inr (Some (Set_flags (flags OR IFF_DEBUG))))"
    using assms by (simp add: netifdebug_main_def netif_action_def)
qed (use assms in \<open>simp_all add: netifdebug_main_def netif_action_def\<close>)

text \<open>
  Copying without blocking: at the end of the input the loop goes on for ever, and what was
  read but could not be written at once is lost.
\<close>

lemma nbtest_ignores_end: "nbtest_loop (replicate n (Inr [], Inr 0)) = ([], None)"
  by (induction n) simp_all

lemma nbtest_loses_data:
  "nbtest_loop [(Inr data, Inl EAGAIN), (Inl EAGAIN, w)] = ([], None)"
  by simp

end
