(* ===== verification/Small_Programs.thy ===== *)
theory Small_Programs
  imports Misc_Progs
begin

text \<open>
  The smallest programs: \<open>asynctest\<close> and \<open>polltest\<close>, which copy their input when a signal or
  \<open>poll\<close> tells them to, \<open>load50\<close>, \<open>mapper\<close>, \<open>datasize\<close> and \<open>dataalign\<close> of \<open>misc-progs\<close>; the modules
  \<open>hello\<close>, \<open>hellop\<close>, \<open>kdatasize\<close> and \<open>kdataalign\<close> of \<open>misc-modules\<close>; and the test of the user name
  of the assignments.

  What arrives, how much a write takes, and which forks succeed are arguments.
\<close>

section \<open>asynctest\<close>

text \<open>What waits at the standard input, the flag, and what has been printed.\<close>

record asynctest =
  pending :: "byte list"
  gotdata :: int
  printed :: "byte list"

definition async_sighandler :: "bool \<Rightarrow> asynctest \<Rightarrow> asynctest" where
  "async_sighandler sigio s = (if sigio then s\<lparr>gotdata := gotdata s + 1\<rparr> else s)"

text \<open>Data arrive, and a signal with them.\<close>

definition async_arrive :: "byte list \<Rightarrow> asynctest \<Rightarrow> asynctest" where
  "async_arrive xs s = async_sighandler (xs \<noteq> []) (s\<lparr>pending := pending s @ xs\<rparr>)"

text \<open>
  A round of the loop: \<open>a\<close> arrives while it sleeps, \<open>b\<close> between the read and the reset of the flag;
  the write takes \<open>w\<close> bytes of what was read, at most.
\<close>

definition async_round :: "byte list \<times> byte list \<times> nat \<Rightarrow> asynctest \<Rightarrow> asynctest" where
  "async_round r s =
     (let (a, b, w) = r; s = async_arrive a s
      in if gotdata s = 0 then s
         else let buffer = take 4096 (pending s);
                  s = s\<lparr>pending := drop 4096 (pending s)\<rparr>;
                  s = async_arrive b s;
                  s = s\<lparr>printed := printed s @ take w buffer\<rparr>
              in s\<lparr>gotdata := 0\<rparr>)"

definition async_run :: "(byte list \<times> byte list \<times> nat) list \<Rightarrow> asynctest \<Rightarrow> asynctest" where
  "async_run rs s = fold async_round rs s"

text \<open>When at most a buffer arrives at once, nothing arrives meanwhile, and writes are complete, all is printed.\<close>

lemma async_run_prints:
  "pending s = [] \<Longrightarrow> gotdata s = 0 \<Longrightarrow> \<forall>(a, b, w) \<in> set rs. length a \<le> 4096 \<and> b = [] \<and> length a \<le> w \<Longrightarrow>
     printed (async_run rs s) = printed s @ concat (map fst rs) \<and> pending (async_run rs s) = []"
proof (induction rs arbitrary: s)
  case (Cons r rs)
  obtain a b w where r: "r = (a, b, w)" by (cases r) auto
  let ?s = "async_round r s"
  have "pending ?s = []" "gotdata ?s = 0" "printed ?s = printed s @ a"
    using Cons.prems r by (auto simp: async_round_def async_arrive_def async_sighandler_def Let_def)
  then show ?case using Cons.IH[of ?s] Cons.prems(3) r by (simp add: async_run_def)
qed (simp add: async_run_def)

text \<open>
  What is left behind, because more than a buffer was there or because it came with a signal that was
  reset, stays until something else arrives.
\<close>

lemma async_left_behind:
  assumes "gotdata (async_round r s) = 0" "\<forall>(a, b, w) \<in> set rs. a = []"
  shows "async_run rs (async_round r s) = async_round r s"
  using assms(2)
proof (induction rs)
  case (Cons r' rs)
  obtain a b w where "r' = (a, b, w)" by (cases r') auto
  then have "async_round r' (async_round r s) = async_round r s"
    using Cons.prems assms(1) by (simp add: async_round_def async_arrive_def async_sighandler_def)
  then show ?case using Cons by (simp add: async_run_def)
qed (simp add: async_run_def)

lemma async_round_reset: "gotdata s = 0 \<Longrightarrow> gotdata (async_round r s) = 0"
  by (cases r) (auto simp: async_round_def async_arrive_def async_sighandler_def Let_def)

section \<open>polltest\<close>

text \<open>
  Each round: what the read gives, how much of it the write takes, and whether the poll fails.
  The result is what was printed, and the exit status if it has come to that.
\<close>

fun polltest_loop :: "(byte list ret \<times> nat \<times> bool) list \<Rightarrow> byte list \<times> nat option" where
  "polltest_loop [] = ([], None)"
| "polltest_loop ((r, w, fails) # rs) =
     (let out = (case r of Inr xs \<Rightarrow> take w xs | Inl _ \<Rightarrow> [])
      in if fails then (out, Some 1)
         else let (out', e) = polltest_loop rs in (out @ out', e))"

text \<open>The end of the input, where the read gives no bytes, does not end the program.\<close>

lemma polltest_eof: "polltest_loop (replicate n (Inr [], w, False)) = ([], None)"
  by (induction n) auto

lemma polltest_prints:
  "\<forall>(r, w, fails) \<in> set rs. \<not> fails \<and> (case r of Inr xs \<Rightarrow> length xs \<le> w | Inl _ \<Rightarrow> True) \<Longrightarrow>
     polltest_loop rs = (concat (map (\<lambda>(r, _). case r of Inr xs \<Rightarrow> xs | Inl _ \<Rightarrow> []) rs), None)"
  by (induction rs rule: polltest_loop.induct) (auto split: sum.splits)

section \<open>load50\<close>

text \<open>
  The loop that forks, with the outcome of each fork: the values of \<open>i\<close> with which the processes
  leave it, the parent last.  All of them then loop forever.
\<close>

function load_loop :: "(int \<Rightarrow> bool) \<Rightarrow> int \<Rightarrow> int \<Rightarrow> int list" where
  "load_loop forks load i =
     (if i < load then (if forks i then [i] else []) @ load_loop forks load (i + 1) else [i])"
  by auto

termination
  by (relation "measure (\<lambda>(_, load, i). nat (load - i))") auto

declare load_loop.simps [simp del]

definition load_main :: "(int \<Rightarrow> bool) \<Rightarrow> string list \<Rightarrow> int \<times> int list" where
  "load_main forks argv =
     (let load = (if length argv = 2 then c_atoi (argv ! 1) else 50) in (load, load_loop forks load 0))"

lemma load_loop_length: "length (load_loop forks load i) = length (filter forks [i..load - 1]) + 1"
proof (induction forks load i rule: load_loop.induct)
  case (1 forks load i)
  then show ?case
    by (cases "i < load") (simp_all add: load_loop.simps[of forks load i] upto_rec1)
qed

text \<open>One process more than the load that is announced.\<close>

lemma load_main_busy:
  assumes "load_main (\<lambda>_. True) argv = (load, busy)" "0 \<le> load"
  shows "length busy = nat load + 1"
proof -
  have "busy = load_loop (\<lambda>_. True) load 0" using assms(1) by (auto simp: load_main_def Let_def)
  then show ?thesis using load_loop_length[of "\<lambda>_. True" load 0] assms(2) by simp
qed

section \<open>mapper\<close>

definition LONG_MAX :: int where
  "LONG_MAX = 2 ^ 63 - 1"

text \<open>The base of a number, and its digits, as \<open>%i\<close> reads them.\<close>

definition int_base :: "string \<Rightarrow> nat \<times> string" where
  "int_base s =
     (if (take 2 s = ''0x'' \<or> take 2 s = ''0X'') \<and> 2 < length s \<and> is_hex (s ! 2) then (16, drop 2 s)
      else if take 1 s = ''0'' then (8, s) else (10, s))"

definition digit_in :: "nat \<Rightarrow> char \<Rightarrow> bool" where
  "digit_in b c = (case hex_val c of Some d \<Rightarrow> d < b | None \<Rightarrow> False)"

text \<open>\<open>sscanf(s, "%li", \<dots>)\<close>: a \<open>long\<close>, cut to its range, and \<open>%lu\<close> and \<open>%lx\<close>.\<close>

definition scan_li :: "string \<Rightarrow> int option" where
  "scan_li s =
     (let (neg, s2) = c_sign (dropWhile c_isspace s); (b, s3) = int_base s2;
          ds = takeWhile (digit_in b) s3; v = int (number b ds)
      in if ds = [] then None
         else Some (if neg then max (- v) (- LONG_MAX - 1) else min v LONG_MAX))"

definition scan_unsigned :: "nat \<Rightarrow> string \<Rightarrow> int option" where
  "scan_unsigned b s =
     (let (neg, s2) = c_sign (dropWhile c_isspace s);
          ds = takeWhile (digit_in b) s2; v = int (number b ds)
      in if ds = [] then None
         else Some (if 2 ^ 64 \<le> v then 2 ^ 64 - 1 else u64 (if neg then - v else v)))"

datatype mapper_result = Mapper_usage | Not_opened | Not_mapped | Mapped "byte list"

text \<open>
  \<open>mapper file offset len\<close>: \<open>file\<close> is the content, when it can be opened.  A mapping needs an offset
  at the start of a page, a length, and that the kernel grants it, which is \<open>room\<close>; to write out what
  lies behind the last page of the file has no defined result.
\<close>

definition pages_of :: "byte list \<Rightarrow> byte list" where
  "pages_of f = f @ replicate ((4096 - length f mod 4096) mod 4096) 0"

definition mapper_print :: "bool \<Rightarrow> byte list option \<Rightarrow> int \<Rightarrow> int \<Rightarrow> mapper_result option" where
  "mapper_print room file offset len =
     (case file of
        None \<Rightarrow> Some Not_opened
      | Some f \<Rightarrow>
          if len = 0 \<or> offset mod 4096 \<noteq> 0 \<or> \<not> room then Some Not_mapped
          else if int (length (pages_of f)) < offset + len then None
          else Some (Mapped (take (nat len) (drop (nat offset) (pages_of f)))))"

text \<open>The second conversion of the offset; the value stays when it fails.\<close>

definition mapper_again :: "string \<Rightarrow> int \<Rightarrow> int" where
  "mapper_again s offset =
     (if offset = 2 ^ 31 - 1
      then case (if 1 < length s \<and> s ! 1 = CHR ''x'' then scan_unsigned 16 (drop 2 s) else scan_unsigned 10 s) of
             Some v \<Rightarrow> v | None \<Rightarrow> offset
      else offset)"

definition mapper_main :: "bool \<Rightarrow> byte list option \<Rightarrow> string list \<Rightarrow> mapper_result option" where
  "mapper_main room file argv =
     (if length argv \<noteq> 4 then Some Mapper_usage
      else case scan_li (argv ! 2) of
        None \<Rightarrow> Some Mapper_usage
      | Some offset \<Rightarrow>
          (case scan_li (argv ! 3) of
             None \<Rightarrow> Some Mapper_usage
           | Some len \<Rightarrow> mapper_print room file (mapper_again (argv ! 2) (u64 offset)) (u64 len)))"

text \<open>The wanted part of the file, when it lies in it.\<close>

lemma mapper_part:
  assumes "length argv = 4" "scan_li (argv ! 2) = Some offset" "scan_li (argv ! 3) = Some len"
    "0 \<le> offset" "0 < len" "offset mod 4096 = 0" "offset + len \<le> int (length f)" "int (length f) \<le> LONG_MAX"
  shows "mapper_main True (Some f) argv = Some (Mapped (take (nat len) (drop (nat offset) f)))"
proof -
  have u: "u64 offset = offset" "u64 len = len" "offset \<noteq> 2 ^ 31 - 1"
    using assms(4-8) by (auto simp: u64_def LONG_MAX_def)
  have "offset + len \<le> int (length (pages_of f))" using assms(7) by (simp add: pages_of_def)
  moreover have "take (nat len) (drop (nat offset) (pages_of f)) = take (nat len) (drop (nat offset) f)"
    using assms(4,5,7) by (simp add: pages_of_def)
  ultimately have "mapper_print True (Some f) offset len = Some (Mapped (take (nat len) (drop (nat offset) f)))"
    using assms(5-8) by (simp add: mapper_print_def)
  moreover have "mapper_again (argv ! 2) offset = offset" using u(3) by (simp add: mapper_again_def)
  ultimately show ?thesis using assms(1-3) u(1,2) by (simp add: mapper_main_def)
qed

text \<open>
  The conversion trims an offset that is too big to \<open>LONG_MAX\<close>, not to \<open>INT_MAX\<close>, which is what the
  code looks for, so it is not read again, and not mapped.
\<close>

lemma mapper_big_offset:
  assumes "length argv = 4" "scan_li (argv ! 2) = Some LONG_MAX" "scan_li (argv ! 3) = Some len"
  shows "mapper_main room (Some f) argv = Some Not_mapped"
proof -
  have "mapper_again (argv ! 2) (u64 LONG_MAX) = LONG_MAX"
    by (simp add: mapper_again_def u64_def LONG_MAX_def)
  moreover have "mapper_print room (Some f) LONG_MAX n = Some Not_mapped" for n
    by (simp add: mapper_print_def LONG_MAX_def)
  ultimately show ?thesis using assms by (simp add: mapper_main_def)
qed

lemma scan_li_trims: "scan_li ''0xffffffffc0000000'' = Some LONG_MAX"
  by (simp add: scan_li_def c_sign_def c_isspace_def int_base_def digit_in_def is_hex_def hex_val_def hex_digits_def LONG_MAX_def)

section \<open>Sizes and alignments\<close>

text \<open>The types of the tables, in the order of their columns.\<close>

datatype ctype = C_char | C_short | C_int | C_long | C_ptr | C_longlong | C_u8 | C_u16 | C_u32 | C_u64

definition columns :: "ctype list" where
  "columns = [C_char, C_short, C_int, C_long, C_ptr, C_longlong, C_u8, C_u16, C_u32, C_u64]"

text \<open>
  The offset of the field \<open>t\<close> in \<open>struct {char c; T t;}\<close>: the first multiple of the alignment of \<open>T\<close>
  that is not in \<open>c\<close>.
\<close>

definition field_offset :: "nat \<Rightarrow> nat" where
  "field_offset align = (1 + align - 1) div align * align"

definition datasize_main :: "string \<Rightarrow> (ctype \<Rightarrow> nat) \<Rightarrow> int \<times> string \<times> nat list" where
  "datasize_main machine sizeof = (0, machine, map sizeof columns)"

definition dataalign_main :: "string \<Rightarrow> (ctype \<Rightarrow> nat) \<Rightarrow> int \<times> string \<times> nat list" where
  "dataalign_main machine alignof = (0, machine, map (\<lambda>t. field_offset (alignof t)) columns)"

text \<open>The modules print the same, and fail so that they are not loaded.\<close>

definition kdatasize_init :: "string \<Rightarrow> (ctype \<Rightarrow> nat) \<Rightarrow> unit ret \<times> string \<times> nat list" where
  "kdatasize_init machine sizeof = (Inl ENODEV, machine, map sizeof columns)"

definition kdataalign_init :: "string \<Rightarrow> (ctype \<Rightarrow> nat) \<Rightarrow> unit ret \<times> string \<times> nat list" where
  "kdataalign_init machine alignof = (Inl ENODEV, machine, map (\<lambda>t. field_offset (alignof t)) columns)"

lemma field_offset_align: "0 < a \<Longrightarrow> field_offset a = a"
  by (simp add: field_offset_def)

lemma dataalign_prints:
  "\<forall>t. 0 < alignof t \<Longrightarrow> snd (dataalign_main machine alignof) = (machine, map alignof columns) \<and>
     snd (kdataalign_init machine alignof) = (machine, map alignof columns)"
  by (simp add: dataalign_main_def kdataalign_init_def field_offset_align)

section \<open>hello and hellop\<close>

definition hello_init :: "int \<times> string list" where
  "hello_init = (0, [''Hello, world from saloni1307''])"

definition hello_exit :: "string list" where
  "hello_exit = [''Goodbye, cruel world'']"

text \<open>The greetings: their numbers and the name.\<close>

function hellop_loop :: "string \<Rightarrow> int \<Rightarrow> int \<Rightarrow> (int \<times> string) list" where
  "hellop_loop whom howmany i = (if i < howmany then (i, whom) # hellop_loop whom howmany (i + 1) else [])"
  by auto

termination
  by (relation "measure (\<lambda>(_, howmany, i). nat (howmany - i))") auto

declare hellop_loop.simps [simp del]

definition hellop_init :: "string \<Rightarrow> int \<Rightarrow> int \<times> (int \<times> string) list" where
  "hellop_init whom howmany = (0, hellop_loop whom howmany 0)"

lemma hellop_loop_lines: "hellop_loop whom howmany i = map (\<lambda>k. (k, whom)) [i..howmany - 1]"
proof (induction whom howmany i rule: hellop_loop.induct)
  case (1 whom howmany i)
  then show ?case by (cases "i < howmany") (simp_all add: hellop_loop.simps[of whom howmany i] upto_rec1)
qed

section \<open>The test of the user name\<close>

text \<open>
  What \<open>my_username\<close> returns in the first two assignments, and in the later ones, where it was not
  filled in.
\<close>

definition my_username :: string where
  "my_username = ''saloni1307''"

definition my_username_later :: string where
  "my_username_later = ''todo-please-enter-your-username-here-in-my_username''"

definition this_function_returns_true :: bool where
  "this_function_returns_true = True"

definition this_function_returns_false :: bool where
  "this_function_returns_false = False"

text \<open>The first character of a C string, and the C string in an array.\<close>

definition first_char :: "string \<Rightarrow> char" where
  "first_char s = (case s of [] \<Rightarrow> CHR 0x00 | c # _ \<Rightarrow> c)"

definition c_string :: "string \<Rightarrow> string" where
  "c_string buf = takeWhile (\<lambda>c. c \<noteq> CHR 0x00) buf"

text \<open>
  The test: both names are copied into arrays by \<open>*username = *my_username()\<close>, and the arrays are
  compared as strings.  \<open>conf\<close> is the name in the configuration file.  The test of the later
  assignments fails always.
\<close>

definition test_validate_my_username :: "string \<Rightarrow> bool" where
  "test_validate_my_username conf =
     (let username = (replicate 11 (CHR 0x00))[0 := first_char my_username];
          username2 = (replicate 11 (CHR 0x00))[0 := first_char conf]
      in c_string username = c_string username2)"

text \<open>In the second assignment the test then frees its own array, which no \<open>malloc\<close> has returned.\<close>

definition test_validate_my_username_freeing :: "string \<Rightarrow> bool option" where
  "test_validate_my_username_freeing conf = (if test_validate_my_username conf then None else Some False)"

definition test_validate_my_username_later :: bool where
  "test_validate_my_username_later = False"

text \<open>It accepts every name with the same first letter.\<close>

lemma username_test_weak:
  "test_validate_my_username conf \<longleftrightarrow> (\<exists>rest. conf = CHR ''s'' # rest)"
  by (cases conf) (auto simp: test_validate_my_username_def first_char_def c_string_def my_username_def Let_def
      numeral_eq_Suc)

lemma username_test_never_passes: "test_validate_my_username_freeing conf \<noteq> Some True"
  by (simp add: test_validate_my_username_freeing_def)

end
