(* ===== verification/Jiq.thy ===== *)
theory Jiq
  imports Misc_Modules Jit
begin

text \<open>
  The readers of \<open>misc-modules/jiq.c\<close>: how each of the four files waits for the deferred
  printing, the entries the module makes under \<open>/proc\<close> together with those of \<open>jit.c\<close>, and
  the registration of \<open>seq.c\<close> and \<open>faulty.c\<close>.
\<close>

section \<open>Waiting\<close>

text \<open>What may happen to a sleeping reader.\<close>

datatype sleep_event = Wake_up | Signal_arrives

text \<open>
  \<open>schedule()\<close> after \<open>prepare_to_wait\<close> returns at the first event;
  \<open>wait_event_interruptible(jiq_wait, 0)\<close> looks at its condition, which is the constant 0,
  after each wake-up, and only a signal ends it.
\<close>

fun sleep_once :: "sleep_event list \<Rightarrow> sleep_event list option" where
  "sleep_once [] = None"
| "sleep_once (e # es) = Some es"

fun wait_event_0 :: "sleep_event list \<Rightarrow> sleep_event list option" where
  "wait_event_0 [] = None"
| "wait_event_0 (Wake_up # es) = wait_event_0 es"
| "wait_event_0 (Signal_arrives # es) = Some es"

section \<open>The four readers\<close>

text \<open>
  The deferred function \<open>f\<close> runs as long as it is scheduled; \<open>ls\<close> are the lengths of the lines
  and \<open>js\<close> the times.  \<open>None\<close> is a reader that does not return.  \<open>es\<close> are the events of its
  sleep; the function's own wake-up comes first when it has stopped printing.
\<close>

fun deferred_runs :: "(nat \<Rightarrow> nat \<Rightarrow> clientdata \<Rightarrow> clientdata) \<Rightarrow> (nat \<times> nat) list \<Rightarrow> clientdata \<Rightarrow> clientdata" where
  "deferred_runs f [] d = d"
| "deferred_runs f ((n, j) # ls) d = (if rescheduled d then deferred_runs f ls (f n j d) else d)"

definition own_wake :: "clientdata \<Rightarrow> sleep_event list" where
  "own_wake d = (if woken d then [Wake_up] else [])"

definition jiq_read_wq_show ::
  "nat \<Rightarrow> (nat \<times> nat) list \<Rightarrow> sleep_event list \<Rightarrow> clientdata \<Rightarrow> clientdata option" where
  "jiq_read_wq_show j ls es d =
     (let d' = deferred_runs jiq_print_wq ls (jiq_start j d)
      in map_option (\<lambda>_. d') (sleep_once (own_wake d' @ es)))"

definition jiq_read_wq_delayed_show ::
  "nat \<Rightarrow> (nat \<times> nat) list \<Rightarrow> sleep_event list \<Rightarrow> clientdata \<Rightarrow> clientdata option" where
  "jiq_read_wq_delayed_show j ls es d =
     (let d' = deferred_runs jiq_print_wq_delayed ls (jiq_start j d)
      in map_option (\<lambda>_. d') (sleep_once (own_wake d' @ es)))"

definition jiq_read_tasklet_show ::
  "nat \<Rightarrow> (nat \<times> nat) list \<Rightarrow> sleep_event list \<Rightarrow> clientdata \<Rightarrow> clientdata option" where
  "jiq_read_tasklet_show j ls es d =
     (let d' = deferred_runs jiq_print_tasklet ls (jiq_start j d)
      in map_option (\<lambda>_. d') (wait_event_0 (own_wake d' @ es)))"

text \<open>
  The timer's reader prints the first line itself, the timer the second; \<open>fired\<close> says whether
  it expired before \<open>del_timer_sync\<close>.
\<close>

definition jiq_read_run_timer_show ::
  "nat \<Rightarrow> nat \<times> nat \<Rightarrow> nat \<times> nat \<Rightarrow> bool \<Rightarrow> sleep_event list \<Rightarrow> clientdata \<Rightarrow> clientdata option" where
  "jiq_read_run_timer_show j l1 l2 fired es d =
     (let d1 = d\<lparr>jiq_len := 0, jiq_jiffies := j, woken := False\<rparr>;
          d2 = snd (jiq_print (fst l1) (snd l1) d1);
          d3 = (if fired then jiq_timedout (fst l2) (snd l2) d2 else d2)
      in map_option (\<lambda>_. d3) (wait_event_0 (own_wake d3 @ es)))"

section \<open>Start and end\<close>

definition jiq_init :: "string list" where
  "jiq_init = [''jiqwq'', ''jiqwqdelay'', ''jitimer'', ''jiqtasklet'']"

definition jiq_cleanup :: "string list" where
  "jiq_cleanup = [''jiqwq'', ''jiqwqdelay'', ''jitimer'', ''jiqtasklet'']"

text \<open>\<open>/proc\<close> refuses a name that is taken, and removal takes whatever has the name.\<close>

definition proc_create :: "string \<Rightarrow> string list \<Rightarrow> bool \<times> string list" where
  "proc_create n ps = (if n \<in> set ps then (False, ps) else (True, ps @ [n]))"

definition proc_create_all :: "string list \<Rightarrow> string list \<Rightarrow> string list" where
  "proc_create_all ns ps = fold (\<lambda>n ps. snd (proc_create n ps)) ns ps"

definition proc_remove_all :: "string list \<Rightarrow> string list \<Rightarrow> string list" where
  "proc_remove_all ns ps = filter (\<lambda>p. p \<notin> set ns) ps"

definition ct_init :: "string list \<Rightarrow> unit ret \<times> string list" where
  "ct_init ps = (if fst (proc_create ''sequence'' ps) then (Inr (), snd (proc_create ''sequence'' ps)) else (Inl ENOMEM, ps))"

definition ct_exit :: "string list \<Rightarrow> string list" where
  "ct_exit ps = proc_remove_all [''sequence''] ps"

definition faulty_init :: "int \<Rightarrow> int ret \<Rightarrow> unit ret \<times> int" where
  "faulty_init faulty_major reg =
     (case reg of
        Inl e \<Rightarrow> (Inl e, faulty_major)
      | Inr result \<Rightarrow> (Inr (), if faulty_major = 0 then result else faulty_major))"

section \<open>Facts\<close>

lemma wait_event_0_wakes: "wait_event_0 es = None \<longleftrightarrow> Signal_arrives \<notin> set es"
  by (induction es rule: wait_event_0.induct) auto

lemma deferred_runs_wq: "map snd ls = replicate (length ls) 0 \<Longrightarrow>
    deferred_runs jiq_print_wq ls d = jiq_runs (map fst ls) d"
proof (induction ls arbitrary: d)
  case (Cons l ls)
  then show ?case by (cases l) simp
qed simp

text \<open>
  The readers of \<open>jiqtasklet\<close> and of \<open>jitimer\<close> never return by themselves: whatever is printed
  and however often they are woken, only a signal ends their wait, whereas the readers of the
  two work queue files return as soon as the printing has stopped.
\<close>

theorem jiq_readers_return:
  "(jiq_read_tasklet_show j ls es d \<noteq> None \<longleftrightarrow> Signal_arrives \<in> set es) \<and>
   (jiq_read_run_timer_show j l1 l2 fired es d \<noteq> None \<longleftrightarrow> Signal_arrives \<in> set es) \<and>
   (woken (deferred_runs jiq_print_wq ls (jiq_start j d)) \<longrightarrow> jiq_read_wq_show j ls es d \<noteq> None) \<and>
   (woken (deferred_runs jiq_print_wq_delayed ls (jiq_start j d)) \<longrightarrow> jiq_read_wq_delayed_show j ls es d \<noteq> None)"
proof -
  have s: "wait_event_0 (own_wake x @ es) \<noteq> None \<longleftrightarrow> Signal_arrives \<in> set es" for x
    using wait_event_0_wakes[of "own_wake x @ es"] by (auto simp: own_wake_def)
  show ?thesis
    using s by (auto simp: jiq_read_tasklet_show_def jiq_read_run_timer_show_def jiq_read_wq_show_def
        jiq_read_wq_delayed_show_def Let_def own_wake_def)
qed

theorem jiq_readers_return_witness:
  "jiq_read_tasklet_show 0 [] [Wake_up, Wake_up]
     \<lparr>m_size = 4096, m_count = 0, jiq_len = 0, jiq_jiffies = 0, woken = False, rescheduled = False, jiq_lines = 0\<rparr> = None"
  using jiq_readers_return[of 0 "[]" "[Wake_up, Wake_up]" "\<lparr>m_size = 4096, m_count = 0, jiq_len = 0,
      jiq_jiffies = 0, woken = False, rescheduled = False, jiq_lines = 0\<rparr>"] by simp

text \<open>
  A signal also ends the wait for a work queue, which goes on printing into the file of the
  reader that has left.
\<close>

lemma jiq_signal_leaves_work:
  assumes "jiq_read_wq_show j [] [Signal_arrives] d = Some d'"
  shows "rescheduled d' \<and> \<not> woken d'"
  using assms by (auto simp: jiq_read_wq_show_def jiq_start_def own_wake_def)

text \<open>
  Both modules have an entry \<open>jitimer\<close>: the second to be loaded does not get it, and unloading
  either takes it away from both.
\<close>

lemma jitimer_collides:
  "''jitimer'' \<in> set jiq_init \<inter> set (map fst jit_init)"
  "''jitimer'' \<notin> set (proc_remove_all jiq_cleanup (proc_create_all jiq_init (proc_create_all (map fst jit_init) [])))"
  by (simp_all add: jiq_init_def jit_init_def proc_remove_all_def jiq_cleanup_def)

lemma ct_init_exit: "''sequence'' \<notin> set ps \<Longrightarrow> ct_init ps = (r, ps') \<Longrightarrow> r = Inr () \<and> ct_exit ps' = ps"
  by (auto simp: ct_init_def ct_exit_def proc_create_def proc_remove_all_def filter_id_conv)

end
