(* ===== verification/Aesd_Timer.thy ===== *)
theory Aesd_Timer
  imports Prelude
begin

text \<open>
  The parts of \<open>server/aesdsocket.c\<close> around the time stamps: adding times, starting the timer,
  the thread that writes a stamp into the output file, the signal handler, and the cleanup.
  They belong to the configuration with an output file, without \<open>USE_AESD_CHAR_DEVICE\<close>, except
  for the first and the handler; \<open>Aesd_Socket\<close> has the other configuration.  The source defines
  \<open>USE_AESD_CHAR_DEVICE\<close> itself, so that the timer, the thread and the start of the timer are never
  compiled, and without the define the thread, the cleanup and the main program name a variable
  \<open>filefd\<close> that they do not declare.  The lemmas below hence say what that code would do, not what the
  server does; \<open>timespec_add\<close> is compiled and never called.
\<close>

section \<open>Times\<close>

record timespec_t =
  tv_sec :: int
  tv_nsec :: int

text \<open>The sums are sums of \<open>long\<close>.\<close>

definition timespec_add :: "timespec_t \<Rightarrow> timespec_t \<Rightarrow> timespec_t" where
  "timespec_add t1 t2 =
     (let sec = s64 (tv_sec t1 + tv_sec t2); nsec = s64 (tv_nsec t1 + tv_nsec t2)
      in if 1000000000 < nsec
         then \<lparr>tv_sec = s64 (sec + 1), tv_nsec = s64 (nsec - 1000000000)\<rparr>
         else \<lparr>tv_sec = sec, tv_nsec = nsec\<rparr>)"

text \<open>What POSIX asks of a time, and the nanoseconds it stands for.\<close>

definition valid_timespec :: "timespec_t \<Rightarrow> bool" where
  "valid_timespec t \<longleftrightarrow> 0 \<le> tv_nsec t \<and> tv_nsec t < 1000000000"

definition nanoseconds :: "timespec_t \<Rightarrow> int" where
  "nanoseconds t = 1000000000 * tv_sec t + tv_nsec t"

section \<open>Starting the timer\<close>

text \<open>
  The timer expires first after the interval and then once an interval.  \<open>create\<close> and \<open>now\<close> are
  what \<open>timer_create\<close> and \<open>clock_gettime\<close> answer; \<open>timer_settime\<close> refuses a time that is not
  valid.  The result is the time of the first stamp, \<open>None\<close> when the program gives up.
\<close>

definition stamp_interval :: timespec_t where
  "stamp_interval = \<lparr>tv_sec = 10, tv_nsec = 1000000\<rparr>"

definition timer_settime :: "timespec_t \<Rightarrow> timespec_t option" where
  "timer_settime t = (if valid_timespec t then Some t else None)"

definition start_timer :: "bool \<Rightarrow> timespec_t option \<Rightarrow> timespec_t option" where
  "start_timer create now =
     (if \<not> create then None
      else do { start_time \<leftarrow> now; timer_settime (timespec_add start_time stamp_interval) })"

section \<open>The stamp\<close>

text \<open>The output file, the mutex, and the heap.\<close>

record stamp_state =
  out_file :: "byte list"
  file_mutex :: bool
  stamp_heap :: heap

abbreviation (input) BUFFER_MAX :: nat where "BUFFER_MAX \<equiv> 100"

text \<open>
  \<open>strftime\<close> gives the text, or nothing when it does not fit with its end; \<open>wrote\<close> is how many
  bytes \<open>write\<close> takes, negative for an error.  The result of \<open>malloc\<close> is not looked at.  \<open>None\<close>
  also stands for waiting without end for the mutex.
\<close>

definition strftime :: "byte list \<Rightarrow> heap \<Rightarrow> ptr \<Rightarrow> (nat \<times> heap) option" where
  "strftime txt h p =
     (if BUFFER_MAX \<le> length txt then Some (0, h)
      else do { b \<leftarrow> h p; b' \<leftarrow> mem_write b 0 (txt @ [0]); Some (length txt, h(p \<mapsto> b')) })"

definition timer_thread :: "alloc \<Rightarrow> byte list \<Rightarrow> int \<Rightarrow> stamp_state \<Rightarrow> stamp_state option" where
  "timer_thread a txt wrote s =
     (let (buff, h) = kmalloc (stamp_heap s) a BUFFER_MAX
      in do {
        (timer_size, h) \<leftarrow> (if buff = NULL then None else strftime txt h buff);
        if timer_size = 0 then do { h \<leftarrow> kfree h buff; Some (s\<lparr>stamp_heap := h\<rparr>) }
        else if file_mutex s then None
        else do {
          b \<leftarrow> h buff;
          data \<leftarrow> mem_read b 0 (nat (min (max wrote 0) (int timer_size)));
          let s1 = s\<lparr>out_file := out_file s @ data, file_mutex := True\<rparr>;
          h \<leftarrow> kfree h buff;
          Some (if wrote \<noteq> int timer_size then s1\<lparr>stamp_heap := h\<rparr>
                else s1\<lparr>stamp_heap := h, file_mutex := False\<rparr>)
        }
      })"

section \<open>The signal handler and the cleanup\<close>

text \<open>The flag and whether the socket is shut down; 2 and 15 are \<open>SIGINT\<close> and \<open>SIGTERM\<close>.\<close>

definition signal_handler :: "nat \<Rightarrow> bool \<times> bool \<Rightarrow> bool \<times> bool" where
  "signal_handler signo s = (if signo = 2 \<or> signo = 15 then (True, True) else s)"

text \<open>
  What is still there at the end: the output file, whether it is open, the timer, the mutex.
\<close>

record left_over =
  file_there :: bool
  file_open :: bool
  timer_armed :: bool
  mutex_there :: bool

definition cleanup_file :: "bool \<Rightarrow> bool \<Rightarrow> bool \<Rightarrow> left_over \<Rightarrow> int \<times> left_over" where
  "cleanup_file signal_exit_code remove_ok delete_ok s =
     (let s = s\<lparr>file_open := False\<rparr>
      in if signal_exit_code
         then if \<not> remove_ok then (- 1, s)
              else let s = s\<lparr>file_there := False\<rparr>
                   in if \<not> delete_ok then (- 1, s)
                      else (0, s\<lparr>timer_armed := False, mutex_there := False\<rparr>)
         else (0, s\<lparr>mutex_there := False\<rparr>))"

section \<open>Correctness\<close>

lemma cleanup_file_cases:
  "cleanup_file True True True s = (0, \<lparr>file_there = False, file_open = False, timer_armed = False, mutex_there = False\<rparr>)"
  "timer_armed (snd (cleanup_file False r d s)) = timer_armed s"
  "file_there (snd (cleanup_file False r d s)) = file_there s"
  by (simp_all add: cleanup_file_def)

text \<open>
  Adding two times adds what they stand for, and the sum of two valid times is valid unless
  the nanoseconds make exactly a second; so the start of the timer would succeed at every moment
  but that, at which the server would give up before it has accepted a connection.
\<close>

lemma timespec_add_spec:
  assumes "valid_timespec t1" "valid_timespec t2" "\<bar>tv_sec t1\<bar> < 2 ^ 61" "\<bar>tv_sec t2\<bar> < 2 ^ 61"
  shows "nanoseconds (timespec_add t1 t2) = nanoseconds t1 + nanoseconds t2 \<and>
    (valid_timespec (timespec_add t1 t2) \<longleftrightarrow> tv_nsec t1 + tv_nsec t2 \<noteq> 1000000000) \<and>
    (start_timer True (Some t1) = None \<longleftrightarrow> tv_nsec t1 = 999000000)"
proof -
  have r: "s64 (tv_sec t1 + x) = tv_sec t1 + x" if "\<bar>x\<bar> < 2 ^ 61" for x
    using assms that by (intro s64_id) auto
  have r1: "s64 (tv_sec t1 + x + 1) = tv_sec t1 + x + 1" if "\<bar>x\<bar> < 2 ^ 61" for x
    using assms that by (intro s64_id) auto
  have n: "s64 (tv_nsec t1 + x) = tv_nsec t1 + x" "s64 (tv_nsec t1 + x - 1000000000) = tv_nsec t1 + x - 1000000000"
    if "0 \<le> x" "x < 1000000000" for x
    using assms that by (auto simp: valid_timespec_def intro!: s64_id)
  have add: "timespec_add t1 t = (if 1000000000 < tv_nsec t1 + tv_nsec t
      then \<lparr>tv_sec = tv_sec t1 + tv_sec t + 1, tv_nsec = tv_nsec t1 + tv_nsec t - 1000000000\<rparr>
      else \<lparr>tv_sec = tv_sec t1 + tv_sec t, tv_nsec = tv_nsec t1 + tv_nsec t\<rparr>)"
    if "valid_timespec t" "\<bar>tv_sec t\<bar> < 2 ^ 61" for t
    using that r[of "tv_sec t"] r1[of "tv_sec t"] n[of "tv_nsec t"]
    by (simp add: timespec_add_def Let_def valid_timespec_def)
  have i: "valid_timespec stamp_interval" "\<bar>tv_sec stamp_interval\<bar> < 2 ^ 61"
    by (simp_all add: stamp_interval_def valid_timespec_def)
  have v: "valid_timespec (timespec_add t1 t) \<longleftrightarrow> tv_nsec t1 + tv_nsec t \<noteq> 1000000000"
    if "valid_timespec t" "\<bar>tv_sec t\<bar> < 2 ^ 61" for t
    using that assms(1) by (auto simp: add valid_timespec_def)
  have "nanoseconds (timespec_add t1 t2) = nanoseconds t1 + nanoseconds t2"
    using assms by (simp add: add nanoseconds_def algebra_simps)
  moreover have "start_timer True (Some t1) = None \<longleftrightarrow> tv_nsec t1 = 999000000"
    using v[OF i] by (auto simp: start_timer_def timer_settime_def stamp_interval_def)
  ultimately show ?thesis using v assms by blast
qed

lemma timespec_add_spec_witness:
  "start_timer True (Some \<lparr>tv_sec = 5, tv_nsec = 999000000\<rparr>) = None"
  using timespec_add_spec[of "\<lparr>tv_sec = 5, tv_nsec = 999000000\<rparr>" "\<lparr>tv_sec = 5, tv_nsec = 0\<rparr>"]
  by (simp add: valid_timespec_def)

lemma strftime_fits:
  assumes "h p = Some b" "length b = BUFFER_MAX" "length txt < BUFFER_MAX"
  shows "strftime txt h p = Some (length txt, h(p \<mapsto> txt @ [0] @ drop (Suc (length txt)) b))"
  using assms by (simp add: strftime_def mem_write_def)

text \<open>
  A stamp that is written whole is appended to the file, and mutex and memory are as before;
  after a short write the mutex stays taken, and the next stamp waits for it without end.
\<close>

lemma timer_thread_writes:
  assumes "fresh_alloc (stamp_heap s) a" "\<not> file_mutex s" "0 < length txt" "length txt < BUFFER_MAX"
    and "wrote \<le> int (length txt)"
  shows "\<exists>s'. timer_thread a txt wrote s = Some s' \<and> out_file s' = out_file s @ take (nat wrote) txt \<and>
    stamp_heap s' = stamp_heap s \<and> (file_mutex s' \<longleftrightarrow> wrote \<noteq> int (length txt))"
proof -
  let ?p = "addr a"
  let ?b = "map (junk a) [0..<BUFFER_MAX]"
  let ?h = "(stamp_heap s)(?p \<mapsto> txt @ [0] @ drop (Suc (length txt)) ?b)"
  have p: "?p \<noteq> NULL" "stamp_heap s ?p = None" using assms(1) by (simp_all add: fresh_alloc_def)
  have st: "strftime txt ((stamp_heap s)(?p \<mapsto> ?b)) ?p = Some (length txt, ?h)"
    using strftime_fits[of "(stamp_heap s)(?p \<mapsto> ?b)" ?p ?b "txt"] assms(4) by simp
  have n: "nat (min (max wrote 0) (int (length txt))) = nat wrote" "nat wrote \<le> length txt"
    using assms(5) by auto
  have nat_max: "nat (max wrote 0) = nat wrote" by simp
  have rd: "mem_read (txt @ [0] @ drop (Suc (length txt)) ?b) 0 (nat wrote) = Some (take (nat wrote) txt)"
    using n(2) by (simp add: mem_read_def)
  have "(stamp_heap s)(?p := None) = stamp_heap s" using p by (simp add: fun_upd_idem)
  then show ?thesis
    using p assms(2,3) st rd n(1) nat_max
    by (simp add: timer_thread_def kmalloc_def kfree_def Let_def del: upt_Suc)
qed

lemma timer_thread_waits:
  assumes "fresh_alloc (stamp_heap s) a" "file_mutex s" "0 < length txt" "length txt < BUFFER_MAX"
  shows "timer_thread a txt wrote s = None"
proof -
  have "strftime txt ((stamp_heap s)(addr a \<mapsto> map (junk a) [0..<BUFFER_MAX])) (addr a) =
      Some (length txt, (stamp_heap s)(addr a \<mapsto> txt @ [0] @ drop (Suc (length txt)) (map (junk a) [0..<BUFFER_MAX])))"
    using assms by (subst strftime_fits) (simp_all del: upt_Suc)
  then show ?thesis
    using assms by (simp add: timer_thread_def kmalloc_def fresh_alloc_def del: upt_Suc)
qed

end
