(* ===== verification/Queue_Lists.thy ===== *)
theory Queue_Lists
  imports Prelude
begin

text \<open>
  The linked lists of \<open>server/queue.h\<close>: the singly-linked list that the server keeps its threads
  in, the doubly-linked list, and the singly-linked tail queue, on an explicit store.

  The store maps the places that hold pointers to what they hold: the first-element field of
  a head, and the next field of an element.  A place that is not there, such as a field of
  NULL or of an element that was freed, has no value.  The back pointers of the doubly-linked
  list and the last-place field of a tail queue hold places.
\<close>

section \<open>Store\<close>

datatype slot = First nat | Next ptr

type_synonym store = "slot \<rightharpoonup> ptr"

text \<open>Assigning to a place that is not there is undefined.\<close>

definition set_slot :: "store \<Rightarrow> slot \<Rightarrow> ptr \<Rightarrow> store option" where
  "set_slot m s p = (if m s = None then None else Some (m(s \<mapsto> p)))"

section \<open>Singly-linked lists\<close>

definition SLIST_INIT :: "nat \<Rightarrow> store \<Rightarrow> store option" where
  "SLIST_INIT h m = set_slot m (First h) NULL"

definition SLIST_EMPTY :: "nat \<Rightarrow> store \<Rightarrow> bool option" where
  "SLIST_EMPTY h m = do { f \<leftarrow> m (First h); Some (f = NULL) }"

definition SLIST_INSERT_HEAD :: "nat \<Rightarrow> ptr \<Rightarrow> store \<Rightarrow> store option" where
  "SLIST_INSERT_HEAD h elm m =
     do { f \<leftarrow> m (First h); m1 \<leftarrow> set_slot m (Next elm) f; set_slot m1 (First h) elm }"

definition SLIST_INSERT_AFTER :: "ptr \<Rightarrow> ptr \<Rightarrow> store \<Rightarrow> store option" where
  "SLIST_INSERT_AFTER slistelm elm m =
     do { n \<leftarrow> m (Next slistelm); m1 \<leftarrow> set_slot m (Next elm) n; set_slot m1 (Next slistelm) elm }"

definition SLIST_REMOVE_HEAD :: "nat \<Rightarrow> store \<Rightarrow> store option" where
  "SLIST_REMOVE_HEAD h m =
     do { f \<leftarrow> m (First h); n \<leftarrow> m (Next f); set_slot m (First h) n }"

definition SLIST_REMOVE_AFTER :: "ptr \<Rightarrow> store \<Rightarrow> store option" where
  "SLIST_REMOVE_AFTER slistelm m =
     do { n \<leftarrow> m (Next slistelm); nn \<leftarrow> m (Next n); set_slot m (Next slistelm) nn }"

text \<open>The search for the element before \<open>elm\<close>; it reads through NULL when there is none.\<close>

partial_function (option) slist_before :: "store \<Rightarrow> ptr \<Rightarrow> ptr \<Rightarrow> ptr option" where
  "slist_before m curelm elm =
     do { n \<leftarrow> m (Next curelm); if n = elm then Some curelm else slist_before m n elm }"

definition SLIST_REMOVE :: "nat \<Rightarrow> ptr \<Rightarrow> store \<Rightarrow> store option" where
  "SLIST_REMOVE h elm m =
     do { f \<leftarrow> m (First h);
          if f = elm then SLIST_REMOVE_HEAD h m
          else do { c \<leftarrow> slist_before m f elm; SLIST_REMOVE_AFTER c m } }"

definition SLIST_SWAP :: "nat \<Rightarrow> nat \<Rightarrow> store \<Rightarrow> store option" where
  "SLIST_SWAP h1 h2 m =
     do { f1 \<leftarrow> m (First h1); f2 \<leftarrow> m (First h2);
          m1 \<leftarrow> set_slot m (First h1) f2; set_slot m1 (First h2) f1 }"

text \<open>The elements that \<open>SLIST_FOREACH\<close> visits from \<open>p\<close> on, with a body that keeps the list.\<close>

partial_function (option) slist_walk :: "store \<Rightarrow> ptr \<Rightarrow> ptr list option" where
  "slist_walk m p =
     (if p = NULL then Some []
      else do { n \<leftarrow> m (Next p); r \<leftarrow> slist_walk m n; Some (p # r) })"

definition SLIST_FOREACH :: "nat \<Rightarrow> store \<Rightarrow> ptr list option" where
  "SLIST_FOREACH h m = do { f \<leftarrow> m (First h); slist_walk m f }"

text \<open>
  The end of the server's \<open>main\<close>: while the list is not empty, its first element is taken out
  and freed.  The result lists what was freed.
\<close>

partial_function (option) slist_drain :: "nat \<Rightarrow> store \<Rightarrow> (ptr list \<times> store) option" where
  "slist_drain h m =
     do { e \<leftarrow> SLIST_EMPTY h m;
          if e then Some ([], m)
          else do { datap \<leftarrow> m (First h);
                    m1 \<leftarrow> SLIST_REMOVE_HEAD h m;
                    r \<leftarrow> slist_drain h (m1(Next datap := None));
                    Some (datap # fst r, snd r) } }"

section \<open>Doubly-linked lists\<close>

text \<open>
  The back pointer of an element is the place that points to it.  An element has its back pointer
  as long as it has its next field.
\<close>

type_synonym dstore = "store \<times> (ptr \<Rightarrow> slot)"

definition set_next :: "slot \<Rightarrow> ptr \<Rightarrow> store \<times> 'a \<Rightarrow> (store \<times> 'a) option" where
  "set_next s p d = do { m \<leftarrow> set_slot (fst d) s p; Some (m, snd d) }"

definition le_prev :: "ptr \<Rightarrow> dstore \<Rightarrow> slot option" where
  "le_prev p d = (if fst d (Next p) = None then None else Some (snd d p))"

definition set_prev :: "ptr \<Rightarrow> slot \<Rightarrow> dstore \<Rightarrow> dstore option" where
  "set_prev p s d = (if fst d (Next p) = None then None else Some (fst d, (snd d)(p := s)))"

definition LIST_INIT :: "nat \<Rightarrow> dstore \<Rightarrow> dstore option" where
  "LIST_INIT h d = set_next (First h) NULL d"

definition LIST_INSERT_HEAD :: "nat \<Rightarrow> ptr \<Rightarrow> dstore \<Rightarrow> dstore option" where
  "LIST_INSERT_HEAD h elm d =
     do { f \<leftarrow> fst d (First h); d \<leftarrow> set_next (Next elm) f d;
          d \<leftarrow> (if f \<noteq> NULL then set_prev f (Next elm) d else Some d);
          d \<leftarrow> set_next (First h) elm d;
          set_prev elm (First h) d }"

definition LIST_INSERT_BEFORE :: "ptr \<Rightarrow> ptr \<Rightarrow> dstore \<Rightarrow> dstore option" where
  "LIST_INSERT_BEFORE listelm elm d =
     do { s \<leftarrow> le_prev listelm d; d \<leftarrow> set_prev elm s d;
          d \<leftarrow> set_next (Next elm) listelm d;
          s \<leftarrow> le_prev listelm d; d \<leftarrow> set_next s elm d;
          set_prev listelm (Next elm) d }"

definition LIST_INSERT_AFTER :: "ptr \<Rightarrow> ptr \<Rightarrow> dstore \<Rightarrow> dstore option" where
  "LIST_INSERT_AFTER listelm elm d =
     do { n \<leftarrow> fst d (Next listelm); d \<leftarrow> set_next (Next elm) n d;
          d \<leftarrow> (if n \<noteq> NULL then do { n' \<leftarrow> fst d (Next listelm); set_prev n' (Next elm) d } else Some d);
          d \<leftarrow> set_next (Next listelm) elm d;
          set_prev elm (Next listelm) d }"

definition LIST_REMOVE :: "ptr \<Rightarrow> dstore \<Rightarrow> dstore option" where
  "LIST_REMOVE elm d =
     do { n \<leftarrow> fst d (Next elm);
          d \<leftarrow> (if n \<noteq> NULL then do { s \<leftarrow> le_prev elm d; set_prev n s d } else Some d);
          s \<leftarrow> le_prev elm d; n \<leftarrow> fst d (Next elm); set_next s n d }"

definition LIST_REPLACE :: "ptr \<Rightarrow> ptr \<Rightarrow> dstore \<Rightarrow> dstore option" where
  "LIST_REPLACE elm elm2 d =
     do { n \<leftarrow> fst d (Next elm); d \<leftarrow> set_next (Next elm2) n d;
          d \<leftarrow> (if n \<noteq> NULL then set_prev n (Next elm2) d else Some d);
          s \<leftarrow> le_prev elm d; d \<leftarrow> set_prev elm2 s d;
          s \<leftarrow> le_prev elm2 d; set_next s elm2 d }"

section \<open>Singly-linked tail queues\<close>

text \<open>The last-place field of a head is the place where the next element goes.\<close>

type_synonym qstore = "store \<times> (nat \<Rightarrow> slot)"

definition stqh_last :: "nat \<Rightarrow> qstore \<Rightarrow> slot option" where
  "stqh_last h q = (if fst q (First h) = None then None else Some (snd q h))"

definition set_last :: "nat \<Rightarrow> slot \<Rightarrow> qstore \<Rightarrow> qstore option" where
  "set_last h s q = (if fst q (First h) = None then None else Some (fst q, (snd q)(h := s)))"

definition STAILQ_INIT :: "nat \<Rightarrow> qstore \<Rightarrow> qstore option" where
  "STAILQ_INIT h q = do { q \<leftarrow> set_next (First h) NULL q; set_last h (First h) q }"

definition STAILQ_INSERT_HEAD :: "nat \<Rightarrow> ptr \<Rightarrow> qstore \<Rightarrow> qstore option" where
  "STAILQ_INSERT_HEAD h elm q =
     do { f \<leftarrow> fst q (First h); q \<leftarrow> set_next (Next elm) f q;
          q \<leftarrow> (if f = NULL then set_last h (Next elm) q else Some q);
          set_next (First h) elm q }"

definition STAILQ_INSERT_TAIL :: "nat \<Rightarrow> ptr \<Rightarrow> qstore \<Rightarrow> qstore option" where
  "STAILQ_INSERT_TAIL h elm q =
     do { q \<leftarrow> set_next (Next elm) NULL q;
          s \<leftarrow> stqh_last h q; q \<leftarrow> set_next s elm q;
          set_last h (Next elm) q }"

definition STAILQ_CONCAT :: "nat \<Rightarrow> nat \<Rightarrow> qstore \<Rightarrow> qstore option" where
  "STAILQ_CONCAT h1 h2 q =
     do { f \<leftarrow> fst q (First h2);
          if f \<noteq> NULL then
            do { s \<leftarrow> stqh_last h1 q; q \<leftarrow> set_next s f q;
                 t \<leftarrow> stqh_last h2 q; q \<leftarrow> set_last h1 t q;
                 STAILQ_INIT h2 q }
          else Some q }"

definition STAILQ_REMOVE_HEAD :: "nat \<Rightarrow> qstore \<Rightarrow> qstore option" where
  "STAILQ_REMOVE_HEAD h q =
     do { f \<leftarrow> fst q (First h); n \<leftarrow> fst q (Next f); q \<leftarrow> set_next (First h) n q;
          if n = NULL then set_last h (First h) q else Some q }"

section \<open>Paths\<close>

text \<open>From place \<open>s\<close> the elements \<open>xs\<close> are reached, and the place after them holds \<open>e\<close>.\<close>

fun path :: "store \<Rightarrow> slot \<Rightarrow> ptr list \<Rightarrow> ptr \<Rightarrow> bool" where
  "path m s [] e \<longleftrightarrow> m s = Some e"
| "path m s (x # xs) e \<longleftrightarrow> m s = Some x \<and> x \<noteq> NULL \<and> path m (Next x) xs e"

fun end_slot :: "slot \<Rightarrow> ptr list \<Rightarrow> slot" where
  "end_slot s [] = s"
| "end_slot s (x # xs) = end_slot (Next x) xs"

definition slist :: "store \<Rightarrow> nat \<Rightarrow> ptr list \<Rightarrow> bool" where
  "slist m h xs \<longleftrightarrow> path m (First h) xs NULL \<and> distinct xs"

lemma Next_image [simp]: "Next x \<in> Next ` A \<longleftrightarrow> x \<in> A" "First h \<notin> Next ` A"
  by auto

lemma end_slot_snoc [simp]: "end_slot s (xs @ [x]) = Next x"
  by (induction xs arbitrary: s) simp_all

lemma end_slot_append: "end_slot s (xs @ ys) = end_slot (end_slot s xs) ys"
  by (induction xs arbitrary: s) simp_all

lemma end_slot_cases: "end_slot s xs = s \<or> (\<exists>x \<in> set xs. end_slot s xs = Next x)"
proof (induction xs arbitrary: s)
  case (Cons x xs)
  then show ?case using Cons.IH[of "Next x"] by auto
qed simp

lemma path_end: "path m s xs e \<Longrightarrow> m (end_slot s xs) = Some e"
  by (induction xs arbitrary: s) simp_all

lemma path_append: "path m s (xs @ y # ys) e \<longleftrightarrow> path m s xs y \<and> y \<noteq> NULL \<and> path m (Next y) ys e"
  by (induction xs arbitrary: s) auto

lemma path_frame:
  "t \<noteq> s \<Longrightarrow> t \<notin> Next ` set xs \<Longrightarrow> path (m(t := v)) s xs e = path m s xs e"
  by (induction xs arbitrary: s) auto

lemma path_redirect:
  "path m s xs e \<Longrightarrow> distinct xs \<Longrightarrow> s \<notin> Next ` set xs \<Longrightarrow> path (m(end_slot s xs \<mapsto> e')) s xs e'"
proof (induction xs arbitrary: s)
  case (Cons x xs)
  have "end_slot (Next x) xs \<noteq> s"
    using end_slot_cases[of "Next x" xs] Cons.prems(3) by auto
  moreover have "path (m(end_slot (Next x) xs \<mapsto> e')) (Next x) xs e'"
    using Cons.prems by (intro Cons.IH) auto
  moreover have "(m(end_slot (Next x) xs \<mapsto> e')) s = Some x"
    using Cons.prems(1) calculation(1) by simp
  ultimately show ?case using Cons.prems(1) unfolding path.simps end_slot.simps by blast
qed simp

lemma path_alloc: "path m s xs e \<Longrightarrow> x \<in> set xs \<Longrightarrow> m (Next x) \<noteq> None"
proof (induction xs arbitrary: s)
  case (Cons y ys)
  then show ?case by (cases ys) auto
qed simp

lemma path_nonnull: "path m s xs e \<Longrightarrow> NULL \<notin> set xs"
  by (induction xs arbitrary: s) auto

lemma slist_first: "slist m h xs \<Longrightarrow> m (First h) = Some (case xs of [] \<Rightarrow> NULL | x # _ \<Rightarrow> x)"
  by (cases xs) (auto simp: slist_def)

lemma slist_frame: "s \<noteq> First h \<Longrightarrow> s \<notin> Next ` set xs \<Longrightarrow> slist (m(s := v)) h xs = slist m h xs"
  by (simp add: slist_def path_frame)

text \<open>An element that can be put into a list: it is there and not in it.\<close>

definition loose :: "store \<Rightarrow> ptr list \<Rightarrow> ptr \<Rightarrow> bool" where
  "loose m xs x \<longleftrightarrow> x \<noteq> NULL \<and> m (Next x) \<noteq> None \<and> x \<notin> set xs"

section \<open>The operations on lists\<close>

lemma SLIST_INSERT_HEAD_list:
  assumes "slist m h xs" "loose m xs x"
  shows "\<exists>m'. SLIST_INSERT_HEAD h x m = Some m' \<and> slist m' h (x # xs)"
proof -
  obtain f where f: "m (First h) = Some f" using slist_first[OF assms(1)] by blast
  let ?m = "m(Next x \<mapsto> f, First h \<mapsto> x)"
  have "path ?m (Next x) xs NULL"
  proof (cases xs)
    case Nil
    then show ?thesis using assms f by (simp add: slist_def)
  next
    case (Cons y ys)
    then show ?thesis using assms f by (auto simp: slist_def path_frame loose_def)
  qed
  then have "slist ?m h (x # xs)" using assms by (simp add: slist_def loose_def)
  moreover have "SLIST_INSERT_HEAD h x m = Some ?m"
    using assms f by (auto simp: SLIST_INSERT_HEAD_def set_slot_def loose_def)
  ultimately show ?thesis by blast
qed

text \<open>Putting an element, and taking one, at the place after \<open>as\<close>.\<close>

lemma path_insert:
  assumes "slist m h (as @ bs)" "loose m (as @ bs) x" "m (end_slot (First h) as) = Some n"
  shows "slist (m(Next x \<mapsto> n, end_slot (First h) as \<mapsto> x)) h (as @ x # bs)"
proof -
  let ?s = "end_slot (First h) as" and ?m = "m(Next x \<mapsto> n)"
  have d: "distinct (as @ bs)" and nx: "x \<noteq> NULL" "x \<notin> set (as @ bs)"
    using assms by (auto simp: slist_def loose_def)
  have s: "?s \<noteq> Next x" using end_slot_cases[of "First h" as] nx by auto
  have parts: "path m (First h) as n \<and> path ?m (Next x) bs NULL"
  proof (cases bs)
    case Nil
    then show ?thesis using assms(1,3) path_end[of m "First h" as NULL] by (simp add: slist_def)
  next
    case (Cons y ys)
    then have "path m (First h) as y" "y \<noteq> NULL" "path m (Next y) ys NULL"
      using assms(1) by (auto simp: slist_def path_append)
    moreover from this have "n = y" using path_end assms(3) by fastforce
    ultimately show ?thesis using Cons nx by (auto simp: path_frame)
  qed
  have "path (?m(?s \<mapsto> x)) (First h) as x"
    using parts d nx by (intro path_redirect[where e = n]) (auto simp: path_frame)
  moreover have "?s \<notin> Next ` set bs"
    using end_slot_cases[of "First h" as] d by auto
  then have "path (?m(?s \<mapsto> x)) (Next x) bs NULL" using parts s by (simp add: path_frame)
  ultimately show ?thesis using d nx by (auto simp: slist_def path_append)
qed

lemma path_delete:
  assumes "slist m h (as @ x # bs)" "m (Next x) = Some n"
  shows "slist (m(end_slot (First h) as \<mapsto> n)) h (as @ bs)"
proof -
  let ?s = "end_slot (First h) as"
  have d: "distinct (as @ x # bs)" and p: "path m (First h) as x" "path m (Next x) bs NULL"
    using assms by (auto simp: slist_def path_append)
  have r: "path (m(?s \<mapsto> n)) (First h) as n"
    using p d by (intro path_redirect[where e = x]) auto
  show ?thesis
  proof (cases bs)
    case Nil
    then show ?thesis using r p(2) d assms(2) by (simp add: slist_def)
  next
    case (Cons y ys)
    then have y: "n = y" "y \<noteq> NULL" "path m (Next y) ys NULL" using p(2) assms(2) by auto
    have "?s \<noteq> Next y" "?s \<notin> Next ` set ys"
      using end_slot_cases[of "First h" as] d Cons by auto
    then show ?thesis using r y d Cons by (simp add: slist_def path_append path_frame)
  qed
qed

lemma SLIST_INSERT_AFTER_list:
  assumes "slist m h (as @ y # bs)" "loose m (as @ y # bs) x"
  shows "\<exists>m'. SLIST_INSERT_AFTER y x m = Some m' \<and> slist m' h (as @ y # x # bs)"
proof -
  obtain n where n: "m (Next y) = Some n" using assms(1) path_alloc[of m "First h" "as @ y # bs" NULL y]
    by (auto simp: slist_def)
  have "slist (m(Next x \<mapsto> n, Next y \<mapsto> x)) h ((as @ [y]) @ x # bs)"
    using path_insert[of m h "as @ [y]" bs x n] assms n by simp
  moreover have "SLIST_INSERT_AFTER y x m = Some (m(Next x \<mapsto> n, Next y \<mapsto> x))"
    using assms(2) n by (auto simp: SLIST_INSERT_AFTER_def set_slot_def loose_def)
  ultimately show ?thesis by simp
qed

lemma SLIST_REMOVE_HEAD_list:
  assumes "slist m h (x # xs)"
  shows "\<exists>m'. SLIST_REMOVE_HEAD h m = Some m' \<and> slist m' h xs \<and> (\<forall>y. m' (Next y) = m (Next y))"
proof -
  obtain n where n: "m (Next x) = Some n" "m (First h) = Some x"
    using assms path_alloc[of m "First h" "x # xs" NULL x] by (auto simp: slist_def)
  then have "SLIST_REMOVE_HEAD h m = Some (m(First h \<mapsto> n))"
    by (simp add: SLIST_REMOVE_HEAD_def set_slot_def)
  then show ?thesis using path_delete[of m h "[]" x xs n] assms n by simp
qed

lemma slist_before_found:
  "path m (Next c) as x \<Longrightarrow> x \<notin> set as \<Longrightarrow> slist_before m c x = Some (last (c # as))"
proof (induction as arbitrary: c)
  case Nil
  then show ?case by (subst slist_before.simps) simp
next
  case (Cons a as)
  then have "slist_before m a x = Some (last (a # as))" by simp
  with Cons.prems show ?case by (subst slist_before.simps) auto
qed

lemma SLIST_REMOVE_list:
  assumes "slist m h (as @ x # bs)"
  shows "\<exists>m'. SLIST_REMOVE h x m = Some m' \<and> slist m' h (as @ bs)"
proof (cases as)
  case Nil
  then have "m (First h) = Some x" using slist_first[OF assms] by simp
  then show ?thesis using SLIST_REMOVE_HEAD_list[of m h x bs] assms Nil by (auto simp: SLIST_REMOVE_def)
next
  case (Cons c cs)
  obtain n where n: "m (Next x) = Some n"
    using assms path_alloc[of m "First h" "as @ x # bs" NULL x] by (auto simp: slist_def)
  have p: "path m (First h) as x" using assms by (auto simp: slist_def path_append)
  then have "m (First h) = Some c" "c \<noteq> x" "path m (Next c) cs x" "x \<notin> set cs"
    using assms Cons by (auto simp: slist_def)
  then have b: "SLIST_REMOVE h x m = SLIST_REMOVE_AFTER (last as) m"
    using slist_before_found[of m c cs x] Cons by (simp add: SLIST_REMOVE_def)
  have e: "end_slot (First h) as = Next (last as)"
    using Cons append_butlast_last_id[of as] end_slot_snoc by (metis list.distinct(1))
  then have "m (Next (last as)) = Some x" using path_end[OF p] by simp
  then have "SLIST_REMOVE h x m = Some (m(Next (last as) \<mapsto> n))"
    using b n by (simp add: SLIST_REMOVE_AFTER_def set_slot_def)
  then show ?thesis using path_delete[OF assms n] e by simp
qed

lemma slist_walk_path: "path m s xs NULL \<Longrightarrow> slist_walk m (the (m s)) = Some xs"
proof (induction xs arbitrary: s)
  case Nil
  then show ?case by (subst slist_walk.simps) simp
next
  case (Cons x xs)
  then have "slist_walk m (the (m (Next x))) = Some xs" "m (Next x) \<noteq> None"
    by (simp, cases xs) auto
  with Cons.prems show ?case by (subst slist_walk.simps) auto
qed

lemma SLIST_FOREACH_list: "slist m h xs \<Longrightarrow> SLIST_FOREACH h m = Some xs"
  using slist_walk_path[of m "First h" xs] slist_first[of m h xs]
  by (auto simp: SLIST_FOREACH_def slist_def)

lemma slist_drain_all:
  assumes "slist m h xs"
  shows "\<exists>m'. slist_drain h m = Some (xs, m') \<and> slist m' h [] \<and>
    (\<forall>y. m' (Next y) = (if y \<in> set xs then None else m (Next y)))"
  using assms
proof (induction xs arbitrary: m)
  case Nil
  then have "SLIST_EMPTY h m = Some True" by (simp add: slist_def SLIST_EMPTY_def)
  with Nil show ?case by (subst slist_drain.simps) simp
next
  case (Cons x xs)
  obtain m1 where m1: "SLIST_REMOVE_HEAD h m = Some m1" "slist m1 h xs" "\<forall>y. m1 (Next y) = m (Next y)"
    using SLIST_REMOVE_HEAD_list[OF Cons.prems] by blast
  have x: "x \<notin> set xs" "m (First h) = Some x" "x \<noteq> NULL" using Cons.prems by (auto simp: slist_def)
  have "slist (m1(Next x := None)) h xs" using m1(2) x by (subst slist_frame) auto
  then obtain m' where m': "slist_drain h (m1(Next x := None)) = Some (xs, m')" "slist m' h []"
    "\<forall>y. m' (Next y) = (if y \<in> set xs then None else (m1(Next x := None)) (Next y))"
    using Cons.IH by blast
  have "SLIST_EMPTY h m = Some False" using x by (simp add: SLIST_EMPTY_def)
  then have "slist_drain h m = Some (x # xs, m')"
    using m1(1) m'(1) x by (subst slist_drain.simps) simp
  then show ?case using m' m1(3) by auto
qed

section \<open>The operations on doubly-linked lists\<close>

fun backs :: "(ptr \<Rightarrow> slot) \<Rightarrow> slot \<Rightarrow> ptr list \<Rightarrow> bool" where
  "backs prev s [] \<longleftrightarrow> True"
| "backs prev s (x # xs) \<longleftrightarrow> prev x = s \<and> backs prev (Next x) xs"

definition dlist :: "dstore \<Rightarrow> nat \<Rightarrow> ptr list \<Rightarrow> bool" where
  "dlist d h xs \<longleftrightarrow> slist (fst d) h xs \<and> backs (snd d) (First h) xs"

lemma backs_append [simp]: "backs prev s (xs @ ys) \<longleftrightarrow> backs prev s xs \<and> backs prev (end_slot s xs) ys"
  by (induction xs arbitrary: s) auto

lemma backs_frame [simp]: "x \<notin> set xs \<Longrightarrow> backs (prev(x := v)) s xs = backs prev s xs"
  by (induction xs arbitrary: s) auto

lemma slist_place:
  assumes "slist m h (as @ bs)"
  shows "m (end_slot (First h) as) = Some (case bs of [] \<Rightarrow> NULL | y # _ \<Rightarrow> y)"
  using assms path_end[of m "First h" as] by (cases bs) (auto simp: slist_def path_append)

lemma slist_next: "slist m h (as @ x # bs) \<Longrightarrow> m (Next x) = Some (case bs of [] \<Rightarrow> NULL | y # _ \<Rightarrow> y)"
  using slist_place[of m h "as @ [x]" bs] by simp

lemma slist_nonnull: "slist m h xs \<Longrightarrow> x \<in> set xs \<Longrightarrow> x \<noteq> NULL \<and> m (Next x) \<noteq> None"
  using path_nonnull[of m "First h" xs NULL] path_alloc[of m "First h" xs NULL x]
  by (cases "x = NULL") (auto simp: slist_def)

lemma dlist_insert:
  assumes "dlist (m, prev) h (as @ bs)" "loose m (as @ bs) x" "m (end_slot (First h) as) = Some n"
  shows "dlist (m(Next x \<mapsto> n, end_slot (First h) as \<mapsto> x),
      (case bs of [] \<Rightarrow> prev | y # _ \<Rightarrow> prev(y := Next x))(x := end_slot (First h) as)) h (as @ x # bs)"
proof -
  have "slist (m(Next x \<mapsto> n, end_slot (First h) as \<mapsto> x)) h (as @ x # bs)"
    using assms by (intro path_insert) (auto simp: dlist_def)
  moreover have "x \<notin> set as" "x \<notin> set bs" "distinct (as @ bs)"
    using assms by (auto simp: dlist_def slist_def loose_def)
  ultimately show ?thesis using assms(1) by (cases bs) (auto simp: dlist_def)
qed

lemma dlist_delete:
  assumes "dlist (m, prev) h (as @ x # bs)" "m (Next x) = Some n"
  shows "dlist (m(end_slot (First h) as \<mapsto> n),
      case bs of [] \<Rightarrow> prev | y # _ \<Rightarrow> prev(y := end_slot (First h) as)) h (as @ bs)"
proof -
  have "slist (m(end_slot (First h) as \<mapsto> n)) h (as @ bs)"
    using assms by (intro path_delete) (auto simp: dlist_def)
  moreover have "distinct (as @ x # bs)" using assms by (simp add: dlist_def slist_def)
  ultimately show ?thesis using assms(1) by (cases bs) (auto simp: dlist_def)
qed

lemmas list_ops = set_next_def set_slot_def set_prev_def le_prev_def

lemma LIST_INSERT_HEAD_list:
  assumes "dlist d h xs" "loose (fst d) xs x"
  shows "\<exists>d'. LIST_INSERT_HEAD h x d = Some d' \<and> dlist d' h (x # xs) \<and> dom (fst d') = dom (fst d)"
proof -
  obtain m prev where d [simp]: "d = (m, prev)" by fastforce
  let ?f = "case xs of [] \<Rightarrow> NULL | y # _ \<Rightarrow> y"
  have f: "m (First h) = Some ?f" using assms slist_place[of m h "[]" xs] by (simp add: dlist_def)
  have "?f \<noteq> NULL \<longleftrightarrow> xs \<noteq> []" "xs \<noteq> [] \<Longrightarrow> m (Next ?f) \<noteq> None"
    using assms slist_nonnull[of m h xs] by (cases xs; auto simp: dlist_def)+
  then have "LIST_INSERT_HEAD h x d = Some (m(Next x \<mapsto> ?f, First h \<mapsto> x),
      (case xs of [] \<Rightarrow> prev | y # _ \<Rightarrow> prev(y := Next x))(x := First h))"
    using assms(2) f by (cases xs) (auto simp: LIST_INSERT_HEAD_def list_ops loose_def)
  moreover have "First h \<in> dom m" "Next x \<in> dom m" using f assms(2) by (auto simp: loose_def)
  ultimately show ?thesis
    using dlist_insert[of m prev h "[]" xs x ?f] assms f by (auto simp: insert_absorb)
qed

lemma LIST_INSERT_AFTER_list:
  assumes "dlist d h (as @ y # bs)" "loose (fst d) (as @ y # bs) x"
  shows "\<exists>d'. LIST_INSERT_AFTER y x d = Some d' \<and> dlist d' h (as @ y # x # bs)"
proof -
  obtain m prev where d [simp]: "d = (m, prev)" by fastforce
  let ?n = "case bs of [] \<Rightarrow> NULL | z # _ \<Rightarrow> z"
  have n: "m (Next y) = Some ?n" using assms slist_next[of m h as y bs] by (simp add: dlist_def)
  have "?n \<noteq> NULL \<longleftrightarrow> bs \<noteq> []" "bs \<noteq> [] \<Longrightarrow> m (Next ?n) \<noteq> None"
    using assms slist_nonnull[of m h "as @ y # bs"] by (cases bs; auto simp: dlist_def)+
  then have "LIST_INSERT_AFTER y x d = Some (m(Next x \<mapsto> ?n, Next y \<mapsto> x),
      (case bs of [] \<Rightarrow> prev | z # _ \<Rightarrow> prev(z := Next x))(x := Next y))"
    using assms(2) n by (cases bs) (auto simp: LIST_INSERT_AFTER_def list_ops loose_def)
  then show ?thesis
    using dlist_insert[of m prev h "as @ [y]" bs x ?n] assms n by simp
qed

lemma LIST_INSERT_BEFORE_list:
  assumes "dlist d h (as @ y # bs)" "loose (fst d) (as @ y # bs) x"
  shows "\<exists>d'. LIST_INSERT_BEFORE y x d = Some d' \<and> dlist d' h (as @ x # y # bs)"
proof -
  obtain m prev where d [simp]: "d = (m, prev)" by fastforce
  let ?s = "end_slot (First h) as"
  have s: "m ?s = Some y" "m (Next y) \<noteq> None" "prev y = ?s" "x \<noteq> y"
    using assms slist_place[of m h as "y # bs"] slist_nonnull[of m h "as @ y # bs" y]
    by (auto simp: dlist_def loose_def)
  moreover have "?s \<noteq> Next x" using end_slot_cases[of "First h" as] assms(2) by (auto simp: loose_def)
  ultimately have "LIST_INSERT_BEFORE y x d =
      Some (m(Next x \<mapsto> y, ?s \<mapsto> x), prev(x := ?s, y := Next x))"
    using assms(2) by (auto simp: LIST_INSERT_BEFORE_def list_ops loose_def)
  moreover have "prev(x := ?s, y := Next x) = prev(y := Next x, x := ?s)"
    using s(4) by (rule fun_upd_twist[OF _, symmetric, OF not_sym])
  ultimately show ?thesis using dlist_insert[of m prev h as "y # bs" x y] assms s by simp
qed

lemma LIST_REMOVE_list:
  assumes "dlist d h (as @ x # bs)"
  shows "\<exists>d'. LIST_REMOVE x d = Some d' \<and> dlist d' h (as @ bs) \<and> dom (fst d') = dom (fst d)"
proof -
  obtain m prev where d [simp]: "d = (m, prev)" by fastforce
  let ?s = "end_slot (First h) as" and ?n = "case bs of [] \<Rightarrow> NULL | z # _ \<Rightarrow> z"
  have n: "m (Next x) = Some ?n" "m ?s = Some x" "prev x = ?s"
    using assms slist_next[of m h as x bs] slist_place[of m h as "x # bs"] by (auto simp: dlist_def)
  have "distinct (as @ x # bs)" using assms by (simp add: dlist_def slist_def)
  then have "bs \<noteq> [] \<Longrightarrow> ?n \<noteq> x" by (cases bs) auto
  moreover have "?n \<noteq> NULL \<longleftrightarrow> bs \<noteq> []" "bs \<noteq> [] \<Longrightarrow> m (Next ?n) \<noteq> None"
    using assms slist_nonnull[of m h "as @ x # bs"] by (cases bs; auto simp: dlist_def)+
  ultimately have "LIST_REMOVE x d = Some (m(?s \<mapsto> ?n), case bs of [] \<Rightarrow> prev | z # _ \<Rightarrow> prev(z := ?s))"
    using n by (cases bs) (auto simp: LIST_REMOVE_def list_ops)
  then show ?thesis using dlist_delete[of m prev h as x bs ?n] assms n by (auto simp: insert_absorb)
qed

lemma LIST_REPLACE_list:
  assumes "dlist d h (as @ y # bs)" "loose (fst d) (as @ y # bs) x"
  shows "\<exists>d'. LIST_REPLACE y x d = Some d' \<and> dlist d' h (as @ x # bs)"
proof -
  obtain m prev where d [simp]: "d = (m, prev)" by fastforce
  let ?s = "end_slot (First h) as" and ?n = "case bs of [] \<Rightarrow> NULL | z # _ \<Rightarrow> z"
  let ?prev = "case bs of [] \<Rightarrow> prev | z # _ \<Rightarrow> prev(z := ?s)"
  have n: "m (Next y) = Some ?n" "m ?s = Some y" "prev y = ?s" "x \<noteq> y"
    using assms slist_next[of m h as y bs] slist_place[of m h as "y # bs"]
    by (auto simp: dlist_def loose_def)
  have dist: "distinct (as @ y # bs)" "x \<notin> set bs" using assms by (auto simp: dlist_def slist_def loose_def)
  have ne: "?s \<noteq> Next x" "?s \<noteq> Next y" 
    using end_slot_cases[of "First h" as] assms(2) dist by (auto simp: loose_def)
  have "?n \<noteq> NULL \<longleftrightarrow> bs \<noteq> []" "bs \<noteq> [] \<Longrightarrow> m (Next ?n) \<noteq> None"
    using assms slist_nonnull[of m h "as @ y # bs"] by (cases bs; auto simp: dlist_def)+
  then have r: "LIST_REPLACE y x d = Some (m(Next x \<mapsto> ?n, ?s \<mapsto> x),
      (case bs of [] \<Rightarrow> prev | z # _ \<Rightarrow> prev(z := Next x))(x := ?s))"
    using assms(2) n dist ne by (cases bs) (auto simp: LIST_REPLACE_def list_ops loose_def fun_upd_def)
  have "dlist (m(?s \<mapsto> ?n), ?prev) h (as @ bs)"
    using dlist_delete[of m prev h as y bs ?n] assms n by simp
  moreover have "loose (m(?s \<mapsto> ?n)) (as @ bs) x" using assms(2) ne by (simp add: loose_def)
  ultimately have "dlist ((m(?s \<mapsto> ?n))(Next x \<mapsto> ?n, ?s \<mapsto> x),
      (case bs of [] \<Rightarrow> ?prev | z # _ \<Rightarrow> ?prev(z := Next x))(x := ?s)) h (as @ x # bs)"
    by (intro dlist_insert) auto
  moreover have "(m(?s \<mapsto> ?n))(Next x \<mapsto> ?n, ?s \<mapsto> x) = m(Next x \<mapsto> ?n, ?s \<mapsto> x)" 
    by (auto simp: fun_eq_iff)
  ultimately show ?thesis using r by (cases bs) auto
qed

section \<open>The operations on tail queues\<close>

definition tailq :: "qstore \<Rightarrow> nat \<Rightarrow> ptr list \<Rightarrow> bool" where
  "tailq q h xs \<longleftrightarrow> slist (fst q) h xs \<and> snd q h = end_slot (First h) xs"

lemmas tailq_ops = set_next_def set_slot_def set_last_def stqh_last_def

lemma STAILQ_INIT_list:
  "fst q (First h) \<noteq> None \<Longrightarrow> \<exists>q'. STAILQ_INIT h q = Some q' \<and> tailq q' h [] \<and> dom (fst q') = dom (fst q)"
  by (auto simp: STAILQ_INIT_def tailq_ops tailq_def slist_def)

lemma STAILQ_INSERT_HEAD_list:
  assumes "tailq q h xs" "loose (fst q) xs x"
  shows "\<exists>q'. STAILQ_INSERT_HEAD h x q = Some q' \<and> tailq q' h (x # xs) \<and> dom (fst q') = dom (fst q)"
proof -
  obtain m lst where q [simp]: "q = (m, lst)" by fastforce
  let ?f = "case xs of [] \<Rightarrow> NULL | y # _ \<Rightarrow> y"
  have f: "m (First h) = Some ?f" using assms slist_place[of m h "[]" xs] by (simp add: tailq_def)
  have z: "?f = NULL \<longleftrightarrow> xs = []" using assms slist_nonnull[of m h xs] by (cases xs; auto simp: tailq_def)
  have "slist (m(Next x \<mapsto> ?f, First h \<mapsto> x)) h (x # xs)"
    using path_insert[of m h "[]" xs x ?f] assms f by (simp add: tailq_def)
  moreover have "STAILQ_INSERT_HEAD h x q =
      Some (m(Next x \<mapsto> ?f, First h \<mapsto> x), if xs = [] then lst(h := Next x) else lst)"
    using assms(2) f z by (cases "xs = []") (auto simp: STAILQ_INSERT_HEAD_def tailq_ops loose_def)
  moreover have "First h \<in> dom m" "Next x \<in> dom m" using f assms(2) by (auto simp: loose_def)
  ultimately show ?thesis using assms(1) by (cases xs) (auto simp: tailq_def insert_absorb)
qed

lemma STAILQ_INSERT_TAIL_list:
  assumes "tailq q h xs" "loose (fst q) xs x"
  shows "\<exists>q'. STAILQ_INSERT_TAIL h x q = Some q' \<and> tailq q' h (xs @ [x]) \<and> dom (fst q') = dom (fst q)"
proof -
  obtain m lst where q [simp]: "q = (m, lst)" by fastforce
  let ?s = "end_slot (First h) xs"
  have s: "m ?s = Some NULL" "lst h = ?s" "m (First h) \<noteq> None" "m (Next x) \<noteq> None"
    using assms slist_place[of m h xs "[]"] slist_first[of m h xs] by (auto simp: tailq_def loose_def)
  have "slist (m(Next x \<mapsto> NULL, ?s \<mapsto> x)) h (xs @ [x])"
    using path_insert[of m h xs "[]" x NULL] assms s by (simp add: tailq_def)
  moreover have "STAILQ_INSERT_TAIL h x q = Some (m(Next x \<mapsto> NULL, ?s \<mapsto> x), lst(h := Next x))"
    using s by (auto simp: STAILQ_INSERT_TAIL_def tailq_ops)
  ultimately show ?thesis using s by (auto simp: tailq_def insert_absorb domI)
qed

lemma STAILQ_REMOVE_HEAD_list:
  assumes "tailq q h (x # xs)"
  shows "\<exists>q'. STAILQ_REMOVE_HEAD h q = Some q' \<and> tailq q' h xs \<and> dom (fst q') = dom (fst q)"
proof -
  obtain m lst where q [simp]: "q = (m, lst)" by fastforce
  let ?n = "case xs of [] \<Rightarrow> NULL | z # _ \<Rightarrow> z"
  have n: "m (Next x) = Some ?n" "m (First h) = Some x"
    using assms slist_next[of m h "[]" x xs] slist_first[of m h "x # xs"] by (auto simp: tailq_def)
  have z: "?n = NULL \<longleftrightarrow> xs = []" using assms slist_nonnull[of m h "x # xs"] by (cases xs; auto simp: tailq_def)
  have "slist (m(First h \<mapsto> ?n)) h xs"
    using path_delete[of m h "[]" x xs ?n] assms n by (simp add: tailq_def)
  moreover have "STAILQ_REMOVE_HEAD h q = Some (m(First h \<mapsto> ?n), if xs = [] then lst(h := First h) else lst)"
    using n z by (cases "xs = []") (auto simp: STAILQ_REMOVE_HEAD_def tailq_ops)
  ultimately show ?thesis using assms n by (cases xs) (auto simp: tailq_def insert_absorb domI)
qed

lemma slist_concat:
  assumes "slist m h1 xs" "slist m h2 (y # zs)" "h1 \<noteq> h2" "set xs \<inter> set (y # zs) = {}"
  shows "slist (m(end_slot (First h1) xs \<mapsto> y)) h1 (xs @ y # zs)"
proof -
  let ?s = "end_slot (First h1) xs" and ?m = "m(end_slot (First h1) xs \<mapsto> y)"
  have y: "y \<noteq> NULL" "path m (Next y) zs NULL" using assms(2) by (auto simp: slist_def)
  have "?s \<notin> Next ` set (y # zs)" using end_slot_cases[of "First h1" xs] assms(3,4) by auto
  then have "path ?m (Next y) zs NULL" using y(2) by (subst path_frame) auto
  moreover have "path ?m (First h1) xs y"
    using assms(1) by (intro path_redirect[where e = NULL]) (auto simp: slist_def)
  ultimately show ?thesis using assms y(1) by (simp add: slist_def path_append)
qed

lemma STAILQ_CONCAT_list:
  assumes "tailq q h1 xs" "tailq q h2 ys" "h1 \<noteq> h2" "set xs \<inter> set ys = {}"
  shows "\<exists>q'. STAILQ_CONCAT h1 h2 q = Some q' \<and> tailq q' h1 (xs @ ys) \<and> tailq q' h2 []"
proof (cases ys)
  case Nil
  then have "STAILQ_CONCAT h1 h2 q = Some q"
    using assms(2) by (auto simp: STAILQ_CONCAT_def tailq_def slist_def)
  then show ?thesis using assms Nil by simp
next
  case (Cons y zs)
  obtain m lst where q [simp]: "q = (m, lst)" by fastforce
  let ?s = "end_slot (First h1) xs" and ?m = "m(end_slot (First h1) xs \<mapsto> y)"
  have y: "m (First h2) = Some y" "y \<noteq> NULL" using assms(2) Cons by (auto simp: tailq_def slist_def)
  have s: "m ?s \<noteq> None" "lst h1 = ?s" "lst h2 = end_slot (First h2) ys" "m (First h1) \<noteq> None"
    using assms slist_place[of m h1 xs "[]"] slist_first[of m h1 xs] by (auto simp: tailq_def)
  have fresh: "?s \<noteq> First h2" using end_slot_cases[of "First h1" xs] assms(3) by auto
  have "slist ?m h1 (xs @ ys)"
    using slist_concat[of m h1 xs h2 y zs] assms Cons by (simp add: tailq_def)
  then have "slist (?m(First h2 \<mapsto> NULL)) h1 (xs @ ys)" using assms(3) by (subst slist_frame) auto
  moreover have "STAILQ_CONCAT h1 h2 q =
      Some (?m(First h2 \<mapsto> NULL), lst(h1 := lst h2, h2 := First h2))"
    using y s fresh by (auto simp: STAILQ_CONCAT_def STAILQ_INIT_def tailq_ops)
  moreover have "end_slot (First h1) (xs @ ys) = end_slot (First h2) ys"
    using Cons by (simp add: end_slot_append)
  ultimately show ?thesis using assms(3) s by (auto simp: tailq_def slist_def)
qed

section \<open>The contract\<close>

datatype list_op = Push ptr | Pop

text \<open>What a sequence of insertions and removals at the front does to a list, and to a store.\<close>

fun spec_ops :: "list_op list \<Rightarrow> ptr list \<Rightarrow> ptr list option" where
  "spec_ops [] xs = Some xs"
| "spec_ops (Push x # ops) xs = (if x = NULL \<or> x \<in> set xs then None else spec_ops ops (x # xs))"
| "spec_ops (Pop # ops) xs = (case xs of [] \<Rightarrow> None | _ # ys \<Rightarrow> spec_ops ops ys)"

fun exec_ops :: "(ptr \<Rightarrow> 's \<Rightarrow> 's option) \<Rightarrow> ('s \<Rightarrow> 's option) \<Rightarrow> list_op list \<Rightarrow> 's \<Rightarrow> 's option" where
  "exec_ops push pop [] s = Some s"
| "exec_ops push pop (Push x # ops) s = do { s \<leftarrow> push x s; exec_ops push pop ops s }"
| "exec_ops push pop (Pop # ops) s = do { s \<leftarrow> pop s; exec_ops push pop ops s }"

locale linked_stack =
  fixes rep :: "'s \<Rightarrow> ptr list \<Rightarrow> bool"
    and fields :: "'s \<Rightarrow> slot set"
    and push :: "ptr \<Rightarrow> 's \<Rightarrow> 's option"
    and pop :: "'s \<Rightarrow> 's option"
  assumes push: "rep s xs \<Longrightarrow> x \<noteq> NULL \<Longrightarrow> Next x \<in> fields s \<Longrightarrow> x \<notin> set xs \<Longrightarrow>
      \<exists>s'. push x s = Some s' \<and> rep s' (x # xs) \<and> fields s' = fields s"
    and pop: "rep s (x # xs) \<Longrightarrow> \<exists>s'. pop s = Some s' \<and> rep s' xs \<and> fields s' = fields s"
begin

lemma exec_spec:
  "rep s xs \<Longrightarrow> spec_ops ops xs = Some ys \<Longrightarrow> \<forall>x. Push x \<in> set ops \<longrightarrow> Next x \<in> fields s \<Longrightarrow>
     \<exists>s'. exec_ops push pop ops s = Some s' \<and> rep s' ys \<and> fields s' = fields s"
proof (induction ops xs arbitrary: s rule: spec_ops.induct)
  case (2 x ops xs)
  then have x: "x \<noteq> NULL" "x \<notin> set xs" "Next x \<in> fields s" by (auto split: if_splits)
  obtain s1 where "push x s = Some s1" "rep s1 (x # xs)" "fields s1 = fields s"
    using push[OF 2(2) x(1,3,2)] by blast
  then show ?case using "2.IH"[of s1] "2.prems" x by simp
next
  case (3 ops xs)
  then obtain x zs where xs: "xs = x # zs" by (cases xs) auto
  obtain s1 where "pop s = Some s1" "rep s1 zs" "fields s1 = fields s" using pop[of s x zs] 3 xs by auto
  then show ?case using "3.IH"[of x zs s1] "3.prems" xs by simp
qed simp

end

text \<open>A queue can be extended at its end too.\<close>

fun append_all :: "(ptr \<Rightarrow> 's \<Rightarrow> 's option) \<Rightarrow> ptr list \<Rightarrow> 's \<Rightarrow> 's option" where
  "append_all app [] s = Some s"
| "append_all app (x # xs) s = do { s \<leftarrow> app x s; append_all app xs s }"

locale linked_queue = linked_stack +
  fixes app :: "ptr \<Rightarrow> 's \<Rightarrow> 's option"
  assumes app: "rep s xs \<Longrightarrow> x \<noteq> NULL \<Longrightarrow> Next x \<in> fields s \<Longrightarrow> x \<notin> set xs \<Longrightarrow>
      \<exists>s'. app x s = Some s' \<and> rep s' (xs @ [x]) \<and> fields s' = fields s"
begin

lemma append_all_list:
  "rep s xs \<Longrightarrow> distinct (xs @ ys) \<Longrightarrow> NULL \<notin> set ys \<Longrightarrow> Next ` set ys \<subseteq> fields s \<Longrightarrow>
     \<exists>s'. append_all app ys s = Some s' \<and> rep s' (xs @ ys) \<and> fields s' = fields s"
proof (induction ys arbitrary: s xs)
  case (Cons y ys)
  obtain s1 where s1: "app y s = Some s1" "rep s1 (xs @ [y])" "fields s1 = fields s"
    using app[of s xs y] Cons.prems by auto
  have "\<exists>s'. append_all app ys s1 = Some s' \<and> rep s' ((xs @ [y]) @ ys) \<and> fields s' = fields s1"
    using Cons.prems s1 by (intro Cons.IH) auto
  then show ?case using s1 by simp
qed simp

lemma first_in_first_out:
  assumes "rep s xs" "distinct (xs @ ys)" "NULL \<notin> set ys" "Next ` set ys \<subseteq> fields s"
  shows "\<exists>s'. (do { s \<leftarrow> append_all app ys s; exec_ops push pop (map (\<lambda>_. Pop) xs) s }) = Some s' \<and> rep s' ys"
proof -
  obtain s1 where s1: "append_all app ys s = Some s1" "rep s1 (xs @ ys)"
    using append_all_list[OF assms] by blast
  have "spec_ops (map (\<lambda>_. Pop) xs) (xs @ ys) = Some ys" by (induction xs) auto
  from exec_spec[OF s1(2) this] show ?thesis using s1(1) by auto
qed

end

section \<open>The three kinds of list\<close>

definition fields_of :: "store \<times> 'a \<Rightarrow> slot set" where
  "fields_of d = dom (fst d)"

interpretation sl: linked_stack "\<lambda>m. slist m h" dom "SLIST_INSERT_HEAD h" "SLIST_REMOVE_HEAD h"
proof (unfold_locales, goal_cases)
  case (1 m xs x)
  then obtain m' where m': "SLIST_INSERT_HEAD h x m = Some m'" "slist m' h (x # xs)"
    using SLIST_INSERT_HEAD_list[of m h xs x] by (auto simp: loose_def)
  moreover from this have "dom m' = dom m"
    by (auto simp: SLIST_INSERT_HEAD_def set_slot_def split: if_splits Option.bind_splits)
  ultimately show ?case by blast
next
  case (2 m x xs)
  then obtain m' where m': "SLIST_REMOVE_HEAD h m = Some m'" "slist m' h xs"
    using SLIST_REMOVE_HEAD_list by blast
  moreover from this have "dom m' = dom m"
    by (auto simp: SLIST_REMOVE_HEAD_def set_slot_def split: if_splits Option.bind_splits)
  ultimately show ?case by blast
qed

definition LIST_REMOVE_FIRST :: "nat \<Rightarrow> dstore \<Rightarrow> dstore option" where
  "LIST_REMOVE_FIRST h d = do { f \<leftarrow> fst d (First h); LIST_REMOVE f d }"

interpretation dl: linked_stack "\<lambda>d. dlist d h" fields_of "LIST_INSERT_HEAD h" "LIST_REMOVE_FIRST h"
proof (unfold_locales, goal_cases)
  case (1 d xs x)
  then show ?case using LIST_INSERT_HEAD_list[of d h xs x] by (auto simp: loose_def fields_of_def)
next
  case (2 d x xs)
  then have "fst d (First h) = Some x" using slist_first[of "fst d" h "x # xs"] by (simp add: dlist_def)
  then show ?case
    using LIST_REMOVE_list[of d h "[]" x xs] 2 by (simp add: LIST_REMOVE_FIRST_def fields_of_def)
qed

interpretation tq: linked_queue "\<lambda>q. tailq q h" fields_of "STAILQ_INSERT_HEAD h" "STAILQ_REMOVE_HEAD h"
  "STAILQ_INSERT_TAIL h"
proof (unfold_locales, goal_cases)
  case (1 q xs x)
  then show ?case using STAILQ_INSERT_HEAD_list[of q h xs x] by (auto simp: loose_def fields_of_def)
next
  case (2 q x xs)
  then show ?case using STAILQ_REMOVE_HEAD_list[of q h x xs] by (simp add: fields_of_def)
next
  case (3 q xs x)
  then show ?case using STAILQ_INSERT_TAIL_list[of q h xs x] by (auto simp: loose_def fields_of_def)
qed

text \<open>
  The same insertions and removals at the front of a singly-linked list, a doubly-linked list
  and a tail queue in one store never touch a place that is not there, and leave the list that
  the operations on abstract lists leave; walking any of them visits its elements in order.
\<close>

theorem lists_agree:
  assumes "slist m h xs" "dlist d h xs" "tailq q h xs" "spec_ops ops xs = Some ys"
    "\<And>x. Push x \<in> set ops \<Longrightarrow> Next x \<in> dom m \<inter> fields_of d \<inter> fields_of q"
  shows "\<exists>m' d' q'.
      exec_ops (SLIST_INSERT_HEAD h) (SLIST_REMOVE_HEAD h) ops m = Some m' \<and> slist m' h ys \<and>
      exec_ops (LIST_INSERT_HEAD h) (LIST_REMOVE_FIRST h) ops d = Some d' \<and> dlist d' h ys \<and>
      exec_ops (STAILQ_INSERT_HEAD h) (STAILQ_REMOVE_HEAD h) ops q = Some q' \<and> tailq q' h ys \<and>
      SLIST_FOREACH h m' = Some ys \<and> SLIST_FOREACH h (fst d') = Some ys \<and> SLIST_FOREACH h (fst q') = Some ys"
proof -
  obtain m' where m': "exec_ops (SLIST_INSERT_HEAD h) (SLIST_REMOVE_HEAD h) ops m = Some m'" "slist m' h ys"
    using sl.exec_spec[OF assms(1,4)] assms(5) by blast
  obtain d' where d': "exec_ops (LIST_INSERT_HEAD h) (LIST_REMOVE_FIRST h) ops d = Some d'" "dlist d' h ys"
    using dl.exec_spec[OF assms(2,4)] assms(5) by blast
  obtain q' where q': "exec_ops (STAILQ_INSERT_HEAD h) (STAILQ_REMOVE_HEAD h) ops q = Some q'" "tailq q' h ys"
    using tq.exec_spec[OF assms(3,4)] assms(5) by blast
  show ?thesis
    using m' d' q' SLIST_FOREACH_list by (auto simp: dlist_def tailq_def)
qed

lemma lists_agree_witness:
  "\<exists>m' d' q'.
      exec_ops (SLIST_INSERT_HEAD 0) (SLIST_REMOVE_HEAD 0) [Push 5, Push 7, Pop, Push 9]
        [First 0 \<mapsto> NULL, Next 5 \<mapsto> 1, Next 7 \<mapsto> 2, Next 9 \<mapsto> 3] = Some m' \<and> slist m' 0 [9, 5] \<and>
      exec_ops (LIST_INSERT_HEAD 0) (LIST_REMOVE_FIRST 0) [Push 5, Push 7, Pop, Push 9]
        ([First 0 \<mapsto> NULL, Next 5 \<mapsto> 1, Next 7 \<mapsto> 2, Next 9 \<mapsto> 3], \<lambda>_. First 9) = Some d' \<and> dlist d' 0 [9, 5] \<and>
      exec_ops (STAILQ_INSERT_HEAD 0) (STAILQ_REMOVE_HEAD 0) [Push 5, Push 7, Pop, Push 9]
        ([First 0 \<mapsto> NULL, Next 5 \<mapsto> 1, Next 7 \<mapsto> 2, Next 9 \<mapsto> 3], \<lambda>_. First 0) = Some q' \<and> tailq q' 0 [9, 5] \<and>
      SLIST_FOREACH 0 m' = Some [9, 5] \<and> SLIST_FOREACH 0 (fst d') = Some [9, 5] \<and>
      SLIST_FOREACH 0 (fst q') = Some [9, 5]"
  by (rule lists_agree[where xs = "[]"]) (auto simp: slist_def dlist_def tailq_def fields_of_def)

text \<open>
  C40: The list of the server: after its initialisation and any number of insertions, the walk over
  it visits every element once, newest first, and the loop at the end of \<open>main\<close> ends with every
  element freed exactly once, the list empty, and no other element touched.
\<close>

theorem server_list_freed:
  assumes "First h \<in> dom m" "Next ` set xs \<subseteq> dom m" "NULL \<notin> set xs" "distinct xs"
  shows "\<exists>m0 m1 m2. SLIST_INIT h m = Some m0 \<and>
      exec_ops (SLIST_INSERT_HEAD h) (SLIST_REMOVE_HEAD h) (map Push xs) m0 = Some m1 \<and>
      SLIST_FOREACH h m1 = Some (rev xs) \<and> slist_drain h m1 = Some (rev xs, m2) \<and>
      SLIST_EMPTY h m2 = Some True \<and> (\<forall>y. m2 (Next y) = None \<longleftrightarrow> y \<in> set xs \<or> m (Next y) = None)"
proof -
  have m0: "SLIST_INIT h m = Some (m(First h \<mapsto> NULL))" "slist (m(First h \<mapsto> NULL)) h []"
    using assms(1) by (auto simp: SLIST_INIT_def set_slot_def slist_def)
  have spec: "NULL \<notin> set xs \<Longrightarrow> distinct xs \<Longrightarrow> set xs \<inter> set zs = {} \<Longrightarrow>
    spec_ops (map Push xs) zs = Some (rev xs @ zs)" for zs
    by (induction xs arbitrary: zs) auto
  obtain m1 where m1: "exec_ops (SLIST_INSERT_HEAD h) (SLIST_REMOVE_HEAD h) (map Push xs) (m(First h \<mapsto> NULL)) = Some m1"
    "slist m1 h (rev xs)" "dom m1 = dom (m(First h \<mapsto> NULL))"
    using sl.exec_spec[OF m0(2) spec[OF assms(3,4)]] assms(2) by (fastforce simp: image_subset_iff)
  obtain m2 where m2: "slist_drain h m1 = Some (rev xs, m2)" "slist m2 h []"
    "\<forall>y. m2 (Next y) = (if y \<in> set (rev xs) then None else m1 (Next y))"
    using slist_drain_all[OF m1(2)] by blast
  have "m1 (Next y) = None \<longleftrightarrow> m (Next y) = None" for y
    using m1(3) domIff[of "Next y" m1] domIff[of "Next y" m] by (cases "m (Next y)"; cases "m1 (Next y)"; simp)
  then have "\<forall>y. m2 (Next y) = None \<longleftrightarrow> y \<in> set xs \<or> m (Next y) = None" using m2(3) by simp
  moreover have "SLIST_EMPTY h m2 = Some True" using m2(2) by (simp add: slist_def SLIST_EMPTY_def)
  ultimately show ?thesis using m0(1) m1(1) m2(1) SLIST_FOREACH_list[OF m1(2)] by blast
qed

lemma server_list_freed_witness:
  "\<exists>m0 m1 m2. SLIST_INIT 0 [First 0 \<mapsto> 9, Next 5 \<mapsto> 1, Next 7 \<mapsto> 2] = Some m0 \<and>
      exec_ops (SLIST_INSERT_HEAD 0) (SLIST_REMOVE_HEAD 0) (map Push [5, 7]) m0 = Some m1 \<and>
      SLIST_FOREACH 0 m1 = Some (rev [5, 7]) \<and> slist_drain 0 m1 = Some (rev [5, 7], m2) \<and>
      SLIST_EMPTY 0 m2 = Some True \<and>
      (\<forall>y. m2 (Next y) = None \<longleftrightarrow> y \<in> set [5, 7] \<or> [First 0 \<mapsto> (9::nat), Next 5 \<mapsto> 1, Next 7 \<mapsto> 2] (Next y) = None)"
  by (rule server_list_freed) auto

end
