(* ===== verification/Tail_Queues.thy ===== *)
theory Tail_Queues
  imports Queue_Lists
begin

text \<open>
  The rest of the lists of \<open>server/queue.h\<close> that are linked by places: the remaining operations of
  the doubly-linked list and of the singly-linked tail queue, and the tail queue with back pointers,
  which can be walked in both directions.

  The head and the entry of a tail queue both consist of a pointer and a place: first element and
  last place, next element and previous place.  \<open>TAILQ_LAST\<close> and \<open>TAILQ_PREV\<close> rest on this:
  they read the place of an entry as the one of a head.  So the store of these queues has one back
  place for every place that holds a pointer.
\<close>

section \<open>The rest of the doubly-linked list\<close>

definition LIST_EMPTY :: "nat \<Rightarrow> dstore \<Rightarrow> bool option" where
  "LIST_EMPTY h d = do { f \<leftarrow> fst d (First h); Some (f = NULL) }"

definition LIST_SWAP :: "nat \<Rightarrow> nat \<Rightarrow> dstore \<Rightarrow> dstore option" where
  "LIST_SWAP h1 h2 d =
     do { swap_tmp \<leftarrow> fst d (First h1);
          f2 \<leftarrow> fst d (First h2); d \<leftarrow> set_next (First h1) f2 d;
          d \<leftarrow> set_next (First h2) swap_tmp d;
          swap_tmp \<leftarrow> fst d (First h1);
          d \<leftarrow> (if swap_tmp \<noteq> NULL then set_prev swap_tmp (First h1) d else Some d);
          swap_tmp \<leftarrow> fst d (First h2);
          if swap_tmp \<noteq> NULL then set_prev swap_tmp (First h2) d else Some d }"

text \<open>The structure that a place is a field of; the address computed from a field of a head is none.\<close>

fun container :: "slot \<Rightarrow> ptr option" where
  "container (Next p) = Some p"
| "container (First h) = None"

definition LIST_PREV :: "ptr \<Rightarrow> nat \<Rightarrow> dstore \<Rightarrow> ptr option" where
  "LIST_PREV elm h d =
     do { s \<leftarrow> le_prev elm d; if s = First h then Some NULL else container s }"

definition LIST_FOREACH :: "nat \<Rightarrow> dstore \<Rightarrow> ptr list option" where
  "LIST_FOREACH h d = do { f \<leftarrow> fst d (First h); slist_walk (fst d) f }"

text \<open>The loops whose body may take the element out, or free it: the next element is read first.\<close>

partial_function (option) each_safe ::
    "(ptr \<Rightarrow> 's \<Rightarrow> ptr option) \<Rightarrow> (ptr \<Rightarrow> 's \<Rightarrow> 's option) \<Rightarrow> ptr \<Rightarrow> 's \<Rightarrow> 's option" where
  "each_safe nxt body var s =
     (if var = NULL then Some s
      else do { tvar \<leftarrow> nxt var s; s \<leftarrow> body var s; each_safe nxt body tvar s })"

definition LIST_FOREACH_SAFE :: "nat \<Rightarrow> (ptr \<Rightarrow> dstore \<Rightarrow> dstore option) \<Rightarrow> dstore \<Rightarrow> dstore option" where
  "LIST_FOREACH_SAFE h body d =
     do { f \<leftarrow> fst d (First h); each_safe (\<lambda>p d. fst d (Next p)) body f d }"

section \<open>The rest of the singly-linked tail queue\<close>

definition STAILQ_EMPTY :: "nat \<Rightarrow> qstore \<Rightarrow> bool option" where
  "STAILQ_EMPTY h q = do { f \<leftarrow> fst q (First h); Some (f = NULL) }"

definition STAILQ_INSERT_AFTER :: "nat \<Rightarrow> ptr \<Rightarrow> ptr \<Rightarrow> qstore \<Rightarrow> qstore option" where
  "STAILQ_INSERT_AFTER h listelm elm q =
     do { n \<leftarrow> fst q (Next listelm); q \<leftarrow> set_next (Next elm) n q;
          q \<leftarrow> (if n = NULL then set_last h (Next elm) q else Some q);
          set_next (Next listelm) elm q }"

definition STAILQ_REMOVE_HEAD_UNTIL :: "nat \<Rightarrow> ptr \<Rightarrow> qstore \<Rightarrow> qstore option" where
  "STAILQ_REMOVE_HEAD_UNTIL h elm q =
     do { n \<leftarrow> fst q (Next elm); q \<leftarrow> set_next (First h) n q;
          if n = NULL then set_last h (First h) q else Some q }"

definition STAILQ_REMOVE_AFTER :: "nat \<Rightarrow> ptr \<Rightarrow> qstore \<Rightarrow> qstore option" where
  "STAILQ_REMOVE_AFTER h elm q =
     do { n \<leftarrow> fst q (Next elm); nn \<leftarrow> fst q (Next n); q \<leftarrow> set_next (Next elm) nn q;
          if nn = NULL then set_last h (Next elm) q else Some q }"

definition STAILQ_REMOVE :: "nat \<Rightarrow> ptr \<Rightarrow> qstore \<Rightarrow> qstore option" where
  "STAILQ_REMOVE h elm q =
     do { f \<leftarrow> fst q (First h);
          if f = elm then STAILQ_REMOVE_HEAD h q
          else do { curelm \<leftarrow> slist_before (fst q) f elm;
                    n \<leftarrow> fst q (Next curelm); nn \<leftarrow> fst q (Next n);
                    q \<leftarrow> set_next (Next curelm) nn q;
                    if nn = NULL then set_last h (Next curelm) q else Some q } }"

definition STAILQ_SWAP :: "nat \<Rightarrow> nat \<Rightarrow> qstore \<Rightarrow> qstore option" where
  "STAILQ_SWAP h1 h2 q =
     do { swap_first \<leftarrow> fst q (First h1); swap_last \<leftarrow> stqh_last h1 q;
          f2 \<leftarrow> fst q (First h2); q \<leftarrow> set_next (First h1) f2 q;
          l2 \<leftarrow> stqh_last h2 q; q \<leftarrow> set_last h1 l2 q;
          q \<leftarrow> set_next (First h2) swap_first q;
          q \<leftarrow> set_last h2 swap_last q;
          e1 \<leftarrow> STAILQ_EMPTY h1 q; q \<leftarrow> (if e1 then set_last h1 (First h1) q else Some q);
          e2 \<leftarrow> STAILQ_EMPTY h2 q; if e2 then set_last h2 (First h2) q else Some q }"

definition STAILQ_LAST :: "nat \<Rightarrow> qstore \<Rightarrow> ptr option" where
  "STAILQ_LAST h q =
     do { e \<leftarrow> STAILQ_EMPTY h q;
          if e then Some NULL else do { s \<leftarrow> stqh_last h q; container s } }"

definition STAILQ_FOREACH :: "nat \<Rightarrow> qstore \<Rightarrow> ptr list option" where
  "STAILQ_FOREACH h q = do { f \<leftarrow> fst q (First h); slist_walk (fst q) f }"

definition STAILQ_FOREACH_SAFE :: "nat \<Rightarrow> (ptr \<Rightarrow> qstore \<Rightarrow> qstore option) \<Rightarrow> qstore \<Rightarrow> qstore option" where
  "STAILQ_FOREACH_SAFE h body q =
     do { f \<leftarrow> fst q (First h); each_safe (\<lambda>p q. fst q (Next p)) body f q }"

section \<open>Tail queues with back pointers\<close>

type_synonym tstore = "store \<times> (slot \<Rightarrow> slot)"

text \<open>The last place of a head, and the previous place of an entry.\<close>

definition tq_back :: "slot \<Rightarrow> tstore \<Rightarrow> slot option" where
  "tq_back s d = (if fst d s = None then None else Some (snd d s))"

definition set_back :: "slot \<Rightarrow> slot \<Rightarrow> tstore \<Rightarrow> tstore option" where
  "set_back s t d = (if fst d s = None then None else Some (fst d, (snd d)(s := t)))"

definition TAILQ_INIT :: "nat \<Rightarrow> tstore \<Rightarrow> tstore option" where
  "TAILQ_INIT h d = do { d \<leftarrow> set_next (First h) NULL d; set_back (First h) (First h) d }"

definition TAILQ_EMPTY :: "nat \<Rightarrow> tstore \<Rightarrow> bool option" where
  "TAILQ_EMPTY h d = do { f \<leftarrow> fst d (First h); Some (f = NULL) }"

definition TAILQ_INSERT_HEAD :: "nat \<Rightarrow> ptr \<Rightarrow> tstore \<Rightarrow> tstore option" where
  "TAILQ_INSERT_HEAD h elm d =
     do { f \<leftarrow> fst d (First h); d \<leftarrow> set_next (Next elm) f d;
          d \<leftarrow> (if f \<noteq> NULL then do { f' \<leftarrow> fst d (First h); set_back (Next f') (Next elm) d }
               else set_back (First h) (Next elm) d);
          d \<leftarrow> set_next (First h) elm d;
          set_back (Next elm) (First h) d }"

definition TAILQ_INSERT_BEFORE :: "ptr \<Rightarrow> ptr \<Rightarrow> tstore \<Rightarrow> tstore option" where
  "TAILQ_INSERT_BEFORE listelm elm d =
     do { s \<leftarrow> tq_back (Next listelm) d; d \<leftarrow> set_back (Next elm) s d;
          d \<leftarrow> set_next (Next elm) listelm d;
          s \<leftarrow> tq_back (Next listelm) d; d \<leftarrow> set_next s elm d;
          set_back (Next listelm) (Next elm) d }"

definition TAILQ_INSERT_AFTER :: "nat \<Rightarrow> ptr \<Rightarrow> ptr \<Rightarrow> tstore \<Rightarrow> tstore option" where
  "TAILQ_INSERT_AFTER h listelm elm d =
     do { n \<leftarrow> fst d (Next listelm); d \<leftarrow> set_next (Next elm) n d;
          d \<leftarrow> (if n \<noteq> NULL then do { n' \<leftarrow> fst d (Next elm); set_back (Next n') (Next elm) d }
               else set_back (First h) (Next elm) d);
          d \<leftarrow> set_next (Next listelm) elm d;
          set_back (Next elm) (Next listelm) d }"

definition TAILQ_INSERT_TAIL :: "nat \<Rightarrow> ptr \<Rightarrow> tstore \<Rightarrow> tstore option" where
  "TAILQ_INSERT_TAIL h elm d =
     do { d \<leftarrow> set_next (Next elm) NULL d;
          s \<leftarrow> tq_back (First h) d; d \<leftarrow> set_back (Next elm) s d;
          s \<leftarrow> tq_back (First h) d; d \<leftarrow> set_next s elm d;
          set_back (First h) (Next elm) d }"

definition TAILQ_CONCAT :: "nat \<Rightarrow> nat \<Rightarrow> tstore \<Rightarrow> tstore option" where
  "TAILQ_CONCAT h1 h2 d =
     do { e \<leftarrow> TAILQ_EMPTY h2 d;
          if \<not> e then
            do { f \<leftarrow> fst d (First h2); s \<leftarrow> tq_back (First h1) d; d \<leftarrow> set_next s f d;
                 f \<leftarrow> fst d (First h2); s \<leftarrow> tq_back (First h1) d; d \<leftarrow> set_back (Next f) s d;
                 t \<leftarrow> tq_back (First h2) d; d \<leftarrow> set_back (First h1) t d;
                 TAILQ_INIT h2 d }
          else Some d }"

definition TAILQ_REMOVE :: "nat \<Rightarrow> ptr \<Rightarrow> tstore \<Rightarrow> tstore option" where
  "TAILQ_REMOVE h elm d =
     do { n \<leftarrow> fst d (Next elm); s \<leftarrow> tq_back (Next elm) d;
          d \<leftarrow> (if n \<noteq> NULL then set_back (Next n) s d else set_back (First h) s d);
          s \<leftarrow> tq_back (Next elm) d; n \<leftarrow> fst d (Next elm); set_next s n d }"

definition TAILQ_REPLACE :: "nat \<Rightarrow> ptr \<Rightarrow> ptr \<Rightarrow> tstore \<Rightarrow> tstore option" where
  "TAILQ_REPLACE h elm elm2 d =
     do { n \<leftarrow> fst d (Next elm); d \<leftarrow> set_next (Next elm2) n d;
          d \<leftarrow> (if n \<noteq> NULL then do { n' \<leftarrow> fst d (Next elm2); set_back (Next n') (Next elm2) d }
               else set_back (First h) (Next elm2) d);
          s \<leftarrow> tq_back (Next elm) d; d \<leftarrow> set_back (Next elm2) s d;
          s \<leftarrow> tq_back (Next elm2) d; set_next s elm2 d }"

definition TAILQ_SWAP :: "nat \<Rightarrow> nat \<Rightarrow> tstore \<Rightarrow> tstore option" where
  "TAILQ_SWAP h1 h2 d =
     do { swap_first \<leftarrow> fst d (First h1); swap_last \<leftarrow> tq_back (First h1) d;
          f2 \<leftarrow> fst d (First h2); d \<leftarrow> set_next (First h1) f2 d;
          l2 \<leftarrow> tq_back (First h2) d; d \<leftarrow> set_back (First h1) l2 d;
          d \<leftarrow> set_next (First h2) swap_first d;
          d \<leftarrow> set_back (First h2) swap_last d;
          swap_first \<leftarrow> fst d (First h1);
          d \<leftarrow> (if swap_first \<noteq> NULL then set_back (Next swap_first) (First h1) d
               else set_back (First h1) (First h1) d);
          swap_first \<leftarrow> fst d (First h2);
          if swap_first \<noteq> NULL then set_back (Next swap_first) (First h2) d
          else set_back (First h2) (First h2) d }"

text \<open>The back place of the head is read as a head, and so is the back place of an entry.\<close>

definition TAILQ_LAST :: "nat \<Rightarrow> tstore \<Rightarrow> ptr option" where
  "TAILQ_LAST h d = do { s \<leftarrow> tq_back (First h) d; t \<leftarrow> tq_back s d; fst d t }"

definition TAILQ_PREV :: "ptr \<Rightarrow> tstore \<Rightarrow> ptr option" where
  "TAILQ_PREV elm d = do { s \<leftarrow> tq_back (Next elm) d; t \<leftarrow> tq_back s d; fst d t }"

definition TAILQ_FOREACH :: "nat \<Rightarrow> tstore \<Rightarrow> ptr list option" where
  "TAILQ_FOREACH h d = do { f \<leftarrow> fst d (First h); slist_walk (fst d) f }"

definition TAILQ_FOREACH_SAFE :: "nat \<Rightarrow> (ptr \<Rightarrow> tstore \<Rightarrow> tstore option) \<Rightarrow> tstore \<Rightarrow> tstore option" where
  "TAILQ_FOREACH_SAFE h body d =
     do { f \<leftarrow> fst d (First h); each_safe (\<lambda>p d. fst d (Next p)) body f d }"

partial_function (option) tailq_walk_back :: "tstore \<Rightarrow> ptr \<Rightarrow> ptr list option" where
  "tailq_walk_back d var =
     (if var = NULL then Some []
      else do { p \<leftarrow> TAILQ_PREV var d; r \<leftarrow> tailq_walk_back d p; Some (var # r) })"

definition TAILQ_FOREACH_REVERSE :: "nat \<Rightarrow> tstore \<Rightarrow> ptr list option" where
  "TAILQ_FOREACH_REVERSE h d = do { l \<leftarrow> TAILQ_LAST h d; tailq_walk_back d l }"

definition TAILQ_FOREACH_REVERSE_SAFE :: "nat \<Rightarrow> (ptr \<Rightarrow> tstore \<Rightarrow> tstore option) \<Rightarrow> tstore \<Rightarrow> tstore option" where
  "TAILQ_FOREACH_REVERSE_SAFE h body d = do { l \<leftarrow> TAILQ_LAST h d; each_safe TAILQ_PREV body l d }"


section \<open>Heads and starts\<close>

lemma path_head:
  "m' s' = m s \<Longrightarrow> \<forall>x \<in> set xs. m' (Next x) = m (Next x) \<Longrightarrow> path m' s' xs e = path m s xs e"
  by (induction xs arbitrary: s s') auto

lemma slist_head:
  "m' (First h') = m (First h) \<Longrightarrow> \<forall>x \<in> set xs. m' (Next x) = m (Next x) \<Longrightarrow> slist m' h' xs = slist m h xs"
  using path_head[of m' "First h'" m "First h" xs NULL] by (simp add: slist_def)

lemma end_slot_start: "xs \<noteq> [] \<Longrightarrow> end_slot s xs = end_slot t xs"
  by (cases xs) auto

lemma end_slot_last: "xs \<noteq> [] \<Longrightarrow> end_slot s xs = Next (last xs)"
  by (cases xs rule: rev_cases) auto

abbreviation (input) head_of :: "ptr list \<Rightarrow> ptr" where
  "head_of xs \<equiv> (case xs of [] \<Rightarrow> NULL | x # _ \<Rightarrow> x)"

lemma slist_rest:
  assumes "slist m h (as @ bs)"
  shows "m (end_slot (First h) as) = Some (head_of bs)" "head_of bs \<noteq> NULL \<longleftrightarrow> bs \<noteq> []"
    "bs \<noteq> [] \<Longrightarrow> m (Next (head_of bs)) \<noteq> None"
proof -
  show "m (end_slot (First h) as) = Some (head_of bs)" by (rule slist_place[OF assms])
  have "bs \<noteq> [] \<Longrightarrow> hd bs \<noteq> NULL \<and> m (Next (hd bs)) \<noteq> None"
    using slist_nonnull[OF assms, of "hd bs"] by simp
  moreover have "head_of bs = (if bs = [] then NULL else hd bs)" by (cases bs) auto
  ultimately show "head_of bs \<noteq> NULL \<longleftrightarrow> bs \<noteq> []" "bs \<noteq> [] \<Longrightarrow> m (Next (head_of bs)) \<noteq> None"
    by auto
qed

lemma slist_head_of:
  assumes "slist m h xs"
  shows "m (First h) = Some (head_of xs)" "head_of xs \<noteq> NULL \<longleftrightarrow> xs \<noteq> []"
    "xs \<noteq> [] \<Longrightarrow> m (Next (head_of xs)) \<noteq> None"
  using slist_rest[of m h "[]" xs] assms by simp_all

section \<open>The rest of the doubly-linked list, as lists\<close>

lemma LIST_PREV_list:
  assumes "dlist d h (as @ x # bs)"
  shows "LIST_PREV x h d = Some (if as = [] then NULL else last as)"
proof -
  have "fst d (Next x) \<noteq> None" "snd d x = end_slot (First h) as"
    using assms slist_nonnull[of "fst d" h "as @ x # bs" x] by (auto simp: dlist_def)
  then show ?thesis by (cases "as = []") (auto simp: LIST_PREV_def le_prev_def end_slot_last)
qed

lemma LIST_SWAP_list:
  assumes "dlist d h1 xs" "dlist d h2 ys" "h1 \<noteq> h2" "set xs \<inter> set ys = {}"
  shows "\<exists>d'. LIST_SWAP h1 h2 d = Some d' \<and> dlist d' h1 ys \<and> dlist d' h2 xs"
proof -
  obtain m prev where d [simp]: "d = (m, prev)" by fastforce
  let ?m = "m(First h1 \<mapsto> head_of ys, First h2 \<mapsto> head_of xs)"
  let ?p1 = "if ys \<noteq> [] then prev(head_of ys := First h1) else prev"
  let ?p2 = "if xs \<noteq> [] then ?p1(head_of xs := First h2) else ?p1"
  have l: "slist m h1 xs" "slist m h2 ys" using assms by (auto simp: dlist_def)
  have "LIST_SWAP h1 h2 d = Some (?m, ?p2)"
    using slist_head_of[OF l(1)] slist_head_of[OF l(2)] assms(3)
    by (cases xs; cases ys) (auto simp: LIST_SWAP_def list_ops)
  moreover have "slist ?m h1 ys" "slist ?m h2 xs"
    using l assms(3) slist_head_of(1)[OF l(1)] slist_head_of(1)[OF l(2)]
    by (auto simp: slist_head[of ?m h1 m h2 ys] slist_head[of ?m h2 m h1 xs])
  moreover have "backs ?p2 (First h1) ys" "backs ?p2 (First h2) xs"
    using assms l by (cases xs; cases ys; auto simp: dlist_def slist_def)+
  ultimately show ?thesis by (simp add: dlist_def)
qed

lemma LIST_FOREACH_list: "dlist d h xs \<Longrightarrow> LIST_FOREACH h d = Some xs"
  using SLIST_FOREACH_list[of "fst d" h xs] by (simp add: LIST_FOREACH_def SLIST_FOREACH_def dlist_def)

text \<open>
  A loop that reads the next element first visits the elements of the list it started with, in
  order, whatever its body does to the element it is given.
\<close>

lemma each_safe_fold:
  assumes "path m s xs NULL" "distinct xs" "\<forall>x \<in> set xs. fst d (Next x) = m (Next x)"
    "\<And>p d d'. body p d = Some d' \<Longrightarrow> p \<in> set xs \<Longrightarrow> \<forall>y. y \<noteq> p \<longrightarrow> fst d' (Next y) = fst d (Next y)"
  shows "each_safe (\<lambda>p d. fst d (Next p)) body (head_of xs) d = fold (\<lambda>p r. r \<bind> body p) xs (Some d)"
  using assms
proof (induction xs arbitrary: s d)
  case Nil
  then show ?case by (simp add: each_safe.simps)
next
  case (Cons x xs)
  have n: "fst d (Next x) = Some (head_of xs)" "x \<noteq> NULL" using Cons.prems(1,3) by (cases xs; auto)+
  have none: "fold (\<lambda>p r. r \<bind> body p) ys None = None" for ys by (induction ys) auto
  show ?case
  proof (cases "body x d")
    case None
    then show ?thesis using n none by (subst each_safe.simps) simp
  next
    case (Some d')
    have "\<forall>y \<in> set xs. fst d' (Next y) = m (Next y)"
      using Cons.prems(2,3) Cons.prems(4)[OF Some] by (metis distinct.simps(2) list.set_intros(1,2))
    then have "each_safe (\<lambda>p d. fst d (Next p)) body (head_of xs) d' = fold (\<lambda>p r. r \<bind> body p) xs (Some d')"
      using Cons.prems(1,2,4) by (intro Cons.IH[of "Next x"]) auto
    then show ?thesis using n Some by (subst each_safe.simps) simp
  qed
qed

section \<open>The rest of the singly-linked tail queue, as lists\<close>

lemma STAILQ_INSERT_AFTER_list:
  assumes "tailq q h (as @ y # bs)" "loose (fst q) (as @ y # bs) x"
  shows "\<exists>q'. STAILQ_INSERT_AFTER h y x q = Some q' \<and> tailq q' h (as @ y # x # bs)"
proof -
  obtain m lst where q [simp]: "q = (m, lst)" by fastforce
  have l: "slist m h ((as @ [y]) @ bs)" using assms by (simp add: tailq_def)
  have "slist (m(Next x \<mapsto> head_of bs, Next y \<mapsto> x)) h (as @ y # x # bs)"
    using path_insert[OF l, of x "head_of bs"] slist_rest(1)[OF l] assms(2) by simp
  moreover have "STAILQ_INSERT_AFTER h y x q =
      Some (m(Next x \<mapsto> head_of bs, Next y \<mapsto> x), if bs = [] then lst(h := Next x) else lst)"
    using slist_rest[OF l] slist_head_of(1)[OF l] assms(2)
    by (cases "bs = []") (auto simp: STAILQ_INSERT_AFTER_def tailq_ops loose_def)
  ultimately show ?thesis using assms(1) by (cases bs rule: rev_cases) (auto simp: tailq_def end_slot_append)
qed

lemma STAILQ_cut:
  assumes "tailq (m, lst) h (as @ x # bs)"
  shows "tailq (m(end_slot (First h) as \<mapsto> head_of bs), if bs = [] then lst(h := end_slot (First h) as) else lst)
    h (as @ bs)"
proof -
  have l: "slist m h (as @ x # bs)" using assms by (simp add: tailq_def)
  have "slist (m(end_slot (First h) as \<mapsto> head_of bs)) h (as @ bs)"
    using slist_next[OF l] by (intro path_delete[OF l])
  then show ?thesis using assms by (cases bs rule: rev_cases) (auto simp: tailq_def end_slot_append)
qed

lemma STAILQ_REMOVE_AFTER_list:
  assumes "tailq q h (as @ y # x # bs)"
  shows "\<exists>q'. STAILQ_REMOVE_AFTER h y q = Some q' \<and> tailq q' h (as @ y # bs)"
proof -
  obtain m lst where q [simp]: "q = (m, lst)" by fastforce
  have l: "slist m h (as @ y # x # bs)" "slist m h ((as @ [y, x]) @ bs)" using assms by (simp_all add: tailq_def)
  have "STAILQ_REMOVE_AFTER h y q =
      Some (m(Next y \<mapsto> head_of bs), if bs = [] then lst(h := Next y) else lst)"
    using slist_next[OF l(1)] slist_rest[OF l(2)] slist_head_of(1)[OF l(1)] end_slot_snoc[of "First h" "as @ [y]" x]
    by (cases "bs = []") (auto simp: STAILQ_REMOVE_AFTER_def tailq_ops)
  then show ?thesis using STAILQ_cut[of m lst h "as @ [y]" x bs] assms by (cases "bs = []") simp_all
qed

lemma STAILQ_REMOVE_list:
  assumes "tailq q h (as @ x # bs)"
  shows "\<exists>q'. STAILQ_REMOVE h x q = Some q' \<and> tailq q' h (as @ bs)"
proof (cases as)
  case Nil
  then have "STAILQ_REMOVE h x q = STAILQ_REMOVE_HEAD h q"
    using assms by (auto simp: STAILQ_REMOVE_def tailq_def slist_def)
  then show ?thesis using STAILQ_REMOVE_HEAD_list[of q h x bs] assms Nil by auto
next
  case (Cons c cs)
  obtain m lst where q [simp]: "q = (m, lst)" by fastforce
  have l: "slist m h (as @ x # bs)" "slist m h ((as @ [x]) @ bs)" using assms by (simp_all add: tailq_def)
  have p: "m (First h) = Some c" "c \<noteq> x" "path m (Next c) cs x" "x \<notin> set cs"
    using l(1) Cons by (auto simp: slist_def path_append)
  obtain cs' z where z: "as = cs' @ [z]" using Cons by (metis list.distinct(1) rev_exhaust)
  have "STAILQ_REMOVE h x q = STAILQ_REMOVE_AFTER h z q"
    using p slist_before_found[of m c cs x] arg_cong[OF Cons, of last] arg_cong[OF z, of last]
    by (simp add: STAILQ_REMOVE_def STAILQ_REMOVE_AFTER_def)
  then show ?thesis using STAILQ_REMOVE_AFTER_list[of q h cs' z x bs] assms z by simp
qed

lemma STAILQ_REMOVE_HEAD_UNTIL_list:
  assumes "tailq q h (as @ x # bs)"
  shows "\<exists>q'. STAILQ_REMOVE_HEAD_UNTIL h x q = Some q' \<and> tailq q' h bs"
proof -
  obtain m lst where q [simp]: "q = (m, lst)" by fastforce
  have l: "slist m h (as @ x # bs)" "slist m h ((as @ [x]) @ bs)" using assms by (simp_all add: tailq_def)
  have "slist (m(First h \<mapsto> head_of bs)) h bs"
  proof (cases bs)
    case (Cons z zs)
    then show ?thesis using l(1) by (auto simp: slist_def path_append path_frame)
  qed (simp add: slist_def)
  moreover have "STAILQ_REMOVE_HEAD_UNTIL h x q =
      Some (m(First h \<mapsto> head_of bs), if bs = [] then lst(h := First h) else lst)"
    using slist_next[OF l(1)] slist_rest(2)[OF l(2)] slist_head_of(1)[OF l(1)]
    by (cases "bs = []") (auto simp: STAILQ_REMOVE_HEAD_UNTIL_def tailq_ops)
  ultimately show ?thesis using assms by (cases bs rule: rev_cases) (auto simp: tailq_def end_slot_append)
qed

lemma STAILQ_SWAP_list:
  assumes "tailq q h1 xs" "tailq q h2 ys" "h1 \<noteq> h2"
  shows "\<exists>q'. STAILQ_SWAP h1 h2 q = Some q' \<and> tailq q' h1 ys \<and> tailq q' h2 xs"
proof -
  obtain m lst where q [simp]: "q = (m, lst)" by fastforce
  let ?m = "m(First h1 \<mapsto> head_of ys, First h2 \<mapsto> head_of xs)"
  have l: "slist m h1 xs" "slist m h2 ys" and b: "lst h1 = end_slot (First h1) xs" "lst h2 = end_slot (First h2) ys"
    using assms by (auto simp: tailq_def)
  have "STAILQ_SWAP h1 h2 q = Some (?m, lst(h1 := end_slot (First h1) ys, h2 := end_slot (First h2) xs))"
    using slist_head_of[OF l(1)] slist_head_of[OF l(2)] assms(3) b
      end_slot_start[of xs "First h1" "First h2"] end_slot_start[of ys "First h1" "First h2"]
    by (cases "xs = []"; cases "ys = []") (auto simp: STAILQ_SWAP_def STAILQ_EMPTY_def tailq_ops fun_upd_twist)
  moreover have "slist ?m h1 ys" "slist ?m h2 xs"
    using l assms(3) slist_head_of(1)[OF l(1)] slist_head_of(1)[OF l(2)]
    by (auto simp: slist_head[of ?m h1 m h2 ys] slist_head[of ?m h2 m h1 xs])
  ultimately show ?thesis using assms(3) by (simp add: tailq_def)
qed

lemma STAILQ_LAST_list:
  assumes "tailq q h xs"
  shows "STAILQ_LAST h q = Some (if xs = [] then NULL else last xs)"
  using assms slist_head_of(1,2)[of "fst q" h xs]
  by (cases "xs = []") (auto simp: STAILQ_LAST_def STAILQ_EMPTY_def stqh_last_def tailq_def end_slot_last)

lemma STAILQ_FOREACH_list: "tailq q h xs \<Longrightarrow> STAILQ_FOREACH h q = Some xs"
  using SLIST_FOREACH_list[of "fst q" h xs] by (simp add: STAILQ_FOREACH_def SLIST_FOREACH_def tailq_def)

lemma FOREACH_SAFE_fold:
  assumes "slist (fst d) h xs"
    "\<And>p d d'. body p d = Some d' \<Longrightarrow> p \<in> set xs \<Longrightarrow> \<forall>y. y \<noteq> p \<longrightarrow> fst d' (Next y) = fst d (Next y)"
  shows "do { f \<leftarrow> fst d (First h); each_safe (\<lambda>p d. fst d (Next p)) body f d } = fold (\<lambda>p r. r \<bind> body p) xs (Some d)"
  using each_safe_fold[of "fst d" "First h" xs d body] slist_head_of(1)[OF assms(1)] assms
  by (simp add: slist_def)

lemma LIST_FOREACH_SAFE_list:
  assumes "dlist d h xs"
    "\<And>p d d'. body p d = Some d' \<Longrightarrow> p \<in> set xs \<Longrightarrow> \<forall>y. y \<noteq> p \<longrightarrow> fst d' (Next y) = fst d (Next y)"
  shows "LIST_FOREACH_SAFE h body d = fold (\<lambda>p r. r \<bind> body p) xs (Some d)"
  unfolding LIST_FOREACH_SAFE_def by (rule FOREACH_SAFE_fold) (use assms in \<open>auto simp: dlist_def\<close>)

lemma STAILQ_FOREACH_SAFE_list:
  assumes "tailq q h xs"
    "\<And>p d d'. body p d = Some d' \<Longrightarrow> p \<in> set xs \<Longrightarrow> \<forall>y. y \<noteq> p \<longrightarrow> fst d' (Next y) = fst d (Next y)"
  shows "STAILQ_FOREACH_SAFE h body q = fold (\<lambda>p r. r \<bind> body p) xs (Some q)"
  unfolding STAILQ_FOREACH_SAFE_def by (rule FOREACH_SAFE_fold) (use assms in \<open>auto simp: tailq_def\<close>)

section \<open>Tail queues as lists\<close>

definition tail_list :: "tstore \<Rightarrow> nat \<Rightarrow> ptr list \<Rightarrow> bool" where
  "tail_list d h xs \<longleftrightarrow>
     dlist (fst d, \<lambda>p. snd d (Next p)) h xs \<and> snd d (First h) = end_slot (First h) xs"

text \<open>The structure whose back place is the place before the elements \<open>bs\<close>.\<close>

definition owner :: "nat \<Rightarrow> ptr list \<Rightarrow> slot" where
  "owner h bs = (case bs of [] \<Rightarrow> First h | y # _ \<Rightarrow> Next y)"

lemmas tail_ops = set_next_def set_slot_def set_back_def tq_back_def

lemma tail_list_slist: "tail_list d h xs \<Longrightarrow> slist (fst d) h xs"
  by (simp add: tail_list_def dlist_def)

lemma tail_owner:
  assumes "tail_list d h (as @ bs)"
  shows "snd d (owner h bs) = end_slot (First h) as"
  using assms by (cases bs) (auto simp: tail_list_def dlist_def owner_def)

lemma Next_upd: "(\<lambda>p. (b(owner h bs := s)) (Next p)) =
    (case bs of [] \<Rightarrow> \<lambda>p. b (Next p) | y # _ \<Rightarrow> (\<lambda>p. b (Next p))(y := s))"
  by (cases bs) (auto simp: owner_def)

lemma Next_upd2: "(\<lambda>p. (b(Next x := s)) (Next p)) = (\<lambda>p. b (Next p))(x := s)"
  by auto

lemma tail_insert:
  assumes "tail_list (m, b) h (as @ bs)" "loose m (as @ bs) x"
  shows "tail_list (m(Next x \<mapsto> head_of bs, end_slot (First h) as \<mapsto> x),
      b(owner h bs := Next x, Next x := end_slot (First h) as)) h (as @ x # bs)"
proof -
  have l: "dlist (m, \<lambda>p. b (Next p)) h (as @ bs)" "slist m h (as @ bs)"
    using assms by (auto simp: tail_list_def dlist_def)
  have "dlist (m(Next x \<mapsto> head_of bs, end_slot (First h) as \<mapsto> x),
      (\<lambda>p. (b(owner h bs := Next x, Next x := end_slot (First h) as)) (Next p))) h (as @ x # bs)"
    unfolding Next_upd Next_upd2 by (rule dlist_insert[OF l(1) assms(2) slist_rest(1)[OF l(2)]])
  then show ?thesis using assms(1)
    by (cases bs rule: rev_cases) (auto simp: tail_list_def owner_def end_slot_append split: list.splits)
qed

lemma tail_delete:
  assumes "tail_list (m, b) h (as @ x # bs)"
  shows "tail_list (m(end_slot (First h) as \<mapsto> head_of bs), b(owner h bs := end_slot (First h) as)) h (as @ bs)"
proof -
  have l: "dlist (m, \<lambda>p. b (Next p)) h (as @ x # bs)" "slist m h (as @ x # bs)"
    using assms by (auto simp: tail_list_def dlist_def)
  have "dlist (m(end_slot (First h) as \<mapsto> head_of bs),
      (\<lambda>p. (b(owner h bs := end_slot (First h) as)) (Next p))) h (as @ bs)"
    unfolding Next_upd by (rule dlist_delete[OF l(1) slist_next[OF l(2)]])
  then show ?thesis using assms(1)
    by (cases bs rule: rev_cases) (auto simp: tail_list_def owner_def end_slot_append split: list.splits)
qed

lemma backs_if: "x \<notin> set xs \<Longrightarrow> backs (\<lambda>p. if p = x then v else prev p) s xs = backs prev s xs"
  using backs_frame[of x xs prev v s] by (simp add: fun_upd_def)

text \<open>What an element of the list and its neighbours have, for the operations to be evaluated.\<close>

lemma tail_facts:
  assumes "tail_list (m, b) h (as @ bs)"
  shows "m (First h) \<noteq> None" "m (end_slot (First h) as) = Some (head_of bs)"
    "b (owner h bs) = end_slot (First h) as" "m (owner h bs) \<noteq> None"
    "head_of bs \<noteq> NULL \<longleftrightarrow> bs \<noteq> []" "owner h bs = (if bs = [] then First h else Next (head_of bs))"
proof -
  have l: "slist m h (as @ bs)" using tail_list_slist[OF assms] by simp
  show "m (First h) \<noteq> None" using slist_head_of(1)[OF l] by simp
  show "b (owner h bs) = end_slot (First h) as" using tail_owner[OF assms] by simp
  show o: "owner h bs = (if bs = [] then First h else Next (head_of bs))" by (cases bs) (auto simp: owner_def)
  show "m (end_slot (First h) as) = Some (head_of bs)" "head_of bs \<noteq> NULL \<longleftrightarrow> bs \<noteq> []"
    by (rule slist_rest(1,2)[OF l])+
  show "m (owner h bs) \<noteq> None" unfolding o using slist_rest(3)[OF l] slist_head_of(1)[OF l] by simp
qed

lemma loose_facts:
  assumes "loose m (as @ bs) x"
  shows "m (Next x) \<noteq> None" "end_slot (First h) as \<noteq> Next x" "owner h bs \<noteq> Next x"
  using assms end_slot_cases[of "First h" as]
  by (auto simp: loose_def owner_def split: list.splits)

lemma TAILQ_INIT_list:
  "fst d (First h) \<noteq> None \<Longrightarrow> \<exists>d'. TAILQ_INIT h d = Some d' \<and> tail_list d' h [] \<and> dom (fst d') = dom (fst d)"
  by (auto simp: TAILQ_INIT_def tail_ops tail_list_def dlist_def slist_def)

lemma TAILQ_INSERT_HEAD_list:
  assumes "tail_list d h xs" "loose (fst d) xs x"
  shows "\<exists>d'. TAILQ_INSERT_HEAD h x d = Some d' \<and> tail_list d' h (x # xs) \<and> dom (fst d') = dom (fst d)"
proof -
  obtain m b where d [simp]: "d = (m, b)" by fastforce
  have t: "tail_list (m, b) h ([] @ xs)" and x: "loose m ([] @ xs) x" using assms by simp_all
  note f = tail_facts[OF t] loose_facts(1)[OF x] loose_facts(2,3)[OF x, of h]
  have "TAILQ_INSERT_HEAD h x d =
      Some (m(Next x \<mapsto> head_of xs, First h \<mapsto> x), b(owner h xs := Next x, Next x := First h))"
    using f by (cases "xs = []") (auto simp: TAILQ_INSERT_HEAD_def tail_ops)
  moreover have "First h \<in> dom m" "Next x \<in> dom m" using f by auto
  ultimately show ?thesis using tail_insert[OF t x] by (auto simp: insert_absorb)
qed

lemma TAILQ_INSERT_AFTER_list:
  assumes "tail_list d h (as @ y # bs)" "loose (fst d) (as @ y # bs) x"
  shows "\<exists>d'. TAILQ_INSERT_AFTER h y x d = Some d' \<and> tail_list d' h (as @ y # x # bs) \<and> dom (fst d') = dom (fst d)"
proof -
  obtain m b where d [simp]: "d = (m, b)" by fastforce
  have t: "tail_list (m, b) h ((as @ [y]) @ bs)" and x: "loose m ((as @ [y]) @ bs) x" using assms by simp_all
  note f = tail_facts[OF t] loose_facts(1)[OF x] loose_facts(2,3)[OF x, of h]
  have "TAILQ_INSERT_AFTER h y x d =
      Some (m(Next x \<mapsto> head_of bs, Next y \<mapsto> x), b(owner h bs := Next x, Next x := Next y))"
    using f by (cases "bs = []") (auto simp: TAILQ_INSERT_AFTER_def tail_ops)
  moreover have "Next y \<in> dom m" "Next x \<in> dom m" using f by auto
  ultimately show ?thesis using tail_insert[OF t x] by (auto simp: insert_absorb)
qed

lemma TAILQ_INSERT_BEFORE_list:
  assumes "tail_list d h (as @ y # bs)" "loose (fst d) (as @ y # bs) x"
  shows "\<exists>d'. TAILQ_INSERT_BEFORE y x d = Some d' \<and> tail_list d' h (as @ x # y # bs) \<and> dom (fst d') = dom (fst d)"
proof -
  obtain m b where d [simp]: "d = (m, b)" by fastforce
  have t: "tail_list (m, b) h (as @ (y # bs))" and x: "loose m (as @ (y # bs)) x" using assms by simp_all
  let ?s = "end_slot (First h) as"
  note f = tail_facts[OF t] loose_facts(1)[OF x] loose_facts(2,3)[OF x, of h]
  have "TAILQ_INSERT_BEFORE y x d =
      Some (m(Next x \<mapsto> y, ?s \<mapsto> x), b(Next x := ?s, Next y := Next x))"
    using f by (auto simp: TAILQ_INSERT_BEFORE_def tail_ops)
  moreover have "b(Next x := ?s, Next y := Next x) = b(Next y := Next x, Next x := ?s)"
    using f by (auto intro: fun_upd_twist)
  moreover have "?s \<in> dom m" "Next x \<in> dom m" using f by auto
  ultimately show ?thesis using tail_insert[OF t x] by (auto simp: insert_absorb owner_def)
qed

lemma TAILQ_INSERT_TAIL_list:
  assumes "tail_list d h xs" "loose (fst d) xs x"
  shows "\<exists>d'. TAILQ_INSERT_TAIL h x d = Some d' \<and> tail_list d' h (xs @ [x]) \<and> dom (fst d') = dom (fst d)"
proof -
  obtain m b where d [simp]: "d = (m, b)" by fastforce
  have t: "tail_list (m, b) h (xs @ [])" and x: "loose m (xs @ []) x" using assms by simp_all
  let ?s = "end_slot (First h) xs"
  note f = tail_facts[OF t] loose_facts(1)[OF x] loose_facts(2,3)[OF x, of h]
  have "TAILQ_INSERT_TAIL h x d =
      Some (m(Next x \<mapsto> NULL, ?s \<mapsto> x), b(Next x := ?s, First h := Next x))"
    using f by (auto simp: TAILQ_INSERT_TAIL_def tail_ops owner_def)
  moreover have "b(Next x := ?s, First h := Next x) = b(First h := Next x, Next x := ?s)"
    by (auto intro: fun_upd_twist)
  moreover have "?s \<in> dom m" "Next x \<in> dom m" using f by auto
  ultimately show ?thesis using tail_insert[OF t x] by (auto simp: insert_absorb owner_def)
qed

lemma TAILQ_REMOVE_list:
  assumes "tail_list d h (as @ x # bs)"
  shows "\<exists>d'. TAILQ_REMOVE h x d = Some d' \<and> tail_list d' h (as @ bs) \<and> dom (fst d') = dom (fst d)"
proof -
  obtain m b where d [simp]: "d = (m, b)" by fastforce
  have t: "tail_list (m, b) h (as @ (x # bs))" and t': "tail_list (m, b) h ((as @ [x]) @ bs)" using assms by simp_all
  let ?s = "end_slot (First h) as"
  note f = tail_facts[OF t] tail_facts[OF t']
  have "head_of bs \<noteq> x" using assms f by (cases bs) (auto simp: tail_list_def dlist_def slist_def)
  then have "TAILQ_REMOVE h x d = Some (m(?s \<mapsto> head_of bs), b(owner h bs := ?s))"
    using f by (cases "bs = []") (auto simp: TAILQ_REMOVE_def tail_ops owner_def)
  moreover have "?s \<in> dom m" using f by auto
  ultimately show ?thesis using tail_delete[of m b h as x bs] assms by (auto simp: insert_absorb)
qed

lemma TAILQ_REPLACE_list:
  assumes "tail_list d h (as @ y # bs)" "loose (fst d) (as @ y # bs) x"
  shows "\<exists>d'. TAILQ_REPLACE h y x d = Some d' \<and> tail_list d' h (as @ x # bs)"
proof -
  obtain m b where d [simp]: "d = (m, b)" by fastforce
  have t: "tail_list (m, b) h (as @ (y # bs))" and t': "tail_list (m, b) h ((as @ [y]) @ bs)"
    and x: "loose m (as @ (y # bs)) x" and x': "loose m ((as @ [y]) @ bs) x" using assms by simp_all
  let ?s = "end_slot (First h) as" and ?n = "head_of bs"
  note f = tail_facts[OF t] tail_facts[OF t'] loose_facts(1)[OF x] loose_facts(2,3)[OF x, of h] loose_facts(2,3)[OF x', of h]
  have ne: "?s \<noteq> Next y" "owner h bs \<noteq> Next y"
    using end_slot_cases[of "First h" as] tail_list_slist[OF t]
    by (auto simp: slist_def owner_def split: list.splits)
  have r: "TAILQ_REPLACE h y x d = Some (m(Next x \<mapsto> ?n, ?s \<mapsto> x), b(owner h bs := Next x, Next x := ?s))"
    using f ne by (cases "bs = []") (auto simp: TAILQ_REPLACE_def tail_ops owner_def)
  have "tail_list (m(?s \<mapsto> ?n), b(owner h bs := ?s)) h (as @ bs)" using tail_delete[OF t] .
  moreover have "loose (m(?s \<mapsto> ?n)) (as @ bs) x" using x f by (auto simp: loose_def)
  ultimately have "tail_list (m(?s \<mapsto> ?n, Next x \<mapsto> ?n, ?s \<mapsto> x),
      b(owner h bs := ?s, owner h bs := Next x, Next x := ?s)) h (as @ x # bs)"
    by (rule tail_insert)
  moreover have "m(?s \<mapsto> ?n, Next x \<mapsto> ?n, ?s \<mapsto> x) = m(Next x \<mapsto> ?n, ?s \<mapsto> x)"
    by (auto simp: fun_eq_iff)
  ultimately show ?thesis using r by simp
qed

lemma TAILQ_CONCAT_list:
  assumes "tail_list d h1 xs" "tail_list d h2 ys" "h1 \<noteq> h2" "set xs \<inter> set ys = {}"
  shows "\<exists>d'. TAILQ_CONCAT h1 h2 d = Some d' \<and> tail_list d' h1 (xs @ ys) \<and> tail_list d' h2 []"
proof (cases ys)
  case Nil
  then have "TAILQ_CONCAT h1 h2 d = Some d"
    using assms(2) by (auto simp: TAILQ_CONCAT_def TAILQ_EMPTY_def tail_list_def dlist_def slist_def)
  then show ?thesis using assms Nil by simp
next
  case (Cons y zs)
  obtain m b where d [simp]: "d = (m, b)" by fastforce
  have t1: "tail_list (m, b) h1 (xs @ [])" and t2: "tail_list (m, b) h2 ([] @ ys)" using assms by simp_all
  let ?s = "end_slot (First h1) xs"
  let ?m = "m(?s \<mapsto> y, First h2 \<mapsto> NULL)" and ?b = "b(Next y := ?s, First h1 := end_slot (First h2) ys, First h2 := First h2)"
  note f = tail_facts[OF t1] tail_facts[OF t2]
  have l: "slist m h1 xs" "slist m h2 (y # zs)" using tail_list_slist[OF t1] tail_list_slist[OF t2] Cons by simp_all
  have ne: "?s \<noteq> First h2" "y \<notin> set xs" "y \<notin> set zs"
    using end_slot_cases[of "First h1" xs] assms(3,4) l(2) Cons by (auto simp: slist_def)
  have "b (First h2) = end_slot (First h2) ys" using assms(2) by (simp add: tail_list_def)
  then have "TAILQ_CONCAT h1 h2 d = Some (?m, ?b)"
    using f ne Cons assms(3) by (auto simp: TAILQ_CONCAT_def TAILQ_EMPTY_def TAILQ_INIT_def tail_ops owner_def)
  moreover have "slist ?m h1 (xs @ ys)"
    using slist_concat[OF l assms(3)] assms(3,4) Cons by (subst slist_frame) auto
  moreover have "backs (\<lambda>p. ?b (Next p)) (First h1) (xs @ ys)"
    using assms(1,2) Cons ne by (auto simp: tail_list_def dlist_def backs_if)
  moreover have "end_slot (First h2) ys = end_slot (First h1) (xs @ ys)" using Cons by (simp add: end_slot_append)
  ultimately show ?thesis using assms(3) by (auto simp: tail_list_def dlist_def slist_def)
qed

lemma TAILQ_SWAP_list:
  assumes "tail_list d h1 xs" "tail_list d h2 ys" "h1 \<noteq> h2" "set xs \<inter> set ys = {}"
  shows "\<exists>d'. TAILQ_SWAP h1 h2 d = Some d' \<and> tail_list d' h1 ys \<and> tail_list d' h2 xs"
proof -
  obtain m b where d [simp]: "d = (m, b)" by fastforce
  have t1: "tail_list (m, b) h1 ([] @ xs)" and t2: "tail_list (m, b) h2 ([] @ ys)" using assms by simp_all
  let ?m = "m(First h1 \<mapsto> head_of ys, First h2 \<mapsto> head_of xs)"
  let ?b = "b(First h1 := end_slot (First h2) ys, First h2 := end_slot (First h1) xs,
    owner h1 ys := First h1, owner h2 xs := First h2)"
  note f = tail_facts[OF t1] tail_facts[OF t2]
  have l: "slist m h1 xs" "slist m h2 ys" using tail_list_slist[OF t1] tail_list_slist[OF t2] by simp_all
  have e: "b (First h1) = end_slot (First h1) xs" "b (First h2) = end_slot (First h2) ys"
    using assms by (auto simp: tail_list_def)
  have "TAILQ_SWAP h1 h2 d = Some (?m, ?b)"
    using f e assms(3) by (cases xs; cases ys) (auto simp: TAILQ_SWAP_def tail_ops owner_def)
  moreover have "slist ?m h1 ys" "slist ?m h2 xs"
    using l assms(3) slist_head_of(1)[OF l(1)] slist_head_of(1)[OF l(2)]
    by (auto simp: slist_head[of ?m h1 m h2 ys] slist_head[of ?m h2 m h1 xs])
  moreover have "backs (\<lambda>p. ?b (Next p)) (First h1) ys" "backs (\<lambda>p. ?b (Next p)) (First h2) xs"
    using assms l by (cases xs; cases ys; auto simp: tail_list_def dlist_def slist_def owner_def backs_if)+
  moreover have "?b (First h1) = end_slot (First h1) ys" "?b (First h2) = end_slot (First h2) xs"
    using assms(3) by (cases xs; cases ys; auto simp: owner_def)+
  ultimately show ?thesis by (simp add: tail_list_def dlist_def)
qed

text \<open>Two steps back and one forward lead to the element before, and from the first one to NULL.\<close>

lemma tail_before:
  assumes "tail_list d h (as @ bs)"
  shows "do { s \<leftarrow> tq_back (owner h bs) d; t \<leftarrow> tq_back s d; fst d t } = Some (if as = [] then NULL else last as)"
proof -
  obtain m b where d [simp]: "d = (m, b)" by fastforce
  note f = tail_facts[of m b h as bs]
  show ?thesis
  proof (cases as rule: rev_cases)
    case Nil
    have "b (First h) = end_slot (First h) (as @ bs)" using assms by (simp add: tail_list_def)
    then show ?thesis using f tail_facts(2)[of m b h "as @ bs" "[]"] assms Nil by (auto simp: tail_ops)
  next
    case (snoc cs z)
    then show ?thesis using f tail_facts[of m b h cs "z # bs"] assms by (auto simp: tail_ops owner_def[of _ "z # bs"])
  qed
qed

lemma TAILQ_LAST_list: "tail_list d h xs \<Longrightarrow> TAILQ_LAST h d = Some (if xs = [] then NULL else last xs)"
  using tail_before[of d h xs "[]"] by (simp add: TAILQ_LAST_def owner_def)

lemma TAILQ_PREV_list: "tail_list d h (as @ x # bs) \<Longrightarrow> TAILQ_PREV x d = Some (if as = [] then NULL else last as)"
  using tail_before[of d h as "x # bs"] by (simp add: TAILQ_PREV_def owner_def)

lemma tailq_walk_back_list:
  "tail_list d h (as @ bs) \<Longrightarrow> tailq_walk_back d (if as = [] then NULL else last as) = Some (rev as)"
proof (induction as arbitrary: bs rule: rev_induct)
  case Nil
  then show ?case by (simp add: tailq_walk_back.simps)
next
  case (snoc x as)
  then have "x \<noteq> NULL" using slist_nonnull[OF tail_list_slist[OF snoc.prems], of x] by simp
  moreover have "tailq_walk_back d (if as = [] then NULL else last as) = Some (rev as)"
    using snoc.prems by (intro snoc.IH[of "x # bs"]) simp
  ultimately show ?case using TAILQ_PREV_list[of d h as x bs] snoc.prems by (subst tailq_walk_back.simps) simp
qed

lemma TAILQ_FOREACH_REVERSE_list: "tail_list d h xs \<Longrightarrow> TAILQ_FOREACH_REVERSE h d = Some (rev xs)"
  using TAILQ_LAST_list[of d h xs] tailq_walk_back_list[of d h xs "[]"] by (simp add: TAILQ_FOREACH_REVERSE_def)

lemma TAILQ_FOREACH_list: "tail_list d h xs \<Longrightarrow> TAILQ_FOREACH h d = Some xs"
  using SLIST_FOREACH_list[of "fst d" h xs] by (simp add: TAILQ_FOREACH_def SLIST_FOREACH_def tail_list_slist)

section \<open>Taking elements out while walking\<close>

text \<open>A loop body that takes the elements out that satisfy \<open>P\<close>, and frees them.\<close>

definition drop_if :: "nat \<Rightarrow> (ptr \<Rightarrow> bool) \<Rightarrow> ptr \<Rightarrow> tstore \<Rightarrow> tstore option" where
  "drop_if h P p d =
     (if P p then do { d \<leftarrow> TAILQ_REMOVE h p d; Some ((fst d)(Next p := None), snd d) } else Some d)"

lemma drop_if_list:
  assumes "tail_list d h (as @ x # bs)"
  shows "\<exists>d'. drop_if h P x d = Some d' \<and> tail_list d' h (as @ filter (\<lambda>p. \<not> P p) [x] @ bs) \<and>
    dom (fst d') = dom (fst d) - Next ` {y. y = x \<and> P y}"
proof (cases "P x")
  case True
  obtain d1 where d1: "TAILQ_REMOVE h x d = Some d1" "tail_list d1 h (as @ bs)" "dom (fst d1) = dom (fst d)"
    using TAILQ_REMOVE_list[OF assms] by blast
  have "x \<notin> set (as @ bs)" using tail_list_slist[OF assms] by (simp add: slist_def)
  then have "tail_list ((fst d1)(Next x := None), snd d1) h (as @ bs)"
    using d1(2) by (auto simp: tail_list_def dlist_def slist_frame)
  then show ?thesis using d1 True by (auto simp: drop_if_def)
next
  case False
  then have "dom (fst d) - Next ` {y. y = x \<and> P y} = dom (fst d)" by auto
  then show ?thesis using assms False by (simp add: drop_if_def)
qed

lemma each_safe_drop:
  "tail_list d h (as @ bs) \<Longrightarrow>
     \<exists>d'. each_safe (\<lambda>p d. fst d (Next p)) (drop_if h P) (head_of bs) d = Some d' \<and>
       tail_list d' h (as @ filter (\<lambda>p. \<not> P p) bs) \<and> dom (fst d') = dom (fst d) - Next ` {y \<in> set bs. P y}"
proof (induction bs arbitrary: as d)
  case Nil
  then show ?case by (simp add: each_safe.simps)
next
  case (Cons x bs)
  have n: "fst d (Next x) = Some (head_of bs)" "x \<noteq> NULL"
    using slist_next[OF tail_list_slist[OF Cons.prems]] slist_nonnull[OF tail_list_slist[OF Cons.prems], of x] by auto
  obtain d1 where d1: "drop_if h P x d = Some d1" "tail_list d1 h ((as @ filter (\<lambda>p. \<not> P p) [x]) @ bs)"
    "dom (fst d1) = dom (fst d) - Next ` {y. y = x \<and> P y}"
    using drop_if_list[OF Cons.prems, of P] by auto
  obtain d' where "each_safe (\<lambda>p d. fst d (Next p)) (drop_if h P) (head_of bs) d1 = Some d'"
    "tail_list d' h ((as @ filter (\<lambda>p. \<not> P p) [x]) @ filter (\<lambda>p. \<not> P p) bs)"
    "dom (fst d') = dom (fst d1) - Next ` {y \<in> set bs. P y}"
    using Cons.IH[OF d1(2)] by blast
  moreover have "{y \<in> set (x # bs). P y} = {y. y = x \<and> P y} \<union> {y \<in> set bs. P y}" by auto
  ultimately show ?case using n d1 by (subst each_safe.simps) (auto simp: image_Un)
qed

lemma each_safe_drop_back:
  "tail_list d h (as @ bs) \<Longrightarrow>
     \<exists>d'. each_safe TAILQ_PREV (drop_if h P) (if as = [] then NULL else last as) d = Some d' \<and>
       tail_list d' h (filter (\<lambda>p. \<not> P p) as @ bs) \<and> dom (fst d') = dom (fst d) - Next ` {y \<in> set as. P y}"
proof (induction as arbitrary: bs d rule: rev_induct)
  case Nil
  then show ?case by (simp add: each_safe.simps)
next
  case (snoc x as)
  then have t: "tail_list d h (as @ x # bs)" by simp
  have n: "TAILQ_PREV x d = Some (if as = [] then NULL else last as)" "x \<noteq> NULL"
    using TAILQ_PREV_list[OF t] slist_nonnull[OF tail_list_slist[OF t], of x] by auto
  obtain d1 where d1: "drop_if h P x d = Some d1" "tail_list d1 h (as @ filter (\<lambda>p. \<not> P p) [x] @ bs)"
    "dom (fst d1) = dom (fst d) - Next ` {y. y = x \<and> P y}"
    using drop_if_list[OF t, of P] by auto
  obtain d' where "each_safe TAILQ_PREV (drop_if h P) (if as = [] then NULL else last as) d1 = Some d'"
    "tail_list d' h (filter (\<lambda>p. \<not> P p) as @ filter (\<lambda>p. \<not> P p) [x] @ bs)"
    "dom (fst d') = dom (fst d1) - Next ` {y \<in> set as. P y}"
    using snoc.IH[OF d1(2)] by blast
  moreover have "{y \<in> set (as @ [x]). P y} = {y. y = x \<and> P y} \<union> {y \<in> set as. P y}" by auto
  ultimately show ?case using n d1 by (subst each_safe.simps) (auto simp: image_Un)
qed

text \<open>
  C39: A walk over a tail queue with \<open>TAILQ_FOREACH_SAFE\<close> or \<open>TAILQ_FOREACH_REVERSE_SAFE\<close> may take
  elements out and free them: it never reads an element that is gone, visits every element once,
  frees exactly those that its body takes out, and leaves the others in the queue in their order.
\<close>

theorem safe_walks_drop:
  assumes "tail_list d h xs"
  shows "\<exists>d1 d2. TAILQ_FOREACH_SAFE h (drop_if h P) d = Some d1 \<and>
      TAILQ_FOREACH_REVERSE_SAFE h (drop_if h P) d = Some d2 \<and>
      tail_list d1 h (filter (\<lambda>p. \<not> P p) xs) \<and> tail_list d2 h (filter (\<lambda>p. \<not> P p) xs) \<and>
      dom (fst d1) = dom (fst d) - Next ` {x \<in> set xs. P x} \<and>
      dom (fst d2) = dom (fst d) - Next ` {x \<in> set xs. P x}"
proof -
  obtain d1 where d1: "each_safe (\<lambda>p d. fst d (Next p)) (drop_if h P) (head_of xs) d = Some d1"
    "tail_list d1 h (filter (\<lambda>p. \<not> P p) xs)" "dom (fst d1) = dom (fst d) - Next ` {x \<in> set xs. P x}"
    using each_safe_drop[of d h "[]" xs P] assms by auto
  obtain d2 where d2: "each_safe TAILQ_PREV (drop_if h P) (if xs = [] then NULL else last xs) d = Some d2"
    "tail_list d2 h (filter (\<lambda>p. \<not> P p) xs)" "dom (fst d2) = dom (fst d) - Next ` {x \<in> set xs. P x}"
    using each_safe_drop_back[of d h xs "[]" P] assms by auto
  have "TAILQ_FOREACH_SAFE h (drop_if h P) d = Some d1"
    using d1(1) slist_head_of(1)[OF tail_list_slist[OF assms]] by (simp add: TAILQ_FOREACH_SAFE_def)
  moreover have "TAILQ_FOREACH_REVERSE_SAFE h (drop_if h P) d = Some d2"
    using d2(1) TAILQ_LAST_list[OF assms] by (simp add: TAILQ_FOREACH_REVERSE_SAFE_def)
  ultimately show ?thesis using d1(2,3) d2(2,3) by blast
qed

lemma safe_walks_drop_witness:
  "\<exists>d1 d2. TAILQ_FOREACH_SAFE 0 (drop_if 0 (\<lambda>p. p = 5))
        ([First 0 \<mapsto> 5, Next 5 \<mapsto> 7, Next 7 \<mapsto> 0], (\<lambda>_. First 0)(First 0 := Next 7, Next 7 := Next 5)) = Some d1 \<and>
      TAILQ_FOREACH_REVERSE_SAFE 0 (drop_if 0 (\<lambda>p. p = 5))
        ([First 0 \<mapsto> 5, Next 5 \<mapsto> 7, Next 7 \<mapsto> 0], (\<lambda>_. First 0)(First 0 := Next 7, Next 7 := Next 5)) = Some d2 \<and>
      tail_list d1 0 [7] \<and> tail_list d2 0 [7] \<and>
      dom (fst d1) = {First 0, Next 7} \<and> dom (fst d2) = {First 0, Next 7}"
proof -
  let ?d = "([First 0 \<mapsto> 5, Next 5 \<mapsto> 7, Next 7 \<mapsto> 0], (\<lambda>_. First 0)(First 0 := Next 7, Next 7 := Next 5))"
  have "tail_list ?d 0 [5, 7]" by (simp add: tail_list_def dlist_def slist_def)
  note w = safe_walks_drop[OF this, of "\<lambda>p. p = 5"]
  have e: "dom (fst ?d) - Next ` {x \<in> set [5, 7]. x = 5} = {First 0, Next 7}" "filter (\<lambda>p. p \<noteq> 5) [5, 7] = [7::nat]"
    by auto
  show ?thesis using w unfolding e .
qed

end
