(* ===== verification/Circular_Queues.thy ===== *)
theory Circular_Queues
  imports Tail_Queues
begin

text \<open>
  The circular queues of \<open>server/queue.h\<close>, and the contract they share with the tail queues: a list
  of distinct elements that grows at both ends and around any element, loses any element, and is
  walked in both directions.

  In a circular queue the pointers at both ends point to the head, cast to the type of an element.
  A node is what such a pointer points to.  A cast pointer is only compared: to read or write an
  entry through it is undefined.
\<close>

section \<open>Circular queues\<close>

datatype node = Head nat | Elm ptr

text \<open>First or next node, and last or previous node, of a head or an entry.\<close>

type_synonym cstore = "(node \<rightharpoonup> node) \<times> (node \<Rightarrow> node)"

definition cq_next :: "node \<Rightarrow> cstore \<Rightarrow> node option" where
  "cq_next n d = fst d n"

definition cq_prev :: "node \<Rightarrow> cstore \<Rightarrow> node option" where
  "cq_prev n d = (if fst d n = None then None else Some (snd d n))"

definition set_cq_next :: "node \<Rightarrow> node \<Rightarrow> cstore \<Rightarrow> cstore option" where
  "set_cq_next n v d = (if fst d n = None then None else Some ((fst d)(n \<mapsto> v), snd d))"

definition set_cq_prev :: "node \<Rightarrow> node \<Rightarrow> cstore \<Rightarrow> cstore option" where
  "set_cq_prev n v d = (if fst d n = None then None else Some (fst d, (snd d)(n := v)))"

fun entry :: "node \<Rightarrow> node option" where
  "entry (Elm p) = Some (Elm p)"
| "entry (Head h) = None"

definition CIRCLEQ_INIT :: "nat \<Rightarrow> cstore \<Rightarrow> cstore option" where
  "CIRCLEQ_INIT h d = do { d \<leftarrow> set_cq_next (Head h) (Head h) d; set_cq_prev (Head h) (Head h) d }"

definition CIRCLEQ_EMPTY :: "nat \<Rightarrow> cstore \<Rightarrow> bool option" where
  "CIRCLEQ_EMPTY h d = do { f \<leftarrow> cq_next (Head h) d; Some (f = Head h) }"

definition CIRCLEQ_INSERT_HEAD :: "nat \<Rightarrow> ptr \<Rightarrow> cstore \<Rightarrow> cstore option" where
  "CIRCLEQ_INSERT_HEAD h elm d =
     do { f \<leftarrow> cq_next (Head h) d; d \<leftarrow> set_cq_next (Elm elm) f d;
          d \<leftarrow> set_cq_prev (Elm elm) (Head h) d;
          l \<leftarrow> cq_prev (Head h) d;
          d \<leftarrow> (if l = Head h then set_cq_prev (Head h) (Elm elm) d
               else do { f \<leftarrow> cq_next (Head h) d; f \<leftarrow> entry f; set_cq_prev f (Elm elm) d });
          set_cq_next (Head h) (Elm elm) d }"

definition CIRCLEQ_INSERT_BEFORE :: "nat \<Rightarrow> ptr \<Rightarrow> ptr \<Rightarrow> cstore \<Rightarrow> cstore option" where
  "CIRCLEQ_INSERT_BEFORE h listelm elm d =
     do { d \<leftarrow> set_cq_next (Elm elm) (Elm listelm) d;
          p \<leftarrow> cq_prev (Elm listelm) d; d \<leftarrow> set_cq_prev (Elm elm) p d;
          p \<leftarrow> cq_prev (Elm listelm) d;
          d \<leftarrow> (if p = Head h then set_cq_next (Head h) (Elm elm) d
               else do { p \<leftarrow> entry p; set_cq_next p (Elm elm) d });
          set_cq_prev (Elm listelm) (Elm elm) d }"

definition CIRCLEQ_INSERT_AFTER :: "nat \<Rightarrow> ptr \<Rightarrow> ptr \<Rightarrow> cstore \<Rightarrow> cstore option" where
  "CIRCLEQ_INSERT_AFTER h listelm elm d =
     do { n \<leftarrow> cq_next (Elm listelm) d; d \<leftarrow> set_cq_next (Elm elm) n d;
          d \<leftarrow> set_cq_prev (Elm elm) (Elm listelm) d;
          n \<leftarrow> cq_next (Elm listelm) d;
          d \<leftarrow> (if n = Head h then set_cq_prev (Head h) (Elm elm) d
               else do { n \<leftarrow> entry n; set_cq_prev n (Elm elm) d });
          set_cq_next (Elm listelm) (Elm elm) d }"

definition CIRCLEQ_INSERT_TAIL :: "nat \<Rightarrow> ptr \<Rightarrow> cstore \<Rightarrow> cstore option" where
  "CIRCLEQ_INSERT_TAIL h elm d =
     do { d \<leftarrow> set_cq_next (Elm elm) (Head h) d;
          l \<leftarrow> cq_prev (Head h) d; d \<leftarrow> set_cq_prev (Elm elm) l d;
          f \<leftarrow> cq_next (Head h) d;
          d \<leftarrow> (if f = Head h then set_cq_next (Head h) (Elm elm) d
               else do { l \<leftarrow> cq_prev (Head h) d; l \<leftarrow> entry l; set_cq_next l (Elm elm) d });
          set_cq_prev (Head h) (Elm elm) d }"

definition CIRCLEQ_REMOVE :: "nat \<Rightarrow> ptr \<Rightarrow> cstore \<Rightarrow> cstore option" where
  "CIRCLEQ_REMOVE h elm d =
     do { n \<leftarrow> cq_next (Elm elm) d; p \<leftarrow> cq_prev (Elm elm) d;
          d \<leftarrow> (if n = Head h then set_cq_prev (Head h) p d
               else do { n \<leftarrow> entry n; set_cq_prev n p d });
          p \<leftarrow> cq_prev (Elm elm) d; n \<leftarrow> cq_next (Elm elm) d;
          if p = Head h then set_cq_next (Head h) n d
          else do { p \<leftarrow> entry p; set_cq_next p n d } }"

text \<open>The walks: \<open>step\<close> reads the next or the previous node.\<close>

partial_function (option) circ_walk :: "(node \<Rightarrow> node option) \<Rightarrow> nat \<Rightarrow> node \<Rightarrow> ptr list option" where
  "circ_walk step h var =
     (if var = Head h then Some []
      else case var of
        Head _ \<Rightarrow> None
      | Elm p \<Rightarrow> do { n \<leftarrow> step (Elm p); r \<leftarrow> circ_walk step h n; Some (p # r) })"

definition CIRCLEQ_FOREACH :: "nat \<Rightarrow> cstore \<Rightarrow> ptr list option" where
  "CIRCLEQ_FOREACH h d = do { f \<leftarrow> cq_next (Head h) d; circ_walk (\<lambda>n. cq_next n d) h f }"

definition CIRCLEQ_FOREACH_REVERSE :: "nat \<Rightarrow> cstore \<Rightarrow> ptr list option" where
  "CIRCLEQ_FOREACH_REVERSE h d = do { l \<leftarrow> cq_prev (Head h) d; circ_walk (\<lambda>n. cq_prev n d) h l }"

partial_function (option) circ_safe ::
    "(node \<Rightarrow> cstore \<Rightarrow> node option) \<Rightarrow> (ptr \<Rightarrow> cstore \<Rightarrow> cstore option) \<Rightarrow> nat \<Rightarrow> node \<Rightarrow> cstore \<Rightarrow> cstore option" where
  "circ_safe step body h var d =
     (if var = Head h then Some d
      else case var of
        Head _ \<Rightarrow> None
      | Elm p \<Rightarrow> do { tvar \<leftarrow> step (Elm p) d; d \<leftarrow> body p d; circ_safe step body h tvar d })"

definition CIRCLEQ_FOREACH_SAFE :: "nat \<Rightarrow> (ptr \<Rightarrow> cstore \<Rightarrow> cstore option) \<Rightarrow> cstore \<Rightarrow> cstore option" where
  "CIRCLEQ_FOREACH_SAFE h body d = do { f \<leftarrow> cq_next (Head h) d; circ_safe cq_next body h f d }"

text \<open>The next and the previous element, where the ends meet.\<close>

definition CIRCLEQ_LOOP_NEXT :: "nat \<Rightarrow> ptr \<Rightarrow> cstore \<Rightarrow> node option" where
  "CIRCLEQ_LOOP_NEXT h elm d =
     do { n \<leftarrow> cq_next (Elm elm) d; if n = Head h then cq_next (Head h) d else cq_next (Elm elm) d }"

definition CIRCLEQ_LOOP_PREV :: "nat \<Rightarrow> ptr \<Rightarrow> cstore \<Rightarrow> node option" where
  "CIRCLEQ_LOOP_PREV h elm d =
     do { p \<leftarrow> cq_prev (Elm elm) d; if p = Head h then cq_prev (Head h) d else cq_prev (Elm elm) d }"

section \<open>Circular queues as lists\<close>

text \<open>From node \<open>s\<close> the elements \<open>xs\<close> lead to node \<open>e\<close>, and back.\<close>

fun chain :: "cstore \<Rightarrow> node \<Rightarrow> ptr list \<Rightarrow> node \<Rightarrow> bool" where
  "chain d s [] e \<longleftrightarrow> fst d s = Some e \<and> snd d e = s"
| "chain d s (x # xs) e \<longleftrightarrow> fst d s = Some (Elm x) \<and> snd d (Elm x) = s \<and> chain d (Elm x) xs e"

definition circleq :: "cstore \<Rightarrow> nat \<Rightarrow> ptr list \<Rightarrow> bool" where
  "circleq d h xs \<longleftrightarrow> chain d (Head h) xs (Head h) \<and> distinct xs"

definition last_node :: "node \<Rightarrow> ptr list \<Rightarrow> node" where
  "last_node s xs = (if xs = [] then s else Elm (last xs))"

definition first_node :: "ptr list \<Rightarrow> node \<Rightarrow> node" where
  "first_node xs e = (case xs of [] \<Rightarrow> e | x # _ \<Rightarrow> Elm x)"

lemmas circ_ops = cq_next_def cq_prev_def set_cq_next_def set_cq_prev_def

lemma Elm_image [simp]: "Elm x \<in> Elm ` A \<longleftrightarrow> x \<in> A" "Head h \<notin> Elm ` A"
  by auto

lemma node_simps [simp]:
  "last_node s [] = s" "last_node s (xs @ [x]) = Elm x" "first_node [] e = e" "first_node (x # xs) e = Elm x"
  by (auto simp: last_node_def first_node_def)

lemma last_node_Cons [simp]: "last_node s (x # xs) = last_node (Elm x) xs"
  by (simp add: last_node_def)

lemma last_node_cases: "last_node s xs = s \<or> last_node s xs \<in> Elm ` set xs"
  by (simp add: last_node_def)

lemma first_node_cases: "first_node xs e = e \<or> first_node xs e \<in> Elm ` set xs"
  by (cases xs) auto

lemma chain_append: "chain d s (as @ x # bs) e \<longleftrightarrow> chain d s as (Elm x) \<and> chain d (Elm x) bs e"
  by (induction as arbitrary: s) auto

lemma chain_ends: "chain d s xs e \<Longrightarrow> fst d s = Some (first_node xs e) \<and> snd d e = last_node s xs"
  by (induction xs arbitrary: s) simp_all

lemma chain_last: "chain d s xs e \<Longrightarrow> fst d (last_node s xs) = Some e"
  by (induction xs arbitrary: s) auto

lemma chain_frame:
  assumes "\<forall>n \<in> insert s (Elm ` set xs). fst d' n = fst d n" "\<forall>n \<in> insert e (Elm ` set xs). snd d' n = snd d n"
  shows "chain d' s xs e = chain d s xs e"
  using assms by (induction xs arbitrary: s) auto

lemma chain_redirect:
  assumes "chain (m, b) s xs e" "distinct xs" "s \<notin> Elm ` set xs" "e' \<notin> Elm ` set xs"
  shows "chain (m(last_node s xs \<mapsto> e'), b(e' := last_node s xs)) s xs e'"
  using assms
proof (induction xs arbitrary: s)
  case (Cons x xs)
  have "last_node (Elm x) xs \<noteq> s" using last_node_cases[of "Elm x" xs] Cons.prems(3) by auto
  moreover have "chain (m(last_node (Elm x) xs \<mapsto> e'), b(e' := last_node (Elm x) xs)) (Elm x) xs e'"
    using Cons.prems by (intro Cons.IH) auto
  ultimately show ?case using Cons.prems(1,4) by (auto simp del: fun_upd_apply simp: fun_upd_other)
qed simp

text \<open>Joining two parts of the circle, which all operations do.\<close>

lemma chain_split: "chain d s (as @ bs) e \<Longrightarrow> chain d s as (first_node bs e) \<and> chain d (last_node s as) bs e"
proof (cases bs)
  case Nil
  assume a: "chain d s (as @ bs) e"
  then show ?thesis using Nil chain_last[of d s as e] chain_ends[of d s as e] by simp
next
  case (Cons y ys)
  assume a: "chain d s (as @ bs) e"
  then show ?thesis using Cons chain_last[of d s as "Elm y"] chain_ends[of d s as "Elm y"] by (simp add: chain_append)
qed

lemma chain_join:
  assumes "chain d s as e" "chain d (last_node s as) bs e'" "bs \<noteq> [] \<Longrightarrow> e = Elm (hd bs)" "bs = [] \<Longrightarrow> e = e'"
  shows "chain d s (as @ bs) e'"
  using assms by (cases bs) (auto simp: chain_append)

lemma circ_facts:
  assumes "circleq (m, b) h (as @ bs)"
  shows "m (last_node (Head h) as) = Some (first_node bs (Head h))"
    "b (first_node bs (Head h)) = last_node (Head h) as"
    "m (first_node bs (Head h)) \<noteq> None" "m (Head h) \<noteq> None"
proof -
  have c: "chain (m, b) (Head h) as (first_node bs (Head h))" "chain (m, b) (last_node (Head h) as) bs (Head h)"
    using assms chain_split[of "(m, b)" "Head h" as bs "Head h"] by (auto simp: circleq_def)
  show "m (last_node (Head h) as) = Some (first_node bs (Head h))"
    "b (first_node bs (Head h)) = last_node (Head h) as"
    using chain_last[OF c(1)] chain_ends[OF c(1)] by auto
  show "m (Head h) \<noteq> None" using chain_ends[OF c(1)] by simp
  then show "m (first_node bs (Head h)) \<noteq> None"
  proof (cases bs)
    case (Cons y ys)
    then show ?thesis using c(2) chain_ends[of "(m, b)" "Elm y" ys "Head h"] by simp
  qed simp
qed

lemma circ_delete:
  assumes "circleq (m, b) h (as @ x # bs)"
  shows "circleq (m(last_node (Head h) as \<mapsto> first_node bs (Head h)),
      b(first_node bs (Head h) := last_node (Head h) as)) h (as @ bs)"
proof -
  let ?l = "last_node (Head h) as" and ?f = "first_node bs (Head h)"
  let ?d = "(m(?l \<mapsto> ?f), b(?f := ?l))"
  have c: "chain (m, b) (Head h) as (Elm x)" "chain (m, b) (Elm x) bs (Head h)" and dist: "distinct (as @ x # bs)"
    using assms by (auto simp: circleq_def chain_append)
  have "?f \<notin> Elm ` set as" using first_node_cases[of bs "Head h"] dist by auto
  then have a: "chain ?d (Head h) as ?f" using c(1) dist by (intro chain_redirect) auto
  have "chain ?d ?l bs (Head h)"
  proof (cases bs)
    case Nil
    then show ?thesis by simp
  next
    case (Cons y ys)
    have "\<forall>n \<in> insert y (set ys). ?l \<noteq> Elm n" using last_node_cases[of "Head h" as] dist Cons by auto
    then have "chain ?d (Elm y) ys (Head h) = chain (m, b) (Elm y) ys (Head h)"
      using dist Cons by (intro chain_frame) auto
    then show ?thesis using c(2) Cons by simp
  qed
  then have "chain ?d (Head h) (as @ bs) (Head h)" 
    by (rule chain_join[OF a]) (auto simp: first_node_def split: list.splits)
  then show ?thesis using dist by (simp add: circleq_def)
qed

lemma circ_insert:
  assumes "circleq (m, b) h (as @ bs)" "x \<notin> set (as @ bs)"
  shows "circleq (m(Elm x \<mapsto> first_node bs (Head h), last_node (Head h) as \<mapsto> Elm x),
      b(first_node bs (Head h) := Elm x, Elm x := last_node (Head h) as)) h (as @ x # bs)"
proof -
  let ?l = "last_node (Head h) as" and ?f = "first_node bs (Head h)"
  let ?m = "m(Elm x \<mapsto> ?f, ?l \<mapsto> Elm x)" and ?b = "b(?f := Elm x, Elm x := ?l)"
  have c: "chain (m, b) (Head h) as ?f" "chain (m, b) ?l bs (Head h)" and dist: "distinct (as @ bs)"
    using assms chain_split[of "(m, b)" "Head h" as bs "Head h"] by (auto simp: circleq_def)
  have ne: "?l \<noteq> Elm x" "?f \<noteq> Elm x" "\<forall>n \<in> set as. ?f \<noteq> Elm n"
    using last_node_cases[of "Head h" as] first_node_cases[of bs "Head h"] assms(2) dist by auto
  have "chain (m(?l \<mapsto> Elm x), b(Elm x := ?l)) (Head h) as (Elm x)"
    using c(1) dist assms(2) by (intro chain_redirect) auto
  then have "chain (?m, ?b) (Head h) as (Elm x)"
    using ne assms(2) by (subst chain_frame[of _ _ _ "(m(?l \<mapsto> Elm x), b(Elm x := ?l))"]) auto
  moreover have "chain (?m, ?b) (Elm x) bs (Head h)"
  proof (cases bs)
    case Nil
    then show ?thesis using ne by simp
  next
    case (Cons y ys)
    have "\<forall>n \<in> insert y (set ys). ?l \<noteq> Elm n" using last_node_cases[of "Head h" as] dist Cons by auto
    then have "chain (?m, ?b) (Elm y) ys (Head h) = chain (m, b) (Elm y) ys (Head h)"
      using dist assms(2) Cons by (intro chain_frame) auto
    then show ?thesis using c(2) Cons ne by simp
  qed
  ultimately show ?thesis using dist assms(2) by (auto simp: circleq_def chain_append)
qed

lemma node_ends:
  "last_node (Head h) as = Head h \<longleftrightarrow> as = []" "first_node bs (Head h) = Head h \<longleftrightarrow> bs = []"
  "as \<noteq> [] \<Longrightarrow> entry (last_node (Head h) as) = Some (last_node (Head h) as)"
  "bs \<noteq> [] \<Longrightarrow> entry (first_node bs (Head h)) = Some (first_node bs (Head h))"
  by (auto simp: last_node_def first_node_def split: list.splits)

text \<open>An element that can be put into a queue: it is there and not in it.\<close>

definition free_node :: "(node \<rightharpoonup> node) \<Rightarrow> ptr list \<Rightarrow> ptr \<Rightarrow> bool" where
  "free_node m xs x \<longleftrightarrow> m (Elm x) \<noteq> None \<and> x \<notin> set xs"

lemma free_node_facts:
  assumes "free_node m (as @ bs) x"
  shows "m (Elm x) \<noteq> None" "last_node (Head h) as \<noteq> Elm x" "first_node bs (Head h) \<noteq> Elm x"
  using assms last_node_cases[of "Head h" as] first_node_cases[of bs "Head h"] by (auto simp: free_node_def)

lemma CIRCLEQ_INIT_list:
  "fst d (Head h) \<noteq> None \<Longrightarrow> \<exists>d'. CIRCLEQ_INIT h d = Some d' \<and> circleq d' h [] \<and> dom (fst d') = dom (fst d)"
  by (auto simp: CIRCLEQ_INIT_def circ_ops circleq_def)

lemma circ_insert_dom:
  assumes "circleq (m, b) h (as @ bs)" "free_node m (as @ bs) x"
    "r = Some (m(Elm x \<mapsto> first_node bs (Head h), last_node (Head h) as \<mapsto> Elm x),
      b(first_node bs (Head h) := Elm x, Elm x := last_node (Head h) as))"
  shows "\<exists>d'. r = Some d' \<and> circleq d' h (as @ x # bs) \<and> dom (fst d') = dom m"
proof -
  have "last_node (Head h) as \<in> dom m" "Elm x \<in> dom m"
    using circ_facts(1)[OF assms(1)] assms(2) by (auto simp: free_node_def)
  then show ?thesis using circ_insert[OF assms(1), of x] assms(2,3) by (auto simp: free_node_def insert_absorb)
qed

lemma CIRCLEQ_INSERT_HEAD_list:
  assumes "circleq d h xs" "free_node (fst d) xs x"
  shows "\<exists>d'. CIRCLEQ_INSERT_HEAD h x d = Some d' \<and> circleq d' h (x # xs) \<and> dom (fst d') = dom (fst d)"
proof -
  obtain m b where d [simp]: "d = (m, b)" by fastforce
  have t: "circleq (m, b) h ([] @ xs)" and x: "free_node m ([] @ xs) x" and t': "circleq (m, b) h (xs @ [])"
    using assms by simp_all
  let ?f = "first_node xs (Head h)"
  note f = circ_facts[OF t] circ_facts[OF t'] free_node_facts(1)[OF x] free_node_facts(2,3)[OF x, of h] node_ends(1,3)[where h = h] node_ends(2,4)[where h = h]
  have "CIRCLEQ_INSERT_HEAD h x d =
      Some (m(Elm x \<mapsto> ?f, Head h \<mapsto> Elm x), b(Elm x := Head h, ?f := Elm x))"
    using f by (cases "xs = []") (auto simp: CIRCLEQ_INSERT_HEAD_def circ_ops)
  moreover have "b(Elm x := Head h, ?f := Elm x) = b(?f := Elm x, Elm x := Head h)"
    using f by (auto intro: fun_upd_twist)
  ultimately show ?thesis using circ_insert_dom[OF t x] by simp
qed

lemma CIRCLEQ_INSERT_AFTER_list:
  assumes "circleq d h (as @ y # bs)" "free_node (fst d) (as @ y # bs) x"
  shows "\<exists>d'. CIRCLEQ_INSERT_AFTER h y x d = Some d' \<and> circleq d' h (as @ y # x # bs) \<and> dom (fst d') = dom (fst d)"
proof -
  obtain m b where d [simp]: "d = (m, b)" by fastforce
  have t: "circleq (m, b) h ((as @ [y]) @ bs)" and x: "free_node m ((as @ [y]) @ bs) x" using assms by simp_all
  let ?f = "first_node bs (Head h)"
  note f = circ_facts[OF t] free_node_facts(1)[OF x] free_node_facts(2,3)[OF x, of h] node_ends(2,4)[where h = h and bs = bs]
  have "CIRCLEQ_INSERT_AFTER h y x d =
      Some (m(Elm x \<mapsto> ?f, Elm y \<mapsto> Elm x), b(Elm x := Elm y, ?f := Elm x))"
    using f by (cases "bs = []") (auto simp: CIRCLEQ_INSERT_AFTER_def circ_ops)
  moreover have "b(Elm x := Elm y, ?f := Elm x) = b(?f := Elm x, Elm x := Elm y)"
    using f by (auto intro: fun_upd_twist)
  ultimately show ?thesis using circ_insert_dom[OF t x] by simp
qed

lemma CIRCLEQ_INSERT_BEFORE_list:
  assumes "circleq d h (as @ y # bs)" "free_node (fst d) (as @ y # bs) x"
  shows "\<exists>d'. CIRCLEQ_INSERT_BEFORE h y x d = Some d' \<and> circleq d' h (as @ x # y # bs) \<and> dom (fst d') = dom (fst d)"
proof -
  obtain m b where d [simp]: "d = (m, b)" by fastforce
  have t: "circleq (m, b) h (as @ (y # bs))" and x: "free_node m (as @ (y # bs)) x" using assms by simp_all
  let ?l = "last_node (Head h) as"
  note f = circ_facts[OF t] free_node_facts(1)[OF x] free_node_facts(2,3)[OF x, of h] node_ends(1,3)[where h = h and as = as]
  have "CIRCLEQ_INSERT_BEFORE h y x d =
      Some (m(Elm x \<mapsto> Elm y, ?l \<mapsto> Elm x), b(Elm x := ?l, Elm y := Elm x))"
    using f by (cases "as = []") (auto simp: CIRCLEQ_INSERT_BEFORE_def circ_ops)
  moreover have "b(Elm x := ?l, Elm y := Elm x) = b(Elm y := Elm x, Elm x := ?l)"
    using f by (auto intro: fun_upd_twist)
  ultimately show ?thesis using circ_insert_dom[OF t x] by simp
qed

lemma CIRCLEQ_INSERT_TAIL_list:
  assumes "circleq d h xs" "free_node (fst d) xs x"
  shows "\<exists>d'. CIRCLEQ_INSERT_TAIL h x d = Some d' \<and> circleq d' h (xs @ [x]) \<and> dom (fst d') = dom (fst d)"
proof -
  obtain m b where d [simp]: "d = (m, b)" by fastforce
  have t: "circleq (m, b) h (xs @ [])" and x: "free_node m (xs @ []) x" and t': "circleq (m, b) h ([] @ xs)"
    using assms by simp_all
  let ?l = "last_node (Head h) xs"
  note f = circ_facts[OF t] circ_facts[OF t'] free_node_facts(1)[OF x] free_node_facts(2,3)[OF x, of h]
    node_ends(1,3)[where h = h and as = xs] node_ends(2)[where h = h and bs = xs]
  have "CIRCLEQ_INSERT_TAIL h x d =
      Some (m(Elm x \<mapsto> Head h, ?l \<mapsto> Elm x), b(Elm x := ?l, Head h := Elm x))"
    using f by (cases "xs = []") (auto simp: CIRCLEQ_INSERT_TAIL_def circ_ops)
  moreover have "b(Elm x := ?l, Head h := Elm x) = b(Head h := Elm x, Elm x := ?l)"
    by (auto intro: fun_upd_twist)
  ultimately show ?thesis using circ_insert_dom[OF t x] by simp
qed

lemma CIRCLEQ_REMOVE_list:
  assumes "circleq d h (as @ x # bs)"
  shows "\<exists>d'. CIRCLEQ_REMOVE h x d = Some d' \<and> circleq d' h (as @ bs) \<and> dom (fst d') = dom (fst d)"
proof -
  obtain m b where d [simp]: "d = (m, b)" by fastforce
  have t: "circleq (m, b) h (as @ (x # bs))" and t': "circleq (m, b) h ((as @ [x]) @ bs)" using assms by simp_all
  let ?l = "last_node (Head h) as" and ?f = "first_node bs (Head h)"
  note f = circ_facts[OF t] circ_facts[OF t'] node_ends(1,3)[where h = h and as = as] node_ends(2,4)[where h = h and bs = bs]
  have "x \<notin> set as" "x \<notin> set bs" using assms by (auto simp: circleq_def)
  then have "?l \<noteq> Elm x" "?f \<noteq> Elm x"
    using last_node_cases[of "Head h" as] first_node_cases[of bs "Head h"] by auto
  then have "CIRCLEQ_REMOVE h x d = Some (m(?l \<mapsto> ?f), b(?f := ?l))"
    using f by (cases "as = []"; cases "bs = []") (auto simp: CIRCLEQ_REMOVE_def circ_ops)
  moreover have "?l \<in> dom m" using f by auto
  ultimately show ?thesis using circ_delete[of m b h as x bs] assms by (auto simp: insert_absorb)
qed

text \<open>The walks and the steps around the circle.\<close>

lemma circ_walk_forward:
  "chain d s xs (Head h) \<Longrightarrow> circ_walk (\<lambda>n. cq_next n d) h (first_node xs (Head h)) = Some xs"
proof (induction xs arbitrary: s)
  case (Cons x xs)
  then have "circ_walk (\<lambda>n. cq_next n d) h (first_node xs (Head h)) = Some xs"
    using Cons.IH[of "Elm x"] by simp
  then show ?case using chain_ends[of d "Elm x" xs "Head h"] Cons.prems
    by (subst circ_walk.simps) (simp add: cq_next_def)
qed (simp add: circ_walk.simps)

lemma CIRCLEQ_FOREACH_list: "circleq d h xs \<Longrightarrow> CIRCLEQ_FOREACH h d = Some xs"
  using circ_walk_forward[of d "Head h" xs h] chain_ends[of d "Head h" xs "Head h"]
  by (simp add: CIRCLEQ_FOREACH_def circleq_def cq_next_def)

lemma circ_walk_backward:
  "circleq d h (xs @ ys) \<Longrightarrow> circ_walk (\<lambda>n. cq_prev n d) h (last_node (Head h) xs) = Some (rev xs)"
proof (induction xs arbitrary: ys rule: rev_induct)
  case (snoc x xs)
  obtain m b where d [simp]: "d = (m, b)" by fastforce
  have "circ_walk (\<lambda>n. cq_prev n d) h (last_node (Head h) xs) = Some (rev xs)"
    using snoc.prems by (intro snoc.IH[of "x # ys"]) simp
  then show ?case using circ_facts[of m b h xs "x # ys"] snoc.prems
    by (subst circ_walk.simps) (auto simp: cq_prev_def)
qed (simp add: circ_walk.simps)

lemma CIRCLEQ_FOREACH_REVERSE_list: "circleq d h xs \<Longrightarrow> CIRCLEQ_FOREACH_REVERSE h d = Some (rev xs)"
  using circ_walk_backward[of d h xs "[]"] chain_ends[of d "Head h" xs "Head h"]
  by (simp add: CIRCLEQ_FOREACH_REVERSE_def circleq_def cq_prev_def)

lemma CIRCLEQ_LOOP_list:
  assumes "circleq d h (as @ x # bs)"
  shows "CIRCLEQ_LOOP_NEXT h x d = Some (Elm (hd (bs @ as @ [x])))"
    "CIRCLEQ_LOOP_PREV h x d = Some (Elm (last (x # bs @ as)))"
proof -
  obtain m b where d [simp]: "d = (m, b)" by fastforce
  have f: "circleq (m, b) h (as @ (x # bs))" "circleq (m, b) h ((as @ [x]) @ bs)"
    "circleq (m, b) h ([] @ (as @ x # bs))" "circleq (m, b) h ((as @ x # bs) @ [])" using assms by simp_all
  note f = f[THEN circ_facts(1)] f[THEN circ_facts(2)] f[THEN circ_facts(3)]
  show "CIRCLEQ_LOOP_NEXT h x d = Some (Elm (hd (bs @ as @ [x])))"
    using f by (cases bs; cases as) (auto simp: CIRCLEQ_LOOP_NEXT_def circ_ops)
  show "CIRCLEQ_LOOP_PREV h x d = Some (Elm (last (x # bs @ as)))"
    using f by (cases "bs = []"; cases "as = []") (auto simp: CIRCLEQ_LOOP_PREV_def circ_ops last_node_def)
qed

lemma CIRCLEQ_FOREACH_SAFE_remove:
  assumes "circleq d h xs"
  shows "\<exists>d'. CIRCLEQ_FOREACH_SAFE h (\<lambda>p d. if P p then CIRCLEQ_REMOVE h p d else Some d) d = Some d' \<and>
    circleq d' h (filter (\<lambda>p. \<not> P p) xs)"
proof -
  let ?body = "\<lambda>p d. if P p then CIRCLEQ_REMOVE h p d else Some d"
  have "circleq d h (as @ bs) \<Longrightarrow> \<exists>d'. circ_safe cq_next ?body h (first_node bs (Head h)) d = Some d' \<and>
    circleq d' h (as @ filter (\<lambda>p. \<not> P p) bs)" for as bs d
  proof (induction bs arbitrary: as d)
    case (Cons x bs)
    obtain m b where d: "d = (m, b)" by fastforce
    have n: "cq_next (Elm x) d = Some (first_node bs (Head h))"
      using circ_facts(1)[of m b h "as @ [x]" bs] Cons.prems d by (simp add: cq_next_def)
    have "\<exists>d1. ?body x d = Some d1 \<and> circleq d1 h ((as @ filter (\<lambda>p. \<not> P p) [x]) @ bs)"
      using CIRCLEQ_REMOVE_list[OF Cons.prems] Cons.prems by (cases "P x") auto
    then obtain d1 where d1: "?body x d = Some d1" "circleq d1 h ((as @ filter (\<lambda>p. \<not> P p) [x]) @ bs)" by blast
    show ?case using Cons.IH[OF d1(2)] n d1(1) by (subst circ_safe.simps; cases "P x") simp_all
  qed (simp add: circ_safe.simps)
  from this[of d "[]" xs] show ?thesis
    using assms chain_ends[of d "Head h" xs "Head h"] by (simp add: CIRCLEQ_FOREACH_SAFE_def circleq_def cq_next_def)
qed

section \<open>The contract of both kinds of queue\<close>

datatype deque_op = Insert_Head ptr | Insert_Tail ptr | Insert_After ptr ptr | Insert_Before ptr ptr | Remove ptr

text \<open>What an operation does to a list, and the element it puts in.\<close>

definition fresh_in :: "ptr list \<Rightarrow> ptr \<Rightarrow> bool" where
  "fresh_in xs x \<longleftrightarrow> x \<noteq> NULL \<and> x \<notin> set xs"

fun deque_spec :: "deque_op \<Rightarrow> ptr list \<Rightarrow> ptr list option" where
  "deque_spec (Insert_Head x) xs = (if fresh_in xs x then Some (x # xs) else None)"
| "deque_spec (Insert_Tail x) xs = (if fresh_in xs x then Some (xs @ [x]) else None)"
| "deque_spec (Insert_After y x) xs =
     (if fresh_in xs x \<and> y \<in> set xs
      then Some (takeWhile (\<lambda>z. z \<noteq> y) xs @ y # x # tl (dropWhile (\<lambda>z. z \<noteq> y) xs)) else None)"
| "deque_spec (Insert_Before y x) xs =
     (if fresh_in xs x \<and> y \<in> set xs
      then Some (takeWhile (\<lambda>z. z \<noteq> y) xs @ x # y # tl (dropWhile (\<lambda>z. z \<noteq> y) xs)) else None)"
| "deque_spec (Remove y) xs = (if y \<in> set xs then Some (remove1 y xs) else None)"

fun put_in :: "deque_op \<Rightarrow> ptr set" where
  "put_in (Insert_Head x) = {x}"
| "put_in (Insert_Tail x) = {x}"
| "put_in (Insert_After y x) = {x}"
| "put_in (Insert_Before y x) = {x}"
| "put_in (Remove y) = {}"

fun run_ops :: "(deque_op \<Rightarrow> 's \<Rightarrow> 's option) \<Rightarrow> deque_op list \<Rightarrow> 's \<Rightarrow> 's option" where
  "run_ops step [] s = Some s"
| "run_ops step (op # ops) s = do { s \<leftarrow> step op s; run_ops step ops s }"

text \<open>
  The contract.  A queue whose elements can be put in and taken out anywhere is one that can be
  used at its ends: it keeps the contract of the singly-linked tail queue.
\<close>

locale linked_deque =
  fixes rep :: "'s \<Rightarrow> ptr list \<Rightarrow> bool"
    and fields :: "'s \<Rightarrow> slot set"
    and step :: "deque_op \<Rightarrow> 's \<Rightarrow> 's option"
    and first :: "'s \<Rightarrow> ptr option"
    and forward :: "'s \<Rightarrow> ptr list option"
    and backward :: "'s \<Rightarrow> ptr list option"
  assumes step: "rep s xs \<Longrightarrow> deque_spec op xs = Some ys \<Longrightarrow> Next ` put_in op \<subseteq> fields s \<Longrightarrow>
      \<exists>s'. step op s = Some s' \<and> rep s' ys \<and> fields s' = fields s"
    and first: "rep s (x # xs) \<Longrightarrow> first s = Some x"
    and forward: "rep s xs \<Longrightarrow> forward s = Some xs"
    and backward: "rep s xs \<Longrightarrow> backward s = Some (rev xs)"
begin

lemma run_ops_spec:
  assumes "rep s xs" "run_ops deque_spec ops xs = Some ys" "\<forall>op \<in> set ops. Next ` put_in op \<subseteq> fields s"
  shows "\<exists>s'. run_ops step ops s = Some s' \<and> rep s' ys \<and> forward s' = Some ys \<and> backward s' = Some (rev ys)"
  using assms
proof (induction ops arbitrary: s xs)
  case Nil
  then show ?case using forward backward by simp
next
  case (Cons op ops)
  obtain zs where zs: "deque_spec op xs = Some zs" "run_ops deque_spec ops zs = Some ys"
    using Cons.prems(2) by (cases "deque_spec op xs") auto
  obtain s1 where s1: "step op s = Some s1" "rep s1 zs" "fields s1 = fields s"
    using step[OF Cons.prems(1) zs(1)] Cons.prems(3) by auto
  then show ?case using Cons.IH[OF s1(2) zs(2)] Cons.prems(3) by simp
qed

end

sublocale linked_deque \<subseteq> ends: linked_queue rep fields "\<lambda>x. step (Insert_Head x)"
  "\<lambda>s. do { x \<leftarrow> first s; step (Remove x) s }" "\<lambda>x. step (Insert_Tail x)"
proof (unfold_locales, goal_cases)
  case (1 s xs x)
  then show ?case using step[of s xs "Insert_Head x"] by (simp add: fresh_in_def)
next
  case (2 s x xs)
  then show ?case using step[of s "x # xs" "Remove x"] first[of s x xs] by simp
next
  case (3 s xs x)
  then show ?case using step[of s xs "Insert_Tail x"] by (simp add: fresh_in_def)
qed

text \<open>The operations of the two kinds of queue.\<close>

fun tailq_op :: "nat \<Rightarrow> deque_op \<Rightarrow> tstore \<Rightarrow> tstore option" where
  "tailq_op h (Insert_Head x) = TAILQ_INSERT_HEAD h x"
| "tailq_op h (Insert_Tail x) = TAILQ_INSERT_TAIL h x"
| "tailq_op h (Insert_After y x) = TAILQ_INSERT_AFTER h y x"
| "tailq_op h (Insert_Before y x) = TAILQ_INSERT_BEFORE y x"
| "tailq_op h (Remove y) = TAILQ_REMOVE h y"

fun circleq_op :: "nat \<Rightarrow> deque_op \<Rightarrow> cstore \<Rightarrow> cstore option" where
  "circleq_op h (Insert_Head x) = CIRCLEQ_INSERT_HEAD h x"
| "circleq_op h (Insert_Tail x) = CIRCLEQ_INSERT_TAIL h x"
| "circleq_op h (Insert_After y x) = CIRCLEQ_INSERT_AFTER h y x"
| "circleq_op h (Insert_Before y x) = CIRCLEQ_INSERT_BEFORE h y x"
| "circleq_op h (Remove y) = CIRCLEQ_REMOVE h y"

definition circ_fields :: "cstore \<Rightarrow> slot set" where
  "circ_fields d = (\<lambda>n. case n of Head h \<Rightarrow> First h | Elm p \<Rightarrow> Next p) ` dom (fst d)"

lemma Next_circ_fields [simp]: "Next x \<in> circ_fields d \<longleftrightarrow> fst d (Elm x) \<noteq> None"
proof
  assume "Next x \<in> circ_fields d"
  then obtain n where "n \<in> dom (fst d)" "Next x = (case n of Head h \<Rightarrow> First h | Elm p \<Rightarrow> Next p)"
    by (auto simp: circ_fields_def)
  then show "fst d (Elm x) \<noteq> None" by (cases n) auto
next
  assume "fst d (Elm x) \<noteq> None"
  then have "Elm x \<in> dom (fst d)" by (simp add: domIff)
  then show "Next x \<in> circ_fields d"
    unfolding circ_fields_def by (intro image_eqI[where x = "Elm x"]) simp_all
qed

text \<open>A place in a list of distinct elements.\<close>

lemma spec_place:
  assumes "distinct xs" "y \<in> set xs"
  obtains as bs where "xs = as @ y # bs" "takeWhile (\<lambda>z. z \<noteq> y) xs = as"
    "dropWhile (\<lambda>z. z \<noteq> y) xs = y # bs" "remove1 y xs = as @ bs"
proof -
  obtain as bs where xs: "xs = as @ y # bs" using assms(2) by (auto simp: in_set_conv_decomp)
  then have "\<forall>z \<in> set as. z \<noteq> y" using assms(1) by auto
  then have "takeWhile (\<lambda>z. z \<noteq> y) xs = as" "dropWhile (\<lambda>z. z \<noteq> y) xs = y # bs" "remove1 y xs = as @ bs"
    using xs by (auto simp: takeWhile_append2 dropWhile_append2 remove1_append)
  then show thesis using that xs by blast
qed

interpretation td: linked_deque "\<lambda>d. tail_list d h" fields_of "tailq_op h" "\<lambda>d. fst d (First h)"
  "TAILQ_FOREACH h" "TAILQ_FOREACH_REVERSE h"
proof (unfold_locales, goal_cases)
  case (1 d xs op ys)
  have dist: "distinct xs" using tail_list_slist[OF 1(1)] by (simp add: slist_def)
  have free: "fresh_in xs x \<Longrightarrow> put_in op = {x} \<Longrightarrow> loose (fst d) xs x" for x
    using 1(3) by (auto simp: loose_def fresh_in_def fields_of_def)
  show ?case
  proof (cases op)
    case (Insert_Head x)
    then show ?thesis using TAILQ_INSERT_HEAD_list[OF 1(1) free[of x]] 1(2)
      by (auto simp: fields_of_def split: if_splits)
  next
    case (Insert_Tail x)
    then show ?thesis using TAILQ_INSERT_TAIL_list[OF 1(1) free[of x]] 1(2)
      by (auto simp: fields_of_def split: if_splits)
  next
    case (Insert_After y x)
    then have y: "fresh_in xs x" "y \<in> set xs" using 1(2) by (auto split: if_splits)
    then obtain as bs where p: "xs = as @ y # bs" "takeWhile (\<lambda>z. z \<noteq> y) xs = as" "dropWhile (\<lambda>z. z \<noteq> y) xs = y # bs"
      using spec_place[OF dist] by metis
    have "loose (fst d) (as @ y # bs) x" using free[OF y(1)] Insert_After p(1) by simp
    then show ?thesis using TAILQ_INSERT_AFTER_list[of d h as y bs x] 1(1,2) Insert_After y p
      by (auto simp: fields_of_def)
  next
    case (Insert_Before y x)
    then have y: "fresh_in xs x" "y \<in> set xs" using 1(2) by (auto split: if_splits)
    then obtain as bs where p: "xs = as @ y # bs" "takeWhile (\<lambda>z. z \<noteq> y) xs = as" "dropWhile (\<lambda>z. z \<noteq> y) xs = y # bs"
      using spec_place[OF dist] by metis
    have "loose (fst d) (as @ y # bs) x" using free[OF y(1)] Insert_Before p(1) by simp
    then show ?thesis using TAILQ_INSERT_BEFORE_list[of d h as y bs x] 1(1,2) Insert_Before y p
      by (auto simp: fields_of_def)
  next
    case (Remove y)
    then have y: "y \<in> set xs" using 1(2) by (auto split: if_splits)
    then obtain as bs where p: "xs = as @ y # bs" "remove1 y xs = as @ bs" using spec_place[OF dist] by metis
    then show ?thesis using TAILQ_REMOVE_list[of d h as y bs] 1(1,2) Remove y by (auto simp: fields_of_def)
  qed
next
  case (2 d x xs)
  then show ?case using slist_head_of(1)[OF tail_list_slist[OF 2]] by simp
qed (rule TAILQ_FOREACH_list TAILQ_FOREACH_REVERSE_list; assumption)+

text \<open>The first element of a circular queue, as an element.\<close>

definition CIRCLEQ_FIRST_ELM :: "nat \<Rightarrow> cstore \<Rightarrow> ptr option" where
  "CIRCLEQ_FIRST_ELM h d = do { f \<leftarrow> cq_next (Head h) d; case f of Elm p \<Rightarrow> Some p | Head _ \<Rightarrow> None }"

interpretation cd: linked_deque "\<lambda>d. circleq d h" circ_fields "circleq_op h" "CIRCLEQ_FIRST_ELM h"
  "CIRCLEQ_FOREACH h" "CIRCLEQ_FOREACH_REVERSE h"
proof (unfold_locales, goal_cases)
  case (1 d xs op ys)
  have dist: "distinct xs" using 1(1) by (simp add: circleq_def)
  have free: "fresh_in xs x \<Longrightarrow> put_in op = {x} \<Longrightarrow> free_node (fst d) xs x" for x
    using 1(3) by (auto simp: free_node_def fresh_in_def)
  show ?case
  proof (cases op)
    case (Insert_Head x)
    then show ?thesis using CIRCLEQ_INSERT_HEAD_list[OF 1(1) free[of x]] 1(2)
      by (auto simp: circ_fields_def split: if_splits)
  next
    case (Insert_Tail x)
    then show ?thesis using CIRCLEQ_INSERT_TAIL_list[OF 1(1) free[of x]] 1(2)
      by (auto simp: circ_fields_def split: if_splits)
  next
    case (Insert_After y x)
    then have y: "fresh_in xs x" "y \<in> set xs" using 1(2) by (auto split: if_splits)
    then obtain as bs where p: "xs = as @ y # bs" "takeWhile (\<lambda>z. z \<noteq> y) xs = as" "dropWhile (\<lambda>z. z \<noteq> y) xs = y # bs"
      using spec_place[OF dist] by metis
    have "free_node (fst d) (as @ y # bs) x" using free[OF y(1)] Insert_After p(1) by simp
    then show ?thesis using CIRCLEQ_INSERT_AFTER_list[of d h as y bs x] 1(1,2) Insert_After y p
      by (auto simp: circ_fields_def)
  next
    case (Insert_Before y x)
    then have y: "fresh_in xs x" "y \<in> set xs" using 1(2) by (auto split: if_splits)
    then obtain as bs where p: "xs = as @ y # bs" "takeWhile (\<lambda>z. z \<noteq> y) xs = as" "dropWhile (\<lambda>z. z \<noteq> y) xs = y # bs"
      using spec_place[OF dist] by metis
    have "free_node (fst d) (as @ y # bs) x" using free[OF y(1)] Insert_Before p(1) by simp
    then show ?thesis using CIRCLEQ_INSERT_BEFORE_list[of d h as y bs x] 1(1,2) Insert_Before y p
      by (auto simp: circ_fields_def)
  next
    case (Remove y)
    then have y: "y \<in> set xs" using 1(2) by (auto split: if_splits)
    then obtain as bs where p: "xs = as @ y # bs" "remove1 y xs = as @ bs" using spec_place[OF dist] by metis
    then show ?thesis using CIRCLEQ_REMOVE_list[of d h as y bs] 1(1,2) Remove y by (auto simp: circ_fields_def)
  qed
next
  case (2 d x xs)
  then show ?case by (simp add: CIRCLEQ_FIRST_ELM_def circleq_def cq_next_def)
qed (rule CIRCLEQ_FOREACH_list CIRCLEQ_FOREACH_REVERSE_list; assumption)+

section \<open>Properties\<close>

text \<open>
  C38: The same insertions at both ends and around elements, and removals of any elements, are
  defined in a tail queue and in a circular queue wherever they are defined on the list of the
  elements; afterwards both queues hold that list, and walking them in either direction gives it, or
  its reverse.
\<close>

theorem deques_agree:
  assumes "tail_list t h xs" "circleq c h xs" "run_ops deque_spec ops xs = Some ys"
    "\<And>op. op \<in> set ops \<Longrightarrow> Next ` put_in op \<subseteq> fields_of t \<inter> circ_fields c"
  shows "\<exists>t' c'. run_ops (tailq_op h) ops t = Some t' \<and> tail_list t' h ys \<and>
      run_ops (circleq_op h) ops c = Some c' \<and> circleq c' h ys \<and>
      TAILQ_FOREACH h t' = Some ys \<and> CIRCLEQ_FOREACH h c' = Some ys \<and>
      TAILQ_FOREACH_REVERSE h t' = Some (rev ys) \<and> CIRCLEQ_FOREACH_REVERSE h c' = Some (rev ys)"
  using td.run_ops_spec[OF assms(1,3)] cd.run_ops_spec[OF assms(2,3)] assms(4) by blast

lemma deques_agree_witness:
  "\<exists>t' c'. run_ops (tailq_op 0) [Insert_Tail 7, Insert_Before 7 5, Insert_After 5 9, Remove 5] 
        ([First 0 \<mapsto> NULL, Next 5 \<mapsto> 1, Next 7 \<mapsto> 2, Next 9 \<mapsto> 3], \<lambda>_. First 0) = Some t' \<and> tail_list t' 0 [9, 7] \<and>
      run_ops (circleq_op 0) [Insert_Tail 7, Insert_Before 7 5, Insert_After 5 9, Remove 5]
        ([Head 0 \<mapsto> Head 0, Elm 5 \<mapsto> Elm 1, Elm 7 \<mapsto> Elm 2, Elm 9 \<mapsto> Elm 3], \<lambda>_. Head 0) = Some c' \<and> circleq c' 0 [9, 7] \<and>
      TAILQ_FOREACH 0 t' = Some [9, 7] \<and> CIRCLEQ_FOREACH 0 c' = Some [9, 7] \<and>
      TAILQ_FOREACH_REVERSE 0 t' = Some (rev [9, 7]) \<and> CIRCLEQ_FOREACH_REVERSE 0 c' = Some (rev [9, 7])"
  by (rule deques_agree[where xs = "[]"])
     (auto simp: tail_list_def dlist_def slist_def circleq_def fresh_in_def fields_of_def)

end
